(* ===== verification/Prelude.thy ===== *)
theory Prelude
  imports Main "HOL-Library.Word"
begin

text \<open>
  Shared vocabulary of the development.

  Every C++ operation of the model returns a value of a sum type: \<open>Inl f\<close> when the
  process dies there (a failed \<open>assert\<close>, a null or dangling pointer that is used), and
  \<open>Inr x\<close> when the operation returns. \<open>and_then\<close> sequences two such operations.
  Memory errors after which the code goes on running on the stale or foreign bytes are not
  faults but entries of a log (\<open>mem_error\<close>), so that both what the code computes and
  whether it was allowed to touch that memory can be stated.
\<close>

datatype fault =
    AssertFailed      \<comment> \<open>\<open>assert(...)\<close> of a false condition\<close>
  | NullDeref         \<comment> \<open>a null pointer is dereferenced or called\<close>
  | UseAfterFree      \<comment> \<open>an object is used after its \<open>delete\<close>\<close>
  | DoubleFree        \<comment> \<open>an object is deleted a second time\<close>
  | DivByZero         \<comment> \<open>integer division or remainder by zero\<close>
  | OutOfRange        \<comment> \<open>an index past the end of an array\<close>
  | SignedOverflow    \<comment> \<open>the result of a signed operation is out of the range of \<open>int\<close>\<close>
  | Indeterminate     \<comment> \<open>a member that no constructor or assignment has initialised is read\<close>
  | NoReturn          \<comment> \<open>a loop did not end within the bound given to it\<close>

datatype mem_error =
    HeapOverflow nat  \<comment> \<open>a write at this offset of an allocation that ends before it\<close>
  | ReadFreed nat     \<comment> \<open>the object at this address is read just after it was freed\<close>

text \<open>Addresses of heap objects. A null pointer is \<open>None\<close>, so a pointer is an \<open>addr option\<close>.\<close>

type_synonym addr = nat

text \<open>\<open>size_t\<close> and \<open>unsigned long\<close> on the 64-bit targets of the makefiles; \<open>int\<close> is 32 bits.\<close>

type_synonym size_t = "64 word"
type_synonym c_int = "32 word"

section \<open>Sequencing of operations that may fault\<close>

definition and_then :: "fault + 'a \<Rightarrow> ('a \<Rightarrow> fault + 'b) \<Rightarrow> fault + 'b" where
  "and_then m k = (case m of Inl e \<Rightarrow> Inl e | Inr x \<Rightarrow> k x)"

lemma and_then_simps [simp]:
  "and_then (Inl e) k = Inl e"
  "and_then (Inr x) k = k x"
  by (simp_all add: and_then_def)

lemma and_then_Inr_iff:
  "and_then m k = Inr y \<longleftrightarrow> (\<exists>x. m = Inr x \<and> k x = Inr y)"
  by (cases m) auto

lemma and_then_InrE:
  assumes "and_then m k = Inr y"
  obtains x where "m = Inr x" and "k x = Inr y"
  using assms by (auto simp: and_then_Inr_iff)

lemma and_then_assoc:
  "and_then (and_then m k) l = and_then m (\<lambda>x. and_then (k x) l)"
  by (cases m) auto

text \<open>\<open>assert(b)\<close>: the server and the cache are built with assertions on.\<close>

definition c_assert :: "bool \<Rightarrow> fault + unit" where
  "c_assert b = (if b then Inr () else Inl AssertFailed)"

lemma c_assert_simps [simp]:
  "c_assert True = Inr ()"
  "c_assert False = Inl AssertFailed"
  by (simp_all add: c_assert_def)

lemma c_assert_Inr_iff [simp]: "c_assert b = Inr u \<longleftrightarrow> b"
  by (simp add: c_assert_def)

text \<open>Reading a heap object through a pointer that must be live.\<close>

definition deref :: "(addr \<rightharpoonup> 'n) \<Rightarrow> addr \<Rightarrow> fault + 'n" where
  "deref h a = (case h a of None \<Rightarrow> Inl UseAfterFree | Some n \<Rightarrow> Inr n)"

lemma deref_Some [simp]: "h a = Some n \<Longrightarrow> deref h a = Inr n"
  by (simp add: deref_def)

lemma deref_None [simp]: "h a = None \<Longrightarrow> deref h a = Inl UseAfterFree"
  by (simp add: deref_def)

lemma deref_Inr_iff: "deref h a = Inr n \<longleftrightarrow> h a = Some n"
  by (cases "h a") auto

section \<open>Lists with a key that occurs once\<close>

text \<open>Removing the one pair with a given key; used for lists of (node, payload) pairs.\<close>

definition drop_key :: "'k \<Rightarrow> ('k \<times> 'v) list \<Rightarrow> ('k \<times> 'v) list" where
  "drop_key k ps = filter (\<lambda>p. fst p \<noteq> k) ps"

lemma drop_key_notin [simp]: "k \<notin> fst ` set ps \<Longrightarrow> drop_key k ps = ps"
  by (force simp: drop_key_def filter_id_conv)

lemma drop_key_append [simp]: "drop_key k (xs @ ys) = drop_key k xs @ drop_key k ys"
  by (simp add: drop_key_def)

lemma drop_key_Cons: "drop_key k (p # ps) = (if fst p = k then drop_key k ps else p # drop_key k ps)"
  by (simp add: drop_key_def)

lemma drop_key_split:
  assumes "distinct (map fst (xs @ (k, v) # ys))"
  shows "drop_key k (xs @ (k, v) # ys) = xs @ ys"
  using assms by (auto simp: drop_key_Cons)

lemma set_drop_key: "set (drop_key k ps) = {p \<in> set ps. fst p \<noteq> k}"
  by (auto simp: drop_key_def)

lemma distinct_drop_key: "distinct (map fst ps) \<Longrightarrow> distinct (map fst (drop_key k ps))"
  by (simp add: drop_key_def distinct_map_filter)

lemma fst_image_split:
  assumes "k \<in> fst ` set ps"
  obtains xs v ys where "ps = xs @ (k, v) # ys"
  using assms by (metis (no_types, lifting) image_iff prod.collapse split_list)

end
