(* ===== verification/FastFifo.thy ===== *)
theory FastFifo
  imports Prelude
begin

text \<open>
  \<open>FastFIFO<T>\<close> of \<open>webserver/fast_fifo.h\<close>: a doubly linked list with a sentinel node at
  the tail, so that a node can be unlinked in constant time by whoever holds its address.
  The model keeps the pointers: a heap of nodes, the two fields \<open>tail_\<close> and \<open>head_\<close>, and
  a bump allocator for \<open>new\<close>. The representation predicate \<open>ff_rep\<close> relates such a
  structure to the list of its (node, data) pairs, and every operation refines the
  operation on that list; the locale \<open>fifo_list\<close> states this contract for the clients.
\<close>

section \<open>Nodes, the structure, and its operations\<close>

text \<open>\<open>data\<close> is a \<open>T*\<close> (null only in the sentinel), \<open>before\<close> and \<open>next\<close> are node pointers.\<close>

record 'a fifo_node =
  nd_data :: "'a option"
  nd_before :: "addr option"
  nd_next :: "addr option"

record 'a fast_fifo =
  ff_tail :: addr
  ff_head :: addr
  ff_heap :: "addr \<rightharpoonup> 'a fifo_node"
  ff_brk :: addr

definition fifo_node_new :: "'a option \<Rightarrow> 'a fifo_node" where
  "fifo_node_new d = \<lparr>nd_data = d, nd_before = None, nd_next = None\<rparr>"

text \<open>\<open>new\<close>: the next address that was never handed out.\<close>

definition ff_alloc :: "'a fifo_node \<Rightarrow> 'a fast_fifo \<Rightarrow> addr \<times> 'a fast_fifo" where
  "ff_alloc n f =
     (ff_brk f, f\<lparr>ff_heap := (ff_heap f)(ff_brk f \<mapsto> n), ff_brk := Suc (ff_brk f)\<rparr>)"

text \<open>A write through a node pointer: the node has to be live.\<close>

definition ff_write ::
  "addr \<Rightarrow> ('a fifo_node \<Rightarrow> 'a fifo_node) \<Rightarrow> 'a fast_fifo \<Rightarrow> fault + 'a fast_fifo" where
  "ff_write a u f =
     and_then (deref (ff_heap f) a) (\<lambda>n. Inr (f\<lparr>ff_heap := (ff_heap f)(a \<mapsto> u n)\<rparr>))"

text \<open>\<open>FastFIFO(void) : tail_(new FastFIFONode<T>(NULL)), head_(tail_)\<close>.\<close>

definition ff_new :: "'a fast_fifo" where
  "ff_new = \<lparr>ff_tail = 0, ff_head = 0, ff_heap = [0 \<mapsto> fifo_node_new None], ff_brk = 1\<rparr>"

text \<open>\<open>push\<close>: allocate, link before the sentinel, move \<open>head_\<close> if the list was empty.\<close>

definition ff_push :: "'a option \<Rightarrow> 'a fast_fifo \<Rightarrow> fault + (addr \<times> 'a fast_fifo)" where
  "ff_push d f0 =
     (let (newNode, f) = ff_alloc (fifo_node_new d) f0 in
      and_then (deref (ff_heap f) (ff_tail f)) (\<lambda>t.
      and_then (ff_write newNode (\<lambda>n. n\<lparr>nd_before := nd_before t, nd_next := Some (ff_tail f)\<rparr>) f) (\<lambda>f.
      and_then (case nd_before t of
                  None \<Rightarrow> Inr f
                | Some b \<Rightarrow> ff_write b (\<lambda>n. n\<lparr>nd_next := Some newNode\<rparr>) f) (\<lambda>f.
      and_then (ff_write (ff_tail f) (\<lambda>n. n\<lparr>nd_before := Some newNode\<rparr>) f) (\<lambda>f.
      Inr (newNode, if ff_head f = ff_tail f then f\<lparr>ff_head := newNode\<rparr> else f))))))"

text \<open>\<open>removeNode\<close>: both assertions of the source, unlinking, then \<open>delete node\<close>.\<close>

definition ff_removeNode :: "addr option \<Rightarrow> 'a fast_fifo \<Rightarrow> fault + 'a fast_fifo" where
  "ff_removeNode node f =
     (case node of
        None \<Rightarrow> Inl AssertFailed
      | Some a \<Rightarrow>
          and_then (deref (ff_heap f) a) (\<lambda>n.
          (case nd_next n of
             None \<Rightarrow> Inl AssertFailed
           | Some nx \<Rightarrow>
               and_then (case nd_before n of
                           None \<Rightarrow> Inr (f\<lparr>ff_head := nx\<rparr>)
                         | Some b \<Rightarrow> ff_write b (\<lambda>m. m\<lparr>nd_next := Some nx\<rparr>) f) (\<lambda>f.
               and_then (ff_write nx (\<lambda>m. m\<lparr>nd_before := nd_before n\<rparr>) f) (\<lambda>f.
               Inr (f\<lparr>ff_heap := (ff_heap f)(a := None)\<rparr>))))))"

text \<open>\<open>pop(T **data)\<close>: \<open>Some d\<close> when it returns true with \<open>*data = d\<close>, \<open>None\<close> when false.\<close>

definition ff_pop :: "'a fast_fifo \<Rightarrow> fault + ('a option option \<times> 'a fast_fifo)" where
  "ff_pop f =
     (if ff_head f \<noteq> ff_tail f
      then and_then (deref (ff_heap f) (ff_head f)) (\<lambda>n.
           and_then (ff_removeNode (Some (ff_head f)) f) (\<lambda>f.
           Inr (Some (nd_data n), f)))
      else Inr (None, f))"

text \<open>
  The destructor pops until \<open>pop\<close> returns false; it does not delete the sentinel.
  The loop is bounded by fuel; running out is \<open>NoReturn\<close>, which \<open>ff_drain_done\<close> excludes.
\<close>

fun ff_drain :: "nat \<Rightarrow> 'a fast_fifo \<Rightarrow> fault + 'a fast_fifo" where
  "ff_drain 0 f = Inl NoReturn"
| "ff_drain (Suc fuel) f =
     and_then (ff_pop f) (\<lambda>(x, f). case x of None \<Rightarrow> Inr f | Some d \<Rightarrow> ff_drain fuel f)"

definition ff_destroy :: "'a fast_fifo \<Rightarrow> fault + 'a fast_fifo" where
  "ff_destroy f = ff_drain (ff_brk f) f"

section \<open>Linked segments\<close>

text \<open>
  \<open>lseg h p a ps q b\<close>: starting at node \<open>a\<close>, whose predecessor is \<open>p\<close>, the heap holds the
  nodes \<open>ps\<close> in this order with these data and consistent back links, and then comes \<open>b\<close>,
  whose predecessor is \<open>q\<close>.
\<close>

fun lseg ::
  "(addr \<rightharpoonup> 'a fifo_node) \<Rightarrow> addr option \<Rightarrow> addr \<Rightarrow> (addr \<times> 'a option) list
     \<Rightarrow> addr option \<Rightarrow> addr \<Rightarrow> bool" where
  "lseg h p a [] q b \<longleftrightarrow> p = q \<and> a = b"
| "lseg h p a ((c, d) # ps) q b \<longleftrightarrow>
     a = c \<and> (case h c of
        None \<Rightarrow> False
      | Some n \<Rightarrow> nd_data n = d \<and> nd_before n = p \<and>
          (case nd_next n of None \<Rightarrow> False | Some nx \<Rightarrow> lseg h (Some c) nx ps q b))"

lemma lseg_append:
  "lseg h p a (xs @ ys) q b \<longleftrightarrow> (\<exists>q' b'. lseg h p a xs q' b' \<and> lseg h q' b' ys q b)"
  by (induction h p a xs q b arbitrary: rule: lseg.induct) (auto split: option.splits)

lemma lseg_frame:
  "c \<notin> fst ` set ps \<Longrightarrow> lseg (h(c := v)) p a ps q b = lseg h p a ps q b"
  by (induction h p a ps q b rule: lseg.induct) (auto split: option.splits)

lemma lseg_start: "lseg h p a ps q b \<Longrightarrow> a = (if ps = [] then b else fst (hd ps))"
  by (cases ps) auto

lemma lseg_last: "lseg h p a ps q b \<Longrightarrow> q = (if ps = [] then p else Some (fst (last ps)))"
  by (induction h p a ps q b rule: lseg.induct) (auto split: option.splits if_splits)

lemma lseg_live: "lseg h p a ps q b \<Longrightarrow> c \<in> fst ` set ps \<Longrightarrow> h c \<noteq> None"
  by (induction h p a ps q b rule: lseg.induct) (auto split: option.splits)

text \<open>Redirecting the last node's \<open>next\<close>, and the first node's \<open>before\<close>.\<close>

lemma lseg_set_next:
  assumes "lseg h p a (xs @ [(c, d)]) q b" "c \<notin> fst ` set xs" "h c = Some n"
  shows "lseg (h(c \<mapsto> n\<lparr>nd_next := Some y\<rparr>)) p a (xs @ [(c, d)]) (Some c) y"
  using assms by (auto simp: lseg_append lseg_frame split: option.splits)

lemma lseg_set_before:
  assumes "lseg h p a ((a, d) # ys) q b" "a \<notin> fst ` set ys" "h a = Some n"
  shows "lseg (h(a \<mapsto> n\<lparr>nd_before := p'\<rparr>)) p' a ((a, d) # ys) q b"
  using assms by (auto simp: lseg_frame split: option.splits)

section \<open>Representation of a list\<close>

text \<open>
  The structure represents the list \<open>ps\<close> of its nodes, front first, with their data: the
  nodes from \<open>head_\<close> form the segment \<open>ps\<close>, then comes the sentinel \<open>tail_\<close> with null data
  and null \<open>next\<close>, and no other node is allocated.
\<close>

definition last_node :: "(addr \<times> 'b) list \<Rightarrow> addr option" where
  "last_node ps = (if ps = [] then None else Some (fst (last ps)))"

definition ff_rep :: "'a fast_fifo \<Rightarrow> (addr \<times> 'a option) list \<Rightarrow> bool" where
  "ff_rep f ps \<longleftrightarrow>
     lseg (ff_heap f) None (ff_head f) ps (last_node ps) (ff_tail f) \<and>
     ff_heap f (ff_tail f) =
       Some \<lparr>nd_data = None, nd_before = last_node ps, nd_next = None\<rparr> \<and>
     distinct (ff_tail f # map fst ps) \<and>
     dom (ff_heap f) = insert (ff_tail f) (fst ` set ps) \<and>
     (\<forall>a \<in> dom (ff_heap f). a < ff_brk f)"

lemma ff_repD:
  assumes "ff_rep f ps"
  shows "lseg (ff_heap f) None (ff_head f) ps (last_node ps) (ff_tail f)"
    and "ff_heap f (ff_tail f) = Some \<lparr>nd_data = None, nd_before = last_node ps, nd_next = None\<rparr>"
    and "distinct (map fst ps)"
    and "ff_tail f \<notin> fst ` set ps"
    and "dom (ff_heap f) = insert (ff_tail f) (fst ` set ps)"
    and "a \<in> insert (ff_tail f) (fst ` set ps) \<Longrightarrow> a < ff_brk f"
  using assms unfolding ff_rep_def by auto

lemma ff_rep_distinct: "ff_rep f ps \<Longrightarrow> distinct (map fst ps)"
  by (rule ff_repD)

lemma ff_rep_new: "ff_rep ff_new []"
  by (simp add: ff_rep_def ff_new_def last_node_def fifo_node_new_def)

lemma last_node_simps [simp]:
  "last_node [] = None"
  "last_node (xs @ [p]) = Some (fst p)"
  "last_node (p # xs) = Some (fst (last (p # xs)))"
  "last_node (xs @ p # ys) = last_node (p # ys)"
  by (simp_all add: last_node_def)

lemma ff_push_rep:
  assumes r: "ff_rep f ps"
  obtains f' where "ff_push d f = Inr (ff_brk f, f')" and "ff_rep f' (ps @ [(ff_brk f, d)])"
proof (cases ps rule: rev_cases)
  case Nil
  note R = ff_repD [OF r]
  have ne: "ff_tail f \<noteq> ff_brk f" using R(6) [of "ff_tail f"] by simp
  have h: "ff_head f = ff_tail f" using R(1) Nil by simp
  have b: "a < ff_brk f" if "ff_heap f a = Some y" for a y
    using that R(5,6) by blast
  show ?thesis
    by (rule that)
      (use R ne h Nil in \<open>auto simp: ff_push_def ff_alloc_def ff_write_def fifo_node_new_def
         ff_rep_def less_Suc_eq dest: b split: if_splits\<close>)
next
  case (snoc xs p)
  obtain b e where p: "p = (b, e)" by (cases p)
  note R = ff_repD [OF r]
  let ?n = "ff_brk f" and ?t = "ff_tail f"
  have fresh: "?n \<notin> insert ?t (fst ` set ps)" using R(6) by blast
  have bt: "b \<noteq> ?t" "b \<notin> fst ` set xs" "?n \<noteq> b" "?n \<noteq> ?t" "?n \<notin> fst ` set xs" "?t \<notin> fst ` set xs"
    using R(3,4) fresh snoc p by auto
  obtain m where m: "ff_heap f b = Some m"
    using lseg_live [OF R(1), of b] snoc p by auto
  have hd: "ff_head f \<noteq> ?t"
    using lseg_start [OF R(1)] R(4) snoc by (cases xs) (auto simp: p)
  let ?h1 = "(ff_heap f)(?n \<mapsto> \<lparr>nd_data = d, nd_before = Some b, nd_next = Some ?t\<rparr>)"
  let ?h2 = "?h1(b \<mapsto> m\<lparr>nd_next := Some ?n\<rparr>)"
  let ?h3 = "?h2(?t \<mapsto> \<lparr>nd_data = None, nd_before = Some ?n, nd_next = None\<rparr>)"
  let ?f = "f\<lparr>ff_heap := ?h3, ff_brk := Suc ?n\<rparr>"
  have "lseg ?h1 None (ff_head f) (xs @ [(b, e)]) (last_node ps) ?t"
    using R(1) fresh snoc p by (simp add: lseg_frame)
  then have "lseg ?h2 None (ff_head f) (xs @ [(b, e)]) (Some b) ?n"
    by (rule lseg_set_next) (use bt m in auto)
  then have "lseg ?h3 None (ff_head f) (xs @ [(b, e)]) (Some b) ?n"
    using bt by (simp add: lseg_frame)
  moreover have "lseg ?h3 (Some b) ?n [(?n, d)] (Some ?n) ?t"
    using bt by simp
  ultimately have "lseg ?h3 None (ff_head f) ((xs @ [(b, e)]) @ [(?n, d)]) (Some ?n) ?t"
    using lseg_append by blast
  then have "ff_rep ?f (ps @ [(?n, d)])"
    using R fresh bt m snoc p
    by (auto simp: ff_rep_def less_Suc_eq)
  moreover have "ff_push d f = Inr (?n, ?f)"
    using R(2) bt m snoc p hd fun_upd_twist [of b ?n "ff_heap f"]
    by (simp add: ff_push_def ff_alloc_def ff_write_def Let_def fifo_node_new_def fun_upd_twist)
  ultimately show ?thesis by (rule that [rotated])
qed

text \<open>The two halves of unlinking: bypassing the node forwards, then backwards.\<close>

lemma unlink_forward:
  assumes seg: "lseg h None hp xs (last_node xs) a" and d: "distinct (map fst xs)"
  obtains h1 hd1 where
    "(case last_node xs of
        None \<Rightarrow> Inr (f\<lparr>ff_heap := h, ff_head := nx\<rparr>)
      | Some b \<Rightarrow> ff_write b (\<lambda>m. m\<lparr>nd_next := Some nx\<rparr>) (f\<lparr>ff_heap := h, ff_head := hp\<rparr>))
       = Inr (f\<lparr>ff_heap := h1, ff_head := hd1\<rparr>)"
    and "lseg h1 None hd1 xs (last_node xs) nx"
    and "\<forall>c. c \<notin> fst ` set xs \<longrightarrow> h1 c = h c" and "dom h1 = dom h"
    and "\<forall>p b c ys q. fst ` set xs \<inter> fst ` set ys = {} \<longrightarrow> lseg h1 p b ys q c = lseg h p b ys q c"
proof (cases xs rule: rev_cases)
  case Nil
  show ?thesis
    by (rule that [of nx h]) (simp_all add: Nil)
next
  case (snoc zs z)
  obtain b e where z: "z = (b, e)" by (cases z)
  obtain m where m: "h b = Some m"
    using lseg_live [OF seg, of b] snoc z by auto
  have b: "b \<notin> fst ` set zs" using d snoc z by auto
  show ?thesis
  proof (rule that [of hp "h(b \<mapsto> m\<lparr>nd_next := Some nx\<rparr>)"])
    have "lseg (h(b \<mapsto> m\<lparr>nd_next := Some nx\<rparr>)) None hp (zs @ [(b, e)]) (Some b) nx"
      using seg b m snoc z by (intro lseg_set_next) auto
    then show "lseg (h(b \<mapsto> m\<lparr>nd_next := Some nx\<rparr>)) None hp xs (last_node xs) nx"
      using snoc z by simp
  qed (use m snoc z in \<open>auto simp: ff_write_def lseg_frame\<close>)
qed

lemma unlink_backward:
  assumes seg: "lseg h q0 nx ys (last_node (xs @ ys)) t"
    and t: "h t = Some \<lparr>nd_data = None, nd_before = last_node (xs @ (a, d) # ys), nd_next = None\<rparr>"
    and d: "distinct (map fst ys)" "t \<notin> fst ` set ys"
  obtains h1 where
    "ff_write nx (\<lambda>m. m\<lparr>nd_before := last_node xs\<rparr>) (f\<lparr>ff_heap := h\<rparr>) = Inr (f\<lparr>ff_heap := h1\<rparr>)"
    and "lseg h1 (last_node xs) nx ys (last_node (xs @ ys)) t"
    and "h1 t = Some \<lparr>nd_data = None, nd_before = last_node (xs @ ys), nd_next = None\<rparr>"
    and "dom h1 = dom h" "\<forall>c. c \<notin> insert t (fst ` set ys) \<longrightarrow> h1 c = h c"
    and "\<forall>p b c zs q. fst ` set zs \<inter> insert t (fst ` set ys) = {} \<longrightarrow> lseg h1 p b zs q c = lseg h p b zs q c"
proof (cases ys)
  case Nil
  then have "nx = t" using seg by simp
  then show ?thesis
    by (intro that [of "h(t \<mapsto> \<lparr>nd_data = None, nd_before = last_node xs, nd_next = None\<rparr>)"])
      (use Nil t in \<open>auto simp: ff_write_def lseg_frame\<close>)
next
  case (Cons y zs)
  obtain e where y: "y = (nx, e)" using seg Cons by (cases y) auto
  obtain m where m: "h nx = Some m"
    using lseg_live [OF seg, of nx] Cons y by auto
  have nx: "nx \<noteq> t" "nx \<notin> fst ` set zs" using d Cons y by auto
  show ?thesis
  proof (rule that [of "h(nx \<mapsto> m\<lparr>nd_before := last_node xs\<rparr>)"])
    show "lseg (h(nx \<mapsto> m\<lparr>nd_before := last_node xs\<rparr>)) (last_node xs) nx ys (last_node (xs @ ys)) t"
      using lseg_set_before [of h q0 nx e zs "last_node (xs @ ys)" t m "last_node xs"] seg nx m Cons y
      by simp
  qed (use m nx t Cons y in \<open>auto simp: ff_write_def lseg_frame\<close>)
qed

text \<open>
  Unlinking a node of the list, whatever its position, removes exactly that pair; the node is
  freed, and every other address and the allocator are as before.
\<close>

lemma ff_removeNode_rep:
  assumes r: "ff_rep f (xs @ (a, d) # ys)"
  obtains f' where "ff_removeNode (Some a) f = Inr f'" and "ff_rep f' (xs @ ys)"
    and "ff_brk f' = ff_brk f" and "ff_heap f' a = None"
proof -
  note R = ff_repD [OF r]
  let ?t = "ff_tail f" and ?p = "last_node xs" and ?q = "last_node (xs @ ys)"
  obtain b q where seg': "lseg (ff_heap f) None (ff_head f) xs q b"
    and seg2': "lseg (ff_heap f) q b ((a, d) # ys) (last_node (xs @ (a, d) # ys)) ?t"
    using R(1) unfolding lseg_append by blast
  have "q = ?p" using lseg_last [OF seg'] by (simp add: last_node_def)
  note seg = seg' [unfolded this] and seg2 = seg2' [unfolded this]
  then have b: "b = a" by simp
  obtain m nx where na: "ff_heap f a = Some m" "nd_before m = ?p" "nd_next m = Some nx" and
    seg3: "lseg (ff_heap f) (Some a) nx ys (last_node (xs @ (a, d) # ys)) ?t"
    using seg2 by (auto split: option.splits)
  have fr: "a \<notin> fst ` set xs" "a \<notin> fst ` set ys" "fst ` set xs \<inter> fst ` set ys = {}"
    "distinct (map fst xs)" "distinct (map fst ys)" "a \<noteq> ?t" "?t \<notin> fst ` set xs" "?t \<notin> fst ` set ys"
    using R(3,4) by auto
  obtain h1 hd1 where F:
    "(case ?p of
        None \<Rightarrow> Inr (f\<lparr>ff_heap := ff_heap f, ff_head := nx\<rparr>)
      | Some b \<Rightarrow> ff_write b (\<lambda>m. m\<lparr>nd_next := Some nx\<rparr>) (f\<lparr>ff_heap := ff_heap f, ff_head := ff_head f\<rparr>))
       = Inr (f\<lparr>ff_heap := h1, ff_head := hd1\<rparr>)"
    "lseg h1 None hd1 xs ?p nx"
    "\<forall>c. c \<notin> fst ` set xs \<longrightarrow> h1 c = ff_heap f c" "dom h1 = dom (ff_heap f)"
    "\<forall>p b c ys q. fst ` set xs \<inter> fst ` set ys = {} \<longrightarrow> lseg h1 p b ys q c = lseg (ff_heap f) p b ys q c"
    using unlink_forward [OF seg [unfolded b] fr(4), where f = f and nx = nx] by metis
  have s: "lseg h1 (if ys = [] then ?p else Some a) nx ys ?q ?t"
    using seg3 fr(3) F(5) by (cases ys) (auto simp: last_node_def split: if_splits)
  have t1: "h1 ?t = Some \<lparr>nd_data = None, nd_before = last_node (xs @ (a, d) # ys), nd_next = None\<rparr>"
    using R(2) fr F(3) by simp
  obtain h2 where B:
    "ff_write nx (\<lambda>m. m\<lparr>nd_before := ?p\<rparr>) (f\<lparr>ff_head := hd1, ff_heap := h1\<rparr>)
       = Inr (f\<lparr>ff_head := hd1, ff_heap := h2\<rparr>)"
    "lseg h2 ?p nx ys ?q ?t"
    "h2 ?t = Some \<lparr>nd_data = None, nd_before = ?q, nd_next = None\<rparr>"
    "dom h2 = dom h1" "\<forall>c. c \<notin> insert ?t (fst ` set ys) \<longrightarrow> h2 c = h1 c"
    "\<forall>p b c zs q. fst ` set zs \<inter> insert ?t (fst ` set ys) = {} \<longrightarrow> lseg h2 p b zs q c = lseg h1 p b zs q c"
    using unlink_backward [OF s t1 fr(5,8), where f = "f\<lparr>ff_head := hd1\<rparr>"] by metis
  let ?f = "f\<lparr>ff_head := hd1, ff_heap := h2(a := None)\<rparr>"
  have "lseg (h2(a := None)) None hd1 (xs @ ys) ?q ?t"
    unfolding lseg_append using F(2) B(2,6) fr by (auto simp: lseg_frame)
  then have "ff_rep ?f (xs @ ys)"
    using R B(3,4) F(4) fr by (auto simp: ff_rep_def)
  moreover have ids: "f\<lparr>ff_heap := ff_heap f, ff_head := ff_head f\<rparr> = f"
    "f\<lparr>ff_heap := ff_heap f, ff_head := nx\<rparr> = f\<lparr>ff_head := nx\<rparr>"
    "f\<lparr>ff_heap := h1, ff_head := hd1\<rparr> = f\<lparr>ff_head := hd1, ff_heap := h1\<rparr>"
    by simp_all
  have "ff_removeNode (Some a) f = Inr ?f"
    using F(1) [unfolded ids] B(1) na by (simp add: ff_removeNode_def)
  ultimately show ?thesis by (intro that [of ?f]) auto
qed

lemma ff_pop_empty: "ff_rep f [] \<Longrightarrow> ff_pop f = Inr (None, f)"
  by (auto simp: ff_pop_def ff_rep_def)

lemma ff_pop_rep:
  assumes r: "ff_rep f ((a, d) # ps)"
  obtains f' where "ff_pop f = Inr (Some d, f')" and "ff_rep f' ps" and "ff_brk f' = ff_brk f"
proof -
  note R = ff_repD [OF r]
  have h: "ff_head f = a" "ff_head f \<noteq> ff_tail f" using R(1,4) by auto
  obtain n where n: "ff_heap f a = Some n" "nd_data n = d" using R(1) by (auto split: option.splits)
  obtain f' where f': "ff_removeNode (Some a) f = Inr f'" "ff_rep f' ps" "ff_brk f' = ff_brk f"
    using ff_removeNode_rep [of f "[]" a d ps] r by auto
  have "ff_pop f = Inr (Some d, f')" using h n f'(1) by (simp add: ff_pop_def)
  with f'(2,3) show ?thesis by (rule that [rotated])
qed

text \<open>
  A node that was unlinked is gone: handing its address to \<open>removeNode\<close> again uses freed
  memory (the danger the header of the class warns about).
\<close>

lemma ff_removeNode_freed: "ff_heap f a = None \<Longrightarrow> ff_removeNode (Some a) f = Inl UseAfterFree"
  by (simp add: ff_removeNode_def)

lemma ff_removeNode_frees: "ff_removeNode (Some a) f = Inr f' \<Longrightarrow> ff_heap f' a = None"
  unfolding ff_removeNode_def
  by (auto split: option.split_asm elim!: and_then_InrE)

text \<open>Enough fuel for the destructor: one round per node and one to see the empty list.\<close>

lemma ff_drain_done:
  "ff_rep f ps \<Longrightarrow> length ps < fuel \<Longrightarrow> \<exists>f'. ff_drain fuel f = Inr f' \<and> ff_rep f' []"
proof (induction ps arbitrary: f fuel)
  case Nil
  then show ?case by (cases fuel) (auto simp: ff_pop_empty)
next
  case (Cons p ps)
  obtain a d where p: "p = (a, d)" by (cases p)
  obtain f1 where "ff_pop f = Inr (Some d, f1)" "ff_rep f1 ps"
    using ff_pop_rep [OF Cons.prems(1) [unfolded p]] by blast
  moreover obtain k where "fuel = Suc k" "length ps < k"
    using Cons.prems(2) by (metis Suc_lessE length_Cons)
  ultimately show ?case using Cons.IH [of f1 k] by simp
qed

lemma ff_rep_length: "ff_rep f ps \<Longrightarrow> length ps < ff_brk f"
proof -
  assume r: "ff_rep f ps"
  note R = ff_repD [OF r]
  have "insert (ff_tail f) (fst ` set ps) \<subseteq> {..<ff_brk f}" using R(6) by auto
  then have "card (insert (ff_tail f) (fst ` set ps)) \<le> card {..<ff_brk f}"
    by (rule card_mono [OF finite_lessThan])
  moreover have "card (fst ` set ps) = length ps"
    using distinct_card [OF R(3)] by simp
  ultimately show ?thesis using R(4) by simp
qed

section \<open>The contract of a FIFO with removable nodes\<close>

text \<open>
  What a client of the class relies on: each operation does to the represented list of
  (node, data) pairs what its comment says. \<open>push_all\<close> and \<open>pop_n\<close> are runs of a client.
\<close>

fun push_all :: "('d \<Rightarrow> 'f \<Rightarrow> fault + (addr \<times> 'f)) \<Rightarrow> 'd list \<Rightarrow> 'f \<Rightarrow> fault + (addr list \<times> 'f)" where
  "push_all push [] f = Inr ([], f)"
| "push_all push (d # ds) f =
     and_then (push d f) (\<lambda>(a, f). and_then (push_all push ds f) (\<lambda>(as, f). Inr (a # as, f)))"

fun pop_n :: "('f \<Rightarrow> fault + ('d option \<times> 'f)) \<Rightarrow> nat \<Rightarrow> 'f \<Rightarrow> fault + ('d list \<times> 'f)" where
  "pop_n pop 0 f = Inr ([], f)"
| "pop_n pop (Suc n) f =
     and_then (pop f) (\<lambda>(x, f).
       case x of None \<Rightarrow> Inr ([], f)
       | Some d \<Rightarrow> and_then (pop_n pop n f) (\<lambda>(ds, f). Inr (d # ds, f)))"

locale fifo_list =
  fixes empty :: "'f"
    and push :: "'d \<Rightarrow> 'f \<Rightarrow> fault + (addr \<times> 'f)"
    and pop :: "'f \<Rightarrow> fault + ('d option \<times> 'f)"
    and remove :: "addr option \<Rightarrow> 'f \<Rightarrow> fault + 'f"
    and rep :: "'f \<Rightarrow> (addr \<times> 'd) list \<Rightarrow> bool"
  assumes rep_empty: "rep empty []"
    and rep_distinct: "rep f ps \<Longrightarrow> distinct (map fst ps)"
    and push_ok: "rep f ps \<Longrightarrow> \<exists>a f'. push d f = Inr (a, f') \<and> rep f' (ps @ [(a, d)])"
    and pop_none: "rep f [] \<Longrightarrow> pop f = Inr (None, f)"
    and pop_some: "rep f ((a, d) # ps) \<Longrightarrow> \<exists>f'. pop f = Inr (Some d, f') \<and> rep f' ps"
    and remove_ok: "rep f ps \<Longrightarrow> a \<in> fst ` set ps \<Longrightarrow>
          \<exists>f'. remove (Some a) f = Inr f' \<and> rep f' (drop_key a ps)"
begin

lemma push_all_ok:
  "rep f ps \<Longrightarrow> \<exists>as f'. push_all push ds f = Inr (as, f') \<and> length as = length ds \<and>
     rep f' (ps @ zip as ds)"
proof (induction ds arbitrary: f ps)
  case Nil
  then show ?case by auto
next
  case (Cons d ds)
  obtain a f1 where 1: "push d f = Inr (a, f1)" "rep f1 (ps @ [(a, d)])"
    using push_ok [OF Cons.prems] by blast
  obtain as f2 where "push_all push ds f1 = Inr (as, f2)" "length as = length ds"
    "rep f2 ((ps @ [(a, d)]) @ zip as ds)"
    using Cons.IH [OF 1(2)] by blast
  with 1 show ?case by (intro exI [of _ "a # as"] exI [of _ f2]) simp
qed

lemma pop_n_ok:
  "rep f (xs @ ys) \<Longrightarrow> \<exists>f'. pop_n pop (length xs) f = Inr (map snd xs, f') \<and> rep f' ys"
proof (induction xs arbitrary: f)
  case Nil
  then show ?case by auto
next
  case (Cons x xs)
  obtain f1 where "pop f = Inr (Some (snd x), f1)" "rep f1 (xs @ ys)"
    using pop_some [of f "fst x" "snd x"] Cons.prems by auto
  with Cons.IH [of f1] show ?case by auto
qed

lemma fifo_order:
  "\<exists>as f1 f2. push_all push ds empty = Inr (as, f1) \<and> length as = length ds \<and>
     pop_n pop (length ds) f1 = Inr (ds, f2) \<and> pop f2 = Inr (None, f2)"
proof -
  obtain as f1 where 1: "push_all push ds empty = Inr (as, f1)" "length as = length ds"
    "rep f1 (zip as ds)"
    using push_all_ok [OF rep_empty, of ds] by auto
  obtain f2 where "pop_n pop (length ds) f1 = Inr (ds, f2)" "rep f2 []"
    using pop_n_ok [of f1 "zip as ds" "[]"] 1 by (auto simp del: zip_eq_Nil_iff)
  with 1 pop_none show ?thesis by blast
qed

lemma fifo_remove_any:
  assumes i: "i < length ds"
  shows "\<exists>as f1 f2 f3. push_all push ds empty = Inr (as, f1) \<and> remove (Some (as ! i)) f1 = Inr f2 \<and>
     pop_n pop (length ds - 1) f2 = Inr (take i ds @ drop (Suc i) ds, f3) \<and> pop f3 = Inr (None, f3)"
proof -
  obtain as f1 where 1: "push_all push ds empty = Inr (as, f1)" "length as = length ds"
    "rep f1 (zip as ds)"
    using push_all_ok [OF rep_empty, of ds] by auto
  let ?xs = "zip (take i as) (take i ds)" and ?ys = "zip (drop (Suc i) as) (drop (Suc i) ds)"
  have sp: "zip as ds = ?xs @ (as ! i, ds ! i) # ?ys"
    using id_take_nth_drop [of i "zip as ds"] i 1(2) by (simp add: take_zip drop_zip)
  obtain f2 where 2: "remove (Some (as ! i)) f1 = Inr f2" "rep f2 (?xs @ ?ys)"
    using remove_ok [OF 1(3), of "as ! i"] drop_key_split [of ?xs "as ! i" "ds ! i" ?ys]
      rep_distinct [OF 1(3)] unfolding sp by auto
  have len: "length (?xs @ ?ys) = length ds - 1"
    and dat: "map snd (?xs @ ?ys) = take i ds @ drop (Suc i) ds"
    using i 1(2) by auto
  have "rep f2 ((?xs @ ?ys) @ [])" using 2(2) by simp
  then obtain f3 where "pop_n pop (length ds - 1) f2 = Inr (take i ds @ drop (Suc i) ds, f3)" "rep f3 []"
    using pop_n_ok unfolding len [symmetric] dat [symmetric] by blast
  with 1 2 pop_none show ?thesis by blast
qed

end

interpretation ff: fifo_list ff_new ff_push ff_pop ff_removeNode ff_rep
proof unfold_locales
  fix f :: "'a fast_fifo" and ps a assume r: "ff_rep f ps" and a: "a \<in> fst ` set ps"
  obtain xs d ys where ps: "ps = xs @ (a, d) # ys" using fst_image_split [OF a] .
  then show "\<exists>f'. ff_removeNode (Some a) f = Inr f' \<and> ff_rep f' (drop_key a ps)"
    using ff_removeNode_rep [of f xs a d ys] r drop_key_split [of xs a d ys] ff_rep_distinct [OF r]
    by metis
next
  fix f :: "'a fast_fifo" and ps d assume "ff_rep f ps"
  then show "\<exists>a f'. ff_push d f = Inr (a, f') \<and> ff_rep f' (ps @ [(a, d)])"
    by (metis ff_push_rep)
next
  fix f :: "'a fast_fifo" and a d ps assume "ff_rep f ((a, d) # ps)"
  then show "\<exists>f'. ff_pop f = Inr (Some d, f') \<and> ff_rep f' ps"
    by (metis ff_pop_rep)
qed (simp_all add: ff_rep_new ff_rep_distinct ff_pop_empty)

section \<open>Properties\<close>

text \<open>
  C10: Pushing any data and then popping as often returns the data in the order in which they
  were pushed, no operation faults, and the list is empty afterwards.
\<close>

theorem fifo_pops_in_push_order:
  "\<exists>as f1 f2. push_all ff_push ds ff_new = Inr (as, f1) \<and> length as = length ds \<and>
     pop_n ff_pop (length ds) f1 = Inr (ds, f2) \<and> ff_pop f2 = Inr (None, f2)"
  by (rule ff.fifo_order)

text \<open>
  A node can be removed from any position by the handle that \<open>push\<close> returned; the other
  data are then popped in their order and the list is empty afterwards.
\<close>

theorem fifo_remove_by_handle:
  assumes "i < length ds"
  shows "\<exists>as f1 f2 f3. push_all ff_push ds ff_new = Inr (as, f1) \<and> ff_removeNode (Some (as ! i)) f1 = Inr f2 \<and>
     pop_n ff_pop (length ds - 1) f2 = Inr (take i ds @ drop (Suc i) ds, f3) \<and> ff_pop f3 = Inr (None, f3)"
  by (rule ff.fifo_remove_any [OF assms])

theorem fifo_remove_by_handle_witness:
  "\<exists>as f1 f2 f3. push_all ff_push [Some (10::nat), Some 20, Some 30] ff_new = Inr (as, f1) \<and>
     ff_removeNode (Some (as ! 1)) f1 = Inr f2 \<and>
     pop_n ff_pop 2 f2 = Inr ([Some 10, Some 30], f3) \<and> ff_pop f3 = Inr (None, f3)"
  using fifo_remove_by_handle [of 1 "[Some (10::nat), Some 20, Some 30]"] by (simp add: numeral_2_eq_2)

text \<open>
  The destructor always ends and frees every node that is still linked, but not the
  sentinel: exactly one node is left allocated.
\<close>

theorem fifo_destroy_leaks_sentinel:
  assumes "ff_rep f ps"
  shows "\<exists>f'. ff_destroy f = Inr f' \<and> dom (ff_heap f') = {ff_tail f'}"
proof -
  obtain f' where f': "ff_drain (ff_brk f) f = Inr f'" "ff_rep f' []"
    using ff_drain_done [OF assms ff_rep_length [OF assms]] by blast
  then show ?thesis using ff_repD(5) [OF f'(2)] by (simp add: ff_destroy_def)
qed

theorem fifo_destroy_leaks_sentinel_witness:
  "\<exists>f'. ff_destroy (ff_new :: nat fast_fifo) = Inr f' \<and> dom (ff_heap f') = {ff_tail f'}"
  by (rule fifo_destroy_leaks_sentinel [OF ff_rep_new])

text \<open>Removing the same node a second time uses freed memory.\<close>

theorem fifo_double_remove_faults:
  assumes "ff_rep f ps" and "a \<in> fst ` set ps"
  shows "\<exists>f'. ff_removeNode (Some a) f = Inr f' \<and> ff_removeNode (Some a) f' = Inl UseAfterFree"
proof -
  obtain f' where f': "ff_removeNode (Some a) f = Inr f'" "ff_rep f' (drop_key a ps)"
    using ff.remove_ok [OF assms] by blast
  then show ?thesis using ff_removeNode_freed [OF ff_removeNode_frees [OF f'(1)]] by blast
qed

theorem fifo_double_remove_faults_witness:
  "\<exists>a f1 f2. ff_push (Some (7::nat)) ff_new = Inr (a, f1) \<and> ff_removeNode (Some a) f1 = Inr f2 \<and>
     ff_removeNode (Some a) f2 = Inl UseAfterFree"
proof -
  obtain a f1 where f1: "ff_push (Some (7::nat)) ff_new = Inr (a, f1)" "ff_rep f1 [(a, Some 7)]"
    using ff.push_ok [OF ff_rep_new, of "Some 7"] by auto
  then show ?thesis using fifo_double_remove_faults [OF f1(2), of a] by auto
qed

end
