(* ===== verification/CacheKey.thy ===== *)
theory CacheKey
  imports Prelude
begin

unbundle bit_operations_syntax

text \<open>
  The keys of \<open>webserver/cache.h\<close> and \<open>cache.cc\<close>: the hash of a C string over its first
  characters, string equality by \<open>strcmp\<close>, and the private copy of a key that the cache
  makes. A C string is a \<open>string\<close> of HOL without the terminating NUL.
  \<open>boost::hash_combine\<close> is not part of the repository: it is the parameter \<open>combine\<close>.
  The branch modelled is the one compiled without \<open>USE_STRING_HASHING\<close>, which no makefile sets.
\<close>

section \<open>HashCharPtr\<close>

text \<open>
  \<open>union IntChar\<close> on a little-endian machine: \<open>val1\<close> is the least significant byte of
  \<open>intVal\<close>.
\<close>

type_synonym byte = "8 word"

definition byte_of :: "char \<Rightarrow> byte" where
  "byte_of c = of_nat (of_char c)"

definition intVal :: "byte \<Rightarrow> byte \<Rightarrow> byte \<Rightarrow> byte \<Rightarrow> 32 word" where
  "intVal val1 val2 val3 val4 =
     ucast val1 OR push_bit 8 (ucast val2) OR push_bit 16 (ucast val3) OR push_bit 24 (ucast val4)"

definition MAX_LEN_TO_HASH :: nat where "MAX_LEN_TO_HASH = 16"
definition PADDING :: byte where "PADDING = 0"
definition MODULUS_MASK :: nat where "MODULUS_MASK = 3"

text \<open>\<open>c[i]\<close>: the characters, the terminating NUL, and nothing after it.\<close>

definition char_at :: "string \<Rightarrow> nat \<Rightarrow> fault + byte" where
  "char_at c i =
     (if i < length c then Inr (byte_of (c ! i)) else if i = length c then Inr 0 else Inl OutOfRange)"

text \<open>One round of the loop: the value combined into the seed and the new \<open>charsHashed\<close>.\<close>

definition hash_block :: "string \<Rightarrow> nat \<Rightarrow> fault + (32 word \<times> nat)" where
  "hash_block c n =
     (let toCopy = (length c - n) AND MODULUS_MASK in
      if toCopy = 0 then
        and_then (char_at c n) (\<lambda>v1. and_then (char_at c (n + 1)) (\<lambda>v2.
        and_then (char_at c (n + 2)) (\<lambda>v3. and_then (char_at c (n + 3)) (\<lambda>v4.
        Inr (intVal v1 v2 v3 v4, n + 4)))))
      else if toCopy = 1 then
        and_then (char_at c n) (\<lambda>v1. Inr (intVal v1 PADDING PADDING PADDING, n + 1))
      else if toCopy = 2 then
        and_then (char_at c n) (\<lambda>v1. and_then (char_at c (n + 1)) (\<lambda>v2.
        Inr (intVal v1 v2 PADDING PADDING, n + 2)))
      else
        and_then (char_at c n) (\<lambda>v1. and_then (char_at c (n + 1)) (\<lambda>v2.
        and_then (char_at c (n + 2)) (\<lambda>v3. Inr (intVal v1 v2 v3 PADDING, n + 3)))))"

text \<open>
  The loop, from \<open>charsHashed\<close> and \<open>hashSeed\<close>; it returns both. Each round moves
  \<open>charsHashed\<close> forward, which bounds the fuel by the length of the string.
\<close>

fun hash_loop :: "(size_t \<Rightarrow> 32 word \<Rightarrow> size_t) \<Rightarrow> nat \<Rightarrow> string \<Rightarrow> nat \<Rightarrow> size_t \<Rightarrow> fault + (size_t \<times> nat)" where
  "hash_loop combine 0 c n seed = Inl NoReturn"
| "hash_loop combine (Suc fuel) c n seed =
     (if n < MAX_LEN_TO_HASH \<and> n < length c
      then and_then (hash_block c n) (\<lambda>(v, n'). hash_loop combine fuel c n' (combine seed v))
      else Inr (seed, n))"

definition hashCharPtr :: "(size_t \<Rightarrow> 32 word \<Rightarrow> size_t) \<Rightarrow> string \<Rightarrow> fault + size_t" where
  "hashCharPtr combine c = and_then (hash_loop combine (Suc (length c)) c 0 0) (\<lambda>(seed, n). Inr seed)"

section \<open>EqCharPtr\<close>

text \<open>\<open>strcmp\<close>: the difference of the first bytes that differ, the NUL included.\<close>

fun c_strcmp :: "string \<Rightarrow> string \<Rightarrow> int" where
  "c_strcmp [] [] = 0"
| "c_strcmp [] (y # ys) = - uint (byte_of y)"
| "c_strcmp (x # xs) [] = uint (byte_of x)"
| "c_strcmp (x # xs) (y # ys) =
     (if x = y then c_strcmp xs ys else uint (byte_of x) - uint (byte_of y))"

definition eqCharPtr :: "string \<Rightarrow> string \<Rightarrow> size_t" where
  "eqCharPtr lhs rhs = (if (of_int (c_strcmp lhs rhs) :: size_t) = 0 then 1 else 0)"

section \<open>strCpy\<close>

text \<open>
  A heap block is a list of bytes of its allocated size. \<open>strncpy\<close> copies up to \<open>n\<close>
  characters, padding with NUL; a write past the end of the block goes to the log.
\<close>

definition block_write :: "nat \<Rightarrow> char \<Rightarrow> string \<Rightarrow> string \<times> mem_error list" where
  "block_write i x blk = (if i < length blk then (blk[i := x], []) else (blk, [HeapOverflow i]))"

definition c_strncpy :: "string \<Rightarrow> string \<Rightarrow> nat \<Rightarrow> string" where
  "c_strncpy blk src n = take n (src @ replicate n CHR 0x00) @ drop n blk"

definition strCpy :: "string \<Rightarrow> string \<times> mem_error list" where
  "strCpy str =
     (let size = length str;
          copy = replicate size CHR 0x00;
          copy = c_strncpy copy str size
      in block_write size CHR 0x00 copy)"

section \<open>Lemmas\<close>

lemma byte_of_eq_iff [simp]: "byte_of x = byte_of y \<longleftrightarrow> x = y"
  by (auto simp: byte_of_def word_of_nat_eq_iff take_bit_eq_mod)

lemma mask_mod: "(n::nat) AND MODULUS_MASK = n mod 4"
  using take_bit_eq_mask [of 2 n] by (simp add: MODULUS_MASK_def take_bit_eq_mod mask_eq_exp_minus_1)

lemma char_at_in [simp]: "i < length c \<Longrightarrow> char_at c i = Inr (byte_of (c ! i))"
  by (simp add: char_at_def)

lemma mod_four_ge: "(d::nat) mod 4 = 0 \<Longrightarrow> 0 < d \<Longrightarrow> 4 \<le> d"
  by (cases "d < 4") auto

text \<open>Every round reads characters of the string only, and at most four of them.\<close>

lemma hash_block_step:
  assumes "n < length c"
  obtains v where "hash_block c n = Inr (v, n + (if (length c - n) mod 4 = 0 then 4 else (length c - n) mod 4))"
proof -
  consider "(length c - n) mod 4 = 0" | "(length c - n) mod 4 = 1" | "(length c - n) mod 4 = 2"
    | "(length c - n) mod 4 = 3" by linarith
  then show ?thesis
  proof cases
    case 1
    then have "n + 3 < length c" using assms mod_four_ge [of "length c - n"] by simp
    then show ?thesis using 1 that by (auto simp: hash_block_def mask_mod)
  next
    case 2
    then show ?thesis using assms that by (auto simp: hash_block_def mask_mod)
  next
    case 3
    then have "n + 1 < length c" using assms mod_less_eq_dividend [of "length c - n" 4] by simp
    then show ?thesis using 3 that by (auto simp: hash_block_def mask_mod)
  next
    case 4
    then have "n + 2 < length c" using assms mod_less_eq_dividend [of "length c - n" 4] by simp
    then show ?thesis using 4 that by (auto simp: hash_block_def mask_mod)
  qed
qed

definition chars_hashed :: "nat \<Rightarrow> nat" where
  "chars_hashed len = (if len \<le> MAX_LEN_TO_HASH then len else MAX_LEN_TO_HASH + len mod 4)"

lemma hash_loop_count:
  "n \<le> chars_hashed (length c) \<Longrightarrow> n = 0 \<or> n mod 4 = length c mod 4 \<Longrightarrow> length c - n < fuel \<Longrightarrow>
     \<exists>h. hash_loop combine fuel c n seed = Inr (h, chars_hashed (length c))"
proof (induction fuel arbitrary: n seed)
  case (Suc fuel)
  show ?case
  proof (cases "n < MAX_LEN_TO_HASH \<and> n < length c")
    case True
    obtain v where v: "hash_block c n =
        Inr (v, n + (if (length c - n) mod 4 = 0 then 4 else (length c - n) mod 4))" (is "_ = Inr (v, ?n)")
      using hash_block_step True by blast
    obtain d where d: "length c = n + d" "0 < d"
      by (rule that [of "length c - n"]) (use True in auto)
    have "?n \<le> chars_hashed (length c) \<and> ?n mod 4 = length c mod 4"
    proof (cases "n = 0")
      case True
      then show ?thesis using d mod_four_ge [of d] mod_less_eq_dividend [of d 4]
        by (simp add: chars_hashed_def MAX_LEN_TO_HASH_def)
    next
      case False
      then have "n mod 4 = (n + d) mod 4" using Suc.prems(2) d by simp
      then have "d mod 4 = 0" by presburger
      moreover have "n + 4 \<le> chars_hashed (n + d)"
      proof -
        have "n < 16 \<Longrightarrow> n + 4 \<le> 16 + n mod 4" by presburger
        then show ?thesis
          using True mod_four_ge [OF calculation d(2)] \<open>n mod 4 = (n + d) mod 4\<close>
          by (simp add: chars_hashed_def MAX_LEN_TO_HASH_def)
      qed
      ultimately show ?thesis using d \<open>n mod 4 = (n + d) mod 4\<close> by simp
    qed
    moreover have "length c - ?n < fuel" using Suc.prems(3) d by auto
    ultimately show ?thesis using Suc.IH [of ?n] v True by auto
  next
    case False
    moreover have "16 \<le> n \<Longrightarrow> n \<le> 16 + n mod 4 \<Longrightarrow> n = 16 + n mod 4" by presburger
    ultimately show ?thesis using Suc.prems
      by (auto simp: chars_hashed_def MAX_LEN_TO_HASH_def split: if_splits)
  qed
qed simp

text \<open>Two strings that agree on the characters of a round have the same round.\<close>

lemma hash_block_cong:
  assumes "n < length a" "n < length b" "(length a - n) mod 4 = (length b - n) mod 4"
    and "\<And>i. i < n + (if (length a - n) mod 4 = 0 then 4 else (length a - n) mod 4) \<Longrightarrow> a ! i = b ! i"
  shows "hash_block a n = hash_block b n"
proof -
  have dm: "length x - n = 4 * ((length x - n) div 4) + (length x - n) mod 4" for x :: string
    by simp
  have in4: "n + (if (length x - n) mod 4 = 0 then 4 else (length x - n) mod 4) \<le> length x"
    if "n < length x" for x :: string
    using that mod_four_ge [of "length x - n"] mod_less_eq_dividend [of "length x - n" 4] by auto
  have e: "char_at a i = char_at b i"
    if "i < n + (if (length a - n) mod 4 = 0 then 4 else (length a - n) mod 4)" for i
  proof -
    have "i < length a" using in4 [OF assms(1)] that by (rule order.strict_trans2 [rotated])
    moreover have "i < length b" using in4 [OF assms(2)] that unfolding assms(3) by (rule order.strict_trans2 [rotated])
    ultimately show ?thesis using assms(4) [OF that] by (simp add: char_at_def)
  qed
  let ?m = "(length a - n) mod 4"
  have "char_at a n = char_at b n"
    and "?m \<noteq> 1 \<Longrightarrow> char_at a (n + 1) = char_at b (n + 1)"
    and "?m \<noteq> 1 \<Longrightarrow> ?m \<noteq> 2 \<Longrightarrow> char_at a (n + 2) = char_at b (n + 2)"
    and "?m = 0 \<Longrightarrow> char_at a (n + 3) = char_at b (n + 3)"
    by (rule e, simp)+
  then show ?thesis
    unfolding hash_block_def mask_mod Let_def assms(3) [symmetric] by (simp del: char_at_in)
qed

lemma hash_loop_cong:
  "16 \<le> length a \<Longrightarrow> 16 \<le> length b \<Longrightarrow> length a mod 4 = r \<Longrightarrow> length b mod 4 = r \<Longrightarrow>
   take (16 + r) a = take (16 + r) b \<Longrightarrow> n = 0 \<or> n mod 4 = r \<Longrightarrow>
   length a - n < fa \<Longrightarrow> length b - n < fb \<Longrightarrow>
     hash_loop combine fa a n seed = hash_loop combine fb b n seed"
proof (induction fa arbitrary: fb n seed)
  case (Suc fa)
  obtain fb' where fb: "fb = Suc fb'" using Suc.prems by (cases fb) auto
  show ?case
  proof (cases "n < 16")
    case False
    then show ?thesis by (simp add: fb MAX_LEN_TO_HASH_def)
  next
    case True
    let ?k = "if (length a - n) mod 4 = 0 then 4 else (length a - n) mod 4"
    have k1: "?k = (if n = 0 \<and> r \<noteq> 0 then r else 4) \<and> (length a - n) mod 4 = (length b - n) mod 4"
    proof (cases "n = 0")
      case False
      then have "length a mod 4 = n mod 4" "length b mod 4 = n mod 4" using Suc.prems by auto
      then have "(length a - n) mod 4 = 0" "(length b - n) mod 4 = 0"
        using True Suc.prems by (simp_all add: mod_eq_dvd_iff_nat [symmetric] mod_eq_0_iff_dvd)
      then show ?thesis using False by simp
    qed (use Suc.prems in auto)
    from k1 have k: "?k = (if n = 0 \<and> r \<noteq> 0 then r else 4)" and
      k2: "(length a - n) mod 4 = (length b - n) mod 4" by blast+
    have r: "r < 4" using Suc.prems by auto
    have kle: "n + ?k \<le> 16 + r"
    proof (cases "n = 0")
      case False
      then have "n mod 4 = r" using Suc.prems by simp
      moreover have "n < 16 \<Longrightarrow> n + 4 \<le> 16 + n mod 4" by presburger
      ultimately show ?thesis using True False unfolding k by simp
    qed (unfold k, use r in auto)
    have eq: "a ! i = b ! i" if "i < n + ?k" for i
    proof -
      have "i < 16 + r" by (rule less_le_trans [OF that kle])
      then show ?thesis using Suc.prems(5) nth_take [of i "16 + r" a] nth_take [of i "16 + r" b] by simp
    qed
    have blk: "hash_block a n = hash_block b n"
      by (rule hash_block_cong) (use True Suc.prems k2 eq in auto)
    obtain v where v: "hash_block a n = Inr (v, n + ?k)"
      using hash_block_step [of n a] True Suc.prems by auto
    have "(n + ?k) mod 4 = r" using Suc.prems(6) r unfolding k by (cases "n = 0") simp_all
    moreover have "0 < ?k" unfolding k by simp
    then have "length a - (n + ?k) < fa" "length b - (n + ?k) < fb'"
      using Suc.prems(1,2,7,8) True fb by linarith+
    ultimately have "hash_loop combine fa a (n + ?k) (combine seed v) =
        hash_loop combine fb' b (n + ?k) (combine seed v)"
      using Suc.IH [of "n + ?k" fb'] Suc.prems by blast
    then show ?thesis using True Suc.prems v blk by (simp add: fb MAX_LEN_TO_HASH_def)
  qed
qed simp

lemma strcmp_range: "\<bar>c_strcmp a b\<bar> \<le> 255"
proof (induction a b rule: c_strcmp.induct)
  case (4 x xs y ys)
  have "uint (byte_of x) < 256" "uint (byte_of y) < 256" "0 \<le> uint (byte_of x)" "0 \<le> uint (byte_of y)"
    using uint_lt2p [of "byte_of x"] uint_lt2p [of "byte_of y"] by simp_all
  then have "\<bar>uint (byte_of x) - uint (byte_of y)\<bar> \<le> 255" by arith
  then show ?case using 4 by simp
next
  case (2 y ys)
  show ?case using uint_lt2p [of "byte_of y"] by simp
next
  case (3 x xs)
  show ?case using uint_lt2p [of "byte_of x"] by simp
qed simp

text \<open>No character of a C string is NUL, so the comparison is 0 for equal strings only.\<close>

definition c_string :: "string \<Rightarrow> bool" where
  "c_string s \<longleftrightarrow> CHR 0x00 \<notin> set s"

lemma byte_of_eq_0_iff: "byte_of x = 0 \<longleftrightarrow> x = CHR 0x00"
  using byte_of_eq_iff [of x "CHR 0x00"] by (simp add: byte_of_def)

lemma strcmp_eq_0_iff: "c_string a \<Longrightarrow> c_string b \<Longrightarrow> c_strcmp a b = 0 \<longleftrightarrow> a = b"
  by (induction a b rule: c_strcmp.induct)
    (auto simp: c_string_def uint_0_iff byte_of_eq_0_iff simp flip: word_uint_eq_iff)

lemma eqCharPtr_iff: "c_string a \<Longrightarrow> c_string b \<Longrightarrow> eqCharPtr a b = (if a = b then 1 else 0)"
proof -
  assume c: "c_string a" "c_string b"
  have "(of_int z :: size_t) = 0 \<longleftrightarrow> z = 0" if "\<bar>z\<bar> \<le> 255" for z
  proof
    assume "(of_int z :: size_t) = 0"
    then have "(2::int) ^ 64 dvd z" by (simp add: word_of_int_eq_0_iff)
    then show "z = 0" using that zdvd_not_zless [of z "2 ^ 64"] zdvd_not_zless [of "- z" "2 ^ 64"]
      by (cases "z = 0"; cases "z < 0") auto
  qed simp
  then show ?thesis
    using strcmp_range [of a b] strcmp_eq_0_iff [OF c] by (simp add: eqCharPtr_def)
qed

lemma strCpy_eq: "strCpy s = (s, [HeapOverflow (length s)])"
  by (simp add: strCpy_def c_strncpy_def block_write_def)

section \<open>Properties\<close>

text \<open>
  Hashing a key always ends, reads no byte behind its terminating NUL, and reads
  \<open>chars_hashed\<close> characters: all of a key of at most 16 characters, and 16 plus the remainder
  of the length by 4 of a longer one.
\<close>

theorem hash_reads_in_bounds:
  "\<exists>h. hash_loop combine (Suc (length c)) c 0 0 = Inr (h, chars_hashed (length c)) \<and>
     hashCharPtr combine c = Inr h \<and> chars_hashed (length c) \<le> length c \<and> chars_hashed (length c) \<le> 19"
proof -
  obtain h where h: "hash_loop combine (Suc (length c)) c 0 0 = Inr (h, chars_hashed (length c))"
    using hash_loop_count [of 0 c "Suc (length c)" combine 0] by auto
  have "length c mod 4 < 4" by simp
  then have "16 < length c \<Longrightarrow> 16 + length c mod 4 \<le> length c" by presburger
  then have "chars_hashed (length c) \<le> length c" "chars_hashed (length c) \<le> 19"
    by (auto simp: chars_hashed_def MAX_LEN_TO_HASH_def)
  with h show ?thesis by (simp add: hashCharPtr_def del: hash_loop.simps)
qed

text \<open>
  Two long keys of the same length modulo 4 that agree on the characters read have the
  same hash, whatever comes after them.
\<close>

theorem hash_depends_on_prefix:
  assumes "16 \<le> length a" and "16 \<le> length b" and "length a mod 4 = length b mod 4"
    and "take (chars_hashed (length a)) a = take (chars_hashed (length b)) b"
  shows "hashCharPtr combine a = hashCharPtr combine b"
proof -
  have "chars_hashed (length x) = 16 + length b mod 4" if "16 \<le> length x" "length x mod 4 = length b mod 4" for x :: string
    using that by (auto simp: chars_hashed_def MAX_LEN_TO_HASH_def)
  then have "take (16 + length b mod 4) a = take (16 + length b mod 4) b" using assms by simp
  then show ?thesis
    using hash_loop_cong [of a b "length b mod 4" 0 "Suc (length a)" "Suc (length b)" combine 0] assms
    by (simp add: hashCharPtr_def del: hash_loop.simps)
qed

theorem hash_depends_on_prefix_witness:
  "hashCharPtr (\<lambda>s v. 31 * s + ucast v) ''GET /images/0001.png'' = hashCharPtr (\<lambda>s v. 31 * s + ucast v) ''GET /images/0001.jpg''"
  by (rule hash_depends_on_prefix) (simp_all add: chars_hashed_def MAX_LEN_TO_HASH_def)

text \<open>
  The hash is not a function of the first 16 characters alone, as the comment in the
  header says: the 17th character of a key of 17 characters changes it.
\<close>

theorem hash_reads_past_16:
  "take 16 ''/images/0000000/a'' = take 16 ''/images/0000000/b'' \<and>
   hashCharPtr (\<lambda>s v. 31 * s + ucast v) ''/images/0000000/a'' \<noteq> hashCharPtr (\<lambda>s v. 31 * s + ucast v) ''/images/0000000/b''"
  by code_simp

text \<open>
  \<open>EqCharPtr\<close> answers 1 for equal C strings and 0 for different ones, although it is
  computed in \<open>size_t\<close> from the \<open>int\<close> of \<open>strcmp\<close>; and equal keys have equal hashes.
\<close>

theorem eqCharPtr_decides_equality:
  assumes "c_string a" and "c_string b"
  shows "eqCharPtr a b = (if a = b then 1 else 0) \<and>
    (eqCharPtr a b = 1 \<longrightarrow> hashCharPtr combine a = hashCharPtr combine b)"
  using eqCharPtr_iff [OF assms] by simp

theorem eqCharPtr_decides_equality_witness:
  "eqCharPtr ''/a.html'' ''/b.html'' = 0 \<and> eqCharPtr ''/a.html'' ''/a.html'' = 1"
  using eqCharPtr_decides_equality [of "''/a.html''" "''/b.html''"]
    eqCharPtr_decides_equality [of "''/a.html''" "''/a.html''"]
  by (simp add: c_string_def)

text \<open>
  The private copy of a key has the characters of the key, and making it writes exactly
  one byte, the terminating NUL, past the end of the block that was allocated for it.
\<close>

theorem strCpy_writes_past_block:
  "strCpy s = (s, [HeapOverflow (length s)])"
  by (rule strCpy_eq)

end
