(* ===== verification/CacheStore.thy ===== *)
theory CacheStore
  imports FastFifo CacheKey
begin

text \<open>
  The reference-counting cache of \<open>webserver/cache.h\<close> and \<open>cache.cc\<close>. The model keeps what
  the code can alias: the hash table maps keys to entries that live at an address, the free
  list holds entry addresses, and callbacks are heap objects that the cache owns once they
  were handed to it. A callback is arbitrary client code: it is the parameter \<open>call\<close>, which
  gets the whole state (the cache and the client's world \<open>'w\<close>) and may itself use the cache.
  The table is a list of (key, entry) pairs in iteration order; \<open>HashCharPtr\<close> and
  \<open>EqCharPtr\<close> (\<open>CacheKey\<close>) make equal strings the same key.
\<close>

section \<open>State\<close>

text \<open>\<open>struct CacheData\<close>, the argument of a callback; \<open>data\<close> is a buffer address or null.\<close>

record cache_data =
  cd_data :: "addr option"
  cd_size :: size_t
  cd_isCached :: bool

definition CacheData :: "addr option \<Rightarrow> size_t \<Rightarrow> bool \<Rightarrow> cache_data" where
  "CacheData data sz isCached = \<lparr>cd_data = data, cd_size = sz, cd_isCached = isCached\<rparr>"

text \<open>
  \<open>struct CacheEntry\<close>. \<open>refCount\<close> is a \<open>size_t\<close> that only counts callbacks, so it is kept
  as a natural number; the sizes, whose sums can wrap around, keep their width.
\<close>

record cache_entry =
  ce_name :: "string option"
  ce_data :: "addr option"
  ce_size :: size_t
  ce_refCount :: nat
  ce_freeListRef :: "addr option"
  ce_isReserved :: bool
  ce_queue :: "addr list"

definition CacheEntry_reserved :: "string \<Rightarrow> cache_entry" where
  "CacheEntry_reserved name =
     \<lparr>ce_name = Some name, ce_data = None, ce_size = 0, ce_refCount = 1,
      ce_freeListRef = None, ce_isReserved = True, ce_queue = []\<rparr>"

definition CacheEntry_new :: "string \<Rightarrow> addr option \<Rightarrow> size_t \<Rightarrow> cache_entry" where
  "CacheEntry_new name data sz =
     \<lparr>ce_name = Some name, ce_data = data, ce_size = sz, ce_refCount = 1,
      ce_freeListRef = None, ce_isReserved = False, ce_queue = []\<rparr>"

text \<open>
  The cache and the part of the heap it works on: live entries, live callback objects, the
  next address of \<open>new\<close>, the buffers the cache gave to \<open>free()\<close> so far, the number of key copies
  that are allocated, and the log of memory errors.
\<close>

record 'cb cache =
  sizeQuota :: size_t
  currentSize :: size_t
  cacheMap :: "(string \<times> addr) list"
  freeList :: "addr fast_fifo"
  entries :: "addr \<rightharpoonup> cache_entry"
  callbacks :: "addr \<rightharpoonup> 'cb"
  next_addr :: addr
  freed_bufs :: "addr list"
  live_names :: int
  mem_log :: "mem_error list"

type_synonym ('cb, 'w) callback_call =
  "'cb \<Rightarrow> cache_data \<Rightarrow> 'cb cache \<times> 'w \<Rightarrow> fault + ('cb cache \<times> 'w)"

definition Cache_new :: "size_t \<Rightarrow> 'cb cache" where
  "Cache_new quota =
     \<lparr>sizeQuota = quota, currentSize = 0, cacheMap = [], freeList = ff_new, entries = Map.empty,
      callbacks = Map.empty, next_addr = 0, freed_bufs = [], live_names = 0, mem_log = []\<rparr>"

section \<open>Heap primitives\<close>

text \<open>\<open>strCpy(key)\<close> for a private copy, and \<open>delete[]\<close> of such a copy.\<close>

definition new_name :: "string \<Rightarrow> 'cb cache \<Rightarrow> string \<times> 'cb cache" where
  "new_name key c =
     (let (copy, errs) = strCpy key in
      (copy, c\<lparr>live_names := live_names c + 1, mem_log := mem_log c @ errs\<rparr>))"

definition delete_name :: "string option \<Rightarrow> 'cb cache \<Rightarrow> 'cb cache" where
  "delete_name name c =
     (case name of None \<Rightarrow> c | Some _ \<Rightarrow> c\<lparr>live_names := live_names c - 1\<rparr>)"

text \<open>
  \<open>free(buf)\<close>: nothing for the null pointer, and a double free for a buffer that the cache
  has already freed.
\<close>

definition free_buf :: "addr option \<Rightarrow> 'cb cache \<Rightarrow> fault + 'cb cache" where
  "free_buf buf c =
     (case buf of
        None \<Rightarrow> Inr c
      | Some b \<Rightarrow> if b \<in> set (freed_bufs c) then Inl DoubleFree
                  else Inr (c\<lparr>freed_bufs := freed_bufs c @ [b]\<rparr>))"

text \<open>\<open>new CacheCallback(...)\<close> by a client, \<open>(*callback)(data)\<close>, and \<open>delete callback\<close>.\<close>

definition new_callback :: "'cb \<Rightarrow> 'cb cache \<Rightarrow> addr \<times> 'cb cache" where
  "new_callback cb c =
     (next_addr c, c\<lparr>callbacks := (callbacks c)(next_addr c \<mapsto> cb), next_addr := Suc (next_addr c)\<rparr>)"

definition invoke ::
  "('cb, 'w) callback_call \<Rightarrow> addr option \<Rightarrow> cache_data \<Rightarrow> 'cb cache \<times> 'w \<Rightarrow> fault + ('cb cache \<times> 'w)" where
  "invoke call callback data s =
     (case callback of
        None \<Rightarrow> Inl NullDeref
      | Some p \<Rightarrow> and_then (deref (callbacks (fst s)) p) (\<lambda>cb. call cb data s))"

definition delete_callback :: "addr option \<Rightarrow> 'cb cache \<Rightarrow> fault + 'cb cache" where
  "delete_callback callback c =
     (case callback of
        None \<Rightarrow> Inr c
      | Some p \<Rightarrow> (case callbacks c p of
            None \<Rightarrow> Inl DoubleFree
          | Some _ \<Rightarrow> Inr (c\<lparr>callbacks := (callbacks c)(p := None)\<rparr>)))"

text \<open>\<open>cacheMap_.find\<close>, \<open>insert\<close> of a fresh key, and writing through a \<open>CacheEntry&\<close>.\<close>

definition find_entry :: "string \<Rightarrow> 'cb cache \<Rightarrow> addr option" where
  "find_entry key c = map_of (cacheMap c) key"

definition insert_entry :: "string \<Rightarrow> cache_entry \<Rightarrow> 'cb cache \<Rightarrow> 'cb cache" where
  "insert_entry key e c =
     c\<lparr>cacheMap := cacheMap c @ [(key, next_addr c)],
       entries := (entries c)(next_addr c \<mapsto> e), next_addr := Suc (next_addr c)\<rparr>"

definition update_entry :: "addr \<Rightarrow> (cache_entry \<Rightarrow> cache_entry) \<Rightarrow> 'cb cache \<Rightarrow> fault + 'cb cache" where
  "update_entry a u c =
     and_then (deref (entries c) a) (\<lambda>e. Inr (c\<lparr>entries := (entries c)(a \<mapsto> u e)\<rparr>))"

text \<open>\<open>CacheEntry::deallocate\<close> of an entry with these contents (freeing both fields).\<close>

definition deallocate :: "cache_entry \<Rightarrow> 'cb cache \<Rightarrow> fault + 'cb cache" where
  "deallocate e c = and_then (free_buf (ce_data e) c) (\<lambda>c. Inr (delete_name (ce_name e) c))"

section \<open>Operations\<close>

text \<open>The loop of \<open>put\<close> over the callbacks queued for a reserved entry.\<close>

fun put_loop ::
  "('cb, 'w) callback_call \<Rightarrow> addr \<Rightarrow> cache_data \<Rightarrow> addr list \<Rightarrow> 'cb cache \<times> 'w \<Rightarrow> fault + ('cb cache \<times> 'w)" where
  "put_loop call entry data [] s = Inr s"
| "put_loop call entry data (callback # queue) s =
     and_then (update_entry entry (\<lambda>e. e\<lparr>ce_refCount := ce_refCount e + 1\<rparr>) (fst s)) (\<lambda>c.
     and_then (invoke call (Some callback) data (c, snd s)) (\<lambda>(c, w).
     and_then (delete_callback (Some callback) c) (\<lambda>c.
     put_loop call entry data queue (c, w))))"

definition Cache_put ::
  "('cb, 'w) callback_call \<Rightarrow> string \<Rightarrow> addr option \<Rightarrow> size_t \<Rightarrow> 'cb cache \<times> 'w
     \<Rightarrow> fault + (bool \<times> 'cb cache \<times> 'w)" where
  "Cache_put call key buf sz s =
     (let (keyCopy, c) = new_name key (fst s) in
      case find_entry keyCopy c of
        None \<Rightarrow>
          (let c = insert_entry keyCopy (CacheEntry_new keyCopy buf sz) c in
           Inr (True, c\<lparr>currentSize := currentSize c + sz\<rparr>, snd s))
      | Some entry \<Rightarrow>
          and_then (deref (entries c) entry) (\<lambda>e.
          if ce_isReserved e then
            and_then (update_entry entry (\<lambda>e. e\<lparr>ce_data := buf, ce_size := sz\<rparr>) c) (\<lambda>c.
            and_then (put_loop call entry (CacheData buf sz True) (ce_queue e) (c, snd s)) (\<lambda>(c, w).
            and_then (update_entry entry (\<lambda>e. e\<lparr>ce_isReserved := False\<rparr>) c) (\<lambda>c.
            Inr (True, delete_name (Some keyCopy) c, w))))
          else Inr (False, delete_name (Some keyCopy) c, snd s)))"

definition Cache_get ::
  "('cb, 'w) callback_call \<Rightarrow> string \<Rightarrow> addr option \<Rightarrow> 'cb cache \<times> 'w
     \<Rightarrow> fault + (bool \<times> 'cb cache \<times> 'w)" where
  "Cache_get call key callback s =
     (let c = fst s in
      case find_entry key c of
        Some entry \<Rightarrow>
          and_then (deref (entries c) entry) (\<lambda>e.
          if ce_isReserved e \<and> callback \<noteq> None then
            and_then (update_entry entry (\<lambda>e. e\<lparr>ce_queue := ce_queue e @ [the callback]\<rparr>) c) (\<lambda>c.
            Inr (True, c, snd s))
          else
            and_then (invoke call callback (CacheData (ce_data e) (ce_size e) True) s) (\<lambda>(c, w).
            and_then (update_entry entry (\<lambda>e. e\<lparr>ce_refCount := ce_refCount e + 1\<rparr>) c) (\<lambda>c.
            and_then (deref (entries c) entry) (\<lambda>e.
            and_then (if ce_freeListRef e \<noteq> None
                      then and_then (ff_removeNode (ce_freeListRef e) (freeList c)) (\<lambda>fl.
                           update_entry entry (\<lambda>e. e\<lparr>ce_freeListRef := None\<rparr>) (c\<lparr>freeList := fl\<rparr>))
                      else Inr c) (\<lambda>c.
            and_then (delete_callback callback c) (\<lambda>c.
            Inr (True, c, w)))))))
      | None \<Rightarrow>
          and_then (delete_callback callback c) (\<lambda>c. Inr (False, c, snd s)))"

definition Cache_reserve :: "string \<Rightarrow> 'cb cache \<Rightarrow> fault + (bool \<times> 'cb cache)" where
  "Cache_reserve key c0 =
     (let (keyCopy, c) = new_name key c0 in
      case find_entry keyCopy c of
        None \<Rightarrow> Inr (True, insert_entry keyCopy (CacheEntry_reserved keyCopy) c)
      | Some entry \<Rightarrow>
          and_then (deref (entries c) entry) (\<lambda>e.
          if \<not> ce_isReserved e then
            and_then (update_entry entry (\<lambda>e. e\<lparr>ce_isReserved := True\<rparr>) c) (\<lambda>c.
            Inr (True, delete_name (Some keyCopy) c))
          else Inr (False, delete_name (Some keyCopy) c)))"

fun cancel_loop ::
  "('cb, 'w) callback_call \<Rightarrow> addr list \<Rightarrow> 'cb cache \<times> 'w \<Rightarrow> fault + ('cb cache \<times> 'w)" where
  "cancel_loop call [] s = Inr s"
| "cancel_loop call (callback # queue) s =
     and_then (invoke call (Some callback) (CacheData None 0 False) s) (\<lambda>(c, w).
     and_then (delete_callback (Some callback) c) (\<lambda>c.
     cancel_loop call queue (c, w)))"

definition Cache_cancelReservation ::
  "('cb, 'w) callback_call \<Rightarrow> string \<Rightarrow> 'cb cache \<times> 'w \<Rightarrow> fault + (bool \<times> 'cb cache \<times> 'w)" where
  "Cache_cancelReservation call key s =
     (let c = fst s in
      case find_entry key c of
        Some entry \<Rightarrow>
          and_then (deref (entries c) entry) (\<lambda>e.
          if ce_isReserved e then
            and_then (update_entry entry (\<lambda>e. e\<lparr>ce_isReserved := False\<rparr>) c) (\<lambda>c.
            and_then (cancel_loop call (ce_queue e) (c, snd s)) (\<lambda>(c, w).
            Inr (True, c, w)))
          else Inr (False, c, snd s))
      | None \<Rightarrow> Inr (False, c, snd s))"

text \<open>
  \<open>cleanup\<close>: pop entries off the free list until enough space is freed. \<open>erase\<close> destroys the
  table's node, so the \<open>deallocate\<close> after it works on freed memory (the log records it) whose
  contents it still finds there. The loop ends with the free list; its fuel is the number of
  addresses that list ever used.
\<close>

fun cleanup_loop :: "nat \<Rightarrow> size_t \<Rightarrow> size_t \<Rightarrow> 'cb cache \<Rightarrow> fault + (size_t \<times> 'cb cache)" where
  "cleanup_loop 0 space spaceFreed c = Inl NoReturn"
| "cleanup_loop (Suc fuel) space spaceFreed c =
     (if spaceFreed < space then
        and_then (ff_pop (freeList c)) (\<lambda>(x, fl).
        case x of
          None \<Rightarrow> Inr (spaceFreed, c\<lparr>freeList := fl\<rparr>)
        | Some None \<Rightarrow> Inl NullDeref
        | Some (Some entry) \<Rightarrow>
            and_then (deref (entries c) entry) (\<lambda>e.
            and_then (c_assert (ce_refCount e = 0)) (\<lambda>_.
            let spaceFreed = spaceFreed + ce_size e;
                c = c\<lparr>freeList := fl,
                      cacheMap := filter (\<lambda>(k, a). Some k \<noteq> ce_name e) (cacheMap c),
                      entries := (entries c)(entry := None),
                      mem_log := mem_log c @ [ReadFreed entry]\<rparr>
            in and_then (deallocate e c) (\<lambda>c. cleanup_loop fuel space spaceFreed c))))
      else Inr (spaceFreed, c))"

definition Cache_cleanup :: "size_t \<Rightarrow> 'cb cache \<Rightarrow> fault + 'cb cache" where
  "Cache_cleanup space c =
     and_then (cleanup_loop (Suc (ff_brk (freeList c))) space 0 c) (\<lambda>(spaceFreed, c).
     Inr (c\<lparr>currentSize := currentSize c - spaceFreed\<rparr>))"

definition Cache_doneWith :: "string \<Rightarrow> 'cb cache \<Rightarrow> fault + 'cb cache" where
  "Cache_doneWith key c =
     and_then
       (case find_entry key c of
          Some entry \<Rightarrow>
            and_then (deref (entries c) entry) (\<lambda>e.
            and_then (c_assert (ce_refCount e > 0)) (\<lambda>_.
            and_then (update_entry entry (\<lambda>e. e\<lparr>ce_refCount := ce_refCount e - 1\<rparr>) c) (\<lambda>c.
            if ce_refCount e - 1 = 0 then
              and_then (ff_push (Some entry) (freeList c)) (\<lambda>(node, fl).
              update_entry entry (\<lambda>e. e\<lparr>ce_freeListRef := Some node\<rparr>) (c\<lparr>freeList := fl\<rparr>))
            else Inr c)))
        | None \<Rightarrow> Inl AssertFailed)
       (\<lambda>c. if sizeQuota c < currentSize c then Cache_cleanup (currentSize c - sizeQuota c) c else Inr c)"

text \<open>
  The destructor: every entry of the table is deallocated and taken off the free list, then
  whatever the free list still holds has its data freed; then the members are destroyed.
\<close>

fun destroy_map :: "(string \<times> addr) list \<Rightarrow> 'cb cache \<Rightarrow> fault + 'cb cache" where
  "destroy_map [] c = Inr c"
| "destroy_map ((k, entry) # kvs) c =
     and_then (deref (entries c) entry) (\<lambda>e.
     and_then (deallocate e c) (\<lambda>c.
     let c = c\<lparr>entries := (entries c)(entry \<mapsto> e\<lparr>ce_data := None, ce_name := None\<rparr>)\<rparr>
     in and_then (if ce_freeListRef e \<noteq> None
                  then and_then (ff_removeNode (ce_freeListRef e) (freeList c)) (\<lambda>fl. Inr (c\<lparr>freeList := fl\<rparr>))
                  else Inr c) (\<lambda>c.
        destroy_map kvs c)))"

fun destroy_free :: "nat \<Rightarrow> 'cb cache \<Rightarrow> fault + 'cb cache" where
  "destroy_free 0 c = Inl NoReturn"
| "destroy_free (Suc fuel) c =
     and_then (ff_pop (freeList c)) (\<lambda>(x, fl).
     case x of
       None \<Rightarrow> Inr (c\<lparr>freeList := fl\<rparr>)
     | Some None \<Rightarrow> Inl NullDeref
     | Some (Some entry) \<Rightarrow>
         and_then (deref (entries c) entry) (\<lambda>e.
         and_then (free_buf (ce_data e) (c\<lparr>freeList := fl\<rparr>)) (destroy_free fuel)))"

definition Cache_destroy :: "'cb cache \<Rightarrow> fault + 'cb cache" where
  "Cache_destroy c =
     and_then (destroy_map (cacheMap c) c) (\<lambda>c.
     and_then (destroy_free (Suc (ff_brk (freeList c))) c) (\<lambda>c.
     and_then (ff_destroy (freeList c)) (\<lambda>fl.
     Inr (c\<lparr>freeList := fl, cacheMap := [], entries := Map.empty\<rparr>))))"

end
