(* ===== verification/CacheInv.thy ===== *)
theory CacheInv
  imports CacheStore
begin

text \<open>
  The invariant of the cache: the table, the entries, the free list and the queued callbacks
  agree with each other (\<open>cache_ok\<close>), and every buffer is owned once (\<open>bufs_ok\<close>). Every
  operation keeps both, and none of them faults, for a client that follows the protocol of
  \<open>allowed\<close> (a key is reserved only when the cache does not have it, \<open>doneWith\<close> is called
  once per buffer that was handed out, a buffer is given to the cache once) and whose
  callbacks do not call back into the cache.
\<close>

section \<open>Callbacks that leave the cache alone\<close>

text \<open>\<open>call\<close> acts on the client's world only, as \<open>g\<close>.\<close>

definition quiet :: "('cb, 'w) callback_call \<Rightarrow> ('cb \<Rightarrow> cache_data \<Rightarrow> 'w \<Rightarrow> 'w) \<Rightarrow> bool" where
  "quiet call g \<longleftrightarrow> (\<forall>cb data c w. call cb data (c, w) = Inr (c, g cb data w))"

lemma quietD [simp]: "quiet call g \<Longrightarrow> call cb data (c, w) = Inr (c, g cb data w)"
  by (simp add: quiet_def)

text \<open>The instance used for concrete runs: the world is the list of calls made so far.\<close>

definition log_call :: "('cb, ('cb \<times> cache_data) list) callback_call" where
  "log_call cb data s = Inr (fst s, snd s @ [(cb, data)])"

definition log_world :: "'cb \<Rightarrow> cache_data \<Rightarrow> ('cb \<times> cache_data) list \<Rightarrow> ('cb \<times> cache_data) list" where
  "log_world cb data w = w @ [(cb, data)]"

lemma quiet_log_call: "quiet log_call log_world"
  by (simp add: quiet_def log_call_def log_world_def)

lemma fold_log_world: "fold (\<lambda>cb. log_world cb data) cbs w = w @ map (\<lambda>cb. (cb, data)) cbs"
  by (induction cbs arbitrary: w) (simp_all add: log_world_def)

section \<open>The invariant\<close>

definition table_ok :: "'cb cache \<Rightarrow> bool" where
  "table_ok c \<longleftrightarrow>
     distinct (map fst (cacheMap c)) \<and> distinct (map snd (cacheMap c)) \<and>
     dom (entries c) = snd ` set (cacheMap c) \<and>
     (\<forall>k a e. (k, a) \<in> set (cacheMap c) \<longrightarrow> entries c a = Some e \<longrightarrow> ce_name e = Some k)"

text \<open>
  The free list holds exactly the entries without references, each under the node that the
  entry remembers.
\<close>

definition fl_rep :: "addr fast_fifo \<Rightarrow> (addr \<times> addr) list \<Rightarrow> bool" where
  "fl_rep f ps \<longleftrightarrow> ff_rep f (map (\<lambda>(n, a). (n, Some a)) ps)"

definition free_ok :: "'cb cache \<Rightarrow> (addr \<times> addr) list \<Rightarrow> bool" where
  "free_ok c ps \<longleftrightarrow>
     fl_rep (freeList c) ps \<and>
     (\<forall>n a. (n, a) \<in> set ps \<longrightarrow> (\<exists>e. entries c a = Some e \<and> ce_freeListRef e = Some n)) \<and>
     (\<forall>a e. entries c a = Some e \<longrightarrow>
        (ce_refCount e = 0 \<longleftrightarrow> ce_freeListRef e \<noteq> None) \<and>
        (\<forall>n. ce_freeListRef e = Some n \<longrightarrow> (n, a) \<in> set ps))"

text \<open>
  The callbacks waiting for a reserved entry. A reserved entry is in use, and the waiting
  callbacks are live, distinct, and each waits for one entry only.
\<close>

definition waiting :: "'cb cache \<Rightarrow> addr \<Rightarrow> addr set" where
  "waiting c a = (case entries c a of None \<Rightarrow> {} | Some e \<Rightarrow> if ce_isReserved e then set (ce_queue e) else {})"

definition reserved_ok :: "cache_entry \<Rightarrow> bool" where
  "reserved_ok e \<longleftrightarrow> ce_refCount e > 0 \<and> distinct (ce_queue e) \<and> ce_data e = None \<and> ce_size e = 0"

lemma reserved_ok_simps [simp]:
  "reserved_ok (e\<lparr>ce_queue := qs\<rparr>) \<longleftrightarrow> ce_refCount e > 0 \<and> distinct qs \<and> ce_data e = None \<and> ce_size e = 0"
  by (simp add: reserved_ok_def)

definition queues_ok :: "'cb cache \<Rightarrow> bool" where
  "queues_ok c \<longleftrightarrow>
     (\<forall>a e. entries c a = Some e \<longrightarrow> ce_isReserved e \<longrightarrow> reserved_ok e) \<and>
     (\<forall>a. waiting c a \<subseteq> dom (callbacks c)) \<and>
     (\<forall>a b. a \<noteq> b \<longrightarrow> waiting c a \<inter> waiting c b = {})"

lemma waiting_upd:
  "waiting (c\<lparr>entries := (entries c)(a \<mapsto> e)\<rparr>) =
     (waiting c)(a := if ce_isReserved e then set (ce_queue e) else {})"
  by (auto simp: waiting_def fun_eq_iff)

lemma waiting_Some: "entries c a = Some e \<Longrightarrow> waiting c a = (if ce_isReserved e then set (ce_queue e) else {})"
  by (simp add: waiting_def)

lemma waiting_live: "queues_ok c \<Longrightarrow> waiting c a \<subseteq> dom (callbacks c)"
  by (simp add: queues_ok_def)

text \<open>Fewer waiting callbacks than before are still distinct.\<close>

lemma queues_ok_mono:
  assumes "queues_ok c" and "\<And>a. waiting c' a \<subseteq> waiting c a" and "\<And>a. waiting c' a \<subseteq> dom (callbacks c')"
    and "\<And>a e. entries c' a = Some e \<Longrightarrow> ce_isReserved e \<Longrightarrow> reserved_ok e"
  shows "queues_ok c'"
  using assms unfolding queues_ok_def by blast

definition heap_ok :: "'cb cache \<Rightarrow> bool" where
  "heap_ok c \<longleftrightarrow> (\<forall>a \<in> dom (entries c) \<union> dom (callbacks c). a < next_addr c) \<and>
     live_names c = int (length (cacheMap c))"

definition cache_ok :: "'cb cache \<Rightarrow> (addr \<times> addr) list \<Rightarrow> bool" where
  "cache_ok c ps \<longleftrightarrow> table_ok c \<and> free_ok c ps \<and> queues_ok c \<and> heap_ok c"

lemma cache_okI: "table_ok c \<Longrightarrow> free_ok c ps \<Longrightarrow> queues_ok c \<Longrightarrow> heap_ok c \<Longrightarrow> cache_ok c ps"
  by (simp add: cache_ok_def)

lemma cache_okD:
  assumes "cache_ok c ps"
  shows "table_ok c" "free_ok c ps" "queues_ok c" "heap_ok c"
  using assms by (simp_all add: cache_ok_def)

lemma cache_ok_new: "cache_ok (Cache_new quota) []"
  by (simp add: cache_ok_def table_ok_def free_ok_def queues_ok_def heap_ok_def Cache_new_def
      waiting_def fl_rep_def ff_rep_new)

lemma find_entry_Some:
  assumes "cache_ok c ps" "find_entry k c = Some a"
  obtains e where "entries c a = Some e" "ce_name e = Some k" "(k, a) \<in> set (cacheMap c)"
proof -
  have m: "(k, a) \<in> set (cacheMap c)" using assms(2) by (simp add: find_entry_def map_of_SomeD)
  then have "a \<in> dom (entries c)" using cache_okD(1) [OF assms(1)] unfolding table_ok_def by force
  then show ?thesis using that m cache_okD(1) [OF assms(1)] unfolding table_ok_def by blast
qed

lemma find_entry_None: "find_entry k c = None \<longleftrightarrow> k \<notin> fst ` set (cacheMap c)"
  by (simp add: find_entry_def map_of_eq_None_iff)

lemma find_entry_iff: "table_ok c \<Longrightarrow> find_entry k c = Some a \<longleftrightarrow> (k, a) \<in> set (cacheMap c)"
  by (auto simp: find_entry_def table_ok_def)

section \<open>Who owns the buffers\<close>

text \<open>The buffer of an entry, as a list of at most one address.\<close>

definition data_bufs :: "cache_entry \<Rightarrow> addr list" where
  "data_bufs e = (case ce_data e of None \<Rightarrow> [] | Some b \<Rightarrow> [b])"

lemma data_bufs_simps [simp]:
  "ce_data e = None \<Longrightarrow> data_bufs e = []"
  "ce_data e = Some b \<Longrightarrow> data_bufs e = [b]"
  "set (data_bufs e) = set_option (ce_data e)" "distinct (data_bufs e)"
  by (auto simp: data_bufs_def split: option.split)

definition entry_bufs :: "'cb cache \<Rightarrow> addr \<Rightarrow> addr list" where
  "entry_bufs c a = (case entries c a of None \<Rightarrow> [] | Some e \<Rightarrow> data_bufs e)"

lemma entry_bufs_simps [simp]:
  "entries c a = None \<Longrightarrow> entry_bufs c a = []"
  "entries c a = Some e \<Longrightarrow> entry_bufs c a = data_bufs e"
  by (simp_all add: entry_bufs_def)

lemma distinct_entry_bufs [simp]: "distinct (entry_bufs c a)"
  by (simp add: entry_bufs_def split: option.split)

text \<open>
  No buffer was freed twice, no entry holds a buffer that was freed, and no two entries hold
  the same one. \<open>owned_bufs\<close> are the buffers that the cache has ever taken over.
\<close>

definition bufs_ok :: "'cb cache \<Rightarrow> bool" where
  "bufs_ok c \<longleftrightarrow> distinct (freed_bufs c) \<and>
     (\<forall>a. set (entry_bufs c a) \<inter> set (freed_bufs c) = {}) \<and>
     (\<forall>a b. a \<noteq> b \<longrightarrow> set (entry_bufs c a) \<inter> set (entry_bufs c b) = {})"

definition owned_bufs :: "'cb cache \<Rightarrow> addr set" where
  "owned_bufs c = set (freed_bufs c) \<union> (\<Union>a. set (entry_bufs c a))"

lemma bufs_okD:
  assumes "bufs_ok c"
  shows "distinct (freed_bufs c)" "set (entry_bufs c a) \<inter> set (freed_bufs c) = {}"
    and "a \<noteq> b \<Longrightarrow> set (entry_bufs c a) \<inter> set (entry_bufs c b) = {}"
  using assms unfolding bufs_ok_def by blast+

lemma bufs_new: "bufs_ok (Cache_new quota)" "owned_bufs (Cache_new quota) = {}"
  by (simp_all add: bufs_ok_def owned_bufs_def Cache_new_def)

lemma bufs_same:
  assumes "entry_bufs c' = entry_bufs c" "freed_bufs c' = freed_bufs c"
  shows "bufs_ok c' = bufs_ok c" "owned_bufs c' = owned_bufs c"
  using assms by (simp_all add: bufs_ok_def owned_bufs_def)

lemma entry_bufs_set: "entries c' = (entries c)(a \<mapsto> e) \<Longrightarrow> entry_bufs c' = (entry_bufs c)(a := data_bufs e)"
  by (auto simp: entry_bufs_def fun_eq_iff)

lemma bufs_same_entry:
  assumes "entries c' = (entries c)(a \<mapsto> e')" "entries c a = Some e" "ce_data e' = ce_data e" "freed_bufs c' = freed_bufs c"
  shows "bufs_ok c' = bufs_ok c" "owned_bufs c' = owned_bufs c"
proof -
  have "entry_bufs c' = entry_bufs c"
    using entry_bufs_set [OF assms(1)] assms(2,3) by (auto simp: data_bufs_def fun_eq_iff)
  then show "bufs_ok c' = bufs_ok c" "owned_bufs c' = owned_bufs c" using bufs_same assms(4) by blast+
qed

text \<open>An entry that has no buffer gets one that the cache never owned.\<close>

lemma bufs_take:
  assumes ok: "bufs_ok c" and e: "entries c' = (entries c)(a \<mapsto> e)" "entry_bufs c a = []"
    and b: "set_option (ce_data e) \<inter> owned_bufs c = {}" and f: "freed_bufs c' = freed_bufs c"
  shows "bufs_ok c'" "owned_bufs c' = set_option (ce_data e) \<union> owned_bufs c"
proof -
  have n: "entry_bufs c' = (entry_bufs c)(a := data_bufs e)" by (rule entry_bufs_set [OF e(1)])
  note o = bufs_okD [OF ok]
  show "bufs_ok c'" unfolding bufs_ok_def n f
    using o b by (auto simp: owned_bufs_def)
  show "owned_bufs c' = set_option (ce_data e) \<union> owned_bufs c"
    unfolding owned_bufs_def n f using e(2) by (auto split: if_splits) (metis empty_iff empty_set)
qed

text \<open>The buffer of an entry is freed, and the entry is gone.\<close>

lemma bufs_free:
  assumes ok: "bufs_ok c" and e: "entry_bufs c' = (entry_bufs c)(a := [])"
    and f: "freed_bufs c' = freed_bufs c @ entry_bufs c a"
  shows "bufs_ok c'" "owned_bufs c' = owned_bufs c"
proof -
  note o = bufs_okD [OF ok]
  have "distinct (freed_bufs c')" unfolding f using o(1,2) by (simp add: Int_commute)
  moreover have "set (entry_bufs c' x) \<inter> set (freed_bufs c') = {}" for x
    unfolding f e using o(2) o(3) [of x a] by auto
  moreover have "set (entry_bufs c' x) \<inter> set (entry_bufs c' y) = {}" if "x \<noteq> y" for x y
    unfolding e using o(3) [OF that] by simp
  ultimately show "bufs_ok c'" unfolding bufs_ok_def by blast
  show "owned_bufs c' = owned_bufs c"
    unfolding owned_bufs_def f e by (auto split: if_splits)
qed

text \<open>\<open>free()\<close> and \<open>deallocate\<close> of a buffer that was not freed before.\<close>

lemma free_buf_ok:
  "set (data_bufs e) \<inter> set (freed_bufs c) = {} \<Longrightarrow>
     free_buf (ce_data e) c = Inr (c\<lparr>freed_bufs := freed_bufs c @ data_bufs e\<rparr>)"
  by (cases "ce_data e") (simp_all add: free_buf_def)

lemma deallocate_ok:
  "set (data_bufs e) \<inter> set (freed_bufs c) = {} \<Longrightarrow>
     deallocate e c = Inr (delete_name (ce_name e) (c\<lparr>freed_bufs := freed_bufs c @ data_bufs e\<rparr>))"
  unfolding deallocate_def by (subst free_buf_ok) simp_all

section \<open>Elementary state changes that keep the invariant\<close>

text \<open>
  Replacing the contents of one entry: the name stays, and the new contents agree with the
  free list and the callbacks.
\<close>

lemma cache_ok_update:
  assumes ok: "cache_ok c ps" and e: "entries c a = Some e"
    and name: "ce_name e' = ce_name e"
    and ref: "(ce_refCount e' = 0) = (ce_refCount e = 0)" "ce_freeListRef e' = ce_freeListRef e"
    and res: "\<not> ce_isReserved e'"
  shows "cache_ok (c\<lparr>entries := (entries c)(a \<mapsto> e')\<rparr>) ps"
proof (rule cache_okI)
  note ok = cache_okD [OF ok]
  show "table_ok (c\<lparr>entries := (entries c)(a \<mapsto> e')\<rparr>)"
    using ok(1) e name by (auto simp: table_ok_def)
  show "free_ok (c\<lparr>entries := (entries c)(a \<mapsto> e')\<rparr>) ps"
    using ok(2) e ref by (fastforce simp: free_ok_def)
  have w: "waiting (c\<lparr>entries := (entries c)(a \<mapsto> e')\<rparr>) b \<subseteq> waiting c b" for b
    using res waiting_Some [OF e] by (auto simp: waiting_upd)
  show "queues_ok (c\<lparr>entries := (entries c)(a \<mapsto> e')\<rparr>)"
  proof (rule queues_ok_mono [OF ok(3) w])
    fix b show "waiting (c\<lparr>entries := (entries c)(a \<mapsto> e')\<rparr>) b \<subseteq> dom (callbacks (c\<lparr>entries := (entries c)(a \<mapsto> e')\<rparr>))"
      using order_trans [OF w waiting_live [OF ok(3)]] by simp
  next
    fix b f assume f: "entries (c\<lparr>entries := (entries c)(a \<mapsto> e')\<rparr>) b = Some f" "ce_isReserved f"
    have inuse: "reserved_ok f" if "entries c b = Some f" "ce_isReserved f" for b f
      using ok(3) that by (simp add: queues_ok_def)
    show "reserved_ok f"
      using f inuse [of b f] inuse [OF e] res ref(1) by (cases "b = a") auto
  qed
  show "heap_ok (c\<lparr>entries := (entries c)(a \<mapsto> e')\<rparr>)"
    using ok(4) e by (auto simp: heap_ok_def)
qed

text \<open>Deleting callbacks that no reserved entry has in its queue.\<close>

lemma cache_ok_delete_callbacks:
  assumes ok: "cache_ok c ps" and dom: "dom cbs \<subseteq> dom (callbacks c)"
    and q: "\<And>b. waiting c b \<subseteq> dom cbs"
  shows "cache_ok (c\<lparr>callbacks := cbs\<rparr>) ps"
proof (rule cache_okI)
  note ok = cache_okD [OF ok]
  have "waiting (c\<lparr>callbacks := cbs\<rparr>) = waiting c" by (simp add: waiting_def fun_eq_iff)
  then show "queues_ok (c\<lparr>callbacks := cbs\<rparr>)"
    using ok(3) q by (simp add: queues_ok_def)
qed (use cache_okD [OF ok] dom in \<open>auto simp: table_ok_def free_ok_def heap_ok_def\<close>)

text \<open>Inserting a fresh entry, reserved or not.\<close>

lemma cache_ok_insert:
  assumes ok: "cache_ok c ps" and k: "find_entry k c = None"
    and e: "ce_name e = Some k" "ce_refCount e = 1" "ce_freeListRef e = None" "ce_queue e = []"
    and r: "ce_isReserved e \<Longrightarrow> reserved_ok e"
  shows "cache_ok ((insert_entry k e c)\<lparr>live_names := live_names c + 1\<rparr>) ps"
proof (rule cache_okI)
  note ok = cache_okD [OF ok]
  let ?c = "(insert_entry k e c)\<lparr>live_names := live_names c + 1\<rparr>"
  have "next_addr c \<notin> dom (entries c)" using ok(4) unfolding heap_ok_def by blast
  then have f: "entries c (next_addr c) = None" "next_addr c \<notin> snd ` set (cacheMap c)"
    using ok(1) by (auto simp: table_ok_def)
  have k': "k \<notin> fst ` set (cacheMap c)" using k find_entry_None by blast
  have n: "(x, next_addr c) \<notin> set (cacheMap c)" for x using f(2) by force
  show "table_ok ?c"
    using ok(1) f k' e n by (auto simp: table_ok_def insert_entry_def)
  show "free_ok ?c ps"
    using ok(2) f e by (fastforce simp: free_ok_def insert_entry_def)
  have w: "waiting ?c b \<subseteq> waiting c b" for b
    using e by (auto simp: waiting_def insert_entry_def)
  show "queues_ok ?c"
  proof (rule queues_ok_mono [OF ok(3) w])
    fix b show "waiting ?c b \<subseteq> dom (callbacks ?c)"
      using order_trans [OF w waiting_live [OF ok(3)]] by (simp add: insert_entry_def)
  qed (use ok(3) e r in \<open>force simp: queues_ok_def insert_entry_def split: if_splits\<close>)
  show "heap_ok ?c"
    using ok(4) by (auto simp: heap_ok_def insert_entry_def less_Suc_eq)
qed

text \<open>A client allocates a callback object.\<close>

lemma cache_ok_new_callback:
  assumes ok: "cache_ok c ps"
  shows "cache_ok (c\<lparr>callbacks := (callbacks c)(next_addr c \<mapsto> cb), next_addr := Suc (next_addr c)\<rparr>) ps"
proof (rule cache_okI)
  note ok = cache_okD [OF ok]
  let ?c = "c\<lparr>callbacks := (callbacks c)(next_addr c \<mapsto> cb), next_addr := Suc (next_addr c)\<rparr>"
  have "waiting ?c = waiting c" by (simp add: waiting_def fun_eq_iff)
  then show "queues_ok ?c"
    using ok(3) by (auto simp: queues_ok_def)
qed (use cache_okD [OF ok] in \<open>auto simp: table_ok_def free_ok_def heap_ok_def less_Suc_eq\<close>)

text \<open>Fields the invariant does not read.\<close>

lemma cache_ok_irrelevant [simp]:
  "cache_ok (c\<lparr>currentSize := x\<rparr>) ps = cache_ok c ps"
  "cache_ok (c\<lparr>mem_log := l\<rparr>) ps = cache_ok c ps"
  "cache_ok (c\<lparr>freed_bufs := bs\<rparr>) ps = cache_ok c ps"
  "bufs_ok (c\<lparr>currentSize := x\<rparr>) = bufs_ok c"
  "bufs_ok (c\<lparr>mem_log := l\<rparr>) = bufs_ok c"
  "owned_bufs (c\<lparr>currentSize := x\<rparr>) = owned_bufs c"
  by (simp_all add: cache_ok_def table_ok_def free_ok_def queues_ok_def heap_ok_def waiting_def
      bufs_ok_def owned_bufs_def entry_bufs_def)

text \<open>A live callback that waits for nothing is queued for a reserved entry.\<close>

lemma cache_ok_enqueue:
  assumes ok: "cache_ok c ps" and e: "entries c a = Some e" "ce_isReserved e"
    and p: "p \<in> dom (callbacks c)" "\<And>b. p \<notin> waiting c b"
  shows "cache_ok (c\<lparr>entries := (entries c)(a \<mapsto> e\<lparr>ce_queue := ce_queue e @ [p]\<rparr>)\<rparr>) ps"
proof (rule cache_okI)
  note ok = cache_okD [OF ok]
  let ?c = "c\<lparr>entries := (entries c)(a \<mapsto> e\<lparr>ce_queue := ce_queue e @ [p]\<rparr>)\<rparr>"
  show "table_ok ?c" using ok(1) e by (auto simp: table_ok_def)
  show "free_ok ?c ps" using ok(2) e by (fastforce simp: free_ok_def)
  show "heap_ok ?c" using ok(4) e by (auto simp: heap_ok_def)
  have w: "waiting ?c = (waiting c)(a := insert p (waiting c a))"
    using e by (simp add: waiting_upd waiting_Some)
  have d: "waiting c x \<inter> waiting c y = {}" if "x \<noteq> y" for x y
    using ok(3) that by (simp add: queues_ok_def)
  have q: "reserved_ok f" if "entries c x = Some f" "ce_isReserved f" for x f
    using ok(3) that by (simp add: queues_ok_def)
  have "p \<notin> set (ce_queue e)" using p(2) [of a] e by (simp add: waiting_Some)
  then show "queues_ok ?c"
    unfolding queues_ok_def w using p d q q [OF e, unfolded reserved_ok_def] waiting_live [OF ok(3)] by auto
qed

text \<open>A free entry is taken back into use: its node leaves the free list.\<close>

lemma fl_rep_distinct: "fl_rep f ps \<Longrightarrow> distinct (map fst ps)"
  using ff_rep_distinct [of f "map (\<lambda>(n, a). (n, Some a)) ps"]
  by (simp add: fl_rep_def comp_def case_prod_unfold)

lemma free_okD:
  assumes "free_ok c ps"
  shows "fl_rep (freeList c) ps"
    and "(n, a) \<in> set ps \<Longrightarrow> \<exists>e. entries c a = Some e \<and> ce_freeListRef e = Some n"
    and "entries c a = Some e \<Longrightarrow> ce_refCount e = 0 \<longleftrightarrow> ce_freeListRef e \<noteq> None"
    and "entries c a = Some e \<Longrightarrow> ce_freeListRef e = Some n \<Longrightarrow> (n, a) \<in> set ps"
  using assms unfolding free_ok_def by blast+

lemma queues_okD: "queues_ok c \<Longrightarrow> entries c a = Some e \<Longrightarrow> ce_isReserved e \<Longrightarrow>
    reserved_ok e"
  unfolding queues_ok_def by blast

lemma fl_remove:
  assumes "fl_rep f ps" "(n, a) \<in> set ps"
  obtains f' where "ff_removeNode (Some n) f = Inr f'" "fl_rep f' (drop_key n ps)"
proof -
  have "n \<in> fst ` set (map (\<lambda>(n, a). (n, Some a)) ps)" using assms(2) by force
  then obtain f' where "ff_removeNode (Some n) f = Inr f'"
      "ff_rep f' (drop_key n (map (\<lambda>(n, a). (n, Some a)) ps))"
    using ff.remove_ok assms(1) unfolding fl_rep_def by blast
  moreover have "drop_key n (map (\<lambda>(n, a). (n, Some a)) ps) = map (\<lambda>(n, a). (n, Some a)) (drop_key n ps)"
    by (induction ps) (auto simp: drop_key_def)
  ultimately show ?thesis using that by (simp add: fl_rep_def)
qed

lemma fl_push:
  assumes "fl_rep f ps"
  obtains n f' where "ff_push (Some a) f = Inr (n, f')" "fl_rep f' (ps @ [(n, a)])"
  using ff.push_ok [OF assms [unfolded fl_rep_def], of "Some a"] by (auto simp: fl_rep_def)

lemma fl_pop:
  assumes "fl_rep f ((n, a) # ps)"
  obtains f' where "ff_pop f = Inr (Some (Some a), f')" "fl_rep f' ps"
  using ff.pop_some [of f n "Some a"] assms by (auto simp: fl_rep_def)

lemma fl_pop_empty: "fl_rep f [] \<Longrightarrow> ff_pop f = Inr (None, f)"
  by (simp add: fl_rep_def ff.pop_none)

lemma cache_ok_unfree:
  assumes ok: "cache_ok c ps" and e: "entries c a = Some e" "ce_freeListRef e = Some n"
    and fl: "fl_rep fl (drop_key n ps)" and r: "r > 0"
  shows "cache_ok (c\<lparr>freeList := fl, entries := (entries c)(a \<mapsto> e\<lparr>ce_refCount := r, ce_freeListRef := None\<rparr>)\<rparr>)
    (drop_key n ps)"
proof (rule cache_okI)
  note ok = cache_okD [OF ok]
  let ?c = "c\<lparr>freeList := fl, entries := (entries c)(a \<mapsto> e\<lparr>ce_refCount := r, ce_freeListRef := None\<rparr>)\<rparr>"
  show "table_ok ?c" using ok(1) e by (auto simp: table_ok_def)
  show "heap_ok ?c" using ok(4) e by (auto simp: heap_ok_def)
  have nr: "\<not> ce_isReserved e"
    using free_okD(3) [OF ok(2) e(1)] queues_okD [OF ok(3) e(1)] e(2) by (auto simp: reserved_ok_def)
  have w: "waiting ?c b \<subseteq> waiting c b" for b
    using nr by (auto simp: waiting_def)
  have q: "reserved_ok f" if "entries c x = Some f" "ce_isReserved f" for x f
    using ok(3) that by (simp add: queues_ok_def)
  show "queues_ok ?c"
  proof (rule queues_ok_mono [OF ok(3) w])
    fix b show "waiting ?c b \<subseteq> dom (callbacks ?c)"
      using order_trans [OF w waiting_live [OF ok(3)]] by simp
  qed (use q nr in \<open>auto split: if_splits\<close>)
  have fr: "\<And>m b. (m, b) \<in> set ps \<Longrightarrow> \<exists>f. entries c b = Some f \<and> ce_freeListRef f = Some m"
    "\<And>b f. entries c b = Some f \<Longrightarrow> (ce_refCount f = 0 \<longleftrightarrow> ce_freeListRef f \<noteq> None)"
    "\<And>b f m. entries c b = Some f \<Longrightarrow> ce_freeListRef f = Some m \<Longrightarrow> (m, b) \<in> set ps"
    using free_okD [OF ok(2)] by blast+
  have na: "(m, a) \<in> set ps \<Longrightarrow> m = n" for m using fr(1) e by fastforce
  have d: "distinct (map fst ps)" using ok(2) fl_rep_distinct unfolding free_ok_def by blast
  have nb: "(n, b) \<in> set ps \<Longrightarrow> b = a" for b
    using fr(3) [OF e(1,2)] d by (metis eq_key_imp_eq_value)
  show "free_ok ?c (drop_key n ps)"
    unfolding free_ok_def
  proof (intro conjI allI impI)
    show "fl_rep (freeList ?c) (drop_key n ps)" using fl by simp
  next
    fix m b assume "(m, b) \<in> set (drop_key n ps)"
    then have "(m, b) \<in> set ps" "m \<noteq> n" by (auto simp: set_drop_key)
    then show "\<exists>f. entries ?c b = Some f \<and> ce_freeListRef f = Some m" using fr(1) na by fastforce
  next
    fix b f assume "entries ?c b = Some f"
    then show "(ce_refCount f = 0) = (ce_freeListRef f \<noteq> None)" using fr(2) r by (auto split: if_splits)
  next
    fix b f m assume f: "entries ?c b = Some f" "ce_freeListRef f = Some m"
    then have "b \<noteq> a" "entries c b = Some f" by (auto split: if_splits)
    then show "(m, b) \<in> set (drop_key n ps)" using fr(3) f(2) nb by (auto simp: set_drop_key)
  qed
qed

text \<open>The last reference to an entry is given back: the entry joins the free list at its end.\<close>

lemma cache_ok_free:
  assumes ok: "cache_ok c ps" and e: "entries c a = Some e" "ce_refCount e > 0" "\<not> ce_isReserved e"
    and fl: "fl_rep fl (ps @ [(n, a)])"
  shows "cache_ok (c\<lparr>freeList := fl, entries := (entries c)(a \<mapsto> e\<lparr>ce_refCount := 0, ce_freeListRef := Some n\<rparr>)\<rparr>)
    (ps @ [(n, a)])"
proof (rule cache_okI)
  note ok = cache_okD [OF ok]
  let ?c = "c\<lparr>freeList := fl, entries := (entries c)(a \<mapsto> e\<lparr>ce_refCount := 0, ce_freeListRef := Some n\<rparr>)\<rparr>"
  show "table_ok ?c" using ok(1) e by (auto simp: table_ok_def)
  show "heap_ok ?c" using ok(4) e by (auto simp: heap_ok_def)
  have w: "waiting ?c b \<subseteq> waiting c b" for b
    using e by (auto simp: waiting_def)
  show "queues_ok ?c"
  proof (rule queues_ok_mono [OF ok(3) w])
    fix b show "waiting ?c b \<subseteq> dom (callbacks ?c)"
      using order_trans [OF w waiting_live [OF ok(3)]] by simp
  qed (use ok(3) e in \<open>auto simp: queues_ok_def split: if_splits\<close>)
  note fr = free_okD [OF ok(2)]
  have na: "(m, a) \<notin> set ps" for m
    using fr(2) fr(3) [OF e(1)] e(1,2) by fastforce
  show "free_ok ?c (ps @ [(n, a)])"
    unfolding free_ok_def
  proof (intro conjI allI impI)
    show "fl_rep (freeList ?c) (ps @ [(n, a)])" using fl by simp
  next
    fix m b assume "(m, b) \<in> set (ps @ [(n, a)])"
    then consider "(m, b) \<in> set ps" "b \<noteq> a" | "m = n" "b = a" using na by auto
    then show "\<exists>f. entries ?c b = Some f \<and> ce_freeListRef f = Some m"
      using fr(2) by cases auto
  next
    fix b f assume "entries ?c b = Some f"
    then show "(ce_refCount f = 0) = (ce_freeListRef f \<noteq> None)" using fr(3) by (auto split: if_splits)
  next
    fix b f m assume f: "entries ?c b = Some f" "ce_freeListRef f = Some m"
    then show "(m, b) \<in> set (ps @ [(n, a)])" using fr(4) by (auto split: if_splits)
  qed
qed

end
