(* ===== verification/CacheOps.thy ===== *)
theory CacheOps
  imports CacheInv
begin

text \<open>
  What each operation of the cache does in a state that satisfies the invariant: the exact
  result of the loops over queued callbacks and over the free list, and for every operation
  that it returns without a fault and keeps the invariant.
\<close>

section \<open>Eviction\<close>

text \<open>The assignments of one round of \<open>cleanup\<close>.\<close>

definition forget :: "addr \<Rightarrow> cache_entry \<Rightarrow> addr fast_fifo \<Rightarrow> 'cb cache \<Rightarrow> 'cb cache" where
  "forget a e fl c =
     delete_name (ce_name e)
       (c\<lparr>freeList := fl,
          cacheMap := filter (\<lambda>(k, a). Some k \<noteq> ce_name e) (cacheMap c),
          entries := (entries c)(a := None),
          mem_log := mem_log c @ [ReadFreed a],
          freed_bufs := freed_bufs c @ data_bufs e\<rparr>)"

lemma cleanup_loop_idle: "\<not> spaceFreed < space \<Longrightarrow> cleanup_loop (Suc fuel) space spaceFreed c = Inr (spaceFreed, c)"
  by simp

lemma cleanup_loop_empty:
  "spaceFreed < space \<Longrightarrow> ff_pop (freeList c) = Inr (None, fl) \<Longrightarrow>
     cleanup_loop (Suc fuel) space spaceFreed c = Inr (spaceFreed, c\<lparr>freeList := fl\<rparr>)"
  by simp

lemma cleanup_loop_round:
  assumes "spaceFreed < space" "ff_pop (freeList c) = Inr (Some (Some a), fl)" "entries c a = Some e"
    and "ce_refCount e = 0" "bufs_ok c"
  shows "cleanup_loop (Suc fuel) space spaceFreed c = cleanup_loop fuel space (spaceFreed + ce_size e) (forget a e fl c)"
proof -
  let ?c = "c\<lparr>freeList := fl, cacheMap := filter (\<lambda>(k, a). Some k \<noteq> ce_name e) (cacheMap c),
      entries := (entries c)(a := None), mem_log := mem_log c @ [ReadFreed a]\<rparr>"
  have "set (data_bufs e) \<inter> set (freed_bufs c) = {}" using bufs_okD(2) [OF assms(5), of a] assms(3) by simp
  then have "deallocate e ?c = Inr (forget a e fl c)"
    using deallocate_ok [of e ?c] by (simp add: forget_def)
  then show ?thesis using assms(1-4) by (simp add: Let_def)
qed

lemma forget_simps [simp]:
  "freeList (forget a e fl c) = fl"
  "cacheMap (forget a e fl c) = filter (\<lambda>(k, a). Some k \<noteq> ce_name e) (cacheMap c)"
  "entries (forget a e fl c) = (entries c)(a := None)"
  "mem_log (forget a e fl c) = mem_log c @ [ReadFreed a]"
  "currentSize (forget a e fl c) = currentSize c"
  "sizeQuota (forget a e fl c) = sizeQuota c"
  "callbacks (forget a e fl c) = callbacks c"
  "next_addr (forget a e fl c) = next_addr c"
  "live_names (forget a e fl c) = live_names c - (if ce_name e = None then 0 else 1)"
  "freed_bufs (forget a e fl c) = freed_bufs c @ data_bufs e"
  by (auto simp: forget_def delete_name_def split: option.splits)

lemma forget_bufs:
  assumes "bufs_ok c" "entries c a = Some e"
  shows "bufs_ok (forget a e fl c)" "owned_bufs (forget a e fl c) = owned_bufs c"
proof -
  have "entry_bufs (forget a e fl c) = (entry_bufs c)(a := [])" by (simp add: entry_bufs_def fun_eq_iff)
  moreover have "freed_bufs (forget a e fl c) = freed_bufs c @ entry_bufs c a" using assms(2) by simp
  ultimately show "bufs_ok (forget a e fl c)" "owned_bufs (forget a e fl c) = owned_bufs c"
    using bufs_free [OF assms(1)] by blast+
qed

lemma filter_key_neq:
  assumes "distinct (map fst m)" "distinct (map snd m)" "(k, a) \<in> set m"
  shows "filter (\<lambda>(k', a'). k' \<noteq> k) m = filter (\<lambda>(k', a'). a' \<noteq> a) m"
    and "length (filter (\<lambda>(k', a'). k' \<noteq> k) m) = length m - 1"
    and "snd ` set (filter (\<lambda>(k', a'). k' \<noteq> k) m) = snd ` set m - {a}"
proof -
  obtain xs ys where m: "m = xs @ (k, a) # ys" using split_list [OF assms(3)] by blast
  have k: "k \<notin> fst ` set xs" "k \<notin> fst ` set ys" and a: "a \<notin> snd ` set xs" "a \<notin> snd ` set ys"
    using assms(1,2) unfolding m by auto
  have f: "filter (\<lambda>(k', a'). k' \<noteq> k) zs = zs" if "k \<notin> fst ` set zs" for zs :: "('a \<times> 'b) list"
    using that by (induction zs) auto
  have g: "filter (\<lambda>(k', a'). a' \<noteq> a) zs = zs" if "a \<notin> snd ` set zs" for zs :: "('a \<times> 'b) list"
    using that by (induction zs) auto
  show "filter (\<lambda>(k', a'). k' \<noteq> k) m = filter (\<lambda>(k', a'). a' \<noteq> a) m"
    unfolding m using f [OF k(1)] f [OF k(2)] g [OF a(1)] g [OF a(2)] by simp
  show "length (filter (\<lambda>(k', a'). k' \<noteq> k) m) = length m - 1"
    unfolding m using f [OF k(1)] f [OF k(2)] by simp
  show "snd ` set (filter (\<lambda>(k', a'). k' \<noteq> k) m) = snd ` set m - {a}"
    unfolding m using f [OF k(1)] f [OF k(2)] a by auto
qed

lemma cache_ok_evict:
  assumes ok: "cache_ok c ((n, a) # ps)" and e: "entries c a = Some e" and fl: "fl_rep fl ps"
  shows "cache_ok (forget a e fl c) ps"
proof (rule cache_okI)
  note ok = cache_okD [OF ok]
  note fr = free_okD [OF ok(2)]
  let ?c = "forget a e fl c"
  have T: "distinct (map fst (cacheMap c))" "distinct (map snd (cacheMap c))"
    "dom (entries c) = snd ` set (cacheMap c)"
    "\<And>k b f. (k, b) \<in> set (cacheMap c) \<Longrightarrow> entries c b = Some f \<Longrightarrow> ce_name f = Some k"
    using ok(1) unfolding table_ok_def by blast+
  have "a \<in> snd ` set (cacheMap c)" using e T(3) by blast
  then obtain k where k: "(k, a) \<in> set (cacheMap c)" by force
  have nm: "ce_name e = Some k" using T(4) [OF k e] .
  note F = filter_key_neq [OF T(1,2) k]
  have map: "cacheMap ?c = filter (\<lambda>(k', a'). k' \<noteq> k) (cacheMap c)" by (simp add: nm)
  have D: "distinct (map fst (cacheMap ?c))" "distinct (map snd (cacheMap ?c))"
    unfolding map using T(1,2) by (simp_all add: distinct_map_filter)
  have dom: "dom (entries ?c) = snd ` set (cacheMap ?c)"
    unfolding map F(3) using T(3) by auto
  have nam: "ce_name f = Some k'" if "(k', b) \<in> set (cacheMap ?c)" "entries ?c b = Some f" for k' b f
    using that T(4) by (auto split: if_splits)
  show "table_ok ?c" unfolding table_ok_def using D dom nam by blast
  have len: "length (cacheMap c) > 0" using k by (cases "cacheMap c") auto
  have "length (cacheMap ?c) = length (cacheMap c) - 1" unfolding map by (rule F(2))
  then have "int (length (cacheMap ?c)) = int (length (cacheMap c)) - 1" using len by linarith
  then show "heap_ok ?c"
    using ok(4) nm unfolding heap_ok_def by auto
  have w: "waiting ?c b \<subseteq> waiting c b" for b by (auto simp: waiting_def)
  show "queues_ok ?c"
  proof (rule queues_ok_mono [OF ok(3) w])
    fix b show "waiting ?c b \<subseteq> dom (callbacks ?c)"
      using order_trans [OF w waiting_live [OF ok(3)]] by simp
  qed (use queues_okD [OF ok(3)] in \<open>auto split: if_splits\<close>)
  have d: "distinct (map fst ((n, a) # ps))" by (rule fl_rep_distinct [OF fr(1)])
  have ra: "ce_freeListRef e = Some n" using fr(2) [of n a] e by auto
  have na: "(m, a) \<notin> set ps" for m
    using d ra fr(2) [of m a] e by (force simp: image_iff)
  show "free_ok ?c ps"
    unfolding free_ok_def
  proof (intro conjI allI impI)
    show "fl_rep (freeList ?c) ps" using fl by simp
  next
    fix m b assume m: "(m, b) \<in> set ps"
    then have "b \<noteq> a" using na by auto
    then show "\<exists>f. entries ?c b = Some f \<and> ce_freeListRef f = Some m" using fr(2) [of m b] m by auto
  next
    fix b f assume "entries ?c b = Some f"
    then show "(ce_refCount f = 0) = (ce_freeListRef f \<noteq> None)" using fr(3) by (auto split: if_splits)
  next
    fix b f m assume f: "entries ?c b = Some f" "ce_freeListRef f = Some m"
    then have "(m, b) \<in> set ((n, a) # ps)" "b \<noteq> a" using fr(4) by (auto split: if_splits)
    then show "(m, b) \<in> set ps" by simp
  qed
qed

text \<open>
  The entries that a cleanup evicts, given the sizes: the shortest prefix of the free list
  whose sizes reach \<open>space\<close>, or all of it.
\<close>

fun evict :: "('a \<Rightarrow> size_t) \<Rightarrow> size_t \<Rightarrow> size_t \<Rightarrow> 'a list \<Rightarrow> 'a list" where
  "evict sz space spaceFreed [] = []"
| "evict sz space spaceFreed (a # as) =
     (if spaceFreed < space then a # evict sz space (spaceFreed + sz a) as else [])"

definition entry_size :: "'cb cache \<Rightarrow> addr \<Rightarrow> size_t" where
  "entry_size c a = (case entries c a of None \<Rightarrow> 0 | Some e \<Rightarrow> ce_size e)"

lemma evict_prefix: "\<exists>n. evict sz space f as = take n as"
proof (induction as arbitrary: f)
  case (Cons a as)
  then obtain n where "evict sz space (f + sz a) as = take n as" by blast
  then show ?case by (cases "f < space") (auto intro: exI [of _ "Suc n"] exI [of _ 0])
qed simp

lemma evict_take: "evict sz space f as = take (length (evict sz space f as)) as"
proof -
  obtain n where n: "evict sz space f as = take n as" using evict_prefix by blast
  show ?thesis unfolding n by (cases "n \<le> length as") simp_all
qed

lemma evict_subset: "set (evict sz space f as) \<subseteq> set as"
  using evict_prefix [of sz space f as] set_take_subset by metis

lemma evict_cong: "(\<And>a. a \<in> set as \<Longrightarrow> sz a = sz' a) \<Longrightarrow> evict sz space f as = evict sz' space f as"
  by (induction as arbitrary: f) auto

lemma free_distinct:
  assumes "free_ok c ps" shows "distinct (map snd ps)"
proof -
  note fr = free_okD [OF assms]
  have "inj_on snd (set ps)"
  proof (rule inj_onI)
    fix p q assume pq: "p \<in> set ps" "q \<in> set ps" "snd p = snd q"
    obtain m a m' a' where [simp]: "p = (m, a)" "q = (m', a')" by (cases p, cases q)
    show "p = q" using fr(2) [of m a] fr(2) [of m' a'] pq by auto
  qed
  moreover have "distinct ps" using fl_rep_distinct [OF fr(1)] by (simp add: distinct_map)
  ultimately show ?thesis by (simp add: distinct_map)
qed

definition after_cleanup :: "'cb cache \<Rightarrow> addr list \<Rightarrow> 'cb cache \<Rightarrow> bool" where
  "after_cleanup c ev c' \<longleftrightarrow>
     entries c' = entries c |` (- set ev) \<and>
     cacheMap c' = filter (\<lambda>(k, a). a \<notin> set ev) (cacheMap c) \<and>
     mem_log c' = mem_log c @ map ReadFreed ev \<and>
     freed_bufs c' = freed_bufs c @ concat (map (entry_bufs c) ev) \<and>
     callbacks c' = callbacks c \<and> currentSize c' = currentSize c \<and> sizeQuota c' = sizeQuota c"

lemma after_cleanup_forget:
  assumes ok: "cache_ok c ((n, a) # ps)" and e: "entries c a = Some e"
    and ev: "a \<notin> set ev" and c': "after_cleanup (forget a e fl c) ev c'"
  shows "after_cleanup c (a # ev) c'"
proof -
  note T = cache_okD(1) [OF ok, unfolded table_ok_def]
  have "a \<in> snd ` set (cacheMap c)" using e T by blast
  then obtain k where k: "(k, a) \<in> set (cacheMap c)" by force
  have nm: "ce_name e = Some k" using T k e by blast
  have "filter (\<lambda>(k', a'). k' \<noteq> k) (cacheMap c) = filter (\<lambda>(k', a'). a' \<noteq> a) (cacheMap c)"
    by (rule filter_key_neq(1)) (use T k in auto)
  moreover have "concat (map (entry_bufs (forget a e fl c)) ev) = concat (map (entry_bufs c) ev)"
    using ev by (auto simp: entry_bufs_def intro!: arg_cong [of _ _ concat])
  moreover have "((entries c)(a := None)) |` (- set ev) = entries c |` (- set (a # ev))"
    by (auto simp: restrict_map_def fun_eq_iff)
  moreover have "entry_bufs c a = data_bufs e"
    using e by simp
  ultimately show ?thesis
    using c' nm unfolding after_cleanup_def by (auto intro!: filter_cong)
qed

lemma cleanup_loop_ok:
  "cache_ok c ps \<Longrightarrow> bufs_ok c \<Longrightarrow> length ps < fuel \<Longrightarrow> ev = evict (entry_size c) space f (map snd ps) \<Longrightarrow>
     \<exists>c'. cleanup_loop fuel space f c = Inr (f + sum_list (map (entry_size c) ev), c') \<and>
       cache_ok c' (drop (length ev) ps) \<and> bufs_ok c' \<and> owned_bufs c' = owned_bufs c \<and> after_cleanup c ev c'"
proof (induction ps arbitrary: c fuel f ev)
  case Nil
  then obtain k where k: "fuel = Suc k" by (cases fuel) auto
  have "ff_pop (freeList c) = Inr (None, freeList c)"
    using fl_pop_empty free_okD(1) cache_okD(2) Nil by blast
  then have "cleanup_loop fuel space f c = Inr (f, c)" by (cases "f < space") (simp_all add: k)
  then show ?case using Nil by (auto simp: after_cleanup_def restrict_map_def fun_eq_iff)
next
  case (Cons p ps)
  obtain n a where p: "p = (n, a)" by (cases p)
  obtain k where k: "fuel = Suc k" "length ps < k" using Cons.prems by (cases fuel) auto
  show ?case
  proof (cases "f < space")
    case False
    then show ?thesis
      using Cons.prems by (auto simp: k after_cleanup_def restrict_map_def fun_eq_iff)
  next
    case True
    note ok = Cons.prems(1) [unfolded p]
    note fr = free_okD [OF cache_okD(2) [OF ok]]
    obtain e where e: "entries c a = Some e" "ce_freeListRef e = Some n" using fr(2) [of n a] by auto
    have r0: "ce_refCount e = 0" using fr(3) [OF e(1)] e(2) by simp
    obtain fl where fl: "ff_pop (freeList c) = Inr (Some (Some a), fl)" "fl_rep fl ps"
      using fl_pop [OF fr(1)] .
    let ?c = "forget a e fl c"
    have ok1: "cache_ok ?c ps" by (rule cache_ok_evict [OF ok e(1) fl(2)])
    note b1 = forget_bufs [OF Cons.prems(2) e(1), of fl]
    have na: "a \<notin> set (map snd ps)" using free_distinct [OF cache_okD(2) [OF ok]] by simp
    have sz: "entry_size ?c b = entry_size c b" if "b \<in> set (map snd ps)" for b
      using that na by (auto simp: entry_size_def)
    let ?ev = "evict (entry_size c) space (f + ce_size e) (map snd ps)"
    have ev1: "?ev = evict (entry_size ?c) space (f + ce_size e) (map snd ps)"
      by (rule evict_cong) (rule sz [symmetric])
    have sub: "set ?ev \<subseteq> set (map snd ps)" by (rule evict_subset)
    have ea: "a \<notin> set ?ev" using sub na by blast
    have sa: "entry_size c a = ce_size e" using e(1) by (simp add: entry_size_def)
    have ev: "ev = a # ?ev" using Cons.prems(4) True by (simp add: p sa)
    obtain c' where c': "cleanup_loop k space (f + ce_size e) ?c =
          Inr (f + ce_size e + sum_list (map (entry_size ?c) ?ev), c')"
        "cache_ok c' (drop (length ?ev) ps)" "bufs_ok c'" "owned_bufs c' = owned_bufs ?c" "after_cleanup ?c ?ev c'"
      using Cons.IH [OF ok1 b1(1) k(2) ev1] by blast
    have mp: "map (entry_size ?c) ?ev = map (entry_size c) ?ev"
      by (intro map_cong refl sz) (use sub in blast)
    have "cleanup_loop fuel space f c = Inr (f + sum_list (map (entry_size c) ev), c')"
      using c'(1) [unfolded mp] cleanup_loop_round [OF True fl(1) e(1) r0 Cons.prems(2)]
      by (simp add: k ev sa add.assoc del: cleanup_loop.simps)
    moreover have "after_cleanup c ev c'" unfolding ev
      by (rule after_cleanup_forget [OF ok e(1) ea c'(5)])
    ultimately show ?thesis using c'(2-4) b1(2) by (auto simp: ev p)
  qed
qed

section \<open>The loops over queued callbacks\<close>

lemma restrict_drop: "(m(p := None)) |` (- A) = m |` (- insert p A)"
  by (auto simp: restrict_map_def fun_eq_iff)

lemma restrict_UNIV [simp]: "m |` UNIV = m"
  by (auto simp: restrict_map_def fun_eq_iff)

text \<open>The callback objects behind a list of live callback pointers.\<close>

definition cbs_at :: "'cb cache \<Rightarrow> addr list \<Rightarrow> 'cb list" where
  "cbs_at c ps = map (\<lambda>p. the (callbacks c p)) ps"

lemma put_loop_quiet:
  "quiet call g \<Longrightarrow> entries c a = Some e \<Longrightarrow> distinct ps \<Longrightarrow> set ps \<subseteq> dom (callbacks c) \<Longrightarrow>
     put_loop call a data ps (c, w) =
       Inr (c\<lparr>entries := (entries c)(a \<mapsto> e\<lparr>ce_refCount := ce_refCount e + length ps\<rparr>),
              callbacks := callbacks c |` (- set ps)\<rparr>,
            fold (\<lambda>cb. g cb data) (cbs_at c ps) w)"
proof (induction ps arbitrary: c e w)
  case Nil
  have "(entries c)(a \<mapsto> e) = entries c" using Nil by auto
  then show ?case by (simp add: cbs_at_def)
next
  case (Cons p ps)
  obtain cb where cb: "callbacks c p = Some cb" using Cons.prems by auto
  let ?en = "(entries c)(a \<mapsto> e\<lparr>ce_refCount := ce_refCount e + 1\<rparr>)"
  let ?cs = "(callbacks c)(p := None)"
  let ?c = "c\<lparr>entries := ?en, callbacks := ?cs\<rparr>"
  have en: "?en(a \<mapsto> x) = (entries c)(a \<mapsto> x)" for x by (rule fun_upd_upd)
  have cs: "?cs |` (- set ps) = callbacks c |` (- set (p # ps))" by (simp only: restrict_drop list.set)
  have at: "cbs_at ?c ps = cbs_at c ps"
    using Cons.prems(3) by (auto simp: cbs_at_def)
  have d: "set ps \<subseteq> dom (callbacks ?c)" using Cons.prems(3,4) by auto
  have f: "entries ?c = ?en" "callbacks ?c = ?cs"
      "ce_refCount (e\<lparr>ce_refCount := x\<rparr>) = x" "e\<lparr>ce_refCount := x\<rparr>\<lparr>ce_refCount := y\<rparr> = e\<lparr>ce_refCount := y\<rparr>" for x y
    by simp_all
  have "put_loop call a data ps (?c, g cb data w) =
      Inr (?c\<lparr>entries := (entries ?c)(a \<mapsto> e\<lparr>ce_refCount := ce_refCount e + 1\<rparr>\<lparr>ce_refCount :=
                 ce_refCount (e\<lparr>ce_refCount := ce_refCount e + 1\<rparr>) + length ps\<rparr>),
              callbacks := callbacks ?c |` (- set ps)\<rparr>, fold (\<lambda>cb. g cb data) (cbs_at ?c ps) (g cb data w))"
    by (rule Cons.IH [OF Cons.prems(1) _ _ d]) (use Cons.prems(3) in simp_all)
  then have "put_loop call a data ps (?c, g cb data w) =
      Inr (?c\<lparr>entries := ?en(a \<mapsto> e\<lparr>ce_refCount := ce_refCount e + 1 + length ps\<rparr>),
              callbacks := ?cs |` (- set ps)\<rparr>, fold (\<lambda>cb. g cb data) (cbs_at ?c ps) (g cb data w))"
    unfolding f .
  also have "\<dots> = Inr (c\<lparr>entries := (entries c)(a \<mapsto> e\<lparr>ce_refCount := ce_refCount e + length (p # ps)\<rparr>),
              callbacks := callbacks c |` (- set (p # ps))\<rparr>, fold (\<lambda>cb. g cb data) (cbs_at c (p # ps)) w)"
    unfolding en cs at by (simp add: cbs_at_def cb)
  finally have "put_loop call a data ps (?c, g cb data w) = \<dots>" .
  moreover have "put_loop call a data (p # ps) (c, w) = put_loop call a data ps (?c, g cb data w)"
    using Cons.prems(1,2) cb by (simp add: update_entry_def invoke_def delete_callback_def)
  ultimately show ?case by (simp only:)
qed

lemma cancel_loop_quiet:
  "quiet call g \<Longrightarrow> distinct ps \<Longrightarrow> set ps \<subseteq> dom (callbacks c) \<Longrightarrow>
     cancel_loop call ps (c, w) =
       Inr (c\<lparr>callbacks := callbacks c |` (- set ps)\<rparr>,
            fold (\<lambda>cb. g cb (CacheData None 0 False)) (cbs_at c ps) w)"
proof (induction ps arbitrary: c w)
  case Nil
  then show ?case by (simp add: cbs_at_def)
next
  case (Cons p ps)
  obtain cb where cb: "callbacks c p = Some cb" using Cons.prems by auto
  let ?c = "c\<lparr>callbacks := (callbacks c)(p := None)\<rparr>"
  have at: "cbs_at ?c ps = cbs_at c ps" using Cons.prems(2) by (auto simp: cbs_at_def)
  have cs: "(callbacks c)(p := None) |` (- set ps) = callbacks c |` (- set (p # ps))"
    by (simp only: restrict_drop list.set)
  have d: "set ps \<subseteq> dom (callbacks ?c)" using Cons.prems(2,3) by auto
  have "cancel_loop call ps (?c, g cb (CacheData None 0 False) w) =
      Inr (?c\<lparr>callbacks := callbacks ?c |` (- set ps)\<rparr>,
           fold (\<lambda>cb. g cb (CacheData None 0 False)) (cbs_at ?c ps) (g cb (CacheData None 0 False) w))"
    by (rule Cons.IH [OF Cons.prems(1) _ d]) (use Cons.prems(2) in simp)
  also have "\<dots> = Inr (c\<lparr>callbacks := callbacks c |` (- set (p # ps))\<rparr>,
           fold (\<lambda>cb. g cb (CacheData None 0 False)) (cbs_at c (p # ps)) w)"
    unfolding at using cs by (simp add: cbs_at_def cb)
  finally have "cancel_loop call ps (?c, g cb (CacheData None 0 False) w) = \<dots>" .
  moreover have "cancel_loop call (p # ps) (c, w) = cancel_loop call ps (?c, g cb (CacheData None 0 False) w)"
    using Cons.prems(1) cb by (simp add: invoke_def delete_callback_def)
  ultimately show ?case by (simp only:)
qed

section \<open>The operations, case by case\<close>

text \<open>The state after the private copy of a key was made, and after it was deleted again.\<close>

definition copied :: "string \<Rightarrow> 'cb cache \<Rightarrow> 'cb cache" where
  "copied key c = c\<lparr>mem_log := mem_log c @ [HeapOverflow (length key)]\<rparr>"

lemma new_name_eq: "new_name key c = (key, (copied key c)\<lparr>live_names := live_names c + 1\<rparr>)"
  by (simp add: new_name_def strCpy_eq copied_def)

lemma copied_simps [simp]:
  "cacheMap (copied k c) = cacheMap c" "entries (copied k c) = entries c"
  "callbacks (copied k c) = callbacks c" "currentSize (copied k c) = currentSize c"
  "sizeQuota (copied k c) = sizeQuota c" "freeList (copied k c) = freeList c"
  "next_addr (copied k c) = next_addr c" "live_names (copied k c) = live_names c"
  "freed_bufs (copied k c) = freed_bufs c"
  "find_entry k' (copied k c) = find_entry k' c"
  "cache_ok (copied k c) ps = cache_ok c ps" "bufs_ok (copied k c) = bufs_ok c"
  "entry_bufs (copied k c) = entry_bufs c" "owned_bufs (copied k c) = owned_bufs c"
  by (simp_all add: copied_def find_entry_def owned_bufs_def entry_bufs_def fun_eq_iff)

lemma find_entry_update [simp]:
  "find_entry k (c\<lparr>live_names := x\<rparr>) = find_entry k c"
  "find_entry k (c\<lparr>mem_log := l\<rparr>) = find_entry k c"
  "find_entry k (c\<lparr>entries := en\<rparr>) = find_entry k c"
  "find_entry k (c\<lparr>callbacks := cb\<rparr>) = find_entry k c"
  "find_entry k (c\<lparr>freeList := fl\<rparr>) = find_entry k c"
  "find_entry k (c\<lparr>currentSize := sz\<rparr>) = find_entry k c"
  by (simp_all add: find_entry_def)

lemma put_fresh:
  assumes "find_entry key c = None"
  shows "Cache_put call key buf sz (c, w) =
    Inr (True, (insert_entry key (CacheEntry_new key buf sz) (copied key c))
                 \<lparr>live_names := live_names c + 1, currentSize := currentSize c + sz\<rparr>, w)"
  using assms by (simp add: Cache_put_def new_name_eq insert_entry_def)

lemma put_occupied:
  assumes "find_entry key c = Some a" "entries c a = Some e" "\<not> ce_isReserved e"
  shows "Cache_put call key buf sz (c, w) = Inr (False, copied key c, w)"
  using assms by (simp add: Cache_put_def new_name_eq delete_name_def copied_def)

text \<open>The state after a reserved entry got its buffer and its queue was served.\<close>

definition put_served :: "string \<Rightarrow> addr option \<Rightarrow> size_t \<Rightarrow> addr \<Rightarrow> cache_entry \<Rightarrow> 'cb cache \<Rightarrow> 'cb cache" where
  "put_served key buf sz a e c =
     (copied key c)\<lparr>
       entries := (entries c)(a \<mapsto> e\<lparr>ce_data := buf, ce_size := sz,
           ce_refCount := ce_refCount e + length (ce_queue e), ce_isReserved := False\<rparr>),
       callbacks := callbacks c |` (- set (ce_queue e))\<rparr>"

lemma put_reserved:
  assumes q: "quiet call g" and k: "find_entry key c = Some a" "entries c a = Some e" "ce_isReserved e"
    and d: "distinct (ce_queue e)" "set (ce_queue e) \<subseteq> dom (callbacks c)"
  shows "Cache_put call key buf sz (c, w) =
    Inr (True, put_served key buf sz a e c,
         fold (\<lambda>cb. g cb (CacheData buf sz True)) (cbs_at c (ce_queue e)) w)"
proof -
  let ?c = "(copied key c)\<lparr>live_names := live_names c + 1, entries := (entries c)(a \<mapsto> e\<lparr>ce_data := buf, ce_size := sz\<rparr>)\<rparr>"
  have "put_loop call a (CacheData buf sz True) (ce_queue e) (?c, w) =
       Inr (?c\<lparr>entries := (entries ?c)(a \<mapsto> e\<lparr>ce_data := buf, ce_size := sz, ce_refCount := ce_refCount e + length (ce_queue e)\<rparr>),
              callbacks := callbacks ?c |` (- set (ce_queue e))\<rparr>,
            fold (\<lambda>cb. g cb (CacheData buf sz True)) (cbs_at ?c (ce_queue e)) w)"
    using put_loop_quiet [OF q, of ?c a "e\<lparr>ce_data := buf, ce_size := sz\<rparr>" "ce_queue e"] d by simp
  then show ?thesis
    using k by (simp add: Cache_put_def new_name_eq update_entry_def delete_name_def cbs_at_def copied_def put_served_def)
qed

lemma get_absent:
  assumes "find_entry key c = None" "callbacks c p = Some cb"
  shows "Cache_get call key (Some p) (c, w) = Inr (False, c\<lparr>callbacks := (callbacks c)(p := None)\<rparr>, w)"
  using assms by (simp add: Cache_get_def delete_callback_def)

lemma get_reserved:
  assumes "find_entry key c = Some a" "entries c a = Some e" "ce_isReserved e"
  shows "Cache_get call key (Some p) (c, w) =
    Inr (True, c\<lparr>entries := (entries c)(a \<mapsto> e\<lparr>ce_queue := ce_queue e @ [p]\<rparr>)\<rparr>, w)"
  using assms by (simp add: Cache_get_def update_entry_def)

lemma get_in_use:
  assumes "quiet call g" "find_entry key c = Some a" "entries c a = Some e" "\<not> ce_isReserved e"
    and "ce_freeListRef e = None" "callbacks c p = Some cb"
  shows "Cache_get call key (Some p) (c, w) =
    Inr (True, c\<lparr>entries := (entries c)(a \<mapsto> e\<lparr>ce_refCount := ce_refCount e + 1\<rparr>),
                  callbacks := (callbacks c)(p := None)\<rparr>,
         g cb (CacheData (ce_data e) (ce_size e) True) w)"
  using assms by (simp add: Cache_get_def update_entry_def invoke_def delete_callback_def)

lemma get_free:
  assumes "quiet call g" "find_entry key c = Some a" "entries c a = Some e" "\<not> ce_isReserved e"
    and "ce_freeListRef e = Some n" "callbacks c p = Some cb" "ff_removeNode (Some n) (freeList c) = Inr fl"
  shows "Cache_get call key (Some p) (c, w) =
    Inr (True, c\<lparr>entries := (entries c)(a \<mapsto> e\<lparr>ce_refCount := ce_refCount e + 1, ce_freeListRef := None\<rparr>),
                  freeList := fl, callbacks := (callbacks c)(p := None)\<rparr>,
         g cb (CacheData (ce_data e) (ce_size e) True) w)"
  using assms by (simp add: Cache_get_def update_entry_def invoke_def delete_callback_def)

lemma reserve_fresh:
  assumes "find_entry key c = None"
  shows "Cache_reserve key c =
    Inr (True, (insert_entry key (CacheEntry_reserved key) (copied key c))\<lparr>live_names := live_names c + 1\<rparr>)"
  using assms by (simp add: Cache_reserve_def new_name_eq insert_entry_def)

lemma reserve_reserved:
  assumes "find_entry key c = Some a" "entries c a = Some e" "ce_isReserved e"
  shows "Cache_reserve key c = Inr (False, copied key c)"
  using assms by (simp add: Cache_reserve_def new_name_eq delete_name_def copied_def)

lemma reserve_occupied:
  assumes "find_entry key c = Some a" "entries c a = Some e" "\<not> ce_isReserved e"
  shows "Cache_reserve key c =
    Inr (True, (copied key c)\<lparr>entries := (entries c)(a \<mapsto> e\<lparr>ce_isReserved := True\<rparr>)\<rparr>)"
  using assms by (simp add: Cache_reserve_def new_name_eq delete_name_def copied_def update_entry_def)

lemma cancel_reserved:
  assumes q: "quiet call g" and k: "find_entry key c = Some a" "entries c a = Some e" "ce_isReserved e"
    and d: "distinct (ce_queue e)" "set (ce_queue e) \<subseteq> dom (callbacks c)"
  shows "Cache_cancelReservation call key (c, w) =
    Inr (True, c\<lparr>entries := (entries c)(a \<mapsto> e\<lparr>ce_isReserved := False\<rparr>),
                  callbacks := callbacks c |` (- set (ce_queue e))\<rparr>,
         fold (\<lambda>cb. g cb (CacheData None 0 False)) (cbs_at c (ce_queue e)) w)"
  using k d cancel_loop_quiet [OF q d(1), of "c\<lparr>entries := (entries c)(a \<mapsto> e\<lparr>ce_isReserved := False\<rparr>)\<rparr>" w]
  by (simp add: Cache_cancelReservation_def update_entry_def cbs_at_def)

lemma cancel_other:
  assumes "find_entry key c = None \<or> (find_entry key c = Some a \<and> entries c a = Some e \<and> \<not> ce_isReserved e)"
  shows "Cache_cancelReservation call key (c, w) = Inr (False, c, w)"
  using assms by (auto simp: Cache_cancelReservation_def)

lemma entry_bufs_currentSize: "entry_bufs (c\<lparr>currentSize := x\<rparr>) = entry_bufs c"
  by (simp add: entry_bufs_def fun_eq_iff)

lemma cleanup_ok:
  assumes ok: "cache_ok c ps" and bo: "bufs_ok c"
    and ev_def: "ev = evict (entry_size c) space 0 (map snd ps)"
  obtains c' where "Cache_cleanup space c = Inr c'" "cache_ok c' (drop (length ev) ps)"
    "after_cleanup (c\<lparr>currentSize := currentSize c - sum_list (map (entry_size c) ev)\<rparr>) ev c'"
    "bufs_ok c'" "owned_bufs c' = owned_bufs c"
proof -
  have "length ps < Suc (ff_brk (freeList c))"
    using ff_rep_length [OF free_okD(1) [OF cache_okD(2) [OF ok], unfolded fl_rep_def]] by simp
  then obtain c' where c': "cleanup_loop (Suc (ff_brk (freeList c))) space 0 c =
        Inr (0 + sum_list (map (entry_size c) ev), c')"
      "cache_ok c' (drop (length ev) ps)" "bufs_ok c'" "owned_bufs c' = owned_bufs c" "after_cleanup c ev c'"
    using cleanup_loop_ok [OF ok bo _ refl, of "Suc (ff_brk (freeList c))" space 0] unfolding ev_def by blast
  let ?d = "c'\<lparr>currentSize := currentSize c' - sum_list (map (entry_size c) ev)\<rparr>"
  have "Cache_cleanup space c = Inr ?d"
    using c'(1) by (simp add: Cache_cleanup_def del: cleanup_loop.simps)
  moreover have "after_cleanup (c\<lparr>currentSize := currentSize c - sum_list (map (entry_size c) ev)\<rparr>) ev ?d"
    using c'(5) by (simp add: after_cleanup_def entry_bufs_currentSize)
  ultimately show ?thesis using that c'(2-4) by simp
qed

text \<open>\<open>doneWith\<close> gives a reference back, then cleans up when the quota is exceeded.\<close>

definition trim :: "'cb cache \<Rightarrow> fault + 'cb cache" where
  "trim c = (if sizeQuota c < currentSize c then Cache_cleanup (currentSize c - sizeQuota c) c else Inr c)"

lemma done_shared:
  assumes "find_entry key c = Some a" "entries c a = Some e" "ce_refCount e > 1"
  shows "Cache_doneWith key c =
    trim (c\<lparr>entries := (entries c)(a \<mapsto> e\<lparr>ce_refCount := ce_refCount e - 1\<rparr>)\<rparr>)"
  using assms by (simp add: Cache_doneWith_def update_entry_def trim_def)

lemma done_last:
  assumes "find_entry key c = Some a" "entries c a = Some e" "ce_refCount e = 1"
    and "ff_push (Some a) (freeList c) = Inr (n, fl)"
  shows "Cache_doneWith key c =
    trim (c\<lparr>freeList := fl, entries := (entries c)(a \<mapsto> e\<lparr>ce_refCount := 0, ce_freeListRef := Some n\<rparr>)\<rparr>)"
  using assms by (simp add: Cache_doneWith_def update_entry_def trim_def)

lemma done_absent: "find_entry key c = None \<Longrightarrow> Cache_doneWith key c = Inl AssertFailed"
  by (simp add: Cache_doneWith_def)

lemma done_unreferenced:
  "find_entry key c = Some a \<Longrightarrow> entries c a = Some e \<Longrightarrow> ce_refCount e = 0 \<Longrightarrow>
     Cache_doneWith key c = Inl AssertFailed"
  by (simp add: Cache_doneWith_def)

end
