(* ===== verification/CacheSpec.thy ===== *)
theory CacheSpec
  imports CacheOps
begin

text \<open>
  The cache as its clients see it: keys with a buffer and a reference count, or reserved with
  the callbacks that wait; the keys without references in the order in which they became
  free; the bytes accounted for; the buffers the cache took over and those it freed; and the
  memory errors that the code makes on its way. Buffers are the client's addresses; entries,
  nodes and callback objects have none here. The
  section on simulation proves that the operations of \<open>CacheStore\<close> implement this
  specification for every client that follows the protocol \<open>allowed\<close>.
\<close>

section \<open>The specification\<close>

datatype 'cb slot =
    Reserved nat "'cb list"
  | Present "addr option" size_t nat

text \<open>
  The two memory errors of the cache: the private copy of a key of this length is written
  past its end, and an entry is used after \<open>erase\<close> destroyed it on eviction.
\<close>

datatype a_error = KeyOverflow nat | EvictedUse

record 'cb acache =
  a_quota :: size_t
  a_used :: size_t
  a_slots :: "string \<rightharpoonup> 'cb slot"
  a_free :: "string list"
  a_freed :: "addr list"
  a_owned :: "addr set"
  a_log :: "a_error list"

fun slot_size :: "'cb slot option \<Rightarrow> size_t" where
  "slot_size (Some (Present b sz n)) = sz"
| "slot_size _ = 0"

fun slot_bufs :: "'cb slot option \<Rightarrow> addr list" where
  "slot_bufs (Some (Present (Some b) sz n)) = [b]"
| "slot_bufs _ = []"

definition a_put :: "('cb \<Rightarrow> cache_data \<Rightarrow> 'w \<Rightarrow> 'w) \<Rightarrow> string \<Rightarrow> addr option \<Rightarrow> size_t
    \<Rightarrow> 'cb acache \<times> 'w \<Rightarrow> bool \<times> 'cb acache \<times> 'w" where
  "a_put g k b sz = (\<lambda>(A, w).
     case a_slots A k of
       None \<Rightarrow>
         (True, A\<lparr>a_slots := (a_slots A)(k \<mapsto> Present b sz 1), a_used := a_used A + sz,
                 a_owned := set_option b \<union> a_owned A, a_log := a_log A @ [KeyOverflow (length k)]\<rparr>, w)
     | Some (Reserved n cbs) \<Rightarrow>
         (True, A\<lparr>a_slots := (a_slots A)(k \<mapsto> Present b sz (n + length cbs)),
                 a_owned := set_option b \<union> a_owned A, a_log := a_log A @ [KeyOverflow (length k)]\<rparr>,
          fold (\<lambda>cb. g cb (CacheData b sz True)) cbs w)
     | Some (Present _ _ _) \<Rightarrow> (False, A\<lparr>a_log := a_log A @ [KeyOverflow (length k)]\<rparr>, w))"

definition a_get :: "('cb \<Rightarrow> cache_data \<Rightarrow> 'w \<Rightarrow> 'w) \<Rightarrow> string \<Rightarrow> 'cb
    \<Rightarrow> 'cb acache \<times> 'w \<Rightarrow> bool \<times> 'cb acache \<times> 'w" where
  "a_get g k cb = (\<lambda>(A, w).
     case a_slots A k of
       None \<Rightarrow> (False, A, w)
     | Some (Reserved n cbs) \<Rightarrow>
         (True, A\<lparr>a_slots := (a_slots A)(k \<mapsto> Reserved n (cbs @ [cb]))\<rparr>, w)
     | Some (Present b sz n) \<Rightarrow>
         (True, A\<lparr>a_slots := (a_slots A)(k \<mapsto> Present b sz (n + 1)), a_free := filter (\<lambda>k'. k' \<noteq> k) (a_free A)\<rparr>,
          g cb (CacheData b sz True) w))"

definition a_reserve :: "string \<Rightarrow> 'cb acache \<Rightarrow> bool \<times> 'cb acache" where
  "a_reserve k A =
     (if a_slots A k = None
      then (True, A\<lparr>a_slots := (a_slots A)(k \<mapsto> Reserved 1 []), a_log := a_log A @ [KeyOverflow (length k)]\<rparr>)
      else (False, A\<lparr>a_log := a_log A @ [KeyOverflow (length k)]\<rparr>))"

definition a_cancel :: "('cb \<Rightarrow> cache_data \<Rightarrow> 'w \<Rightarrow> 'w) \<Rightarrow> string
    \<Rightarrow> 'cb acache \<times> 'w \<Rightarrow> bool \<times> 'cb acache \<times> 'w" where
  "a_cancel g k = (\<lambda>(A, w).
     case a_slots A k of
       Some (Reserved n cbs) \<Rightarrow>
         (True, A\<lparr>a_slots := (a_slots A)(k \<mapsto> Present None 0 n)\<rparr>,
          fold (\<lambda>cb. g cb (CacheData None 0 False)) cbs w)
     | _ \<Rightarrow> (False, A, w))"

text \<open>Giving a reference back, and eviction in the order of the free list.\<close>

definition a_release :: "string \<Rightarrow> 'cb acache \<Rightarrow> 'cb acache" where
  "a_release k A =
     (case a_slots A k of
        Some (Present b sz n) \<Rightarrow>
          A\<lparr>a_slots := (a_slots A)(k \<mapsto> Present b sz (n - 1)),
            a_free := (if n = 1 then a_free A @ [k] else a_free A)\<rparr>
      | _ \<Rightarrow> A)"

definition a_evicted :: "'cb acache \<Rightarrow> string list" where
  "a_evicted A =
     (if a_quota A < a_used A
      then evict (\<lambda>k. slot_size (a_slots A k)) (a_used A - a_quota A) 0 (a_free A) else [])"

definition a_trim :: "'cb acache \<Rightarrow> 'cb acache" where
  "a_trim A =
     (let ev = a_evicted A in
      A\<lparr>a_slots := a_slots A |` (- set ev), a_free := drop (length ev) (a_free A),
        a_used := a_used A - sum_list (map (\<lambda>k. slot_size (a_slots A k)) ev),
        a_freed := a_freed A @ concat (map (\<lambda>k. slot_bufs (a_slots A k)) ev),
        a_log := a_log A @ map (\<lambda>k. EvictedUse) ev\<rparr>)"

definition a_done :: "string \<Rightarrow> 'cb acache \<Rightarrow> 'cb acache" where
  "a_done k A = a_trim (a_release k A)"

section \<open>Clients\<close>

text \<open>The calls a client makes; \<open>get\<close> hands over a callback object that it allocates.\<close>

datatype 'cb cache_op =
    Put string "addr option" size_t
  | Get string 'cb
  | Reserve string
  | Cancel string
  | Done string

fun cache_exec :: "('cb, 'w) callback_call \<Rightarrow> 'cb cache_op \<Rightarrow> 'cb cache \<times> 'w \<Rightarrow> fault + (bool \<times> 'cb cache \<times> 'w)" where
  "cache_exec call (Put k b sz) s = Cache_put call k b sz s"
| "cache_exec call (Get k cb) s =
     (let (p, c) = new_callback cb (fst s) in Cache_get call k (Some p) (c, snd s))"
| "cache_exec call (Reserve k) s = and_then (Cache_reserve k (fst s)) (\<lambda>(r, c). Inr (r, c, snd s))"
| "cache_exec call (Cancel k) s = Cache_cancelReservation call k s"
| "cache_exec call (Done k) s = and_then (Cache_doneWith k (fst s)) (\<lambda>c. Inr (True, c, snd s))"

fun a_exec :: "('cb \<Rightarrow> cache_data \<Rightarrow> 'w \<Rightarrow> 'w) \<Rightarrow> 'cb cache_op \<Rightarrow> 'cb acache \<times> 'w \<Rightarrow> bool \<times> 'cb acache \<times> 'w" where
  "a_exec g (Put k b sz) s = a_put g k b sz s"
| "a_exec g (Get k cb) s = a_get g k cb s"
| "a_exec g (Reserve k) s = (let (r, A) = a_reserve k (fst s) in (r, A, snd s))"
| "a_exec g (Cancel k) s = a_cancel g k s"
| "a_exec g (Done k) s = (True, a_done k (fst s), snd s)"

text \<open>
  The protocol: \<open>reserve\<close> is for keys whose buffer the cache does not have, \<open>doneWith\<close>
  needs a reference to a buffer, and a buffer is handed to the cache once: a \<open>put\<close> that the
  cache accepts comes with a buffer that it never took over before (under another key, or to
  free it). Everything else may be called at any time.
\<close>

fun allowed :: "'cb cache_op \<Rightarrow> 'cb acache \<Rightarrow> bool" where
  "allowed (Reserve k) A = (case a_slots A k of Some (Present _ _ _) \<Rightarrow> False | _ \<Rightarrow> True)"
| "allowed (Done k) A = (case a_slots A k of Some (Present _ _ n) \<Rightarrow> n > 0 | _ \<Rightarrow> False)"
| "allowed (Put k b sz) A =
     (case a_slots A k of Some (Present _ _ _) \<Rightarrow> True | _ \<Rightarrow> set_option b \<inter> a_owned A = {})"
| "allowed _ A = True"

fun cache_run :: "('cb, 'w) callback_call \<Rightarrow> 'cb cache_op list \<Rightarrow> 'cb cache \<times> 'w
    \<Rightarrow> fault + (bool list \<times> 'cb cache \<times> 'w)" where
  "cache_run call [] s = Inr ([], s)"
| "cache_run call (op # ops) s =
     and_then (cache_exec call op s) (\<lambda>(r, s).
     and_then (cache_run call ops s) (\<lambda>(rs, s). Inr (r # rs, s)))"

fun a_run :: "('cb \<Rightarrow> cache_data \<Rightarrow> 'w \<Rightarrow> 'w) \<Rightarrow> 'cb cache_op list \<Rightarrow> 'cb acache \<times> 'w
    \<Rightarrow> bool list \<times> 'cb acache \<times> 'w" where
  "a_run g [] s = ([], s)"
| "a_run g (op # ops) s =
     (let (r, s) = a_exec g op s; (rs, s) = a_run g ops s in (r # rs, s))"

fun allowed_run :: "('cb \<Rightarrow> cache_data \<Rightarrow> 'w \<Rightarrow> 'w) \<Rightarrow> 'cb cache_op list \<Rightarrow> 'cb acache \<times> 'w \<Rightarrow> bool" where
  "allowed_run g [] s = True"
| "allowed_run g (op # ops) s = (allowed op (fst s) \<and> allowed_run g ops (snd (a_exec g op s)))"

definition a_new :: "size_t \<Rightarrow> 'cb acache" where
  "a_new quota = \<lparr>a_quota = quota, a_used = 0, a_slots = Map.empty, a_free = [],
     a_freed = [], a_owned = {}, a_log = []\<rparr>"

section \<open>The abstraction of a concrete cache\<close>

definition slot_of :: "'cb cache \<Rightarrow> cache_entry \<Rightarrow> 'cb slot" where
  "slot_of c e =
     (if ce_isReserved e then Reserved (ce_refCount e) (cbs_at c (ce_queue e))
      else Present (ce_data e) (ce_size e) (ce_refCount e))"

definition slots :: "'cb cache \<Rightarrow> string \<rightharpoonup> 'cb slot" where
  "slots c k = (case find_entry k c of None \<Rightarrow> None | Some a \<Rightarrow> map_option (slot_of c) (entries c a))"

definition key_at :: "'cb cache \<Rightarrow> addr \<Rightarrow> string" where
  "key_at c a = the (ce_name (the (entries c a)))"

fun error_of :: "mem_error \<Rightarrow> a_error" where
  "error_of (HeapOverflow n) = KeyOverflow n"
| "error_of (ReadFreed a) = EvictedUse"

definition cache_abs :: "'cb cache \<Rightarrow> (addr \<times> addr) list \<Rightarrow> 'cb acache" where
  "cache_abs c ps =
     \<lparr>a_quota = sizeQuota c, a_used = currentSize c, a_slots = slots c, a_free = map (key_at c) (map snd ps),
      a_freed = freed_bufs c, a_owned = owned_bufs c, a_log = map error_of (mem_log c)\<rparr>"

lemma cache_abs_simps [simp]:
  "a_quota (cache_abs c ps) = sizeQuota c"
  "a_used (cache_abs c ps) = currentSize c"
  "a_slots (cache_abs c ps) = slots c"
  "a_free (cache_abs c ps) = map (key_at c) (map snd ps)"
  "a_freed (cache_abs c ps) = freed_bufs c"
  "a_owned (cache_abs c ps) = owned_bufs c"
  "a_log (cache_abs c ps) = map error_of (mem_log c)"
  by (simp_all add: cache_abs_def)

lemma cache_abs_eqI:
  "sizeQuota c' = a_quota A \<Longrightarrow> currentSize c' = a_used A \<Longrightarrow> slots c' = a_slots A \<Longrightarrow>
   map (key_at c') (map snd ps) = a_free A \<Longrightarrow> freed_bufs c' = a_freed A \<Longrightarrow> owned_bufs c' = a_owned A \<Longrightarrow>
   map error_of (mem_log c') = a_log A \<Longrightarrow> cache_abs c' ps = A"
  by (simp add: cache_abs_def)

lemma slots_None: "cache_ok c ps \<Longrightarrow> slots c k = None \<longleftrightarrow> find_entry k c = None"
  by (cases "find_entry k c") (auto simp: slots_def elim: find_entry_Some)

lemma slots_Some: "find_entry k c = Some a \<Longrightarrow> entries c a = Some e \<Longrightarrow> slots c k = Some (slot_of c e)"
  by (simp add: slots_def)

lemma slots_cases:
  assumes "cache_ok c ps" "slots c k = Some s"
  obtains a e where "find_entry k c = Some a" "entries c a = Some e" "s = slot_of c e" "ce_name e = Some k"
    "(k, a) \<in> set (cacheMap c)"
  using assms by (auto simp: slots_def split: option.splits elim: find_entry_Some)

lemma key_at_entry: "entries c a = Some e \<Longrightarrow> ce_name e = Some k \<Longrightarrow> key_at c a = k"
  by (simp add: key_at_def)

lemma find_entry_inj:
  assumes "cache_ok c ps" "find_entry k c = Some a" "find_entry k' c = Some a"
  shows "k = k'"
proof -
  obtain e where "entries c a = Some e" "ce_name e = Some k" using find_entry_Some [OF assms(1,2)] .
  moreover obtain e' where "entries c a = Some e'" "ce_name e' = Some k'" using find_entry_Some [OF assms(1,3)] .
  ultimately show ?thesis by simp
qed

lemma find_key_at:
  assumes ok: "cache_ok c ps" and e: "entries c a = Some e"
  shows "find_entry (key_at c a) c = Some a"
proof -
  note T = cache_okD(1) [OF ok]
  have "a \<in> snd ` set (cacheMap c)" using T e unfolding table_ok_def by blast
  then obtain k where k: "(k, a) \<in> set (cacheMap c)" by force
  then have "ce_name e = Some k" using T e unfolding table_ok_def by blast
  then show ?thesis using k e find_entry_iff [OF T] by (simp add: key_at_def)
qed

text \<open>A change to the entry of one key, with the callbacks that the other keys wait for kept.\<close>

lemma slots_upd:
  assumes ok: "cache_ok c ps" and k: "find_entry k c' = Some a" "entries c' a = Some e"
    and same: "\<forall>k'. k' \<noteq> k \<longrightarrow> find_entry k' c' = find_entry k' c"
    and en: "\<forall>b. b \<noteq> a \<longrightarrow> entries c' b = entries c b"
    and a: "find_entry k c = Some a \<or> entries c a = None"
    and cb: "\<forall>b p. b \<noteq> a \<longrightarrow> p \<in> waiting c b \<longrightarrow> callbacks c' p = callbacks c p"
  shows "slots c' = (slots c)(k \<mapsto> slot_of c' e)"
proof (rule ext)
  fix k'
  show "slots c' k' = ((slots c)(k \<mapsto> slot_of c' e)) k'"
  proof (cases "k' = k")
    case True
    then show ?thesis using k by (simp add: slots_def)
  next
    case False
    show ?thesis
    proof (cases "find_entry k' c")
      case None
      then show ?thesis using False same by (simp add: slots_def)
    next
      case (Some b)
      obtain f where f: "entries c b = Some f" using find_entry_Some [OF ok Some] .
      have b: "b \<noteq> a"
        using a Some False find_entry_inj [OF ok Some, of k] f by auto
      then have w: "\<forall>p \<in> waiting c b. callbacks c' p = callbacks c p" using cb by blast
      have "slot_of c' f = slot_of c f"
        using w unfolding slot_of_def cbs_at_def waiting_Some [OF f] by simp
      moreover have "find_entry k' c' = Some b" "entries c' b = Some f"
        using False same en b Some f by metis+
      ultimately show ?thesis using Some f False by (simp add: slots_def)
    qed
  qed
qed

text \<open>A change that keeps the names of the entries on the free list.\<close>

lemma free_keys_cong:
  assumes ok: "cache_ok c ps" and sub: "set as \<subseteq> set (map snd ps)"
    and nm: "\<forall>a e. a \<in> set as \<longrightarrow> entries c a = Some e \<longrightarrow> (\<exists>e'. entries c' a = Some e' \<and> ce_name e' = ce_name e)"
  shows "map (key_at c') as = map (key_at c) as"
proof (rule map_cong [OF refl])
  fix a assume a: "a \<in> set as"
  then obtain n where "(n, a) \<in> set ps" using sub by auto
  then obtain e where e: "entries c a = Some e" using free_okD(2) [OF cache_okD(2) [OF ok]] by blast
  then obtain e' where "entries c' a = Some e'" "ce_name e' = ce_name e" using nm a by blast
  then show "key_at c' a = key_at c a" using e by (simp add: key_at_def)
qed

section \<open>Simulation\<close>

lemma slot_of_update [simp]:
  "slot_of (c\<lparr>entries := en\<rparr>) = slot_of c"
  "slot_of (c\<lparr>live_names := x\<rparr>) = slot_of c"
  "slot_of (c\<lparr>currentSize := sz\<rparr>) = slot_of c"
  "slot_of (c\<lparr>freeList := fl\<rparr>) = slot_of c"
  "slot_of (c\<lparr>next_addr := na\<rparr>) = slot_of c"
  "slot_of (copied k c) = slot_of c"
  "slot_of (insert_entry k e' c) = slot_of c"
  by (simp_all add: fun_eq_iff slot_of_def cbs_at_def insert_entry_def)

lemma find_entry_insert:
  "find_entry k c = None \<Longrightarrow> find_entry k' (insert_entry k e c) = (if k' = k then Some (next_addr c) else find_entry k' c)"
  by (auto simp: find_entry_def insert_entry_def map_add_def split: option.splits)

lemma slots_insert:
  assumes ok: "cache_ok c ps" and k: "find_entry k c = None"
  shows "slots ((insert_entry k e (copied k c))\<lparr>live_names := x\<rparr>) = (slots c)(k \<mapsto> slot_of c e)"
proof -
  have new: "entries c (next_addr c) = None"
    using cache_okD(4) [OF ok] unfolding heap_ok_def by (cases "entries c (next_addr c)") auto
  show ?thesis
    using slots_upd [OF ok, where k = k and a = "next_addr c" and e = e
        and c' = "(insert_entry k e (copied k c))\<lparr>live_names := x\<rparr>"] k new
    by (simp add: find_entry_insert) (simp add: insert_entry_def)
qed

lemma free_keys_insert:
  assumes ok: "cache_ok c ps"
  shows "map (key_at ((insert_entry k e (copied k c))\<lparr>live_names := x\<rparr>)) (map snd ps) = map (key_at c) (map snd ps)"
proof (rule free_keys_cong [OF ok], simp, intro allI impI)
  fix a f assume "entries c a = Some f"
  moreover have "a \<noteq> next_addr c"
    using cache_okD(4) [OF ok] calculation unfolding heap_ok_def by (metis UnI1 domI less_irrefl)
  ultimately show "\<exists>e'. entries ((insert_entry k e (copied k c))\<lparr>live_names := x\<rparr>) a = Some e' \<and> ce_name e' = ce_name f"
    by (simp add: insert_entry_def)
qed

lemma insert_bufs:
  assumes ok: "cache_ok c ps" and bo: "bufs_ok c" and b: "set_option (ce_data e) \<inter> owned_bufs c = {}"
    and c': "entries c' = (entries c)(next_addr c \<mapsto> e)" "freed_bufs c' = freed_bufs c"
  shows "bufs_ok c'" "owned_bufs c' = set_option (ce_data e) \<union> owned_bufs c"
proof -
  have "entries c (next_addr c) = None"
    using cache_okD(4) [OF ok] unfolding heap_ok_def by (cases "entries c (next_addr c)") auto
  then show "bufs_ok c'" "owned_bufs c' = set_option (ce_data e) \<union> owned_bufs c"
    using bufs_take [OF bo c'(1) _ b c'(2)] by simp_all
qed

text \<open>One step of the simulation: the result, the invariant and the abstraction.\<close>

definition simulates :: "fault + (bool \<times> 'cb cache \<times> 'w) \<Rightarrow> bool \<times> 'cb acache \<times> 'w \<Rightarrow> bool" where
  "simulates m x \<longleftrightarrow> (\<exists>r c w ps. m = Inr (r, c, w) \<and> cache_ok c ps \<and> bufs_ok c \<and> x = (r, cache_abs c ps, w))"

lemma simulatesI:
  "m = Inr (r, c, w) \<Longrightarrow> cache_ok c ps \<Longrightarrow> bufs_ok c \<Longrightarrow> x = (r, cache_abs c ps, w) \<Longrightarrow> simulates m x"
  unfolding simulates_def by blast

lemma copied_slots [simp]:
  "slots (copied k c) = slots c"
  "key_at (copied k c) = key_at c"
  "waiting (copied k c) = waiting c"
  "map error_of (mem_log (copied k c)) = map error_of (mem_log c) @ [KeyOverflow (length k)]"
  by (simp_all add: slots_def key_at_def waiting_def fun_eq_iff split: option.split) (simp add: copied_def)

lemma cache_abs_copied:
  "cache_abs (copied k c) ps = (cache_abs c ps)\<lparr>a_log := map error_of (mem_log c) @ [KeyOverflow (length k)]\<rparr>"
  by (simp add: cache_abs_def)

lemma currentSize_irrelevant [simp]:
  "slots (c\<lparr>currentSize := x\<rparr>) = slots c"
  "key_at (c\<lparr>currentSize := x\<rparr>) = key_at c"
  by (simp_all add: slots_def key_at_def fun_eq_iff split: option.split)

text \<open>
  The entry of one key gets new contents under the same name, and callbacks that no other key
  waits for may be deleted.
\<close>

lemma slots_set:
  assumes ok: "cache_ok c ps" and k: "find_entry k c = Some a"
    and cb: "\<forall>b p. b \<noteq> a \<longrightarrow> p \<in> waiting c b \<longrightarrow> cbs p = callbacks c p"
  shows "slots (c\<lparr>entries := (entries c)(a \<mapsto> e), callbacks := cbs\<rparr>) = (slots c)(k \<mapsto> slot_of (c\<lparr>callbacks := cbs\<rparr>) e)"
  using slots_upd [OF ok, where k = k and a = a and e = e and c' = "c\<lparr>entries := (entries c)(a \<mapsto> e), callbacks := cbs\<rparr>"]
    k cb by (simp add: slot_of_def cbs_at_def)

lemma slots_set_entry:
  assumes ok: "cache_ok c ps" and k: "find_entry k c = Some a"
  shows "slots (c\<lparr>entries := (entries c)(a \<mapsto> e)\<rparr>) = (slots c)(k \<mapsto> slot_of c e)"
  using slots_upd [OF ok, where k = k and a = a and e = e and c' = "c\<lparr>entries := (entries c)(a \<mapsto> e)\<rparr>"] k
  by simp

lemma free_keys_set:
  assumes ok: "cache_ok c ps" and sub: "set as \<subseteq> set (map snd ps)"
    and e: "entries c a = Some e" "ce_name e' = ce_name e" "entries c' = (entries c)(a \<mapsto> e')"
  shows "map (key_at c') as = map (key_at c) as"
  by (rule free_keys_cong [OF ok sub]) (use e in auto)

lemma waiting_other:
  assumes "cache_ok c ps" "entries c a = Some e" "ce_isReserved e"
  shows "\<forall>b p. b \<noteq> a \<longrightarrow> p \<in> waiting c b \<longrightarrow> (callbacks c |` (- set (ce_queue e))) p = callbacks c p"
proof (intro allI impI)
  fix b p assume b: "b \<noteq> a" "p \<in> waiting c b"
  have "waiting c a \<inter> waiting c b = {}"
    using cache_okD(3) [OF assms(1)] b(1) unfolding queues_ok_def by blast
  then have "p \<notin> set (ce_queue e)" using b(2) assms(2,3) by (auto simp: waiting_Some)
  then show "(callbacks c |` (- set (ce_queue e))) p = callbacks c p" by (simp add: restrict_map_def)
qed

lemma queue_live:
  assumes "cache_ok c ps" "entries c a = Some e" "ce_isReserved e"
  shows "distinct (ce_queue e)" "set (ce_queue e) \<subseteq> dom (callbacks c)" "reserved_ok e"
  using queues_okD [OF cache_okD(3) [OF assms(1)] assms(2,3)] waiting_live [OF cache_okD(3) [OF assms(1)], of a]
    assms(2,3) by (simp_all add: waiting_Some reserved_ok_def)

text \<open>The queue of an entry that is no longer reserved is deleted with its callbacks.\<close>

lemma cache_ok_served:
  assumes ok: "cache_ok c ps" and e: "entries c a = Some e" "ce_isReserved e"
    and e': "ce_name e' = ce_name e" "ce_refCount e' \<noteq> 0" "ce_freeListRef e' = ce_freeListRef e" "\<not> ce_isReserved e'"
  shows "cache_ok (c\<lparr>entries := (entries c)(a \<mapsto> e'), callbacks := callbacks c |` (- set (ce_queue e))\<rparr>) ps"
proof -
  let ?c = "c\<lparr>entries := (entries c)(a \<mapsto> e')\<rparr>"
  have ok': "cache_ok ?c ps"
    by (rule cache_ok_update [OF ok e(1)]) (use queue_live(3) [OF ok e] e' in \<open>simp_all add: reserved_ok_def\<close>)
  have w: "waiting ?c = (waiting c)(a := {})" using e' by (simp add: waiting_upd)
  have d: "waiting c b \<inter> set (ce_queue e) = {}" if "b \<noteq> a" for b
  proof -
    have "waiting c b \<inter> waiting c a = {}"
      using cache_okD(3) [OF ok] that unfolding queues_ok_def by blast
    then show ?thesis using e by (simp add: waiting_Some)
  qed
  have "cache_ok (?c\<lparr>callbacks := callbacks c |` (- set (ce_queue e))\<rparr>) ps"
  proof (rule cache_ok_delete_callbacks [OF ok'])
    fix b
    show "waiting ?c b \<subseteq> dom (callbacks c |` (- set (ce_queue e)))"
      using d [of b] waiting_live [OF cache_okD(3) [OF ok], of b] unfolding w by (cases "b = a") auto
  qed auto
  then show ?thesis by simp
qed

lemma sim_put_fresh:
  assumes ok: "cache_ok c ps" and bo: "bufs_ok c" and k: "find_entry k c = None"
    and b: "set_option b \<inter> owned_bufs c = {}"
  shows "simulates (Cache_put call k b sz (c, w)) (a_put g k b sz (cache_abs c ps, w))"
proof (rule simulatesI [OF put_fresh [OF k]])
  let ?c = "(insert_entry k (CacheEntry_new k b sz) (copied k c))\<lparr>live_names := live_names c + 1\<rparr>"
  have "cache_ok ?c ps"
    using cache_ok_insert [of "copied k c" ps k "CacheEntry_new k b sz"] ok k by (simp add: CacheEntry_new_def)
  then show "cache_ok (?c\<lparr>currentSize := currentSize c + sz\<rparr>) ps" by simp
  have bufs: "bufs_ok ?c" "owned_bufs ?c = set_option b \<union> owned_bufs c"
    using insert_bufs [OF ok bo, of "CacheEntry_new k b sz" ?c] b by (simp_all add: insert_entry_def CacheEntry_new_def)
  then show "bufs_ok (?c\<lparr>currentSize := currentSize c + sz\<rparr>)" by simp
  have "cache_abs (?c\<lparr>currentSize := currentSize c + sz\<rparr>) ps =
      (cache_abs c ps)\<lparr>a_slots := (slots c)(k \<mapsto> Present b sz 1), a_used := currentSize c + sz,
        a_owned := set_option b \<union> owned_bufs c, a_log := map error_of (mem_log c) @ [KeyOverflow (length k)]\<rparr>"
    by (rule cache_abs_eqI, unfold currentSize_irrelevant slots_insert [OF ok k] free_keys_insert [OF ok] bufs cache_ok_irrelevant)
      (simp_all add: insert_entry_def slot_of_def CacheEntry_new_def)
  then show "a_put g k b sz (cache_abs c ps, w) = (True, cache_abs (?c\<lparr>currentSize := currentSize c + sz\<rparr>) ps, w)"
    using k slots_None [OF ok, of k] by (simp add: a_put_def)
qed

lemma put_served_state:
  assumes ok: "cache_ok c ps"
    and k: "find_entry k c = Some a" "entries c a = Some e" "ce_isReserved e"
  shows "cache_ok (put_served k b sz a e c) ps"
    and "slots (put_served k b sz a e c) = (slots c)(k \<mapsto> Present b sz (ce_refCount e + length (ce_queue e)))"
proof -
  let ?e = "e\<lparr>ce_data := b, ce_size := sz, ce_refCount := ce_refCount e + length (ce_queue e), ce_isReserved := False\<rparr>"
  let ?cs = "callbacks c |` (- set (ce_queue e))"
  have ok': "cache_ok (copied k c) ps" using ok by simp
  show "cache_ok (put_served k b sz a e c) ps"
    using cache_ok_served [OF ok', of a e ?e] k queue_live(3) [OF ok k(2,3)]
    by (simp add: reserved_ok_def put_served_def)
  show "slots (put_served k b sz a e c) = (slots c)(k \<mapsto> Present b sz (ce_refCount e + length (ce_queue e)))"
    using slots_set [OF ok', of k a ?cs ?e] k waiting_other [OF ok k(2,3)]
    by (simp add: slot_of_def waiting_def put_served_def)
qed

lemma put_served_bufs:
  assumes bo: "bufs_ok c" and ok: "cache_ok c ps" and e: "entries c a = Some e" "ce_isReserved e"
    and b: "set_option b \<inter> owned_bufs c = {}"
  shows "bufs_ok (put_served k b sz a e c)" "owned_bufs (put_served k b sz a e c) = set_option b \<union> owned_bufs c"
proof -
  let ?e = "e\<lparr>ce_data := b, ce_size := sz, ce_refCount := ce_refCount e + length (ce_queue e), ce_isReserved := False\<rparr>"
  have "entry_bufs c a = []" using queue_live(3) [OF ok e] e(1) by (simp add: reserved_ok_def)
  then show "bufs_ok (put_served k b sz a e c)" "owned_bufs (put_served k b sz a e c) = set_option b \<union> owned_bufs c"
    using bufs_take [OF bo, of "put_served k b sz a e c" a ?e] b by (simp_all add: put_served_def)
qed

lemma sim_put_reserved:
  assumes ok: "cache_ok c ps" and bo: "bufs_ok c" and b: "set_option b \<inter> owned_bufs c = {}" and q: "quiet call g"
    and k: "find_entry k c = Some a" "entries c a = Some e" "ce_isReserved e"
  shows "simulates (Cache_put call k b sz (c, w)) (a_put g k b sz (cache_abs c ps, w))"
proof (rule simulatesI [OF put_reserved [OF q k queue_live(1,2) [OF ok k(2,3)]] put_served_state(1) [OF ok k]
      put_served_bufs(1) [OF bo ok k(2,3) b]])
  let ?e = "e\<lparr>ce_data := b, ce_size := sz, ce_refCount := ce_refCount e + length (ce_queue e), ce_isReserved := False\<rparr>"
  let ?c = "put_served k b sz a e c"
  have f: "map (key_at ?c) (map snd ps) = map (key_at c) (map snd ps)"
    by (rule free_keys_set [OF ok, where a = a and e = e and e' = ?e]) (use k in \<open>simp_all add: put_served_def\<close>)
  have "cache_abs ?c ps = (cache_abs c ps)\<lparr>a_slots := (slots c)(k \<mapsto> Present b sz (ce_refCount e + length (ce_queue e))),
      a_owned := set_option b \<union> owned_bufs c, a_log := map error_of (mem_log c) @ [KeyOverflow (length k)]\<rparr>"
    by (rule cache_abs_eqI, unfold put_served_state(2) [OF ok k] f put_served_bufs(2) [OF bo ok k(2,3) b])
      (simp_all add: put_served_def)
  then show "a_put g k b sz (cache_abs c ps, w) =
      (True, cache_abs ?c ps, fold (\<lambda>cb. g cb (CacheData b sz True)) (cbs_at c (ce_queue e)) w)"
    using k by (simp add: a_put_def slots_Some slot_of_def) (simp add: cbs_at_def)
qed

lemma sim_put:
  assumes ok: "cache_ok c ps" and bo: "bufs_ok c" and q: "quiet call g" and al: "allowed (Put k b sz) (cache_abs c ps)"
  shows "simulates (Cache_put call k b sz (c, w)) (a_put g k b sz (cache_abs c ps, w))"
proof (cases "find_entry k c")
  case None
  moreover have "set_option b \<inter> owned_bufs c = {}" using al None slots_None [OF ok, of k] by simp
  ultimately show ?thesis by (rule sim_put_fresh [OF ok bo])
next
  case (Some a)
  obtain e where e: "entries c a = Some e" using find_entry_Some [OF ok Some] .
  show ?thesis
  proof (cases "ce_isReserved e")
    case True
    have "set_option b \<inter> owned_bufs c = {}" using al True by (simp add: slots_Some [OF Some e] slot_of_def)
    then show ?thesis by (rule sim_put_reserved [OF ok bo _ q Some e True])
  next
    case False
    show ?thesis
      by (rule simulatesI [OF put_occupied [OF Some e False], of ps])
        (use ok bo False in \<open>simp_all add: a_put_def slots_Some [OF Some e] slot_of_def cache_abs_copied\<close>)
  qed
qed

text \<open>A fresh callback object changes nothing the client can see.\<close>

lemma slots_callbacks:
  assumes ok: "cache_ok c ps" and cb: "\<forall>b. \<forall>p \<in> waiting c b. cbs p = callbacks c p"
  shows "slots (c\<lparr>callbacks := cbs\<rparr>) = slots c"
proof (rule ext)
  fix k
  show "slots (c\<lparr>callbacks := cbs\<rparr>) k = slots c k"
  proof (cases "find_entry k c")
    case None
    then show ?thesis by (simp add: slots_def)
  next
    case (Some a)
    obtain e where e: "entries c a = Some e" using find_entry_Some [OF ok Some] .
    have "\<forall>p \<in> waiting c a. cbs p = callbacks c p" using cb by blast
    then have "slot_of (c\<lparr>callbacks := cbs\<rparr>) e = slot_of c e"
      unfolding slot_of_def cbs_at_def waiting_Some [OF e] by simp
    then show ?thesis using Some e by (simp add: slots_def)
  qed
qed

lemma next_addr_fresh:
  assumes "cache_ok c ps"
  shows "next_addr c \<notin> waiting c b" "callbacks c (next_addr c) = None"
proof -
  have "next_addr c \<notin> dom (callbacks c)"
    using cache_okD(4) [OF assms] unfolding heap_ok_def by blast
  then show "callbacks c (next_addr c) = None" by blast
  show "next_addr c \<notin> waiting c b"
    using waiting_live [OF cache_okD(3) [OF assms], of b] \<open>next_addr c \<notin> dom (callbacks c)\<close> by blast
qed

definition with_callback :: "'cb \<Rightarrow> 'cb cache \<Rightarrow> 'cb cache" where
  "with_callback cb c = snd (new_callback cb c)"

lemma with_callback_simps [simp]:
  "entries (with_callback cb c) = entries c" "cacheMap (with_callback cb c) = cacheMap c"
  "freeList (with_callback cb c) = freeList c" "sizeQuota (with_callback cb c) = sizeQuota c"
  "currentSize (with_callback cb c) = currentSize c"
  "callbacks (with_callback cb c) = (callbacks c)(next_addr c \<mapsto> cb)"
  "find_entry k (with_callback cb c) = find_entry k c"
  "waiting (with_callback cb c) = waiting c"
  "freed_bufs (with_callback cb c) = freed_bufs c" "mem_log (with_callback cb c) = mem_log c"
  "entry_bufs (with_callback cb c) = entry_bufs c"
  by (simp_all add: with_callback_def new_callback_def find_entry_def waiting_def entry_bufs_def fun_eq_iff)

lemma with_callback_ok:
  assumes ok: "cache_ok c ps"
  shows "cache_ok (with_callback cb c) ps" "cache_abs (with_callback cb c) ps = cache_abs c ps"
    "slots (with_callback cb c) = slots c"
proof -
  show "cache_ok (with_callback cb c) ps"
    using cache_ok_new_callback [OF ok] by (simp add: with_callback_def new_callback_def)
  have "slots (with_callback cb c) = slots (c\<lparr>callbacks := (callbacks c)(next_addr c \<mapsto> cb)\<rparr>)"
    by (simp add: slots_def slot_of_def cbs_at_def with_callback_def new_callback_def find_entry_def fun_eq_iff
        split: option.split)
  also have "\<dots> = slots c"
    by (rule slots_callbacks [OF ok]) (use next_addr_fresh [OF ok] in auto)
  finally show s: "slots (with_callback cb c) = slots c" .
  have f: "key_at (with_callback cb c) = key_at c" by (simp add: key_at_def fun_eq_iff)
  show "cache_abs (with_callback cb c) ps = cache_abs c ps"
    using bufs_same(2) [of "with_callback cb c" c] by (simp add: cache_abs_def s f)
qed

text \<open>Deleting callbacks and moving nodes of the free list leaves the buffers alone.\<close>

lemma bufs_update [simp]:
  "bufs_ok (c\<lparr>callbacks := cs\<rparr>) = bufs_ok c" "owned_bufs (c\<lparr>callbacks := cs\<rparr>) = owned_bufs c"
  "bufs_ok (c\<lparr>freeList := fl\<rparr>) = bufs_ok c" "owned_bufs (c\<lparr>freeList := fl\<rparr>) = owned_bufs c"
  "bufs_ok (with_callback cb c) = bufs_ok c" "owned_bufs (with_callback cb c) = owned_bufs c"
  by (rule bufs_same; simp add: entry_bufs_def fun_eq_iff)+

lemma live_without:
  assumes ok: "cache_ok c ps" and "waiting c' b \<subseteq> waiting c b"
  shows "waiting c' b \<subseteq> dom ((callbacks c)(next_addr c := None))"
  using waiting_live [OF cache_okD(3) [OF ok], of b] next_addr_fresh(1) [OF ok, of b] assms(2) by auto

lemma waiting_kept:
  "entries c' = (entries c)(a \<mapsto> e') \<Longrightarrow> \<not> ce_isReserved e' \<Longrightarrow> waiting c' b \<subseteq> waiting c b"
  by (auto simp: waiting_def)

lemma cache_exec_Get: "cache_exec call (Get k cb) (c, w) = Cache_get call k (Some (next_addr c)) (with_callback cb c, w)"
  by (simp add: with_callback_def new_callback_def)

lemma free_filter:
  assumes ok: "cache_ok c ps" and k: "find_entry k c = Some a"
  shows "filter (\<lambda>k'. k' \<noteq> k) (map (key_at c) (map snd ps)) = map (key_at c) (map snd (filter (\<lambda>p. snd p \<noteq> a) ps))"
proof -
  have key: "key_at c b = k \<longleftrightarrow> b = a" if b: "(n, b) \<in> set ps" for n b
  proof -
    obtain e where e: "entries c b = Some e" using free_okD(2) [OF cache_okD(2) [OF ok] b] by blast
    have f: "find_entry (key_at c b) c = Some b" by (rule find_key_at [OF ok e])
    obtain e' where e': "entries c a = Some e'" "ce_name e' = Some k" using find_entry_Some [OF ok k] .
    have "b = a" if "key_at c b = k" using f k unfolding that by simp
    then show ?thesis using key_at_entry [OF e'] by blast
  qed
  have "key_at c (snd p) \<noteq> k \<longleftrightarrow> snd p \<noteq> a" if "p \<in> set ps" for p
    using key [of "fst p" "snd p"] that by simp
  then have "filter (\<lambda>p. key_at c (snd p) \<noteq> k) ps = filter (\<lambda>p. snd p \<noteq> a) ps" by (rule filter_cong [OF refl])
  then show ?thesis by (simp add: filter_map comp_def)
qed

lemma drop_key_filter:
  assumes ok: "cache_ok c ps" and e: "entries c a = Some e"
  shows "ce_freeListRef e = Some n \<Longrightarrow> drop_key n ps = filter (\<lambda>p. snd p \<noteq> a) ps"
    and "ce_freeListRef e = None \<Longrightarrow> filter (\<lambda>p. snd p \<noteq> a) ps = ps"
proof -
  note fr = free_okD [OF cache_okD(2) [OF ok]]
  have ra: "ce_freeListRef e = Some m" if "(m, a) \<in> set ps" for m using fr(2) [OF that] e by simp
  {
    assume n: "ce_freeListRef e = Some n"
    have "fst p \<noteq> n \<longleftrightarrow> snd p \<noteq> a" if p: "p \<in> set ps" for p
    proof -
      obtain m b where p': "p = (m, b)" by (cases p)
      have na: "(n, a) \<in> set ps" by (rule fr(4) [OF e n])
      have "b = a" if "m = n"
        using eq_key_imp_eq_value [OF fl_rep_distinct [OF fr(1)] na] p that unfolding p' by blast
      moreover have "m = n" if "b = a" using ra [of m] p n that unfolding p' by simp
      ultimately show ?thesis unfolding p' by auto
    qed
    then show "drop_key n ps = filter (\<lambda>p. snd p \<noteq> a) ps" unfolding drop_key_def by (rule filter_cong [OF refl])
  next
    assume "ce_freeListRef e = None"
    then have "snd p \<noteq> a" if "p \<in> set ps" for p using ra [of "fst p"] that by (metis option.distinct(1) prod.collapse)
    then show "filter (\<lambda>p. snd p \<noteq> a) ps = ps" by (simp add: filter_id_conv)
  }
qed

lemma sim_get_absent:
  assumes ok: "cache_ok c ps" and bo: "bufs_ok c" and k: "find_entry k c = None"
  shows "simulates (cache_exec call (Get k cb) (c, w)) (a_get g k cb (cache_abs c ps, w))"
proof -
  let ?d = "with_callback cb c"
  let ?cs = "(callbacks ?d)(next_addr c := None)"
  note d = with_callback_ok [OF ok, of cb]
  have bo': "bufs_ok (?d\<lparr>callbacks := ?cs\<rparr>)" using bo by simp
  have e: "cache_exec call (Get k cb) (c, w) = Inr (False, ?d\<lparr>callbacks := ?cs\<rparr>, w)"
    unfolding cache_exec_Get by (rule get_absent) (use k in simp_all)
  have cs: "\<forall>b. \<forall>p \<in> waiting ?d b. ?cs p = callbacks ?d p" using next_addr_fresh(1) [OF ok] by auto
  have "cache_ok (?d\<lparr>callbacks := ?cs\<rparr>) ps"
    by (rule cache_ok_delete_callbacks [OF d(1)])
      (use live_without [OF ok] in auto)
  moreover have ab: "cache_abs (?d\<lparr>callbacks := ?cs\<rparr>) ps = cache_abs c ps"
    by (rule cache_abs_eqI, unfold slots_callbacks [OF d(1) cs] d(3)) (simp_all add: key_at_def)
  moreover have "a_get g k cb (cache_abs c ps, w) = (False, cache_abs c ps, w)"
    using k slots_None [OF ok, of k] by (simp add: a_get_def)
  ultimately show ?thesis by (intro simulatesI [OF e, of ps] bo') (simp only:, simp only: ab)
qed

lemma sim_get_reserved:
  assumes ok: "cache_ok c ps" and bo: "bufs_ok c" and k: "find_entry k c = Some a" "entries c a = Some e" "ce_isReserved e"
  shows "simulates (cache_exec call (Get k cb) (c, w)) (a_get g k cb (cache_abs c ps, w))"
proof -
  let ?d = "with_callback cb c"
  let ?e = "e\<lparr>ce_queue := ce_queue e @ [next_addr c]\<rparr>"
  let ?c = "?d\<lparr>entries := (entries ?d)(a \<mapsto> ?e)\<rparr>"
  note d = with_callback_ok [OF ok, of cb]
  have e: "cache_exec call (Get k cb) (c, w) = Inr (True, ?c, w)"
    unfolding cache_exec_Get by (rule get_reserved) (use k in simp_all)
  have ok': "cache_ok ?c ps"
    by (rule cache_ok_enqueue [OF d(1)]) (use k next_addr_fresh(1) [OF ok] in simp_all)
  have bufs: "bufs_ok ?c" "owned_bufs ?c = owned_bufs c"
    using bufs_same_entry [of ?c c a ?e e] bo k by simp_all
  have at: "cbs_at ?d (ce_queue e @ [next_addr c]) = cbs_at c (ce_queue e) @ [cb]"
    using queue_live(2) [OF ok k(2,3)] next_addr_fresh(2) [OF ok] by (auto simp: cbs_at_def)
  have "slots ?c = (slots ?d)(k \<mapsto> slot_of ?d ?e)"
    by (rule slots_set_entry [OF d(1)]) (use k in simp_all)
  then have s: "slots ?c = (slots c)(k \<mapsto> Reserved (ce_refCount e) (cbs_at c (ce_queue e) @ [cb]))"
    using k(3) at d(3) by (simp add: slot_of_def)
  have f: "map (key_at ?c) (map snd ps) = map (key_at c) (map snd ps)"
    by (rule free_keys_set [OF ok, where a = a and e = e and e' = ?e]) (use k in simp_all)
  have "cache_abs ?c ps = (cache_abs c ps)\<lparr>a_slots := (slots c)(k \<mapsto> Reserved (ce_refCount e) (cbs_at c (ce_queue e) @ [cb]))\<rparr>"
    by (rule cache_abs_eqI, unfold s f bufs(2)) simp_all
  then show ?thesis
    by (intro simulatesI [OF e ok' bufs(1)]) (use k in \<open>simp add: a_get_def slots_Some slot_of_def\<close>)
qed

lemma sim_get_in_use:
  assumes ok: "cache_ok c ps" and bo: "bufs_ok c" and q: "quiet call g"
    and k: "find_entry k c = Some a" "entries c a = Some e" "\<not> ce_isReserved e" "ce_freeListRef e = None"
  shows "simulates (cache_exec call (Get k cb) (c, w)) (a_get g k cb (cache_abs c ps, w))"
proof -
  let ?d = "with_callback cb c"
  let ?e = "e\<lparr>ce_refCount := ce_refCount e + 1\<rparr>"
  let ?cs = "(callbacks ?d)(next_addr c := None)"
  let ?c = "?d\<lparr>entries := (entries ?d)(a \<mapsto> ?e), callbacks := ?cs\<rparr>"
  note d = with_callback_ok [OF ok, of cb]
  have e: "cache_exec call (Get k cb) (c, w) = Inr (True, ?c, g cb (CacheData (ce_data e) (ce_size e) True) w)"
    unfolding cache_exec_Get by (rule get_in_use [OF q]) (use k in simp_all)
  have r: "ce_refCount e > 0" using free_okD(3) [OF cache_okD(2) [OF ok] k(2)] k(4) by simp
  have "cache_ok (?d\<lparr>entries := (entries ?d)(a \<mapsto> ?e)\<rparr>) ps"
    by (rule cache_ok_update [OF d(1)]) (use k r in auto)
  then have ok': "cache_ok ?c ps"
  proof (rule cache_ok_delete_callbacks)
    fix b
    have "waiting (?d\<lparr>entries := (entries ?d)(a \<mapsto> ?e)\<rparr>) b \<subseteq> waiting c b"
      by (rule waiting_kept [of _ _ a ?e]) (use k in simp_all)
    from live_without [OF ok this] show "waiting (?d\<lparr>entries := (entries ?d)(a \<mapsto> ?e)\<rparr>) b \<subseteq> dom ?cs"
      by simp
  qed auto
  have bufs: "bufs_ok ?c" "owned_bufs ?c = owned_bufs c"
    using bufs_same_entry [of ?c c a ?e e] bo k by simp_all
  have "slots ?c = (slots ?d)(k \<mapsto> slot_of (?d\<lparr>callbacks := ?cs\<rparr>) ?e)"
    by (rule slots_set [OF d(1)]) (use k next_addr_fresh(1) [OF ok] in auto)
  then have s: "slots ?c = (slots c)(k \<mapsto> Present (ce_data e) (ce_size e) (ce_refCount e + 1))"
    using k(3) d(3) by (simp add: slot_of_def)
  have f: "map (key_at ?c) (map snd ps) = map (key_at c) (map snd ps)"
    by (rule free_keys_set [OF ok, where a = a and e = e and e' = ?e]) (use k in simp_all)
  have fl: "filter (\<lambda>k'. k' \<noteq> k) (map (key_at c) (map snd ps)) = map (key_at c) (map snd ps)"
    unfolding free_filter [OF ok k(1)] drop_key_filter(2) [OF ok k(2,4)] ..
  have "cache_abs ?c ps = (cache_abs c ps)\<lparr>a_slots := (slots c)(k \<mapsto> Present (ce_data e) (ce_size e) (ce_refCount e + 1)),
      a_free := filter (\<lambda>k'. k' \<noteq> k) (map (key_at c) (map snd ps))\<rparr>"
    by (rule cache_abs_eqI, unfold s f fl bufs(2)) simp_all
  then show ?thesis
    by (intro simulatesI [OF e ok' bufs(1)]) (use k in \<open>simp add: a_get_def slots_Some slot_of_def\<close>)
qed

lemma sim_get_free:
  assumes ok: "cache_ok c ps" and bo: "bufs_ok c" and q: "quiet call g"
    and k: "find_entry k c = Some a" "entries c a = Some e" "ce_freeListRef e = Some n"
  shows "simulates (cache_exec call (Get k cb) (c, w)) (a_get g k cb (cache_abs c ps, w))"
proof -
  let ?d = "with_callback cb c"
  let ?e = "e\<lparr>ce_refCount := ce_refCount e + 1, ce_freeListRef := None\<rparr>"
  let ?cs = "(callbacks ?d)(next_addr c := None)"
  note d = with_callback_ok [OF ok, of cb]
  note fr = free_okD [OF cache_okD(2) [OF ok]]
  have r: "ce_refCount e = 0" using fr(3) [OF k(2)] k(3) by simp
  have nr: "\<not> ce_isReserved e" using queue_live(3) [OF ok k(2)] r by (auto simp: reserved_ok_def)
  obtain fl where fl: "ff_removeNode (Some n) (freeList c) = Inr fl" "fl_rep fl (drop_key n ps)"
    using fl_remove [OF fr(1) fr(4) [OF k(2,3)]] .
  let ?b = "?d\<lparr>freeList := fl, entries := (entries ?d)(a \<mapsto> ?e)\<rparr>"
  let ?c = "?d\<lparr>entries := (entries ?d)(a \<mapsto> ?e), freeList := fl, callbacks := ?cs\<rparr>"
  have e: "cache_exec call (Get k cb) (c, w) = Inr (True, ?c, g cb (CacheData (ce_data e) (ce_size e) True) w)"
    unfolding cache_exec_Get by (rule get_free [OF q]) (use k nr fl in simp_all)
  have "cache_ok ?b (drop_key n ps)"
    by (rule cache_ok_unfree [OF d(1)]) (use k fl in simp_all)
  then have "cache_ok (?b\<lparr>callbacks := ?cs\<rparr>) (drop_key n ps)"
  proof (rule cache_ok_delete_callbacks)
    fix b
    have "waiting ?b b \<subseteq> waiting c b"
      by (rule waiting_kept [of _ _ a ?e]) (use k nr in simp_all)
    from live_without [OF ok this] show "waiting ?b b \<subseteq> dom ?cs" by simp
  qed auto
  moreover have "?b\<lparr>callbacks := ?cs\<rparr> = ?c" by simp
  ultimately have ok': "cache_ok ?c (drop_key n ps)" by (simp only:)
  have bufs: "bufs_ok ?c" "owned_bufs ?c = owned_bufs c"
    using bufs_same_entry [of ?c c a ?e e] bo k by simp_all
  have "slots (?d\<lparr>entries := (entries ?d)(a \<mapsto> ?e), callbacks := ?cs\<rparr>) = (slots ?d)(k \<mapsto> slot_of (?d\<lparr>callbacks := ?cs\<rparr>) ?e)"
    by (rule slots_set [OF d(1)]) (use k next_addr_fresh(1) [OF ok] in auto)
  moreover have "slots ?c = slots (?d\<lparr>entries := (entries ?d)(a \<mapsto> ?e), callbacks := ?cs\<rparr>)"
  proof -
    have "slot_of ?c = slot_of (?d\<lparr>entries := (entries ?d)(a \<mapsto> ?e), callbacks := ?cs\<rparr>)"
      by (simp add: slot_of_def cbs_at_def fun_eq_iff)
    then show ?thesis by (intro ext) (simp add: slots_def split: option.split)
  qed
  ultimately have s: "slots ?c = (slots c)(k \<mapsto> Present (ce_data e) (ce_size e) (ce_refCount e + 1))"
    using nr d(3) r by (simp add: slot_of_def)
  have "set (map snd (drop_key n ps)) \<subseteq> set (map snd ps)" by (auto simp: set_drop_key)
  then have f: "map (key_at ?c) (map snd (drop_key n ps)) = map (key_at c) (map snd (drop_key n ps))"
    by (rule free_keys_set [OF ok, where a = a and e = e and e' = ?e]) (use k in simp_all)
  have "cache_abs ?c (drop_key n ps) = (cache_abs c ps)\<lparr>a_slots := (slots c)(k \<mapsto> Present (ce_data e) (ce_size e) (ce_refCount e + 1)),
      a_free := filter (\<lambda>k'. k' \<noteq> k) (map (key_at c) (map snd ps))\<rparr>"
    by (rule cache_abs_eqI, unfold s f bufs(2), unfold free_filter [OF ok k(1)] drop_key_filter(1) [OF ok k(2,3)]) simp_all
  then show ?thesis
    by (intro simulatesI [OF e ok' bufs(1)]) (use k nr in \<open>simp add: a_get_def slots_Some slot_of_def\<close>)
qed

lemma sim_get:
  assumes ok: "cache_ok c ps" and bo: "bufs_ok c" and q: "quiet call g"
  shows "simulates (cache_exec call (Get k cb) (c, w)) (a_get g k cb (cache_abs c ps, w))"
proof (cases "find_entry k c")
  case None
  then show ?thesis by (rule sim_get_absent [OF ok bo])
next
  case (Some a)
  obtain e where e: "entries c a = Some e" using find_entry_Some [OF ok Some] .
  consider "ce_isReserved e" | "\<not> ce_isReserved e" "ce_freeListRef e = None" | n where "ce_freeListRef e = Some n"
    by (cases "ce_freeListRef e") auto
  then show ?thesis
    using sim_get_reserved [OF ok bo Some e] sim_get_in_use [OF ok bo q Some e] sim_get_free [OF ok bo q Some e]
    by cases
qed

lemma sim_reserve:
  assumes ok: "cache_ok c ps" and bo: "bufs_ok c" and al: "allowed (Reserve k) (cache_abs c ps)"
  shows "simulates (cache_exec call (Reserve k) (c, w)) (a_exec g (Reserve k) (cache_abs c ps, w))"
proof (cases "find_entry k c")
  case None
  let ?c = "(insert_entry k (CacheEntry_reserved k) (copied k c))\<lparr>live_names := live_names c + 1\<rparr>"
  have ok': "cache_ok ?c ps"
    using cache_ok_insert [of "copied k c" ps k "CacheEntry_reserved k"] ok None by (simp add: CacheEntry_reserved_def reserved_ok_def)
  have bufs: "bufs_ok ?c" "owned_bufs ?c = owned_bufs c"
    using insert_bufs [OF ok bo, of "CacheEntry_reserved k" ?c] by (simp_all add: insert_entry_def CacheEntry_reserved_def)
  have "cache_abs ?c ps = (cache_abs c ps)\<lparr>a_slots := (slots c)(k \<mapsto> Reserved 1 []),
      a_log := map error_of (mem_log c) @ [KeyOverflow (length k)]\<rparr>"
    by (rule cache_abs_eqI, unfold slots_insert [OF ok None] free_keys_insert [OF ok] bufs(2))
      (simp_all add: insert_entry_def slot_of_def CacheEntry_reserved_def cbs_at_def)
  moreover have "cache_exec call (Reserve k) (c, w) = Inr (True, ?c, w)"
    using reserve_fresh [OF None] by simp
  moreover have "slots c k = None" using slots_None [OF ok] None by blast
  ultimately show ?thesis by (intro simulatesI [OF _ ok' bufs(1)]) (simp_all add: a_reserve_def)
next
  case (Some a)
  obtain e where e: "entries c a = Some e" using find_entry_Some [OF ok Some] .
  have r: "ce_isReserved e" using al by (auto simp: slots_Some [OF Some e] slot_of_def split: if_splits)
  have "cache_exec call (Reserve k) (c, w) = Inr (False, copied k c, w)"
    using reserve_reserved [OF Some e r] by simp
  then show ?thesis
    by (rule simulatesI [of _ _ _ _ ps]) (use ok bo in \<open>simp_all add: a_reserve_def slots_Some [OF Some e] cache_abs_copied\<close>)
qed

lemma cancelled_state:
  assumes ok: "cache_ok c ps" and e: "find_entry k c = Some a" "entries c a = Some e" "ce_isReserved e"
    and c': "c' = c\<lparr>entries := (entries c)(a \<mapsto> e\<lparr>ce_isReserved := False\<rparr>), callbacks := callbacks c |` (- set (ce_queue e))\<rparr>"
  shows "cache_ok c' ps" "slots c' = (slots c)(k \<mapsto> Present None 0 (ce_refCount e))"
proof -
  let ?e = "e\<lparr>ce_isReserved := False\<rparr>"
  note ql = queue_live [OF ok e(2,3)]
  show "cache_ok c' ps" unfolding c'
    by (rule cache_ok_served [OF ok e(2,3)]) (use ql(3) in \<open>simp_all add: reserved_ok_def\<close>)
  show "slots c' = (slots c)(k \<mapsto> Present None 0 (ce_refCount e))"
    using slots_set [OF ok e(1) waiting_other [OF ok e(2,3)], of ?e] ql(3) by (simp add: c' slot_of_def reserved_ok_def)
qed

lemma sim_cancel:
  assumes ok: "cache_ok c ps" and bo: "bufs_ok c" and q: "quiet call g"
  shows "simulates (Cache_cancelReservation call k (c, w)) (a_cancel g k (cache_abs c ps, w))"
proof (cases "find_entry k c")
  case None
  have e: "Cache_cancelReservation call k (c, w) = Inr (False, c, w)" by (rule cancel_other) (use None in simp)
  have "slots c k = None" using slots_None [OF ok] None by blast
  then show ?thesis by (intro simulatesI [OF e ok bo]) (simp add: a_cancel_def)
next
  case (Some a)
  obtain e where e: "entries c a = Some e" using find_entry_Some [OF ok Some] .
  show ?thesis
  proof (cases "ce_isReserved e")
    case False
    have r: "Cache_cancelReservation call k (c, w) = Inr (False, c, w)"
      by (rule cancel_other) (use Some e False in simp)
    show ?thesis
      by (intro simulatesI [OF r ok bo]) (use False in \<open>simp add: a_cancel_def slots_Some [OF Some e] slot_of_def\<close>)
  next
    case True
    let ?e = "e\<lparr>ce_isReserved := False\<rparr>"
    let ?cs = "callbacks c |` (- set (ce_queue e))"
    let ?c = "c\<lparr>entries := (entries c)(a \<mapsto> ?e), callbacks := ?cs\<rparr>"
    note ql = queue_live [OF ok e True]
    note s = cancelled_state [OF ok Some e True refl]
    have bufs: "bufs_ok ?c" "owned_bufs ?c = owned_bufs c"
      using bufs_same_entry [of ?c c a ?e e] bo e by simp_all
    have f: "map (key_at ?c) (map snd ps) = map (key_at c) (map snd ps)"
      by (rule free_keys_set [OF ok, where a = a and e = e and e' = ?e]) (use e in simp_all)
    have "cache_abs ?c ps = (cache_abs c ps)\<lparr>a_slots := (slots c)(k \<mapsto> Present None 0 (ce_refCount e))\<rparr>"
      by (rule cache_abs_eqI, unfold s(2) f bufs(2)) simp_all
    then show ?thesis
      by (intro simulatesI [OF cancel_reserved [OF q Some e True ql(1,2)] s(1) bufs(1)])
        (use True in \<open>simp add: a_cancel_def slots_Some [OF Some e] slot_of_def\<close>)
  qed
qed

lemma evict_map: "evict sz space f (map h as) = map h (evict (\<lambda>a. sz (h a)) space f as)"
  by (induction as arbitrary: f) auto

lemma map_of_filter_snd:
  "distinct (map fst m) \<Longrightarrow> map_of (filter (\<lambda>(k, a). P a) m) k =
     (case map_of m k of None \<Rightarrow> None | Some a \<Rightarrow> if P a then Some a else None)"
proof (induction m)
  case (Cons p m)
  obtain k' a where p: "p = (k', a)" by (cases p)
  have "map_of (filter (\<lambda>(k, a). P a) m) k' = None"
    using Cons.prems p by (force simp: map_of_eq_None_iff)
  then show ?case using Cons p by (auto split: option.split)
qed simp

lemma free_entry:
  assumes ok: "cache_ok c ps" and a: "a \<in> set (map snd ps)"
  obtains e where "entries c a = Some e" "ce_refCount e = 0" "\<not> ce_isReserved e"
    "find_entry (key_at c a) c = Some a" "slots c (key_at c a) = Some (Present (ce_data e) (ce_size e) 0)"
proof -
  note fr = free_okD [OF cache_okD(2) [OF ok]]
  obtain n where "(n, a) \<in> set ps" using a by auto
  then obtain e where e: "entries c a = Some e" "ce_freeListRef e = Some n" using fr(2) by blast
  have r: "ce_refCount e = 0" using fr(3) [OF e(1)] e(2) by simp
  have nr: "\<not> ce_isReserved e" using queue_live(3) [OF ok e(1)] r by (auto simp: reserved_ok_def)
  have f: "find_entry (key_at c a) c = Some a" by (rule find_key_at [OF ok e(1)])
  show ?thesis using that [OF e(1) r nr f] slots_Some [OF f e(1)] nr r by (simp add: slot_of_def)
qed

lemma free_entry_ex:
  assumes "cache_ok c ps" and "a \<in> set (map snd ps)"
  shows "\<exists>e. entries c a = Some e \<and> ce_refCount e = 0 \<and> slots c (key_at c a) = Some (Present (ce_data e) (ce_size e) 0)"
  by (rule free_entry [OF assms]) blast

lemma evicted_keys:
  assumes ok: "cache_ok c ps"
  shows "evict (\<lambda>k. slot_size (slots c k)) space f (map (key_at c) (map snd ps)) =
      map (key_at c) (evict (entry_size c) space f (map snd ps))"
    and "set as \<subseteq> set (map snd ps) \<Longrightarrow>
      map (\<lambda>k. slot_size (slots c k)) (map (key_at c) as) = map (entry_size c) as"
    and "set as \<subseteq> set (map snd ps) \<Longrightarrow>
      map (\<lambda>k. slot_bufs (slots c k)) (map (key_at c) as) = map (entry_bufs c) as"
proof -
  have bf: "slot_bufs (slots c (key_at c a)) = entry_bufs c a" if a: "a \<in> set (map snd ps)" for a
  proof -
    obtain e where "entries c a = Some e" "slots c (key_at c a) = Some (Present (ce_data e) (ce_size e) 0)"
      by (rule free_entry [OF ok a])
    then show ?thesis by (simp add: data_bufs_def split: option.split)
  qed
  show "map (\<lambda>k. slot_bufs (slots c k)) (map (key_at c) as) = map (entry_bufs c) as"
    if sub: "set as \<subseteq> set (map snd ps)"
    unfolding map_map by (rule map_cong [OF refl], unfold comp_def, rule bf) (use sub in blast)
  have sz: "slot_size (slots c (key_at c a)) = entry_size c a" if a: "a \<in> set (map snd ps)" for a
  proof -
    obtain e where "entries c a = Some e" "slots c (key_at c a) = Some (Present (ce_data e) (ce_size e) 0)"
      by (rule free_entry [OF ok a])
    then show ?thesis by (simp add: entry_size_def)
  qed
  show "evict (\<lambda>k. slot_size (slots c k)) space f (map (key_at c) (map snd ps)) =
      map (key_at c) (evict (entry_size c) space f (map snd ps))"
    unfolding evict_map [of _ _ _ "key_at c"] by (rule arg_cong [of _ _ "map (key_at c)"], rule evict_cong, rule sz)
  show "map (\<lambda>k. slot_size (slots c k)) (map (key_at c) as) = map (entry_size c) as"
    if sub: "set as \<subseteq> set (map snd ps)"
    unfolding map_map by (rule map_cong [OF refl], unfold comp_def, rule sz) (use sub in blast)
qed

lemma slots_after_cleanup:
  assumes ok: "cache_ok c ps" and ev: "set ev \<subseteq> set (map snd ps)"
    and m: "cacheMap c' = filter (\<lambda>(k, a). a \<notin> set ev) (cacheMap c)"
    and en: "entries c' = entries c |` (- set ev)" and cb: "callbacks c' = callbacks c"
  shows "slots c' = slots c |` (- set (map (key_at c) ev))"
proof (rule ext)
  fix k
  have d: "distinct (map fst (cacheMap c))" using cache_okD(1) [OF ok] unfolding table_ok_def by blast
  have f: "find_entry k c' = (case find_entry k c of None \<Rightarrow> None | Some a \<Rightarrow> if a \<notin> set ev then Some a else None)"
    unfolding find_entry_def m by (rule map_of_filter_snd [OF d])
  have so: "slot_of c' = slot_of c" by (simp add: slot_of_def cbs_at_def cb fun_eq_iff)
  show "slots c' k = (slots c |` (- set (map (key_at c) ev))) k"
  proof (cases "find_entry k c")
    case None
    then show ?thesis using f by (simp add: slots_def restrict_map_def)
  next
    case (Some a)
    obtain e where e: "entries c a = Some e" "ce_name e = Some k" using find_entry_Some [OF ok Some] .
    have "k \<in> set (map (key_at c) ev) \<longleftrightarrow> a \<in> set ev"
    proof
      assume "k \<in> set (map (key_at c) ev)"
      then obtain b where b: "b \<in> set ev" "k = key_at c b" by auto
      have "b \<in> set (map snd ps)" using ev b(1) by blast
      from free_entry [OF ok this] have "find_entry (key_at c b) c = Some b" by blast
      then show "a \<in> set ev" using Some b by simp
    next
      assume "a \<in> set ev"
      then show "k \<in> set (map (key_at c) ev)" using key_at_entry [OF e] by force
    qed
    then show ?thesis using f Some e so by (simp add: slots_def en restrict_map_def)
  qed
qed

lemma sim_trim:
  assumes ok: "cache_ok c ps" and bo: "bufs_ok c"
  obtains c' ps' where "trim c = Inr c'" "cache_ok c' ps'" "bufs_ok c'" "cache_abs c' ps' = a_trim (cache_abs c ps)"
proof (cases "sizeQuota c < currentSize c")
  case False
  have "a_trim (cache_abs c ps) = cache_abs c ps"
    using False by (simp add: a_trim_def a_evicted_def)
  then show ?thesis using that ok bo False by (simp add: trim_def)
next
  case True
  let ?sp = "currentSize c - sizeQuota c"
  define ev where "ev = evict (entry_size c) ?sp 0 (map snd ps)"
  obtain c' where c': "Cache_cleanup ?sp c = Inr c'" "cache_ok c' (drop (length ev) ps)"
    "after_cleanup (c\<lparr>currentSize := currentSize c - sum_list (map (entry_size c) ev)\<rparr>) ev c'"
    "bufs_ok c'" "owned_bufs c' = owned_bufs c"
    using cleanup_ok [OF ok bo ev_def] .
  have sub: "set ev \<subseteq> set (map snd ps)" unfolding ev_def by (rule evict_subset)
  have aev: "a_evicted (cache_abs c ps) = map (key_at c) ev"
    unfolding a_evicted_def ev_def using True evicted_keys(1) [OF ok] by simp
  have c'': "entries c' = entries c |` (- set ev)" "cacheMap c' = filter (\<lambda>(k, a). a \<notin> set ev) (cacheMap c)"
      "callbacks c' = callbacks c" "sizeQuota c' = sizeQuota c"
      "currentSize c' = currentSize c - sum_list (map (entry_size c) ev)"
      "freed_bufs c' = freed_bufs c @ concat (map (entry_bufs c) ev)" "mem_log c' = mem_log c @ map ReadFreed ev"
    using c'(3) by (simp_all add: after_cleanup_def entry_bufs_currentSize)
  have s: "slots c' = slots c |` (- set (map (key_at c) ev))"
    by (rule slots_after_cleanup [OF ok sub]) (simp_all add: c'')
  have tk: "ev = take (length ev) (map snd ps)" unfolding ev_def by (rule evict_take)
  have "set (drop (length ev) (map snd ps)) \<inter> set ev = {}"
    using set_take_disj_set_drop_if_distinct [OF free_distinct [OF cache_okD(2) [OF ok]] order_refl, of "length ev"] tk
    by auto
  then have f: "map (key_at c') (map snd (drop (length ev) ps)) = map (key_at c) (map snd (drop (length ev) ps))"
    by (intro map_cong refl) (auto simp: key_at_def c'' restrict_map_def drop_map)
  have "cache_abs c' (drop (length ev) ps) = a_trim (cache_abs c ps)"
    by (rule cache_abs_eqI, unfold s f c'(5))
      (simp_all add: a_trim_def Let_def aev c'' drop_map evicted_keys(2,3) [OF ok sub, unfolded map_map comp_def] comp_def)
  moreover have "trim c = Inr c'" using True c'(1) by (simp add: trim_def)
  ultimately show ?thesis using that c'(2,4) by blast
qed

text \<open>The reference is given back, before the cleanup: only the entry of the key changes.\<close>

lemma done_releases:
  assumes ok: "cache_ok c ps" and al: "allowed (Done k) (cache_abs c ps)"
  shows "\<exists>d qs a e e'. Cache_doneWith k c = trim d \<and> cache_ok d qs \<and> cache_abs d qs = a_release k (cache_abs c ps) \<and>
    find_entry k c = Some a \<and> entries c a = Some e \<and> entries d = (entries c)(a \<mapsto> e') \<and>
    ce_size e' = ce_size e \<and> currentSize d = currentSize c \<and> callbacks d = callbacks c \<and>
    bufs_ok d = bufs_ok c \<and> \<not> ce_isReserved e \<and> \<not> ce_isReserved e'"
proof -
  obtain b sz n where S: "slots c k = Some (Present b sz n)" "n > 0"
    using al by (auto split: option.splits slot.splits)
  obtain a e where k: "find_entry k c = Some a" "entries c a = Some e" "slot_of c e = Present b sz n"
    using slots_cases [OF ok S(1)] by metis
  have nr: "\<not> ce_isReserved e" and e: "ce_data e = b" "ce_size e = sz" "ce_refCount e = n"
    using k(3) by (auto simp: slot_of_def split: if_splits)
  have nf: "ce_freeListRef e = None" using free_okD(3) [OF cache_okD(2) [OF ok] k(2)] e S(2) by simp
  show ?thesis
  proof (cases "n = 1")
    case False
    let ?e = "e\<lparr>ce_refCount := ce_refCount e - 1\<rparr>"
    let ?d = "c\<lparr>entries := (entries c)(a \<mapsto> ?e)\<rparr>"
    have "Cache_doneWith k c = trim ?d" by (rule done_shared [OF k(1,2)]) (use False S(2) e in simp)
    moreover have "cache_ok ?d ps"
      by (rule cache_ok_update [OF ok k(2)]) (use False S(2) e nr in simp_all)
    moreover have "slots ?d = (slots c)(k \<mapsto> Present b sz (n - 1))"
      using slots_set_entry [OF ok k(1), of ?e] nr e by (simp add: slot_of_def)
    moreover have "map (key_at ?d) (map snd ps) = map (key_at c) (map snd ps)"
      by (rule free_keys_set [OF ok, where a = a and e = e and e' = ?e]) (use k in simp_all)
    moreover have "bufs_ok ?d = bufs_ok c" "owned_bufs ?d = owned_bufs c"
      using bufs_same_entry [of ?d c a ?e e] k(2) by simp_all
    ultimately show ?thesis
      using S False k nr
      by (intro exI [of _ ?d] exI [of _ ps] exI [of _ a] exI [of _ e] exI [of _ ?e] conjI)
        (simp_all add: cache_abs_def a_release_def)
  next
    case True
    note fr = free_okD [OF cache_okD(2) [OF ok]]
    obtain m fl where fl: "ff_push (Some a) (freeList c) = Inr (m, fl)" "fl_rep fl (ps @ [(m, a)])"
      using fl_push [OF fr(1)] .
    let ?e = "e\<lparr>ce_refCount := 0, ce_freeListRef := Some m\<rparr>"
    let ?d = "c\<lparr>freeList := fl, entries := (entries c)(a \<mapsto> ?e)\<rparr>"
    let ?d' = "c\<lparr>entries := (entries c)(a \<mapsto> ?e)\<rparr>"
    have d1: "Cache_doneWith k c = trim ?d" by (rule done_last [OF k(1,2) _ fl(1)]) (use True e in simp)
    have d2: "cache_ok ?d (ps @ [(m, a)])" by (rule cache_ok_free [OF ok k(2) _ nr fl(2)]) (use True e in simp)
    have "slots ?d' = (slots c)(k \<mapsto> Present b sz 0)"
      using slots_set_entry [OF ok k(1), of ?e] nr e by (simp add: slot_of_def)
    moreover have "slots ?d = slots ?d'"
      by (intro ext) (simp add: slots_def find_entry_def slot_of_def cbs_at_def cong: option.case_cong map_option_cong)
    ultimately have s: "slots ?d = (slots c)(k \<mapsto> Present b sz 0)" by simp
    have f: "map (key_at ?d) (map snd ps) = map (key_at c) (map snd ps)"
      by (rule free_keys_set [OF ok, where a = a and e = e and e' = ?e]) (use k in simp_all)
    obtain e1 where "entries c a = Some e1" "ce_name e1 = Some k" using find_entry_Some [OF ok k(1)] .
    then have ka: "key_at ?d a = k" using k(2) by (simp add: key_at_def)
    have bufs: "bufs_ok ?d = bufs_ok c" "owned_bufs ?d = owned_bufs c"
      using bufs_same_entry [of ?d c a ?e e] k(2) by simp_all
    have "cache_abs ?d (ps @ [(m, a)]) = a_release k (cache_abs c ps)"
      by (rule cache_abs_eqI, unfold s map_append f bufs(2)) (use ka True S in \<open>simp_all add: a_release_def\<close>)
    then show ?thesis using d1 d2 bufs(1) k nr
      by (intro exI [of _ ?d] exI [of _ "ps @ [(m, a)]"] exI [of _ a] exI [of _ e] exI [of _ ?e] conjI) simp_all
  qed
qed

lemma sim_done:
  assumes ok: "cache_ok c ps" and bo: "bufs_ok c" and al: "allowed (Done k) (cache_abs c ps)"
  shows "simulates (cache_exec call (Done k) (c, w)) (a_exec g (Done k) (cache_abs c ps, w))"
proof -
  obtain d qs where d: "Cache_doneWith k c = trim d" "cache_ok d qs" "cache_abs d qs = a_release k (cache_abs c ps)" "bufs_ok d"
    using done_releases [OF ok al] bo by blast
  obtain c' ps' where c': "trim d = Inr c'" "cache_ok c' ps'" "bufs_ok c'" "cache_abs c' ps' = a_trim (cache_abs d qs)"
    using sim_trim [OF d(2,4)] .
  show ?thesis
    by (rule simulatesI [OF _ c'(2,3)]) (simp_all add: d(1) c'(1,4) d(3) a_done_def)
qed

text \<open>The simulation, for one call and for a run.\<close>

lemma cache_step_simulates:
  assumes ok: "cache_ok c ps" and bo: "bufs_ok c" and q: "quiet call g" and al: "allowed op (cache_abs c ps)"
  shows "simulates (cache_exec call op (c, w)) (a_exec g op (cache_abs c ps, w))"
proof (cases op)
  case (Put k b sz)
  then show ?thesis using sim_put [OF ok bo q] al by (simp del: allowed.simps)
next
  case (Get k cb)
  then show ?thesis using sim_get [OF ok bo q] by (simp del: cache_exec.simps)
next
  case (Reserve k)
  show ?thesis using sim_reserve [OF ok bo al [unfolded Reserve]] unfolding Reserve .
next
  case (Cancel k)
  then show ?thesis using sim_cancel [OF ok bo q] by simp
next
  case (Done k)
  show ?thesis using sim_done [OF ok bo al [unfolded Done]] unfolding Done .
qed

lemma cache_run_simulates:
  assumes "cache_ok c ps" "bufs_ok c" "quiet call g" "allowed_run g ops (cache_abs c ps, w)"
  shows "\<exists>rs c' w' ps'. cache_run call ops (c, w) = Inr (rs, c', w') \<and> cache_ok c' ps' \<and> bufs_ok c' \<and>
    a_run g ops (cache_abs c ps, w) = (rs, cache_abs c' ps', w')"
  using assms
proof (induction ops arbitrary: c ps w)
  case Nil
  then show ?case by auto
next
  case (Cons op ops)
  have al: "allowed op (cache_abs c ps)" using Cons.prems(4) by simp
  obtain r d v qs where d: "cache_exec call op (c, w) = Inr (r, d, v)" "cache_ok d qs" "bufs_ok d"
      "a_exec g op (cache_abs c ps, w) = (r, cache_abs d qs, v)"
    using cache_step_simulates [OF Cons.prems(1-3) al, of w] unfolding simulates_def by metis
  have al': "allowed_run g ops (cache_abs d qs, v)" using Cons.prems(4) d(4) by simp
  obtain rs c' w' ps' where R: "cache_run call ops (d, v) = Inr (rs, c', w')" "cache_ok c' ps'" "bufs_ok c'"
      "a_run g ops (cache_abs d qs, v) = (rs, cache_abs c' ps', w')"
    using Cons.IH [OF d(2,3) Cons.prems(3) al'] by blast
  show ?case
    by (intro exI [of _ "r # rs"] exI [of _ c'] exI [of _ w'] exI [of _ ps'] conjI)
      (simp_all add: d R del: cache_exec.simps a_exec.simps)
qed

lemma cache_abs_new: "cache_abs (Cache_new quota) [] = a_new quota"
  by (simp add: cache_abs_def a_new_def Cache_new_def slots_def find_entry_def bufs_new [unfolded Cache_new_def] fun_eq_iff)

end
