(* ===== verification/CacheProps.thy ===== *)
theory CacheProps
  imports CacheSpec
begin

text \<open>
  The properties of the cache: its operations implement the specification of \<open>CacheSpec\<close>
  without a fault for clients that follow the protocol, buffers that are in use stay, the
  order and the extent of eviction, what happens to waiting callbacks, the destructor, and
  the behaviours that the code has against its own comments.
\<close>

section \<open>Refinement\<close>

lemmas spec_ops = a_reserve_def a_get_def a_put_def a_cancel_def a_done_def a_release_def a_trim_def
  a_evicted_def a_new_def log_world_def

text \<open>
  C1: Every run of calls that follows the protocol, with callbacks that do not call back into
  the cache, ends without a fault (no null call, no deleted callback or entry used by a call,
  no buffer freed twice, no failed assertion, no endless loop); it returns the results, makes
  the callback calls, frees the buffers and reaches the state that the specification
  prescribes. It is not free of memory errors, and the specification says which it makes, in
  order: the private copy of the key written one past its end at every \<open>put\<close> and
  \<open>reserve\<close>, and one use of the erased entry per eviction, and no other.
\<close>

theorem cache_refines_spec:
  assumes "quiet call g" and "allowed_run g ops (a_new quota, w)"
  shows "\<exists>rs c w' ps. cache_run call ops (Cache_new quota, w) = Inr (rs, c, w') \<and> cache_ok c ps \<and> bufs_ok c \<and>
     a_run g ops (a_new quota, w) = (rs, cache_abs c ps, w')"
proof -
  have "allowed_run g ops (cache_abs (Cache_new quota) [], w)"
    using assms(2) by (simp only: cache_abs_new)
  from cache_run_simulates [OF cache_ok_new bufs_new(1) assms(1) this] show ?thesis by (simp only: cache_abs_new)
qed

theorem cache_refines_spec_witness:
  "\<exists>c. cache_run log_call [Put ''k'' (Some 7) 60, Done ''k'', Put ''ab'' (Some 8) 60, Get ''ab'' (1 :: nat), Done ''ab'']
       (Cache_new 100, []) = Inr ([True, True, True, True, True], c, [(1, CacheData (Some 8) 60 True)]) \<and>
     slots c ''ab'' = Some (Present (Some 8) 60 1) \<and> freed_bufs c = [7] \<and>
     map error_of (mem_log c) = [KeyOverflow 1, KeyOverflow 2, EvictedUse]"
proof -
  let ?ops = "[Put ''k'' (Some 7) 60, Done ''k'', Put ''ab'' (Some 8) 60, Get ''ab'' (1 :: nat), Done ''ab'']"
  let ?A = "\<lparr>a_quota = 100, a_used = 60, a_slots = [''ab'' \<mapsto> Present (Some 8) 60 1], a_free = [], a_freed = [7],
        a_owned = {8, 7}, a_log = [KeyOverflow 1, KeyOverflow 2, EvictedUse]\<rparr>"
  have run: "a_run log_world ?ops (a_new 100, []) = ([True, True, True, True, True], ?A, [(1, CacheData (Some 8) 60 True)])"
    by (simp add: spec_ops) (auto simp: restrict_map_def)
  have al: "allowed_run log_world ?ops (a_new 100, [])"
    by (simp add: spec_ops)
  obtain rs c w' ps where c: "cache_run log_call ?ops (Cache_new 100, []) = Inr (rs, c, w')"
      "a_run log_world ?ops (a_new 100, []) = (rs, cache_abs c ps, w')"
    using cache_refines_spec [OF quiet_log_call al] by blast
  then have A: "cache_abs c ps = ?A" and "rs = [True, True, True, True, True]" "w' = [(1, CacheData (Some 8) 60 True)]"
    unfolding run by simp_all
  with c(1) have "cache_run log_call ?ops (Cache_new 100, []) =
      Inr ([True, True, True, True, True], c, [(1, CacheData (Some 8) 60 True)])" by (simp only:)
  then show ?thesis using arg_cong [OF A, of a_slots] arg_cong [OF A, of a_freed] arg_cong [OF A, of a_log]
    by (intro exI [of _ c] conjI) (simp_all del: cache_run.simps)
qed

section \<open>Waiting callbacks\<close>

text \<open>
  C3: \<open>put\<close> of a reserved key stores the buffer, then calls every waiting callback once, in
  the order of the \<open>get\<close> calls, with this buffer, deletes each of them, and counts one
  reference per callback.
\<close>

theorem put_serves_waiting:
  assumes "cache_ok c ps" and "quiet call g"
    and "find_entry key c = Some a" and "entries c a = Some e" and "ce_isReserved e"
  shows "\<exists>c'. Cache_put call key buf sz (c, w) =
      Inr (True, c', fold (\<lambda>cb. g cb (CacheData buf sz True)) (cbs_at c (ce_queue e)) w) \<and>
    cache_ok c' ps \<and> dom (callbacks c') = dom (callbacks c) - set (ce_queue e) \<and>
    slots c' = (slots c)(key \<mapsto> Present buf sz (ce_refCount e + length (ce_queue e)))"
proof -
  let ?c = "put_served key buf sz a e c"
  have "dom (callbacks ?c) = dom (callbacks c) - set (ce_queue e)" by (simp add: put_served_def Diff_eq)
  then show ?thesis
    using put_reserved [OF assms(2-5) queue_live(1,2) [OF assms(1,4,5)], of buf sz w]
      put_served_state [OF assms(1,3-5), of buf sz] by blast
qed

text \<open>Concrete states for the instances: what a run from the empty cache reaches.\<close>

lemma reached:
  assumes "allowed_run log_world ops (a_new quota, [])" and "a_run log_world ops (a_new quota, []) = (rs, A, w)"
  obtains c ps where "cache_run log_call ops (Cache_new quota, []) = Inr (rs, c, w)" "cache_ok c ps" "cache_abs c ps = A" "bufs_ok c"
proof -
  have "allowed_run log_world ops (cache_abs (Cache_new quota) [], [])"
    using assms(1) by (simp only: cache_abs_new)
  from cache_run_simulates [OF cache_ok_new bufs_new(1) quiet_log_call this] assms(2) that show ?thesis
    by (auto simp: cache_abs_new)
qed

lemma cache_abs_fields:
  assumes "cache_abs c ps = A"
  shows "slots c = a_slots A" "currentSize c = a_used A" "map (key_at c) (map snd ps) = a_free A"
    "freed_bufs c = a_freed A"
  using assms by auto

lemma reached_reserved:
  obtains c :: "nat cache" and ps a e where "cache_ok c ps" "find_entry ''k'' c = Some a" "entries c a = Some e"
    "ce_isReserved e" "cbs_at c (ce_queue e) = [1, 2]"
proof -
  let ?ops = "[Reserve ''k'', Get ''k'' (1 :: nat), Get ''k'' 2]"
  obtain c :: "nat cache" and ps where c: "cache_ok c ps"
      "cache_abs c ps = \<lparr>a_quota = 100, a_used = 0, a_slots = [''k'' \<mapsto> Reserved 1 [1, 2]], a_free = [],
          a_freed = [], a_owned = {}, a_log = [KeyOverflow 1]\<rparr>"
    by (rule reached [of ?ops 100 "[True, True, True]" _ "[]"]) (simp_all add: spec_ops)
  have "slots c ''k'' = Some (Reserved 1 [1, 2])" using arg_cong [OF c(2), of a_slots] by simp
  then show ?thesis
    by (rule slots_cases [OF c(1)]) (use that c(1) in \<open>auto simp: slot_of_def split: if_splits\<close>)
qed

theorem put_serves_waiting_witness:
  "\<exists>c c' :: nat cache. Cache_put log_call ''k'' (Some 7) 3 (c, []) =
      Inr (True, c', [(1, CacheData (Some 7) 3 True), (2, CacheData (Some 7) 3 True)])"
proof -
  obtain c :: "nat cache" and ps a e where c: "cache_ok c ps" "find_entry ''k'' c = Some a" "entries c a = Some e"
    "ce_isReserved e" and q: "cbs_at c (ce_queue e) = [1, 2]"
    by (rule reached_reserved)
  show ?thesis
    using put_serves_waiting [OF c(1) quiet_log_call c(2-4), of "Some 7" 3 "[]"] q
    by (auto simp: log_world_def)
qed

text \<open>
  C4: Cancelling a reservation calls every waiting callback once, in order, with a null buffer
  and \<open>isCached\<close> false, and deletes each of them; the key stays in the table as an entry with
  a null buffer that keeps its reference.
\<close>

theorem cancel_notifies_waiting:
  assumes "cache_ok c ps" and "quiet call g"
    and "find_entry key c = Some a" and "entries c a = Some e" and "ce_isReserved e"
  shows "\<exists>c' ps'. Cache_cancelReservation call key (c, w) =
      Inr (True, c', fold (\<lambda>cb. g cb (CacheData None 0 False)) (cbs_at c (ce_queue e)) w) \<and>
    cache_ok c' ps' \<and> dom (callbacks c') = dom (callbacks c) - set (ce_queue e) \<and>
    slots c' = (slots c)(key \<mapsto> Present None 0 (ce_refCount e))"
proof -
  let ?c = "c\<lparr>entries := (entries c)(a \<mapsto> e\<lparr>ce_isReserved := False\<rparr>), callbacks := callbacks c |` (- set (ce_queue e))\<rparr>"
  have "dom (callbacks ?c) = dom (callbacks c) - set (ce_queue e)" by (simp add: Diff_eq)
  then show ?thesis
    using cancel_reserved [OF assms(2-5) queue_live(1,2) [OF assms(1,4,5)], of w]
      cancelled_state [OF assms(1,3-5) refl] by blast
qed

theorem cancel_notifies_waiting_witness:
  "\<exists>c c' :: nat cache. Cache_cancelReservation log_call ''k'' (c, []) =
      Inr (True, c', [(1, CacheData None 0 False), (2, CacheData None 0 False)])"
proof -
  obtain c :: "nat cache" and ps a e where c: "cache_ok c ps" "find_entry ''k'' c = Some a" "entries c a = Some e"
    "ce_isReserved e" and q: "cbs_at c (ce_queue e) = [1, 2]"
    by (rule reached_reserved)
  show ?thesis
    using cancel_notifies_waiting [OF c(1) quiet_log_call c(2-4), of "[]"] q
    by (auto simp: log_world_def)
qed

section \<open>Buffers in use stay\<close>

lemma pinned_step:
  assumes "a_slots A k = Some (Present b sz n)" "k \<notin> set (a_free A)" "op \<noteq> Done k"
  shows "\<exists>n' \<ge> n. a_slots (fst (snd (a_exec g op (A, w)))) k = Some (Present b sz n')"
proof (cases op)
  case (Done k')
  have ev: "set (a_evicted B) \<subseteq> set (a_free B)" for B :: "'a acache"
    by (simp only: a_evicted_def evict_subset empty_subsetI list.set split: if_split) simp
  let ?B = "a_release k' A"
  have "a_slots ?B k = Some (Present b sz n)" "k \<notin> set (a_free ?B)"
    using assms Done by (auto simp: a_release_def split: option.splits slot.splits)
  then have "a_slots (a_trim ?B) k = Some (Present b sz n)"
    using ev [of ?B] by (auto simp: a_trim_def Let_def restrict_map_def)
  then show ?thesis using Done by (auto simp: a_done_def)
qed (use assms in \<open>auto simp: a_put_def a_get_def a_reserve_def a_cancel_def split: option.splits slot.splits\<close>)

lemma in_use_not_free:
  assumes "cache_ok c ps" "slots c k = Some (Present b sz n)" "n > 0"
  shows "k \<notin> set (a_free (cache_abs c ps))"
proof
  assume "k \<in> set (a_free (cache_abs c ps))"
  then obtain a where a: "a \<in> set (map snd ps)" "k = key_at c a" by auto
  obtain e :: cache_entry where "slots c (key_at c a) = Some (Present (ce_data e) (ce_size e) 0)"
    using free_entry_ex [OF assms(1) a(1)] by blast
  then show False using assms(2,3) a(2) by simp
qed

lemma slot_buffer_live:
  assumes "cache_ok c ps" "bufs_ok c" "slots c k = Some (Present b sz n)"
  shows "set_option b \<inter> set (freed_bufs c) = {}"
proof -
  obtain a e where e: "entries c a = Some e" "slot_of c e = Present b sz n"
    using slots_cases [OF assms(1,3)] by metis
  then have "ce_data e = b" by (auto simp: slot_of_def split: if_splits)
  then show ?thesis using bufs_okD(2) [OF assms(2), of a] e(1) by simp
qed

text \<open>
  C2: As long as a client holds a reference to a buffer, no sequence of other calls that
  follows the protocol takes it away: whatever is put, reserved, cancelled or given back, and
  whatever is evicted for it, the key keeps this buffer and at least as many references, the
  buffer is not among those that were freed, and no buffer is freed twice.
\<close>

theorem buffer_in_use_stays:
  assumes "cache_ok c ps" and "bufs_ok c" and "quiet call g" and "allowed_run g ops (cache_abs c ps, w)"
    and "slots c k = Some (Present b sz n)" and "n > 0" and "Done k \<notin> set ops"
  shows "\<exists>rs c' w' n'. cache_run call ops (c, w) = Inr (rs, c', w') \<and>
     slots c' k = Some (Present b sz n') \<and> n' \<ge> n \<and>
     set_option b \<inter> set (freed_bufs c') = {} \<and> distinct (freed_bufs c')"
  using assms
proof (induction ops arbitrary: c ps w n)
  case Nil
  then show ?case using slot_buffer_live [OF Nil.prems(1,2,5)] bufs_okD(1) [OF Nil.prems(2)] by auto
next
  case (Cons op ops)
  have al: "allowed op (cache_abs c ps)" using Cons.prems(4) by simp
  obtain r d v qs where d: "cache_exec call op (c, w) = Inr (r, d, v)" "cache_ok d qs" "bufs_ok d"
      "a_exec g op (cache_abs c ps, w) = (r, cache_abs d qs, v)"
    using cache_step_simulates [OF Cons.prems(1-3) al, of w] unfolding simulates_def by metis
  have al': "allowed_run g ops (cache_abs d qs, v)" using Cons.prems(4) d(4) by simp
  have nk: "k \<notin> set (a_free (cache_abs c ps))" by (rule in_use_not_free [OF Cons.prems(1,5,6)])
  have "a_slots (cache_abs c ps) k = Some (Present b sz n)" "op \<noteq> Done k" using Cons.prems(5,7) by auto
  from pinned_step [OF this(1) nk this(2), of g w] d(4)
  obtain m where m: "slots d k = Some (Present b sz m)" "m \<ge> n" by auto
  obtain rs c' w' n' where "cache_run call ops (d, v) = Inr (rs, c', w')" "slots c' k = Some (Present b sz n')" "n' \<ge> m"
      "set_option b \<inter> set (freed_bufs c') = {}" "distinct (freed_bufs c')"
    using Cons.IH [OF d(2,3) Cons.prems(3) al' m(1)] Cons.prems(6,7) m(2) by auto
  then show ?case using d(1) m(2) by (auto simp del: cache_exec.simps)
qed

theorem buffer_in_use_stays_witness:
  "\<exists>(c :: nat cache) rs c' w' n'. slots c ''a'' = Some (Present (Some 1) 60 1) \<and>
     cache_run log_call [Put ''b'' (Some 2) 60, Done ''b'', Get ''a'' 5] (c, []) = Inr (rs, c', w') \<and>
     slots c' ''a'' = Some (Present (Some 1) 60 n') \<and> n' \<ge> 1 \<and> 1 \<notin> set (freed_bufs c')"
proof -
  obtain c :: "nat cache" and ps where c: "cache_ok c ps" "bufs_ok c"
      "cache_abs c ps = \<lparr>a_quota = 100, a_used = 60, a_slots = [''a'' \<mapsto> Present (Some 1) 60 1], a_free = [],
         a_freed = [], a_owned = {1}, a_log = [KeyOverflow 1]\<rparr>"
    by (rule reached [of "[Put ''a'' (Some 1) 60]" 100 "[True]" _ "[]"]) (simp_all add: spec_ops)
  have s: "slots c ''a'' = Some (Present (Some 1) 60 1)" using arg_cong [OF c(3), of a_slots] by simp
  have "allowed_run log_world [Put ''b'' (Some 2) 60, Done ''b'', Get ''a'' 5] (cache_abs c ps, [])"
    unfolding c(3) by (simp add: spec_ops)
  from buffer_in_use_stays [OF c(1,2) quiet_log_call this s] s show ?thesis by auto
qed

section \<open>Eviction\<close>

text \<open>
  C5: \<open>cleanup\<close> always ends. It evicts the shortest prefix of the free list whose sizes reach
  the space asked for (all of the list if they do not), so entries leave in the order in which
  they became free and none that is in use; it frees exactly their buffers and shrinks the
  account by their sizes; no buffer is freed twice. Each of them is read after \<open>erase\<close>
  destroyed it.
\<close>

theorem cleanup_evicts_prefix:
  assumes "cache_ok c ps" and "bufs_ok c" and "ev = evict (entry_size c) space 0 (map snd ps)"
  shows "\<exists>c'. Cache_cleanup space c = Inr c' \<and> cache_ok c' (drop (length ev) ps) \<and>
    ev = take (length ev) (map snd ps) \<and>
    (\<forall>a \<in> set ev. \<exists>e. entries c a = Some e \<and> ce_refCount e = 0) \<and>
    entries c' = entries c |` (- set ev) \<and>
    freed_bufs c' = freed_bufs c @ concat (map (entry_bufs c) ev) \<and>
    currentSize c' = currentSize c - sum_list (map (entry_size c) ev) \<and>
    mem_log c' = mem_log c @ map ReadFreed ev \<and> bufs_ok c'"
proof -
  obtain c' where c': "Cache_cleanup space c = Inr c'" "cache_ok c' (drop (length ev) ps)"
    "after_cleanup (c\<lparr>currentSize := currentSize c - sum_list (map (entry_size c) ev)\<rparr>) ev c'" "bufs_ok c'"
    using cleanup_ok [OF assms] .
  have "\<exists>e. entries c a = Some e \<and> ce_refCount e = 0" if a: "a \<in> set ev" for a
  proof -
    have "a \<in> set (map snd ps)" using a evict_subset [of "entry_size c" space 0] unfolding assms(3) by blast
    from free_entry_ex [OF assms(1) this] show ?thesis by blast
  qed
  then have free: "\<forall>a \<in> set ev. \<exists>e. entries c a = Some e \<and> ce_refCount e = 0" by blast
  have tk: "ev = take (length ev) (map snd ps)" unfolding assms(3) by (rule evict_take)
  from c'(3) show ?thesis
    unfolding after_cleanup_def entry_bufs_currentSize
    by (intro exI [of _ c'] conjI c'(1,2,4) free tk) simp_all
qed

theorem cleanup_evicts_prefix_witness:
  "\<exists>(c :: nat cache) c' a b. currentSize c = 90 \<and> Cache_cleanup 50 c = Inr c' \<and> currentSize c' = 30 \<and>
     mem_log c' = mem_log c @ [ReadFreed a, ReadFreed b]"
proof -
  obtain c :: "nat cache" and ps where c: "cache_ok c ps"
      "cache_abs c ps = \<lparr>a_quota = 100, a_used = 90, a_slots = [''a'' \<mapsto> Present (Some 1) 30 0,
         ''b'' \<mapsto> Present (Some 2) 30 0, ''c'' \<mapsto> Present (Some 3) 30 0], a_free = [''a'', ''b'', ''c''],
         a_freed = [], a_owned = {1, 2, 3}, a_log = [KeyOverflow 1, KeyOverflow 1, KeyOverflow 1]\<rparr>" "bufs_ok c"
    by (rule reached [of "[Put ''a'' (Some 1) 30, Done ''a'', Put ''b'' (Some 2) 30, Done ''b'',
          Put ''c'' (Some 3) 30, Done ''c'']" 100 "[True, True, True, True, True, True]" _ "[]"])
      (simp_all add: spec_ops)
  have k: "map (key_at c) (map snd ps) = [''a'', ''b'', ''c'']" and u: "currentSize c = 90"
    and s: "slots c = [''a'' \<mapsto> Present (Some 1) 30 0, ''b'' \<mapsto> Present (Some 2) 30 0, ''c'' \<mapsto> Present (Some 3) 30 0]"
    using arg_cong [OF c(2), of a_free] arg_cong [OF c(2), of a_used] arg_cong [OF c(2), of a_slots] by simp_all
  have "length (map snd ps) = 3" using arg_cong [OF k, of length] by simp
  then obtain x y z where xyz: "map snd ps = [x, y, z]" by (auto simp: length_Suc_conv numeral_3_eq_3)
  have "map (entry_size c) (map snd ps) = map (\<lambda>k. slot_size (slots c k)) (map (key_at c) (map snd ps))"
    by (rule evicted_keys(2) [OF c(1) order_refl, symmetric])
  also have "\<dots> = [30, 30, 30]" unfolding k s by simp
  finally have "map (entry_size c) [x, y, z] = [30, 30, 30]" unfolding xyz .
  then have "evict (entry_size c) 50 0 (map snd ps) = [x, y]" "entry_size c x = 30" "entry_size c y = 30"
    unfolding xyz by simp_all
  with cleanup_evicts_prefix [OF c(1,3) refl, of 50] u show ?thesis by auto
qed

section \<open>The account and the quota\<close>

text \<open>\<open>currentSize_\<close> is the exact sum of the sizes of the resident entries (nothing wrapped).\<close>

definition accounted :: "'cb cache \<Rightarrow> bool" where
  "accounted c \<longleftrightarrow> (\<Sum>a \<in> dom (entries c). unat (entry_size c a)) = unat (currentSize c)"

lemma finite_entries: "cache_ok c ps \<Longrightarrow> finite (dom (entries c))"
  using cache_okD(1) unfolding table_ok_def by (metis finite_imageI finite_set)

lemma accounted_new: "accounted (Cache_new quota)"
  by (simp add: accounted_def Cache_new_def)

text \<open>\<open>put\<close> of a fresh key keeps the account, as long as the sum fits in a \<open>size_t\<close>.\<close>

lemma accounted_put:
  assumes ok: "cache_ok c ps" and ac: "accounted c" and k: "find_entry k c = None"
    and fits: "unat (currentSize c) + unat sz < 2 ^ 64"
    and put: "Cache_put call k b sz (c, w) = Inr (r, c', w')"
  shows "accounted c'"
proof -
  have c': "c' = (insert_entry k (CacheEntry_new k b sz) (copied k c))
      \<lparr>live_names := live_names c + 1, currentSize := currentSize c + sz\<rparr>"
    using put unfolding put_fresh [OF k] by simp
  have new: "next_addr c \<notin> dom (entries c)" using cache_okD(4) [OF ok] unfolding heap_ok_def by blast
  have d: "dom (entries c') = insert (next_addr c) (dom (entries c))"
    unfolding c' by (auto simp: insert_entry_def)
  have e: "entry_size c' a = (if a = next_addr c then sz else entry_size c a)" for a
    unfolding c' by (simp add: entry_size_def insert_entry_def CacheEntry_new_def)
  have "(\<Sum>a \<in> dom (entries c). unat (entry_size c' a)) = (\<Sum>a \<in> dom (entries c). unat (entry_size c a))"
    by (rule sum.cong [OF refl]) (use new e in auto)
  moreover have "unat (currentSize c + sz) = unat (currentSize c) + unat sz"
    using fits by (simp add: unat_word_ariths)
  moreover have "currentSize c' = currentSize c + sz" unfolding c' by simp
  ultimately show ?thesis
    using ac new finite_entries [OF ok] by (simp add: accounted_def d e)
qed

lemma accounted_same_sizes:
  assumes "accounted c" "entries c a = Some e" "ce_size e' = ce_size e"
    and "entries c' = (entries c)(a \<mapsto> e')" "currentSize c' = currentSize c"
  shows "accounted c'"
proof -
  have "entry_size c' b = entry_size c b" for b using assms by (simp add: entry_size_def)
  moreover have "dom (entries c') = dom (entries c)" using assms by auto
  ultimately show ?thesis using assms by (simp add: accounted_def)
qed

lemma unat_sum_list:
  fixes f :: "'a \<Rightarrow> 64 word"
  assumes "(\<Sum>a\<leftarrow>as. unat (f a)) < 2 ^ 64"
  shows "unat (sum_list (map f as)) = (\<Sum>a\<leftarrow>as. unat (f a))"
  using assms by (induction as) (simp_all add: unat_word_ariths)

text \<open>Eviction frees enough, or everything that is free.\<close>

lemma evict_enough:
  fixes sz :: "'a \<Rightarrow> 64 word"
  assumes "unat f + (\<Sum>a\<leftarrow>as. unat (sz a)) < 2 ^ 64"
  shows "evict sz space f as = as \<or>
    unat space \<le> unat f + (\<Sum>a\<leftarrow>evict sz space f as. unat (sz a))"
  using assms
proof (induction as arbitrary: f)
  case (Cons a as)
  have "unat (f + sz a) = unat f + unat (sz a)" using Cons.prems by (simp add: unat_word_ariths)
  then show ?case using Cons.IH [of "f + sz a"] Cons.prems by (auto simp: word_less_nat_alt)
qed simp

lemma accounted_trim:
  assumes ok: "cache_ok c ps" and bo: "bufs_ok c" and ac: "accounted c"
  shows "\<exists>c' ps'. trim c = Inr c' \<and> cache_ok c' ps' \<and> accounted c' \<and> sizeQuota c' = sizeQuota c \<and>
    (currentSize c' \<le> sizeQuota c' \<or> ps' = [])"
proof (cases "sizeQuota c < currentSize c")
  case False
  then show ?thesis using ok ac by (auto simp: trim_def)
next
  case True
  let ?sp = "currentSize c - sizeQuota c"
  define ev where "ev = evict (entry_size c) ?sp 0 (map snd ps)"
  obtain c' where c': "Cache_cleanup ?sp c = Inr c'" "cache_ok c' (drop (length ev) ps)"
    "after_cleanup (c\<lparr>currentSize := currentSize c - sum_list (map (entry_size c) ev)\<rparr>) ev c'"
    using cleanup_ok [OF ok bo ev_def] .
  have dist: "distinct (map snd ps)" by (rule free_distinct [OF cache_okD(2) [OF ok]])
  have tk: "ev = take (length ev) (map snd ps)" unfolding ev_def by (rule evict_take)
  have dev: "distinct ev" by (subst tk) (rule distinct_take [OF dist])
  have live: "set (map snd ps) \<subseteq> dom (entries c)"
    using free_entry_ex [OF ok] by (meson domI subsetI)
  have sub: "set ev \<subseteq> set (map snd ps)" unfolding ev_def by (rule evict_subset)
  have fin: "finite (dom (entries c))" by (rule finite_entries [OF ok])
  have size_list: "(\<Sum>a\<leftarrow>as. unat (entry_size c a)) \<le> unat (currentSize c)"
    if "distinct as" "set as \<subseteq> dom (entries c)" for as
    using sum_mono2 [OF fin that(2), of "\<lambda>a. unat (entry_size c a)"] ac that(1)
    by (simp add: accounted_def sum_list_distinct_conv_sum_set)
  have "unat (currentSize c) < 2 ^ LENGTH(64)" by (rule unsigned_less)
  then have lt: "x < 2 ^ 64" if "x \<le> unat (currentSize c)" for x
    using that by simp
  have s1: "(\<Sum>a\<leftarrow>ev. unat (entry_size c a)) \<le> unat (currentSize c)"
    using size_list [OF dev] sub live by blast
  have s2: "unat (sum_list (map (entry_size c) ev)) = (\<Sum>a\<leftarrow>ev. unat (entry_size c a))"
    by (rule unat_sum_list [OF lt [OF s1]])
  let ?S = "sum_list (map (entry_size c) ev)"
  have cs: "currentSize c' = currentSize c - ?S" "sizeQuota c' = sizeQuota c" "entries c' = entries c |` (- set ev)"
    using c'(3) by (simp_all add: after_cleanup_def)
  have us: "unat (currentSize c') = unat (currentSize c) - unat ?S"
    unfolding cs(1) using s1 s2 by (simp add: unat_sub word_le_nat_alt)
  have "accounted c'"
  proof -
    have "dom (entries c') = dom (entries c) - set ev" unfolding cs(3) by (simp add: Diff_eq)
    moreover have "(\<Sum>a \<in> dom (entries c) - set ev. unat (entry_size c' a)) = (\<Sum>a \<in> dom (entries c) - set ev. unat (entry_size c a))"
      by (rule sum.cong [OF refl]) (simp add: entry_size_def cs(3) restrict_map_def)
    moreover have "(\<Sum>a \<in> dom (entries c) - set ev. unat (entry_size c a)) =
        (\<Sum>a \<in> dom (entries c). unat (entry_size c a)) - (\<Sum>a \<in> set ev. unat (entry_size c a))"
      by (rule sum_diff_nat) (use sub live in auto)
    moreover have "(\<Sum>a \<in> set ev. unat (entry_size c a)) = unat ?S"
      unfolding s2 using dev by (simp add: sum_list_distinct_conv_sum_set)
    ultimately show ?thesis using ac us by (simp add: accounted_def)
  qed
  moreover have "currentSize c' \<le> sizeQuota c' \<or> drop (length ev) ps = []"
  proof -
    have "unat (0 :: size_t) + (\<Sum>a\<leftarrow>map snd ps. unat (entry_size c a)) < 2 ^ 64"
      using lt [OF size_list [OF dist live]] by simp
    from evict_enough [OF this, of ?sp] consider "ev = map snd ps" | "unat ?sp \<le> unat ?S"
      unfolding ev_def [symmetric] s2 [symmetric] by auto
    then show ?thesis
    proof cases
      case 2
      have "unat ?sp = unat (currentSize c) - unat (sizeQuota c)" using True by (simp add: unat_sub)
      then have "unat (currentSize c') \<le> unat (sizeQuota c')" using 2 us cs(2) by simp
      then show ?thesis by (simp add: word_le_nat_alt)
    qed simp
  qed
  ultimately show ?thesis using True c' cs(2) by (auto simp: trim_def)
qed

text \<open>
  C6: When the account is exact, giving a buffer back restores the quota: afterwards the
  resident entries fit into it, or nothing is left that could be evicted. The account stays
  exact.
\<close>

theorem doneWith_restores_quota:
  assumes "cache_ok c ps" and "bufs_ok c" and "accounted c" and "slots c k = Some (Present b sz n)" and "n > 0"
  shows "\<exists>c' ps'. Cache_doneWith k c = Inr c' \<and> cache_ok c' ps' \<and> accounted c' \<and>
    (currentSize c' \<le> sizeQuota c' \<or> ps' = [])"
proof -
  obtain a e where k: "find_entry k c = Some a" "entries c a = Some e" "slot_of c e = Present b sz n"
    using slots_cases [OF assms(1,4)] by metis
  have "allowed (Done k) (cache_abs c ps)" using assms(4,5) by simp
  from done_releases [OF assms(1) this] obtain d qs e' where d: "Cache_doneWith k c = trim d" "cache_ok d qs"
      "entries d = (entries c)(a \<mapsto> e')" "ce_size e' = ce_size e" "currentSize d = currentSize c" "bufs_ok d"
    using k assms(2) by auto
  have "accounted d" by (rule accounted_same_sizes [OF assms(3) k(2) d(4,3,5)])
  from accounted_trim [OF d(2,6) this] show ?thesis unfolding d(1) by blast
qed

theorem doneWith_restores_quota_witness:
  "\<exists>(c :: nat cache) c' ps'. slots c ''a'' = Some (Present (Some 1) 60 1) \<and> currentSize c = 60 \<and>
     Cache_doneWith ''a'' c = Inr c' \<and> accounted c' \<and> (currentSize c' \<le> sizeQuota c' \<or> ps' = []) \<and> cache_ok c' ps'"
proof -
  obtain c :: "nat cache" and ps where c: "cache_run log_call [Put ''a'' (Some 1) 60] (Cache_new 50, []) = Inr ([True], c, [])"
      "cache_ok c ps" "cache_abs c ps = \<lparr>a_quota = 50, a_used = 60, a_slots = [''a'' \<mapsto> Present (Some 1) 60 1], a_free = [],
         a_freed = [], a_owned = {1}, a_log = [KeyOverflow 1]\<rparr>" "bufs_ok c"
    by (rule reached [of "[Put ''a'' (Some 1) 60]" 50 "[True]" _ "[]"]) (simp_all add: spec_ops)
  have s: "slots c ''a'' = Some (Present (Some 1) 60 1)" "currentSize c = 60"
    using arg_cong [OF c(3), of a_slots] arg_cong [OF c(3), of a_used] by simp_all
  have "Cache_put log_call ''a'' (Some 1) 60 (Cache_new 50, []) = Inr (True, c, [])"
    using c(1) by (auto simp: and_then_Inr_iff)
  then have "accounted c"
    by (rule accounted_put [OF cache_ok_new accounted_new, rotated -1]) (simp_all add: find_entry_def Cache_new_def)
  from doneWith_restores_quota [OF c(2,4) this s(1)] s show ?thesis by auto
qed

section \<open>Callback objects do not leak\<close>

text \<open>The live callback objects are those that wait for a reserved key.\<close>

definition tight :: "'cb cache \<Rightarrow> bool" where
  "tight c \<longleftrightarrow> dom (callbacks c) = (\<Union>a. waiting c a)"

lemma tight_same: "tight c \<Longrightarrow> dom (callbacks c') = dom (callbacks c) \<Longrightarrow> waiting c' = waiting c \<Longrightarrow> tight c'"
  by (simp add: tight_def)

lemma waiting_unreserved:
  assumes "entries c' = (entries c)(a \<mapsto> e')" "\<not> ce_isReserved e' \<or> ce_queue e' = []" "waiting c a = {}"
  shows "waiting c' = waiting c"
  using assms by (auto simp: waiting_def fun_eq_iff split: if_splits)

lemma tight_served:
  assumes ok: "cache_ok c ps" and t: "tight c" and e: "entries c a = Some e" "ce_isReserved e"
    and c': "entries c' = (entries c)(a \<mapsto> e')" "\<not> ce_isReserved e'"
      "callbacks c' = callbacks c |` (- set (ce_queue e))"
  shows "tight c'"
proof -
  have w: "waiting c' = (waiting c)(a := {})" using c' by (auto simp: waiting_def fun_eq_iff)
  have q: "waiting c a = set (ce_queue e)" using e by (simp add: waiting_Some)
  have d: "waiting c b \<inter> waiting c a = {}" if "b \<noteq> a" for b
    using cache_okD(3) [OF ok] that unfolding queues_ok_def by blast
  have "dom (callbacks c') = (\<Union>b. waiting c b) - waiting c a"
    using t unfolding tight_def c'(3) q by auto
  also have "\<dots> = (\<Union>b. waiting c' b)" unfolding w using d by (auto split: if_splits) metis
  finally show ?thesis by (simp add: tight_def)
qed

lemma tight_put:
  assumes ok: "cache_ok c ps" and t: "tight c" and q: "quiet call g"
    and r: "Cache_put call k b sz (c, w) = Inr (r, c', w')"
  shows "tight c'"
proof (cases "find_entry k c")
  case None
  have new: "entries c (next_addr c) = None"
    using cache_okD(4) [OF ok] unfolding heap_ok_def by (cases "entries c (next_addr c)") auto
  have c': "entries c' = (entries c)(next_addr c \<mapsto> CacheEntry_new k b sz)" "callbacks c' = callbacks c"
    using r unfolding put_fresh [OF None] by (auto simp: insert_entry_def)
  have "waiting c' = waiting c"
    by (rule waiting_unreserved [OF c'(1)]) (simp_all add: CacheEntry_new_def waiting_def new)
  then show ?thesis using tight_same [OF t, of c'] c'(2) by simp
next
  case (Some a)
  obtain e where e: "entries c a = Some e" using find_entry_Some [OF ok Some] .
  show ?thesis
  proof (cases "ce_isReserved e")
    case True
    have "c' = put_served k b sz a e c"
      using r unfolding put_reserved [OF q Some e True queue_live(1,2) [OF ok e True]] by simp
    then show ?thesis
      by (intro tight_served [OF ok t e True, of _ "e\<lparr>ce_data := b, ce_size := sz,
            ce_refCount := ce_refCount e + length (ce_queue e), ce_isReserved := False\<rparr>"])
        (simp_all add: put_served_def)
  next
    case False
    then have "c' = copied k c" using r put_occupied [OF Some e False, of call b sz w] by simp
    then show ?thesis using t by (simp add: tight_def)
  qed
qed

lemma tight_cancel:
  assumes ok: "cache_ok c ps" and t: "tight c" and q: "quiet call g"
    and r: "Cache_cancelReservation call k (c, w) = Inr (r, c', w')"
  shows "tight c'"
proof (cases "\<exists>a e. find_entry k c = Some a \<and> entries c a = Some e \<and> ce_isReserved e")
  case True
  then obtain a e where e: "find_entry k c = Some a" "entries c a = Some e" "ce_isReserved e" by blast
  have "c' = c\<lparr>entries := (entries c)(a \<mapsto> e\<lparr>ce_isReserved := False\<rparr>), callbacks := callbacks c |` (- set (ce_queue e))\<rparr>"
    using r unfolding cancel_reserved [OF q e queue_live(1,2) [OF ok e(2,3)]] by simp
  then show ?thesis by (intro tight_served [OF ok t e(2,3), of _ "e\<lparr>ce_isReserved := False\<rparr>"]) simp_all
next
  case False
  have "c' = c"
  proof (cases "find_entry k c")
    case None
    then show ?thesis using r by (simp add: Cache_cancelReservation_def)
  next
    case (Some a)
    obtain e where "entries c a = Some e" using find_entry_Some [OF ok Some] .
    then show ?thesis using r Some False by (simp add: Cache_cancelReservation_def)
  qed
  then show ?thesis using t by simp
qed

lemma tight_reserve:
  assumes ok: "cache_ok c ps" and t: "tight c" and al: "allowed (Reserve k) (cache_abs c ps)"
    and r: "Cache_reserve k c = Inr (r, c')"
  shows "tight c'"
proof (cases "find_entry k c")
  case None
  have new: "entries c (next_addr c) = None"
    using cache_okD(4) [OF ok] unfolding heap_ok_def by (cases "entries c (next_addr c)") auto
  have c': "entries c' = (entries c)(next_addr c \<mapsto> CacheEntry_reserved k)" "callbacks c' = callbacks c"
    using r unfolding reserve_fresh [OF None] by (auto simp: insert_entry_def)
  have "waiting c' = waiting c"
    by (rule waiting_unreserved [OF c'(1)]) (simp_all add: CacheEntry_reserved_def waiting_def new)
  then show ?thesis using tight_same [OF t, of c'] c'(2) by simp
next
  case (Some a)
  obtain e where e: "entries c a = Some e" using find_entry_Some [OF ok Some] .
  have "ce_isReserved e" using al by (auto simp: slots_Some [OF Some e] slot_of_def split: if_splits)
  then have "c' = copied k c" using r reserve_reserved [OF Some e] by simp
  then show ?thesis using t by (simp add: tight_def)
qed

lemma tight_get:
  assumes ok: "cache_ok c ps" and t: "tight c" and q: "quiet call g"
    and r: "cache_exec call (Get k cb) (c, w) = Inr (r, c', w')"
  shows "tight c'"
proof -
  let ?p = "next_addr c" and ?d = "with_callback cb c"
  have p: "callbacks c ?p = None" by (rule next_addr_fresh(2) [OF ok])
  have dp: "dom ((callbacks c)(?p := None)) = dom (callbacks c)" using p by auto
  note r = r [unfolded cache_exec_Get]
  show ?thesis
  proof (cases "find_entry k c")
    case None
    then have "c' = ?d\<lparr>callbacks := (callbacks ?d)(?p := None)\<rparr>"
      using r get_absent [of k ?d ?p cb call w] by simp
    then have "dom (callbacks c') = dom (callbacks c)" "waiting c' = waiting c"
      using dp by (simp_all add: waiting_def fun_eq_iff)
    then show ?thesis by (rule tight_same [OF t])
  next
    case (Some a)
    obtain e where e: "entries c a = Some e" using find_entry_Some [OF ok Some] .
    show ?thesis
    proof (cases "ce_isReserved e")
      case True
      have "c' = ?d\<lparr>entries := (entries ?d)(a \<mapsto> e\<lparr>ce_queue := ce_queue e @ [?p]\<rparr>)\<rparr>"
        using r get_reserved [of k ?d a e call ?p w] Some e True by simp
      then have "dom (callbacks c') = insert ?p (dom (callbacks c))"
        and "waiting c' = (waiting c)(a := insert ?p (waiting c a))"
        using True e by (auto simp: waiting_def fun_eq_iff)
      then show ?thesis using t by (auto simp: tight_def split: if_splits)
    next
      case False
      obtain fl en where c': "c' = ?d\<lparr>entries := (entries c)(a \<mapsto> en), freeList := fl, callbacks := (callbacks ?d)(?p := None)\<rparr>"
        "\<not> ce_isReserved en"
      proof (cases "ce_freeListRef e")
        case None
        have "c' = ?d\<lparr>entries := (entries ?d)(a \<mapsto> e\<lparr>ce_refCount := ce_refCount e + 1\<rparr>), callbacks := (callbacks ?d)(?p := None)\<rparr>"
          using r get_in_use [OF q, of k ?d a e ?p cb w] Some e False None by simp
        then show ?thesis using that [of "freeList c" "e\<lparr>ce_refCount := ce_refCount e + 1\<rparr>"] False by simp
      next
        case (Some n)
        note fr = free_okD [OF cache_okD(2) [OF ok]]
        obtain fl where fl: "ff_removeNode (Some n) (freeList c) = Inr fl"
          using fl_remove [OF fr(1) fr(4) [OF e Some]] by blast
        let ?en = "e\<lparr>ce_refCount := ce_refCount e + 1, ce_freeListRef := None\<rparr>"
        have "c' = ?d\<lparr>entries := (entries ?d)(a \<mapsto> ?en), freeList := fl, callbacks := (callbacks ?d)(?p := None)\<rparr>"
          using r get_free [OF q, of k ?d a e n ?p cb fl w] \<open>find_entry k c = Some a\<close> e False Some fl by simp
        then show ?thesis using that [of fl ?en] False by simp
      qed
      have "waiting c' = waiting c"
        by (rule waiting_unreserved [of _ _ a en]) (use c' e False in \<open>simp_all add: waiting_Some\<close>)
      then show ?thesis using tight_same [OF t, of c'] c' dp by simp
    qed
  qed
qed

lemma trim_keeps:
  assumes ok: "cache_ok c ps" and bo: "bufs_ok c" and r: "trim c = Inr c'"
  shows "callbacks c' = callbacks c" and "waiting c' = waiting c"
proof -
  define ev where "ev = evict (entry_size c) (currentSize c - sizeQuota c) 0 (map snd ps)"
  have "callbacks c' = callbacks c \<and> waiting c' = waiting c"
  proof (cases "sizeQuota c < currentSize c")
    case True
    then obtain d where d: "Cache_cleanup (currentSize c - sizeQuota c) c = Inr d"
      "after_cleanup (c\<lparr>currentSize := currentSize c - sum_list (map (entry_size c) ev)\<rparr>) ev d"
      using cleanup_ok [OF ok bo ev_def] by blast
    have c': "entries c' = entries c |` (- set ev)" "callbacks c' = callbacks c"
      using d r True by (simp_all add: trim_def after_cleanup_def)
    have "waiting c a = {}" if "a \<in> set ev" for a
    proof -
      have "a \<in> set (map snd ps)" using that evict_subset unfolding ev_def by fast
      then obtain e where "entries c a = Some e" "\<not> ce_isReserved e" by (rule free_entry [OF ok])
      then show ?thesis by (simp add: waiting_Some)
    qed
    then have "waiting c' a = waiting c a" for a
      by (cases "a \<in> set ev") (simp_all add: waiting_def c'(1) restrict_map_def)
    then show ?thesis using c'(2) by auto
  qed (use r in \<open>simp add: trim_def\<close>)
  then show "callbacks c' = callbacks c" and "waiting c' = waiting c" by blast+
qed

lemma tight_done:
  assumes ok: "cache_ok c ps" and bo: "bufs_ok c" and t: "tight c" and al: "allowed (Done k) (cache_abs c ps)"
    and r: "Cache_doneWith k c = Inr c'"
  shows "tight c'"
proof -
  obtain d qs a e e' where d: "Cache_doneWith k c = trim d" "cache_ok d qs" "callbacks d = callbacks c"
    and en: "entries c a = Some e" "\<not> ce_isReserved e" "entries d = (entries c)(a \<mapsto> e')" "\<not> ce_isReserved e'" and bd: "bufs_ok d"
    using done_releases [OF ok al] bo by blast
  have "waiting d = waiting c"
    by (rule waiting_unreserved [OF en(3)]) (use en in \<open>simp_all add: waiting_Some\<close>)
  with d show ?thesis using r trim_keeps [OF d(2) bd, of c'] tight_same [OF t, of c'] by simp
qed

lemma tight_step:
  assumes "cache_ok c ps" "tight c" "quiet call g" "allowed op (cache_abs c ps)" "bufs_ok c"
    and "cache_exec call op (c, w) = Inr (r, c', w')"
  shows "tight c'"
proof (cases op)
  case (Put k b sz)
  then show ?thesis using assms(6) tight_put [OF assms(1-3)] by simp
next
  case (Get k cb)
  show ?thesis using assms(6) unfolding Get by (rule tight_get [OF assms(1-3)])
next
  case (Reserve k)
  then show ?thesis using assms(4,6) tight_reserve [OF assms(1,2), of k] by (auto simp: and_then_Inr_iff)
next
  case (Cancel k)
  then show ?thesis using assms(6) tight_cancel [OF assms(1-3)] by simp
next
  case (Done k)
  then show ?thesis using assms(4,6) tight_done [OF assms(1,5,2), of k] by (auto simp: and_then_Inr_iff)
qed

lemma tight_run:
  assumes "cache_ok c ps" "bufs_ok c" "tight c" "quiet call g" "allowed_run g ops (cache_abs c ps, w)"
  shows "\<exists>rs c' w'. cache_run call ops (c, w) = Inr (rs, c', w') \<and> tight c'"
  using assms
proof (induction ops arbitrary: c ps w)
  case (Cons op ops)
  have al: "allowed op (cache_abs c ps)" using Cons.prems(5) by simp
  obtain r d v qs where d: "cache_exec call op (c, w) = Inr (r, d, v)" "cache_ok d qs" "bufs_ok d"
      "a_exec g op (cache_abs c ps, w) = (r, cache_abs d qs, v)"
    using cache_step_simulates [OF Cons.prems(1,2,4) al, of w] unfolding simulates_def by metis
  have "allowed_run g ops (cache_abs d qs, v)" using Cons.prems(5) d(4) by simp
  from Cons.IH [OF d(2,3) tight_step [OF Cons.prems(1,3,4) al Cons.prems(2) d(1)] Cons.prems(4) this] show ?case
    using d(1) by (auto simp del: cache_exec.simps)
qed simp

text \<open>
  C7: The cache frees every callback that a client handed to \<open>get\<close>, exactly once: after any
  run that follows the protocol the callbacks still allocated are those that wait for a
  reserved key, and none of them is gone.
\<close>

theorem callbacks_do_not_leak:
  assumes "quiet call g" and "allowed_run g ops (a_new quota, w)"
  shows "\<exists>rs c w'. cache_run call ops (Cache_new quota, w) = Inr (rs, c, w') \<and>
     dom (callbacks c) = (\<Union>a. waiting c a)"
proof -
  have t: "tight (Cache_new quota)" by (simp add: tight_def Cache_new_def waiting_def)
  have al: "allowed_run g ops (cache_abs (Cache_new quota) [], w)"
    using assms(2) by (simp only: cache_abs_new)
  obtain rs c w' where "cache_run call ops (Cache_new quota, w) = Inr (rs, c, w')" "tight c"
    using tight_run [OF cache_ok_new bufs_new(1) t assms(1) al] by blast
  then show ?thesis unfolding tight_def by blast
qed

theorem callbacks_do_not_leak_witness:
  "\<exists>rs c w'. cache_run log_call [Reserve ''k'', Get ''k'' (1 :: nat), Cancel ''k'', Get ''x'' 2] (Cache_new 10, []) =
     Inr (rs, c, w') \<and> dom (callbacks c) = (\<Union>a. waiting c a)"
  by (rule callbacks_do_not_leak [OF quiet_log_call]) (simp add: spec_ops)

section \<open>What the code does outside of its comments\<close>

text \<open>
  \<open>put\<close> into a reserved key is never added to the account: a buffer of any size that came
  in by \<open>reserve\<close> and \<open>put\<close> stays in the cache after its last \<open>doneWith\<close>, whatever the quota.
\<close>

theorem reserved_put_escapes_quota:
  "\<exists>c. cache_run log_call [Reserve k, Put k b sz, Done k] (Cache_new quota :: nat cache, []) =
     Inr ([True, True, True], c, []) \<and> currentSize c = 0 \<and> slots c k = Some (Present b sz 0)"
proof -
  obtain c :: "nat cache" and ps where
    c: "cache_run log_call [Reserve k, Put k b sz, Done k] (Cache_new quota, []) = Inr ([True, True, True], c, [])"
      "cache_abs c ps = \<lparr>a_quota = quota, a_used = 0, a_slots = [k \<mapsto> Present b sz 0], a_free = [k],
         a_freed = [], a_owned = set_option b, a_log = [KeyOverflow (length k), KeyOverflow (length k)]\<rparr>"
    by (rule reached [of "[Reserve k, Put k b sz, Done k]" quota "[True, True, True]" _ "[]"]) (simp_all add: spec_ops)
  show ?thesis using cache_abs_fields [OF c(2)] by (intro exI [of _ c] conjI c(1)) simp_all
qed

text \<open>
  After a cancelled reservation the key counts as cached: the next \<open>get\<close> is answered at
  once with a null buffer and \<open>isCached\<close> true, and its reference is counted.
\<close>

theorem cancelled_key_hits_with_null:
  "\<exists>c. cache_run log_call [Reserve k, Cancel k, Get k cb] (Cache_new quota :: nat cache, []) =
     Inr ([True, True, True], c, [(cb, CacheData None 0 True)]) \<and> slots c k = Some (Present None 0 2)"
proof -
  let ?ops = "[Reserve k, Cancel k, Get k cb]"
  let ?A = "\<lparr>a_quota = quota, a_used = 0, a_slots = [k \<mapsto> Present None 0 2], a_free = [],
         a_freed = [], a_owned = {}, a_log = [KeyOverflow (length k)]\<rparr>"
  have al: "allowed_run log_world ?ops (a_new quota, [])" by (simp add: spec_ops)
  have run: "a_run log_world ?ops (a_new quota, []) = ([True, True, True], ?A, [(cb, CacheData None 0 True)])"
    by (simp add: spec_ops numeral_2_eq_2)
  obtain c :: "nat cache" and ps where
    c: "cache_run log_call ?ops (Cache_new quota, []) = Inr ([True, True, True], c, [(cb, CacheData None 0 True)])"
      "cache_abs c ps = ?A"
    by (rule reached [OF al run])
  show ?thesis using cache_abs_fields [OF c(2)] by (intro exI [of _ c] conjI c(1)) simp
qed

text \<open>
  C9: The queue of an entry is never cleared: once a waiting callback was served, reserving
  the key again and putting it calls the callback object that was deleted.
\<close>

theorem second_reservation_uses_freed_callback:
  "cache_run log_call [Reserve k, Get k cb, Put k b sz, Reserve k, Put k b' sz'] (Cache_new quota :: nat cache, []) =
     Inl UseAfterFree"
  by (simp add: Cache_reserve_def Cache_put_def Cache_get_def new_name_eq find_entry_def Cache_new_def
      insert_entry_def CacheEntry_reserved_def new_callback_def update_entry_def invoke_def delete_callback_def
      delete_name_def log_call_def copied_def)

text \<open>
  \<open>get\<close> without a callback is answered with \<open>false\<close> for an absent key, but for a key
  whose buffer is in the cache it calls the null callback.
\<close>

theorem get_null_callback:
  assumes "cache_ok c ps"
  shows "(slots c k = None \<longrightarrow> Cache_get call k None (c, w) = Inr (False, c, w)) \<and>
    (\<forall>s. slots c k = Some s \<longrightarrow> Cache_get call k None (c, w) = Inl NullDeref)"
proof (cases "find_entry k c")
  case None
  then show ?thesis using slots_None [OF assms, of k] by (simp add: Cache_get_def delete_callback_def)
next
  case (Some a)
  obtain e where "entries c a = Some e" using find_entry_Some [OF assms Some] .
  then show ?thesis using Some by (simp add: slots_def Cache_get_def invoke_def)
qed

theorem get_null_callback_witness:
  "Cache_get log_call ''k'' None (Cache_new 10 :: nat cache, []) = Inr (False, Cache_new 10, [])"
  using get_null_callback [OF cache_ok_new, of 10 "''k''" log_call "[]"]
  by (simp add: slots_def find_entry_def Cache_new_def)

section \<open>The destructor\<close>

definition linked :: "'cb cache \<Rightarrow> (addr \<times> addr) list \<Rightarrow> addr \<Rightarrow> bool" where
  "linked c ps a \<longleftrightarrow> (\<exists>e. entries c a = Some e \<and> ce_name e \<noteq> None \<and>
     (\<forall>n. ce_freeListRef e = Some n \<longleftrightarrow> (n, a) \<in> set ps))"

text \<open>The entry that the loop over the table leaves behind.\<close>

definition emptied :: "addr \<Rightarrow> cache_entry \<Rightarrow> 'cb cache \<Rightarrow> 'cb cache" where
  "emptied a e c =
     (delete_name (ce_name e) (c\<lparr>freed_bufs := freed_bufs c @ data_bufs e\<rparr>))
       \<lparr>entries := (entries c)(a \<mapsto> e\<lparr>ce_data := None, ce_name := None\<rparr>)\<rparr>"

lemma emptied_simps [simp]:
  "entries (emptied a e c) = (entries c)(a \<mapsto> e\<lparr>ce_data := None, ce_name := None\<rparr>)"
  "freeList (emptied a e c) = freeList c"
  "callbacks (emptied a e c) = callbacks c"
  "live_names (emptied a e c) = live_names c - (if ce_name e = None then 0 else 1)"
  "freed_bufs (emptied a e c) = freed_bufs c @ data_bufs e"
  by (auto simp: emptied_def delete_name_def split: option.splits)

lemma emptied_bufs:
  assumes "bufs_ok c" "entries c a = Some e" "entries d = entries (emptied a e c)" "freed_bufs d = freed_bufs (emptied a e c)"
  shows "bufs_ok d"
proof -
  have "entry_bufs d = (entry_bufs c)(a := [])"
    using assms(3) by (simp add: entry_bufs_def fun_eq_iff)
  then show ?thesis using bufs_free(1) [OF assms(1), of d a] assms(2,4) by simp
qed

lemma destroy_map_Cons:
  "entries c a = Some e \<Longrightarrow> bufs_ok c \<Longrightarrow>
     destroy_map ((k, a) # kvs) c =
       and_then (if ce_freeListRef e \<noteq> None
                 then and_then (ff_removeNode (ce_freeListRef e) (freeList c)) (\<lambda>fl. Inr ((emptied a e c)\<lparr>freeList := fl\<rparr>))
                 else Inr (emptied a e c)) (destroy_map kvs)"
  using deallocate_ok [of e c] bufs_okD(2) [of c a]
  by (simp add: emptied_def delete_name_def Let_def split: option.splits)

lemma destroy_map_ok:
  "bufs_ok c \<Longrightarrow> distinct (map snd kvs) \<Longrightarrow> fl_rep (freeList c) ps \<Longrightarrow> (\<forall>a \<in> snd ` set kvs. linked c ps a) \<Longrightarrow>
   snd ` set ps \<subseteq> snd ` set kvs \<Longrightarrow>
     \<exists>c'. destroy_map kvs c = Inr c' \<and> fl_rep (freeList c') [] \<and> callbacks c' = callbacks c \<and>
       freed_bufs c' = freed_bufs c @ concat (map (\<lambda>(k, a). entry_bufs c a) kvs) \<and>
       live_names c' = live_names c - int (length kvs) \<and> bufs_ok c'"
proof (induction kvs arbitrary: c ps)
  case Nil
  then show ?case by auto
next
  case (Cons kv kvs)
  obtain k a where kv: "kv = (k, a)" by (cases kv)
  obtain e where e: "entries c a = Some e" "ce_name e \<noteq> None" "\<forall>n. ce_freeListRef e = Some n \<longleftrightarrow> (n, a) \<in> set ps"
    using Cons.prems(4) unfolding kv linked_def by auto
  have na: "a \<notin> snd ` set kvs" using Cons.prems(2) by (simp add: kv)
  have rest: "\<forall>b \<in> snd ` set kvs. linked c ps b" using Cons.prems(4) by simp
  have dp: "distinct (map fst ps)" by (rule fl_rep_distinct [OF Cons.prems(3)])
  obtain d qs where d: "destroy_map (kv # kvs) c = destroy_map kvs d" "fl_rep (freeList d) qs"
    "set qs = {p \<in> set ps. snd p \<noteq> a}" "callbacks d = callbacks c" "entries d = entries (emptied a e c)"
    "live_names d = live_names c - 1" "freed_bufs d = freed_bufs c @ entry_bufs c a"
  proof (cases "ce_freeListRef e")
    case None
    then have "set ps = {p \<in> set ps. snd p \<noteq> a}" using e(3) by auto
    then show ?thesis
      using that [of "emptied a e c" ps] None e Cons.prems(3) destroy_map_Cons [OF e(1) Cons.prems(1)]
      by (simp add: kv entry_bufs_def del: destroy_map.simps)
  next
    case (Some n)
    then have n: "(n, a) \<in> set ps" using e(3) by simp
    obtain fl where fl: "ff_removeNode (Some n) (freeList c) = Inr fl" "fl_rep fl (drop_key n ps)"
      using fl_remove [OF Cons.prems(3) n] .
    have "fst p = n \<longleftrightarrow> snd p = a" if p: "p \<in> set ps" for p
      using eq_key_imp_eq_value [OF dp n, of "snd p"] e(3) Some p by (metis option.inject prod.collapse)
    then have "set (drop_key n ps) = {p \<in> set ps. snd p \<noteq> a}" unfolding set_drop_key by blast
    then show ?thesis
      using that [of "(emptied a e c)\<lparr>freeList := fl\<rparr>" "drop_key n ps"] Some e fl destroy_map_Cons [OF e(1) Cons.prems(1)]
      by (simp add: kv entry_bufs_def del: destroy_map.simps)
  qed
  have bd: "bufs_ok d" by (rule emptied_bufs [OF Cons.prems(1) e(1) d(5)]) (use d(7) e(1) in simp)
  have en: "entries d b = entries c b" if "b \<in> snd ` set kvs" for b using na that d(5) by auto
  have "\<forall>b \<in> snd ` set kvs. linked d qs b"
  proof
    fix b assume b: "b \<in> snd ` set kvs"
    then have "linked c ps b" "b \<noteq> a" using rest na by blast+
    then show "linked d qs b" using en [OF b] by (simp add: linked_def d(3))
  qed
  moreover have "snd ` set qs \<subseteq> snd ` set kvs" using Cons.prems(5) unfolding d(3) kv by auto
  moreover have "distinct (map snd kvs)" using Cons.prems(2) by simp
  ultimately obtain c' where c': "destroy_map kvs d = Inr c'" "fl_rep (freeList c') []" "callbacks c' = callbacks d"
      "freed_bufs c' = freed_bufs d @ concat (map (\<lambda>(k, a). entry_bufs d a) kvs)"
      "live_names c' = live_names d - int (length kvs)" "bufs_ok c'"
    using Cons.IH [OF bd _ d(2)] by blast
  have m: "map (\<lambda>(k, a). entry_bufs d a) kvs = map (\<lambda>(k, a). entry_bufs c a) kvs"
    by (rule map_cong [OF refl]) (use en in \<open>force simp: entry_bufs_def\<close>)
  show ?case
    using c' [unfolded m] d(1,4,6,7) by (intro exI [of _ c']) (simp add: kv del: destroy_map.simps)
qed

text \<open>
  C8: The destructor always ends without a fault. It frees the buffer of every resident entry
  exactly once, whether the entry is in use or free, and none that was freed before; as many
  key copies are deleted as there are; callbacks that still wait for a reserved key are
  neither called nor freed.
\<close>

theorem destroy_frees_all_buffers:
  assumes "cache_ok c ps" and "bufs_ok c"
  shows "\<exists>c'. Cache_destroy c = Inr c' \<and> live_names c' = 0 \<and> callbacks c' = callbacks c \<and>
    freed_bufs c' = freed_bufs c @ concat (map (\<lambda>(k, a). entry_bufs c a) (cacheMap c)) \<and>
    distinct (freed_bufs c')"
proof -
  note ok = cache_okD [OF assms(1)]
  note fr = free_okD [OF ok(2)]
  have T: "distinct (map snd (cacheMap c))" "dom (entries c) = snd ` set (cacheMap c)"
    using ok(1) unfolding table_ok_def by blast+
  have "linked c ps a" if a: "a \<in> snd ` set (cacheMap c)" for a
  proof -
    obtain k where k: "(k, a) \<in> set (cacheMap c)" using a by force
    then have "find_entry k c = Some a" using find_entry_iff [OF ok(1)] by blast
    then obtain e where e: "entries c a = Some e" "ce_name e = Some k" by (rule find_entry_Some [OF assms(1)])
    have "ce_freeListRef e = Some n \<longleftrightarrow> (n, a) \<in> set ps" for n
      using fr(2) [of n a] fr(4) [OF e(1), of n] e(1) by auto
    then show ?thesis using e by (simp add: linked_def)
  qed
  moreover have "snd ` set ps \<subseteq> snd ` set (cacheMap c)"
  proof
    fix a assume "a \<in> snd ` set ps"
    then have "a \<in> dom (entries c)" using free_entry_ex [OF assms(1), of a] by auto
    then show "a \<in> snd ` set (cacheMap c)" using T(2) by simp
  qed
  ultimately obtain d where d: "destroy_map (cacheMap c) c = Inr d" "fl_rep (freeList d) []" "callbacks d = callbacks c"
      "freed_bufs d = freed_bufs c @ concat (map (\<lambda>(k, a). entry_bufs c a) (cacheMap c))"
      "live_names d = live_names c - int (length (cacheMap c))" "bufs_ok d"
    using destroy_map_ok [OF assms(2) T(1) fr(1)] by blast
  have f: "destroy_free (Suc (ff_brk (freeList d))) d = Inr d"
    using fl_pop_empty [OF d(2)] by simp
  obtain fl where fl: "ff_destroy (freeList d) = Inr fl"
    using ff_drain_done [of "freeList d" "[]"] ff_rep_length [of "freeList d" "[]"] d(2)
    unfolding ff_destroy_def fl_rep_def by auto
  show ?thesis
    using d fl ok(4) bufs_okD(1) [OF d(6)] by (simp add: Cache_destroy_def f heap_ok_def del: destroy_map.simps destroy_free.simps)
qed

theorem destroy_frees_all_buffers_witness:
  "\<exists>(c :: nat cache) c'. slots c ''a'' = Some (Present (Some 1) 60 1) \<and> Cache_destroy c = Inr c' \<and> live_names c' = 0 \<and>
     distinct (freed_bufs c')"
proof -
  obtain c :: "nat cache" and ps where c: "cache_ok c ps" "bufs_ok c"
      "cache_abs c ps = \<lparr>a_quota = 100, a_used = 60, a_slots = [''a'' \<mapsto> Present (Some 1) 60 1], a_free = [],
         a_freed = [], a_owned = {1}, a_log = [KeyOverflow 1]\<rparr>"
    by (rule reached [of "[Put ''a'' (Some 1) 60]" 100 "[True]" _ "[]"]) (simp_all add: spec_ops)
  have "slots c ''a'' = Some (Present (Some 1) 60 1)" using cache_abs_fields(1) [OF c(3)] by simp
  then show ?thesis using destroy_frees_all_buffers [OF c(1,2)] by blast
qed

end
