(* ===== verification/UnitTask.thy ===== *)
theory UnitTask
  imports Prelude
begin

text \<open>
  \<open>UnitTask\<close> of \<open>lib/inc/unit_task.h\<close>: what a dispatcher runs. \<open>'a\<close> is the code behind the
  function object; its id groups the tasks that must not overtake each other.
\<close>

type_synonym task_group_id = size_t

record 'a unit_task =
  ut_id :: task_group_id
  ut_task :: 'a

definition DEFAULT_ID :: task_group_id where "DEFAULT_ID = 0"

definition UnitTask_id :: "'a \<Rightarrow> task_group_id \<Rightarrow> 'a unit_task" where
  "UnitTask_id task i = \<lparr>ut_id = i, ut_task = task\<rparr>"

definition UnitTask :: "'a \<Rightarrow> 'a unit_task" where
  "UnitTask task = UnitTask_id task DEFAULT_ID"

lemma UnitTask_simps [simp]:
  "ut_id (UnitTask_id task i) = i" "ut_task (UnitTask_id task i) = task"
  "ut_id (UnitTask task) = DEFAULT_ID" "ut_task (UnitTask task) = task"
  by (simp_all add: UnitTask_def UnitTask_id_def)

section \<open>Counters per task group\<close>

text \<open>
  \<open>TaskCountMap\<close>: an \<open>unordered_map<TaskGroupID, size_t>\<close> as a list of pairs with distinct
  keys. \<open>map[k]\<close> inserts 0 for a missing key, and counters wrap around.
\<close>

type_synonym task_count_map = "(task_group_id \<times> size_t) list"

fun tc_update :: "task_group_id \<Rightarrow> (size_t \<Rightarrow> size_t) \<Rightarrow> task_count_map \<Rightarrow> task_count_map" where
  "tc_update k f [] = [(k, f 0)]"
| "tc_update k f ((k', n) # m) = (if k' = k then (k', f n) # m else (k', n) # tc_update k f m)"

definition tc_get :: "task_count_map \<Rightarrow> task_group_id \<Rightarrow> size_t" where
  "tc_get m k = (case map_of m k of None \<Rightarrow> 0 | Some n \<Rightarrow> n)"

definition tc_sum :: "task_count_map \<Rightarrow> size_t" where
  "tc_sum m = sum_list (map snd m)"

lemma tc_get_update: "tc_get (tc_update k f m) k' = (if k' = k then f (tc_get m k) else tc_get m k')"
  by (induction k f m rule: tc_update.induct) (auto simp: tc_get_def)

lemma tc_sum_update:
  "tc_sum (tc_update k f m) = tc_sum m + (f (tc_get m k) - tc_get m k)"
  by (induction k f m rule: tc_update.induct) (auto simp: tc_sum_def tc_get_def algebra_simps)

end
