(* ===== verification/AioWrapper.thy ===== *)
theory AioWrapper
  imports UnitTask
begin

text \<open>
  \<open>lib/inc/aio_wrapper.h\<close> and \<open>lib/aio_wrapper.cc\<close>: asynchronous reads and writes whose
  completion is turned into a task of the dispatcher. The kernel's part (\<open>aio_read\<close>,
  \<open>aio_write\<close>, \<open>aio_error\<close>, \<open>aio_return\<close>) is the parameter \<open>sys\<close>, one record of answers for
  each moment at which the code asks. \<open>'ok\<close> and \<open>'err\<close> are the client's function objects, \<open>'t\<close>
  the tasks that the client enqueues itself; \<open>aio_queue\<close> is the queue of the dispatcher.

  \<open>use_sig\<close> is the build flag \<open>LIBEVENT_USE_SIG\<close>: with it the kernel signals the completion and a
  handler enqueues the callback; without it (the build of the library's makefile) a task of the
  dispatcher polls.
\<close>

type_synonym ssize_t = "64 word"
type_synonym off_t = "64 word"

section \<open>State\<close>

datatype aio_func = AioRead | AioWrite

text \<open>\<open>struct aiocb\<close>, and which function was asked to perform it.\<close>

record aiocb =
  cb_func :: aio_func
  cb_fildes :: c_int
  cb_buf :: "addr option"
  cb_nbytes :: size_t
  cb_offset :: off_t
  cb_sival_ptr :: "addr option"

text \<open>\<open>struct IOCallback\<close>; it owns its two function objects, which die with it.\<close>

record ('ok, 'err) io_callback =
  ioc_id :: task_group_id
  ioc_okCB :: "'ok option"
  ioc_errCB :: "'err option"

definition IOCallback :: "'ok option \<Rightarrow> 'err option \<Rightarrow> ('ok, 'err) io_callback" where
  "IOCallback ok err = \<lparr>ioc_id = DEFAULT_ID, ioc_okCB = ok, ioc_errCB = err\<rparr>"

definition IOCallback_id :: "'ok option \<Rightarrow> 'err option \<Rightarrow> task_group_id \<Rightarrow> ('ok, 'err) io_callback" where
  "IOCallback_id ok err i = \<lparr>ioc_id = i, ioc_okCB = ok, ioc_errCB = err\<rparr>"

text \<open>\<open>struct AIOSigHandlerInfo\<close>: the callback and the control block it owns.\<close>

record sig_info =
  si_callback :: "addr option"
  si_aioCB :: addr

text \<open>What is bound into a task: a completion or error callback with its arguments, or the next poll.\<close>

datatype ('ok, 'err, 't) task =
    OkTask 'ok c_int "addr option" ssize_t
  | ErrTask 'err c_int c_int
  | CheckTask addr "addr option"
  | ClientTask 't

record ('ok, 'err, 't) aio =
  aio_cbs :: "addr \<rightharpoonup> aiocb"
  aio_callbacks :: "addr \<rightharpoonup> ('ok, 'err) io_callback"
  aio_infos :: "addr \<rightharpoonup> sig_info"
  aio_next :: addr
  aio_queue :: "('ok, 'err, 't) task unit_task list"

definition aio_new :: "('ok, 'err, 't) aio" where
  "aio_new = \<lparr>aio_cbs = Map.empty, aio_callbacks = Map.empty, aio_infos = Map.empty, aio_next = 0, aio_queue = []\<rparr>"

text \<open>
  The kernel: the result of submitting an operation with the \<open>errno\<close> it leaves, the status of an
  operation, and the result of a finished one.
\<close>

record aio_sys =
  sys_submit :: "aio_func \<Rightarrow> aiocb \<Rightarrow> c_int \<times> c_int"
  sys_error :: "addr \<Rightarrow> c_int"
  sys_return :: "addr \<Rightarrow> ssize_t"

definition EINPROGRESS :: c_int where "EINPROGRESS = 115"
definition SIGIO :: c_int where "SIGIO = 29"

section \<open>Primitives\<close>

definition enqueue_task :: "('ok, 'err, 't) task \<Rightarrow> task_group_id \<Rightarrow> ('ok, 'err, 't) aio \<Rightarrow> ('ok, 'err, 't) aio" where
  "enqueue_task t i S = S\<lparr>aio_queue := aio_queue S @ [UnitTask_id t i]\<rparr>"

definition new_io_callback :: "('ok, 'err) io_callback \<Rightarrow> ('ok, 'err, 't) aio \<Rightarrow> addr \<times> ('ok, 'err, 't) aio" where
  "new_io_callback ioc S =
     (aio_next S, S\<lparr>aio_callbacks := (aio_callbacks S)(aio_next S \<mapsto> ioc), aio_next := Suc (aio_next S)\<rparr>)"

definition delete_io_callback :: "addr option \<Rightarrow> ('ok, 'err, 't) aio \<Rightarrow> fault + ('ok, 'err, 't) aio" where
  "delete_io_callback callback S =
     (case callback of
        None \<Rightarrow> Inr S
      | Some p \<Rightarrow> (case aio_callbacks S p of
            None \<Rightarrow> Inl DoubleFree
          | Some _ \<Rightarrow> Inr (S\<lparr>aio_callbacks := (aio_callbacks S)(p := None)\<rparr>)))"

definition delete_aiocb :: "addr \<Rightarrow> ('ok, 'err, 't) aio \<Rightarrow> fault + ('ok, 'err, 't) aio" where
  "delete_aiocb a S =
     (case aio_cbs S a of None \<Rightarrow> Inl DoubleFree | Some _ \<Rightarrow> Inr (S\<lparr>aio_cbs := (aio_cbs S)(a := None)\<rparr>))"

text \<open>\<open>delete origInfo\<close>: its destructor deletes the callback and the control block.\<close>

definition delete_info :: "addr \<Rightarrow> ('ok, 'err, 't) aio \<Rightarrow> fault + ('ok, 'err, 't) aio" where
  "delete_info p S =
     (case aio_infos S p of
        None \<Rightarrow> Inl DoubleFree
      | Some info \<Rightarrow>
          and_then (delete_io_callback (si_callback info) S) (\<lambda>S.
          and_then (delete_aiocb (si_aioCB info) S) (\<lambda>S.
          Inr (S\<lparr>aio_infos := (aio_infos S)(p := None)\<rparr>))))"

text \<open>
  The completion of an operation that is no longer in progress: the matching callback, if it is
  there, becomes a task. \<open>aio_return\<close> is asked only for a success that is reported.
\<close>

definition notify :: "aio_sys \<Rightarrow> addr \<Rightarrow> addr \<Rightarrow> ('ok, 'err, 't) aio \<Rightarrow> fault + ('ok, 'err, 't) aio" where
  "notify sys a p S =
     and_then (deref (aio_cbs S) a) (\<lambda>aioCB.
     and_then (deref (aio_callbacks S) p) (\<lambda>callback.
     let status = sys_error sys a in
     if status = 0 then
       (case ioc_okCB callback of
          None \<Rightarrow> Inr S
        | Some ok \<Rightarrow>
            Inr (enqueue_task (OkTask ok (cb_fildes aioCB) (cb_buf aioCB) (sys_return sys a)) (ioc_id callback) S))
     else
       (case ioc_errCB callback of
          None \<Rightarrow> Inr S
        | Some err \<Rightarrow> Inr (enqueue_task (ErrTask err (cb_fildes aioCB) status) (ioc_id callback) S))))"

section \<open>Completion\<close>

text \<open>The poll: it enqueues itself again while the operation is in progress.\<close>

definition checkIOProgress ::
  "aio_sys \<Rightarrow> addr \<Rightarrow> addr option \<Rightarrow> ('ok, 'err, 't) aio \<Rightarrow> fault + ('ok, 'err, 't) aio" where
  "checkIOProgress sys a callback S =
     and_then (deref (aio_cbs S) a) (\<lambda>_.
     if sys_error sys a = EINPROGRESS then
       (case callback of
          None \<Rightarrow> Inl NullDeref
        | Some p \<Rightarrow>
            and_then (deref (aio_callbacks S) p) (\<lambda>ioc. Inr (enqueue_task (CheckTask a callback) (ioc_id ioc) S)))
     else
       and_then
         (case callback of
            None \<Rightarrow> Inr S
          | Some p \<Rightarrow> and_then (notify sys a p S) (delete_io_callback callback))
         (delete_aiocb a))"

text \<open>The thread notification and the signal handler.\<close>

definition aioDone :: "aio_sys \<Rightarrow> addr \<Rightarrow> ('ok, 'err, 't) aio \<Rightarrow> fault + ('ok, 'err, 't) aio" where
  "aioDone sys sival_ptr S =
     and_then (deref (aio_infos S) sival_ptr) (\<lambda>origInfo.
     and_then (deref (aio_cbs S) (si_aioCB origInfo)) (\<lambda>_.
     and_then
       (case si_callback origInfo of
          None \<Rightarrow> Inr S
        | Some p \<Rightarrow> notify sys (si_aioCB origInfo) p S)
       (delete_info sival_ptr)))"

definition aio_done :: "aio_sys \<Rightarrow> c_int \<Rightarrow> addr \<Rightarrow> ('ok, 'err, 't) aio \<Rightarrow> fault + ('ok, 'err, 't) aio" where
  "aio_done sys si_signo sival_ptr S =
     (if si_signo = SIGIO then
        and_then (deref (aio_infos S) sival_ptr) (\<lambda>origInfo.
        and_then (deref (aio_cbs S) (si_aioCB origInfo)) (\<lambda>aioCB.
        let status = sys_error sys (si_aioCB origInfo) in
        and_then
          (case si_callback origInfo of
             None \<Rightarrow> Inr S
           | Some p \<Rightarrow>
               and_then (deref (aio_callbacks S) p) (\<lambda>callback.
               if status = 0 then
                 (if ioc_okCB callback \<noteq> None
                  then Inr (enqueue_task (OkTask (the (ioc_okCB callback)) (cb_fildes aioCB) (cb_buf aioCB)
                              (sys_return sys (si_aioCB origInfo))) (ioc_id callback) S)
                  else Inr S)
               else if ioc_errCB callback \<noteq> None
                 then Inr (enqueue_task (ErrTask (the (ioc_errCB callback)) (cb_fildes aioCB) status) (ioc_id callback) S)
                 else Inr S))
          (delete_info sival_ptr)))
      else Inr S)"

section \<open>Submission\<close>

text \<open>
  A new control block; with signals it gets the info object that the handler will find. The
  result is that of the kernel's function. The code prints a line between a refused submission
  and its use of \<open>errno\<close>: the second component of \<open>sys_submit\<close> is \<open>errno\<close> as it is read then.
\<close>

definition aioSkeletonFunction ::
  "bool \<Rightarrow> aio_sys \<Rightarrow> aio_func \<Rightarrow> c_int \<Rightarrow> addr option \<Rightarrow> size_t \<Rightarrow> off_t \<Rightarrow> addr option
     \<Rightarrow> ('ok, 'err, 't) aio \<Rightarrow> fault + (c_int \<times> ('ok, 'err, 't) aio)" where
  "aioSkeletonFunction use_sig sys f fd buff len offset callback S =
     (let a = aio_next S;
          info = Suc a;
          cb = \<lparr>cb_func = f, cb_fildes = fd, cb_buf = buff, cb_nbytes = len, cb_offset = offset,
                cb_sival_ptr = (if use_sig then Some info else None)\<rparr>;
          S = S\<lparr>aio_cbs := (aio_cbs S)(a \<mapsto> cb), aio_next := Suc a\<rparr>;
          S = (if use_sig
               then S\<lparr>aio_infos := (aio_infos S)(info \<mapsto> \<lparr>si_callback = callback, si_aioCB = a\<rparr>), aio_next := Suc info\<rparr>
               else S);
          (ret, errno) = sys_submit sys f cb
      in and_then
           (if 0 \<le> sint ret then
              (if use_sig then Inr S else checkIOProgress sys a callback S)
            else if use_sig then delete_info info S
            else and_then
              (case callback of
                 None \<Rightarrow> Inr S
               | Some p \<Rightarrow>
                   and_then (deref (aio_callbacks S) p) (\<lambda>ioc.
                   delete_io_callback callback
                     (case ioc_errCB ioc of
                        None \<Rightarrow> S
                      | Some err \<Rightarrow> enqueue_task (ErrTask err fd errno) (ioc_id ioc) S)))
              (delete_aiocb a))
           (\<lambda>S. Inr (ret, S)))"

definition wrap_aio_read ::
  "bool \<Rightarrow> aio_sys \<Rightarrow> c_int \<Rightarrow> addr option \<Rightarrow> size_t \<Rightarrow> off_t \<Rightarrow> addr option
     \<Rightarrow> ('ok, 'err, 't) aio \<Rightarrow> fault + (c_int \<times> ('ok, 'err, 't) aio)" where
  "wrap_aio_read use_sig sys fd buff len offset callback S =
     aioSkeletonFunction use_sig sys AioRead fd buff len offset callback S"

definition wrap_aio_write ::
  "bool \<Rightarrow> aio_sys \<Rightarrow> c_int \<Rightarrow> addr option \<Rightarrow> size_t \<Rightarrow> off_t \<Rightarrow> addr option
     \<Rightarrow> ('ok, 'err, 't) aio \<Rightarrow> fault + (c_int \<times> ('ok, 'err, 't) aio)" where
  "wrap_aio_write use_sig sys fd buff len offset callback S =
     aioSkeletonFunction use_sig sys AioWrite fd buff len offset callback S"

section \<open>Runs\<close>

text \<open>
  The dispatcher's loop takes the front task; what a client's callback does is left to the
  client, who submits further operations with callbacks that it allocates.
\<close>

definition run_front :: "aio_sys \<Rightarrow> ('ok, 'err, 't) aio \<Rightarrow> (fault + ('ok, 'err, 't) aio) option" where
  "run_front sys S =
     (case aio_queue S of
        [] \<Rightarrow> None
      | ut # q \<Rightarrow>
          let S = S\<lparr>aio_queue := q\<rparr> in
          Some (case ut_task ut of CheckTask a callback \<Rightarrow> checkIOProgress sys a callback S | _ \<Rightarrow> Inr S))"

definition submit ::
  "bool \<Rightarrow> aio_sys \<Rightarrow> aio_func \<Rightarrow> c_int \<Rightarrow> addr option \<Rightarrow> size_t \<Rightarrow> off_t \<Rightarrow> ('ok, 'err) io_callback
     \<Rightarrow> ('ok, 'err, 't) aio \<Rightarrow> fault + (c_int \<times> ('ok, 'err, 't) aio)" where
  "submit use_sig sys f fd buff len offset ioc S =
     (let (p, S) = new_io_callback ioc S in aioSkeletonFunction use_sig sys f fd buff len offset (Some p) S)"

text \<open>The polling build.\<close>

inductive aio_reach :: "('ok, 'err, 't) aio \<Rightarrow> bool" where
  new: "aio_reach aio_new"
| submit: "aio_reach S \<Longrightarrow> submit False sys f fd buff len offset ioc S = Inr (ret, S') \<Longrightarrow> aio_reach S'"
| run: "aio_reach S \<Longrightarrow> run_front sys S = Some (Inr S') \<Longrightarrow> aio_reach S'"
| client: "aio_reach S \<Longrightarrow> aio_reach (enqueue_task (ClientTask t) i S)"

text \<open>
  The build with signals: the kernel reports an accepted operation once, with the pointer that
  was submitted with it, to the signal handler or to the thread notification.
\<close>

inductive sig_reach :: "('ok, 'err, 't) aio \<Rightarrow> bool" where
  new: "sig_reach aio_new"
| submit: "sig_reach S \<Longrightarrow> submit True sys f fd buff len offset ioc S = Inr (ret, S') \<Longrightarrow> sig_reach S'"
| signal: "sig_reach S \<Longrightarrow> aio_infos S p = Some info \<Longrightarrow> aio_done sys SIGIO p S = Inr S' \<Longrightarrow> sig_reach S'"
| thread: "sig_reach S \<Longrightarrow> aio_infos S p = Some info \<Longrightarrow> aioDone sys p S = Inr S' \<Longrightarrow> sig_reach S'"
| run: "sig_reach S \<Longrightarrow> run_front sys S = Some (Inr S') \<Longrightarrow> sig_reach S'"
| client: "sig_reach S \<Longrightarrow> sig_reach (enqueue_task (ClientTask t) i S)"

end
