(* ===== verification/AioProps.thy ===== *)
theory AioProps
  imports AioWrapper
begin

text \<open>
  The properties of the asynchronous I/O wrapper: in the polling build every control block and
  callback has exactly one owner, a poll in the queue, so nothing leaks or is freed twice; every
  operation ends with exactly the one notification that its outcome asks for; and where the two
  builds and the two handlers agree or differ.
\<close>

lemmas aio_defs = enqueue_task_def notify_def delete_io_callback_def delete_aiocb_def Let_def

text \<open>The polls that wait in the queue.\<close>

definition polls :: "('ok, 'err, 't) aio \<Rightarrow> (addr \<times> addr option) list" where
  "polls S = concat (map (\<lambda>ut. case ut_task ut of CheckTask a c \<Rightarrow> [(a, c)] | _ \<Rightarrow> []) (aio_queue S))"

lemma polls_enqueue [simp]:
  "polls (enqueue_task t i S) = polls S @ (case t of CheckTask a c \<Rightarrow> [(a, c)] | _ \<Rightarrow> [])"
  by (simp add: polls_def enqueue_task_def)

text \<open>The polls own the control blocks and callbacks, one each.\<close>

definition poll_inv ::
  "(addr \<times> addr option) list \<Rightarrow> (addr \<rightharpoonup> 'x) \<Rightarrow> (addr \<rightharpoonup> 'y) \<Rightarrow> addr \<Rightarrow> bool" where
  "poll_inv ps h c n \<longleftrightarrow> distinct (map fst ps) \<and> distinct (map snd ps) \<and>
     dom h = set (map fst ps) \<and> Some ` dom c = set (map snd ps) \<and> (\<forall>a \<ge> n. h a = None \<and> c a = None)"

definition aio_inv :: "('ok, 'err, 't) aio \<Rightarrow> bool" where
  "aio_inv S \<longleftrightarrow> poll_inv (polls S) (aio_cbs S) (aio_callbacks S) (aio_next S)"

lemma poll_inv_rotate: "poll_inv (x # ps) h c n \<Longrightarrow> poll_inv (ps @ [x]) h c n"
  by (simp add: poll_inv_def)

lemma poll_inv_live:
  assumes "poll_inv ps h c n" and "(a, q) \<in> set ps"
  shows "\<exists>p x y. q = Some p \<and> h a = Some x \<and> c p = Some y"
proof -
  have "a \<in> set (map fst ps)" "q \<in> set (map snd ps)" using assms(2) by force+
  then have "a \<in> dom h" "q \<in> Some ` dom c" using assms(1) unfolding poll_inv_def by simp_all
  then show ?thesis by auto
qed

lemma poll_inv_drop:
  assumes i: "poll_inv ((a, Some p) # ps) h c n"
  shows "poll_inv ps (h(a := None)) (c(p := None)) n"
proof -
  have d: "a \<notin> set (map fst ps)" "Some p \<notin> set (map snd ps)" "dom h = insert a (set (map fst ps))"
    "Some ` dom c = insert (Some p) (set (map snd ps))" "distinct (map fst ps)" "distinct (map snd ps)"
    "\<forall>a \<ge> n. h a = None \<and> c a = None"
    using i unfolding poll_inv_def by simp_all
  have "dom (h(a := None)) = set (map fst ps)" using d(1,3) by simp
  moreover have "Some ` dom (c(p := None)) = Some ` dom c - {Some p}" by auto
  then have "Some ` dom (c(p := None)) = set (map snd ps)" using d(2,4) by simp
  moreover have "\<forall>a' \<ge> n. (h(a := None)) a' = None \<and> (c(p := None)) a' = None" using d(7) by simp
  ultimately show ?thesis using d(5,6) unfolding poll_inv_def by blast
qed

lemma poll_inv_add:
  assumes i: "poll_inv ps h c n"
  shows "poll_inv (ps @ [(Suc n, Some n)]) (h(Suc n \<mapsto> x)) (c(n \<mapsto> y)) (Suc (Suc n))"
proof -
  have "h (Suc n) = None" "c n = None" using i by (simp_all add: poll_inv_def)
  then have f: "Suc n \<notin> dom h" "Some n \<notin> Some ` dom c" by auto
  have d: "dom h = set (map fst ps)" "Some ` dom c = set (map snd ps)" "distinct (map fst ps)" "distinct (map snd ps)"
    "\<forall>a \<ge> n. h a = None \<and> c a = None" using i unfolding poll_inv_def by blast+
  have "distinct (map fst (ps @ [(Suc n, Some n)]))" "distinct (map snd (ps @ [(Suc n, Some n)]))"
    using f d(3,4) unfolding d(1,2) by simp_all
  then show ?thesis using d unfolding poll_inv_def by simp
qed

lemma poll_inv_next: "poll_inv ps h c n \<Longrightarrow> n \<le> n' \<Longrightarrow> poll_inv ps h c n'"
  unfolding poll_inv_def by simp

text \<open>The notification that the outcome of an operation asks for.\<close>

definition completion :: "aio_sys \<Rightarrow> addr \<Rightarrow> aiocb \<Rightarrow> ('ok, 'err) io_callback \<Rightarrow> ('ok, 'err, 't) task option" where
  "completion sys a cb ioc =
     (if sys_error sys a = 0
      then map_option (\<lambda>ok. OkTask ok (cb_fildes cb) (cb_buf cb) (sys_return sys a)) (ioc_okCB ioc)
      else map_option (\<lambda>err. ErrTask err (cb_fildes cb) (sys_error sys a)) (ioc_errCB ioc))"

lemma completion_not_check: "completion sys a cb ioc \<noteq> Some (CheckTask x y)"
  by (auto simp: completion_def)

definition enqueue_opt :: "('ok, 'err, 't) task option \<Rightarrow> task_group_id \<Rightarrow> ('ok, 'err, 't) aio \<Rightarrow> ('ok, 'err, 't) aio" where
  "enqueue_opt t i S = (case t of None \<Rightarrow> S | Some t \<Rightarrow> enqueue_task t i S)"

lemma enqueue_simps [simp]:
  "aio_cbs (enqueue_task t i S) = aio_cbs S" "aio_callbacks (enqueue_task t i S) = aio_callbacks S"
  "aio_next (enqueue_task t i S) = aio_next S" "aio_infos (enqueue_task t i S) = aio_infos S"
  "aio_cbs (enqueue_opt t' i S) = aio_cbs S" "aio_callbacks (enqueue_opt t' i S) = aio_callbacks S"
  "aio_next (enqueue_opt t' i S) = aio_next S"
  by (simp_all add: enqueue_task_def enqueue_opt_def split: option.splits)

lemma polls_enqueue_opt [simp]: "polls (enqueue_opt (completion sys a cb ioc) i S) = polls S"
  using completion_not_check [of sys a cb ioc] by (auto simp: enqueue_opt_def split: option.splits task.splits)

text \<open>One poll on heaps that hold the operation.\<close>

lemma check_cases:
  assumes "aio_cbs S a = Some cb" and "aio_callbacks S p = Some ioc"
  shows "checkIOProgress sys a (Some p) S =
    Inr (if sys_error sys a = EINPROGRESS then enqueue_task (CheckTask a (Some p)) (ioc_id ioc) S
         else (enqueue_opt (completion sys a cb ioc) (ioc_id ioc) S)
           \<lparr>aio_cbs := (aio_cbs S)(a := None), aio_callbacks := (aio_callbacks S)(p := None)\<rparr>)"
  using assms by (simp add: checkIOProgress_def aio_defs completion_def enqueue_opt_def split: option.splits)

lemma polls_pop:
  "aio_queue S = ut # q \<Longrightarrow>
     polls S = (case ut_task ut of CheckTask a c \<Rightarrow> [(a, c)] | _ \<Rightarrow> []) @ polls (S\<lparr>aio_queue := q\<rparr>)"
  by (simp add: polls_def)

lemma polls_heap [simp]:
  "polls (S\<lparr>aio_cbs := h\<rparr>) = polls S" "polls (S\<lparr>aio_callbacks := c\<rparr>) = polls S" "polls (S\<lparr>aio_next := n\<rparr>) = polls S"
  by (simp_all add: polls_def)

lemma polls_alt [simp]: "polls (S\<lparr>aio_cbs := h, aio_callbacks := c\<rparr>) = polls S"
  by (simp add: polls_def)

lemma inv_poll_live:
  "aio_inv S \<Longrightarrow> (a, c) \<in> set (polls S) \<Longrightarrow>
     \<exists>p cb ioc. c = Some p \<and> aio_cbs S a = Some cb \<and> aio_callbacks S p = Some ioc"
  unfolding aio_inv_def by (rule poll_inv_live)

lemma run_front_check:
  assumes inv: "aio_inv S" and q: "aio_queue S = ut # q" and t: "ut_task ut = CheckTask a c"
  shows "\<exists>p cb ioc. c = Some p \<and> aio_cbs S a = Some cb \<and> aio_callbacks S p = Some ioc \<and>
    run_front sys S = Some (checkIOProgress sys a (Some p) (S\<lparr>aio_queue := q\<rparr>)) \<and>
    checkIOProgress sys a (Some p) (S\<lparr>aio_queue := q\<rparr>) \<noteq> Inl f"
proof -
  have "(a, c) \<in> set (polls S)" by (simp add: polls_pop [OF q] t)
  then obtain p cb ioc where p: "c = Some p" "aio_cbs S a = Some cb" "aio_callbacks S p = Some ioc"
    using inv_poll_live [OF inv] by blast
  then show ?thesis using check_cases [of "S\<lparr>aio_queue := q\<rparr>" a cb p ioc sys] q t by (simp add: run_front_def)
qed

lemma inv_check:
  assumes inv: "aio_inv S" and q: "aio_queue S = ut # q" and t: "ut_task ut = CheckTask a c"
    and r: "run_front sys S = Some (Inr S')"
  shows "aio_inv S'"
proof -
  let ?S = "S\<lparr>aio_queue := q\<rparr>"
  obtain p cb ioc where p: "c = Some p" "aio_cbs S a = Some cb" "aio_callbacks S p = Some ioc"
    "run_front sys S = Some (checkIOProgress sys a (Some p) ?S)"
    using run_front_check [OF inv q t] by blast
  have pl: "polls S = (a, Some p) # polls ?S" by (simp add: polls_pop [OF q] t p(1))
  note I = inv [unfolded aio_inv_def pl]
  have C: "checkIOProgress sys a (Some p) ?S = Inr S'" using r p(4) by simp
  show ?thesis
  proof (cases "sys_error sys a = EINPROGRESS")
    case True
    then have "S' = enqueue_task (CheckTask a (Some p)) (ioc_id ioc) ?S"
      using C check_cases [of ?S a cb p ioc sys] p by simp
    then have "polls S' = polls ?S @ [(a, Some p)]" "aio_cbs S' = aio_cbs S" "aio_callbacks S' = aio_callbacks S"
      "aio_next S' = aio_next S"
      by simp_all
    then show ?thesis using poll_inv_rotate [OF I] by (simp add: aio_inv_def)
  next
    case False
    have S': "S' = (enqueue_opt (completion sys a cb ioc) (ioc_id ioc) ?S)
        \<lparr>aio_cbs := (aio_cbs S)(a := None), aio_callbacks := (aio_callbacks S)(p := None)\<rparr>"
      using C check_cases [of ?S a cb p ioc sys] p False by simp
    then show ?thesis using poll_inv_drop [OF I] completion_not_check by (simp add: aio_inv_def)
  qed
qed

lemma inv_run:
  assumes "aio_inv S" and r: "run_front sys S = Some (Inr S')"
  shows "aio_inv S'"
proof -
  obtain ut q where q: "aio_queue S = ut # q" using r by (auto simp: run_front_def split: list.splits)
  show ?thesis
  proof (cases "\<exists>a c. ut_task ut = CheckTask a c")
    case True
    then show ?thesis using inv_check [OF assms(1) q _ r] by blast
  next
    case False
    then have "S' = S\<lparr>aio_queue := q\<rparr>" "polls S' = polls S"
      using r q polls_pop [OF q] by (auto simp: run_front_def Let_def split: task.splits)
    then show ?thesis using assms(1) by (simp add: aio_inv_def)
  qed
qed

text \<open>What a submission does: one poll more, or the error notification and the heaps as before.\<close>

lemma submit_cases:
  fixes S :: "('ok, 'err, 't) aio" and ioc :: "('ok, 'err) io_callback"
  assumes inv: "aio_inv S" and s: "sys_submit sys f \<lparr>cb_func = f, cb_fildes = fd, cb_buf = buff, cb_nbytes = len,
      cb_offset = offset, cb_sival_ptr = None\<rparr> = (ret, errno)"
  defines "p \<equiv> aio_next S" and "a \<equiv> Suc (aio_next S)"
  defines "cb \<equiv> \<lparr>cb_func = f, cb_fildes = fd, cb_buf = buff, cb_nbytes = len, cb_offset = offset, cb_sival_ptr = None\<rparr>"
  defines "S1 \<equiv> S\<lparr>aio_callbacks := (aio_callbacks S)(p \<mapsto> ioc), aio_cbs := (aio_cbs S)(a \<mapsto> cb), aio_next := Suc a\<rparr>"
  shows "submit False sys f fd buff len offset ioc S =
    (if 0 \<le> sint ret then and_then (checkIOProgress sys a (Some p) S1) (\<lambda>S. Inr (ret, S))
     else Inr (ret, (case ioc_errCB ioc of None \<Rightarrow> S | Some err \<Rightarrow> enqueue_task (ErrTask err fd errno) (ioc_id ioc) S)
                      \<lparr>aio_next := Suc a\<rparr>))"
proof -
  have "aio_callbacks S p = None" "aio_cbs S a = None" using inv by (simp_all add: aio_inv_def poll_inv_def p_def a_def)
  then have h: "(aio_callbacks S)(p := None) = aio_callbacks S" "(aio_cbs S)(a := None) = aio_cbs S" by auto
  have f: "submit False sys f fd buff len offset ioc S =
      aioSkeletonFunction False sys f fd buff len offset (Some p)
        (S\<lparr>aio_callbacks := (aio_callbacks S)(p \<mapsto> ioc), aio_next := a\<rparr>)"
    by (simp add: submit_def new_io_callback_def p_def a_def)
  show ?thesis
    unfolding f using s h
    by (simp add: aioSkeletonFunction_def aio_defs S1_def cb_def [symmetric] split: option.splits)
qed


lemma inv_submit:
  assumes inv: "aio_inv S" and s: "submit False sys f fd buff len offset ioc S = Inr (ret, S')"
  shows "aio_inv S'"
proof -
  let ?p = "aio_next S" and ?a = "Suc (aio_next S)"
  let ?cb = "\<lparr>cb_func = f, cb_fildes = fd, cb_buf = buff, cb_nbytes = len, cb_offset = offset, cb_sival_ptr = None\<rparr>"
  let ?S1 = "S\<lparr>aio_callbacks := (aio_callbacks S)(?p \<mapsto> ioc), aio_cbs := (aio_cbs S)(?a \<mapsto> ?cb), aio_next := Suc ?a\<rparr>"
  obtain r errno where k: "sys_submit sys f ?cb = (r, errno)" by (cases "sys_submit sys f ?cb")
  note E = submit_cases [OF inv k, of ioc]
  have P: "polls ?S1 = polls S" by (simp add: polls_def)
  show ?thesis
  proof (cases "0 \<le> sint r")
    case True
    have C: "checkIOProgress sys ?a (Some ?p) ?S1 = Inr S'" using s E True by (simp add: and_then_Inr_iff)
    note I = poll_inv_add [OF inv [unfolded aio_inv_def], of ?cb ioc]
    show ?thesis
    proof (cases "sys_error sys ?a = EINPROGRESS")
      case True
      then show ?thesis using C check_cases [of ?S1 ?a ?cb ?p ioc sys] I P by (auto simp: aio_inv_def)
    next
      case False
      have "poll_inv ((?a, Some ?p) # polls S) (aio_cbs ?S1) (aio_callbacks ?S1) (Suc ?a)"
        using I by (simp add: poll_inv_def)
      from poll_inv_drop [OF this] show ?thesis
        using C check_cases [of ?S1 ?a ?cb ?p ioc sys] False P completion_not_check by (auto simp: aio_inv_def)
    qed
  next
    case False
    then show ?thesis
      using s E inv poll_inv_next [of "polls S" "aio_cbs S" "aio_callbacks S" "aio_next S"]
      by (auto simp: aio_inv_def split: option.splits)
  qed
qed

lemma aio_inv_reach: "aio_reach S \<Longrightarrow> aio_inv S"
proof (induction rule: aio_reach.induct)
  case new
  show ?case by (simp add: aio_inv_def poll_inv_def aio_new_def polls_def)
next
  case (submit S sys f fd buff len offset ioc ret S')
  then show ?case using inv_submit by blast
next
  case (run S sys S')
  then show ?case using inv_run by blast
next
  case (client S t i)
  then show ?case by (simp add: aio_inv_def)
qed


text \<open>Several polls in a row; the kernel answers each one anew.\<close>

fun run_fronts :: "aio_sys list \<Rightarrow> ('ok, 'err, 't) aio \<Rightarrow> fault + ('ok, 'err, 't) aio" where
  "run_fronts [] S = Inr S"
| "run_fronts (sys # ss) S = (case run_front sys S of None \<Rightarrow> Inr S | Some r \<Rightarrow> and_then r (run_fronts ss))"

lemma polls_in_progress:
  assumes "aio_cbs S a = Some cb" "aio_callbacks S p = Some ioc"
    "aio_queue S = [UnitTask_id (CheckTask a (Some p)) (ioc_id ioc)]"
  shows "\<forall>s \<in> set ss. sys_error s a = EINPROGRESS \<Longrightarrow> sys_error sys a \<noteq> EINPROGRESS \<Longrightarrow>
    run_fronts (ss @ [sys]) S = Inr ((enqueue_opt (completion sys a cb ioc) (ioc_id ioc) (S\<lparr>aio_queue := []\<rparr>))
      \<lparr>aio_cbs := (aio_cbs S)(a := None), aio_callbacks := (aio_callbacks S)(p := None)\<rparr>)"
proof (induction ss)
  case Nil
  then show ?case using assms check_cases [of "S\<lparr>aio_queue := []\<rparr>" a cb p ioc sys] by (simp add: run_front_def fun_upd_def)
next
  case (Cons s ss)
  have "enqueue_task (CheckTask a (Some p)) (ioc_id ioc) (S\<lparr>aio_queue := []\<rparr>) = S"
    using assms(3) by (cases S) (simp add: enqueue_task_def)
  then have "run_front s S = Some (Inr S)"
    using Cons.prems assms check_cases [of "S\<lparr>aio_queue := []\<rparr>" a cb p ioc s] by (simp add: run_front_def)
  then show ?case using Cons by simp
qed

text \<open>
  C23: An operation that the kernel accepts notifies once: however often it is found in progress,
  the poll after its end leaves in the queue exactly the success callback with the descriptor,
  the buffer and the number of bytes, or the error callback with the status, under the callback's
  group, or nothing where the client gave no callback for that outcome; and both objects are freed.
\<close>

theorem io_notifies_once:
  assumes S: "aio_reach S" "aio_queue S = []"
    and k: "sys_submit sys f \<lparr>cb_func = f, cb_fildes = fd, cb_buf = buff, cb_nbytes = len, cb_offset = offset,
        cb_sival_ptr = None\<rparr> = (ret, errno)" "0 \<le> sint ret"
    and p: "\<forall>s \<in> set (sys # ss). sys_error s (Suc (aio_next S)) = EINPROGRESS"
    and e: "sys_error fin (Suc (aio_next S)) \<noteq> EINPROGRESS"
  shows "\<exists>S1 S2. submit False sys f fd buff len offset ioc S = Inr (ret, S1) \<and> run_fronts (ss @ [fin]) S1 = Inr S2 \<and>
    aio_queue S2 =
      (if sys_error fin (Suc (aio_next S)) = 0
       then (case ioc_okCB ioc of None \<Rightarrow> []
             | Some ok \<Rightarrow> [UnitTask_id (OkTask ok fd buff (sys_return fin (Suc (aio_next S)))) (ioc_id ioc)])
       else (case ioc_errCB ioc of None \<Rightarrow> []
             | Some err \<Rightarrow> [UnitTask_id (ErrTask err fd (sys_error fin (Suc (aio_next S)))) (ioc_id ioc)])) \<and>
    aio_cbs S2 = Map.empty \<and> aio_callbacks S2 = Map.empty"
proof -
  let ?p = "aio_next S" and ?a = "Suc (aio_next S)"
  let ?cb = "\<lparr>cb_func = f, cb_fildes = fd, cb_buf = buff, cb_nbytes = len, cb_offset = offset, cb_sival_ptr = None\<rparr>"
  let ?S0 = "S\<lparr>aio_callbacks := (aio_callbacks S)(?p \<mapsto> ioc), aio_cbs := (aio_cbs S)(?a \<mapsto> ?cb), aio_next := Suc ?a\<rparr>"
  note inv = aio_inv_reach [OF S(1)]
  have "polls S = []" using S(2) by (simp add: polls_def)
  then have h: "aio_cbs S = Map.empty" "aio_callbacks S = Map.empty" using inv unfolding aio_inv_def poll_inv_def by simp_all
  let ?S1 = "enqueue_task (CheckTask ?a (Some ?p)) (ioc_id ioc) ?S0"
  have s: "submit False sys f fd buff len offset ioc S = Inr (ret, ?S1)"
    using submit_cases [OF inv k(1), of ioc] k(2) p check_cases [of ?S0 ?a ?cb ?p ioc sys] by simp
  have "run_fronts (ss @ [fin]) ?S1 = Inr ((enqueue_opt (completion fin ?a ?cb ioc) (ioc_id ioc) (?S1\<lparr>aio_queue := []\<rparr>))
      \<lparr>aio_cbs := (aio_cbs ?S1)(?a := None), aio_callbacks := (aio_callbacks ?S1)(?p := None)\<rparr>)"
    by (rule polls_in_progress) (use S(2) p e in \<open>auto simp: enqueue_task_def\<close>)
  then show ?thesis
    using s h by (auto simp: completion_def enqueue_opt_def enqueue_task_def split: option.splits)
qed

theorem io_notifies_once_witness:
  "\<exists>S1 (S2 :: (nat, nat, nat) aio).
     submit False \<lparr>sys_submit = (\<lambda>_ _. (0, 0)), sys_error = (\<lambda>_. EINPROGRESS), sys_return = (\<lambda>_. 0)\<rparr>
       AioRead 7 (Some 3) 100 0 (IOCallback_id (Some 1) (Some 2) 9) aio_new = Inr (0, S1) \<and>
     run_fronts [\<lparr>sys_submit = (\<lambda>_ _. (0, 0)), sys_error = (\<lambda>_. 0), sys_return = (\<lambda>_. 42)\<rparr>] S1 = Inr S2 \<and>
     aio_queue S2 = [UnitTask_id (OkTask 1 7 (Some 3) 42) 9] \<and> aio_cbs S2 = Map.empty"
proof -
  let ?s = "\<lparr>sys_submit = (\<lambda>_ _. (0, 0)), sys_error = (\<lambda>_. EINPROGRESS), sys_return = (\<lambda>_. 0)\<rparr>"
  let ?f = "\<lparr>sys_submit = (\<lambda>_ _. (0, 0)), sys_error = (\<lambda>_. 0), sys_return = (\<lambda>_. 42)\<rparr>"
  let ?i = "IOCallback_id (Some (1 :: nat)) (Some (2 :: nat)) 9"
  have "aio_reach (aio_new :: (nat, nat, nat) aio)" by (rule aio_reach.new)
  from io_notifies_once [OF this, of ?s AioRead 7 "Some 3" 100 0 0 0 "[]" ?f ?i]
  obtain S1 S2 :: "(nat, nat, nat) aio" where
    "submit False ?s AioRead 7 (Some 3) 100 0 ?i aio_new = Inr (0, S1)" "run_fronts ([] @ [?f]) S1 = Inr S2"
    "aio_queue S2 = [UnitTask_id (OkTask 1 7 (Some 3) 42) 9]" "aio_cbs S2 = Map.empty"
    by (auto simp: EINPROGRESS_def IOCallback_id_def aio_new_def)
  then show ?thesis by auto
qed


section \<open>The build with signals\<close>

text \<open>There the info objects own the control blocks and callbacks, one each, and nothing polls.\<close>

definition owns_of :: "(addr \<times> sig_info) list \<Rightarrow> (addr \<times> addr option) list" where
  "owns_of is = map (\<lambda>(p, i). (si_aioCB i, si_callback i)) is"

definition sig_owned :: "(addr \<times> sig_info) list \<Rightarrow> ('ok, 'err, 't) aio \<Rightarrow> bool" where
  "sig_owned is S \<longleftrightarrow> distinct (map fst is) \<and> aio_infos S = map_of is \<and> (\<forall>p \<in> set (map fst is). p < aio_next S) \<and>
     poll_inv (owns_of is) (aio_cbs S) (aio_callbacks S) (aio_next S)"

definition sig_inv :: "('ok, 'err, 't) aio \<Rightarrow> bool" where
  "sig_inv S \<longleftrightarrow> polls S = [] \<and> (\<exists>is. sig_owned is S)"

lemma poll_inv_front: "poll_inv (xs @ x # ys) h c n \<Longrightarrow> poll_inv (x # xs @ ys) h c n"
  by (auto simp: poll_inv_def)

lemma map_of_remove: "distinct (map fst (xs @ (p, i) # ys)) \<Longrightarrow> (map_of (xs @ (p, i) # ys))(p := None) = map_of (xs @ ys)"
proof -
  assume "distinct (map fst (xs @ (p, i) # ys))"
  then have "map_of xs p = None" "map_of ys p = None" by (auto simp: map_of_eq_None_iff)
  then show ?thesis by (auto simp: fun_eq_iff map_add_def split: option.split)
qed

lemma polls_infos: "polls (S\<lparr>aio_cbs := h, aio_callbacks := c, aio_infos := i\<rparr>) = polls S"
  by (simp add: polls_def)

text \<open>The state after the completion of the operation of info \<open>p\<close>.\<close>

definition sig_completed :: "aio_sys \<Rightarrow> addr \<Rightarrow> addr \<Rightarrow> addr \<Rightarrow> aiocb \<Rightarrow> ('ok, 'err) io_callback
    \<Rightarrow> ('ok, 'err, 't) aio \<Rightarrow> ('ok, 'err, 't) aio" where
  "sig_completed sys p a q cb ioc S =
     (enqueue_opt (completion sys a cb ioc) (ioc_id ioc) S)
       \<lparr>aio_cbs := (aio_cbs S)(a := None), aio_callbacks := (aio_callbacks S)(q := None), aio_infos := (aio_infos S)(p := None)\<rparr>"

lemma handlers_agree: "aio_done sys SIGIO p S = aioDone sys p S"
  by (cases "aio_infos S p")
     (auto simp: aio_done_def aioDone_def notify_def Let_def deref_def split: option.splits)

lemma handler_completes:
  assumes "sig_inv S" and p: "aio_infos S p = Some info"
  obtains q cb ioc where "si_callback info = Some q" "aio_cbs S (si_aioCB info) = Some cb" "aio_callbacks S q = Some ioc"
    "aioDone sys p S = Inr (sig_completed sys p (si_aioCB info) q cb ioc S)"
proof -
  obtain "is" where o: "sig_owned is S" using assms(1) by (auto simp: sig_inv_def)
  then have "map_of is p = Some info" using p by (simp add: sig_owned_def)
  then have "(p, info) \<in> set is" by (rule map_of_SomeD)
  then have "(si_aioCB info, si_callback info) \<in> set (owns_of is)" by (force simp: owns_of_def)
  then obtain q cb ioc where c: "si_callback info = Some q" "aio_cbs S (si_aioCB info) = Some cb" "aio_callbacks S q = Some ioc"
    using poll_inv_live o unfolding sig_owned_def by blast
  have "aioDone sys p S = Inr (sig_completed sys p (si_aioCB info) q cb ioc S)"
    using c p by (simp add: aioDone_def aio_defs delete_info_def sig_completed_def completion_def enqueue_opt_def
        split: option.splits)
  then show ?thesis using that c by blast
qed

lemma sig_inv_completed:
  assumes "sig_inv S" and p: "aio_infos S p = Some info" "si_callback info = Some q"
  shows "sig_inv (sig_completed sys p (si_aioCB info) q cb ioc S)"
proof -
  let ?S = "sig_completed sys p (si_aioCB info) q cb ioc S"
  obtain "is" where o: "sig_owned is S" using assms(1) by (auto simp: sig_inv_def)
  then have "map_of is p = Some info" using p by (simp add: sig_owned_def)
  then have "(p, info) \<in> set is" by (rule map_of_SomeD)
  then obtain xs ys where s: "is = xs @ (p, info) # ys" using split_list by fastforce
  have I: "distinct (map fst (xs @ (p, info) # ys))" "aio_infos S = map_of (xs @ (p, info) # ys)"
      "poll_inv (owns_of xs @ (si_aioCB info, Some q) # owns_of ys) (aio_cbs S) (aio_callbacks S) (aio_next S)"
      "\<forall>x \<in> set (map fst is). x < aio_next S"
    using o p(2) unfolding sig_owned_def s by (simp_all add: owns_of_def)
  have "poll_inv (owns_of (xs @ ys)) (aio_cbs ?S) (aio_callbacks ?S) (aio_next ?S)"
    using poll_inv_drop [OF poll_inv_front [OF I(3)]] by (simp add: sig_completed_def owns_of_def)
  moreover have "aio_infos ?S = map_of (xs @ ys)" using map_of_remove [OF I(1)] I(2) by (simp add: sig_completed_def)
  moreover have "distinct (map fst (xs @ ys))" using I(1) by simp
  moreover have "\<forall>x \<in> set (map fst (xs @ ys)). x < aio_next ?S" using I(4) by (simp add: s sig_completed_def)
  ultimately have "sig_owned (xs @ ys) ?S" unfolding sig_owned_def by blast
  moreover have "polls ?S = polls S" unfolding sig_completed_def by (simp only: polls_infos polls_enqueue_opt)
  moreover have "polls S = []" using assms(1) by (simp add: sig_inv_def)
  ultimately show ?thesis unfolding sig_inv_def by auto
qed

text \<open>A submission: one info more, or nothing but addresses that are used up.\<close>

lemma sig_submit_cases:
  fixes S :: "('ok, 'err, 't) aio" and ioc :: "('ok, 'err) io_callback" and f fd buff len offset
  assumes inv: "sig_inv S"
  defines "p \<equiv> aio_next S" and "a \<equiv> Suc (aio_next S)" and "i \<equiv> Suc (Suc (aio_next S))"
  defines "cb \<equiv> \<lparr>cb_func = f, cb_fildes = fd, cb_buf = buff, cb_nbytes = len, cb_offset = offset, cb_sival_ptr = Some i\<rparr>"
  shows "submit True sys f fd buff len offset ioc S =
    Inr (fst (sys_submit sys f cb),
      if 0 \<le> sint (fst (sys_submit sys f cb))
      then S\<lparr>aio_callbacks := (aio_callbacks S)(p \<mapsto> ioc), aio_cbs := (aio_cbs S)(a \<mapsto> cb),
             aio_infos := (aio_infos S)(i \<mapsto> \<lparr>si_callback = Some p, si_aioCB = a\<rparr>), aio_next := Suc i\<rparr>
      else S\<lparr>aio_next := Suc i\<rparr>)"
proof -
  obtain "is" where o: "sig_owned is S" using inv by (auto simp: sig_inv_def)
  have "map_of is i = None"
  proof (rule ccontr)
    assume "map_of is i \<noteq> None"
    then have "i \<in> set (map fst is)" by (simp add: map_of_eq_None_iff)
    moreover have "\<forall>x \<in> set (map fst is). x < aio_next S" using o unfolding sig_owned_def by blast
    ultimately show False unfolding i_def by (meson Suc_lessD less_irrefl)
  qed
  then have n: "aio_infos S i = None" "aio_callbacks S p = None" "aio_cbs S a = None"
    using o by (simp_all add: sig_owned_def poll_inv_def p_def a_def)
  then have h: "(aio_callbacks S)(p := None) = aio_callbacks S" "(aio_cbs S)(a := None) = aio_cbs S"
      "(aio_infos S)(i := None) = aio_infos S" by auto
  have f: "submit True sys f fd buff len offset ioc S =
      aioSkeletonFunction True sys f fd buff len offset (Some p)
        (S\<lparr>aio_callbacks := (aio_callbacks S)(p \<mapsto> ioc), aio_next := a\<rparr>)"
    by (simp add: submit_def new_io_callback_def p_def a_def)
  show ?thesis
    unfolding f using h
    by (simp add: aioSkeletonFunction_def delete_info_def aio_defs cb_def i_def [symmetric] a_def [symmetric] split: prod.split)
       (simp add: i_def a_def)
qed

lemma sig_inv_submit:
  assumes inv: "sig_inv S" and s: "submit True sys f fd buff len offset ioc S = Inr (ret, S')"
  shows "sig_inv S'"
proof -
  obtain "is" where o: "sig_owned is S" using inv by (auto simp: sig_inv_def)
  let ?n = "aio_next S"
  let ?cb = "\<lparr>cb_func = f, cb_fildes = fd, cb_buf = buff, cb_nbytes = len, cb_offset = offset, cb_sival_ptr = Some (Suc (Suc ?n))\<rparr>"
  let ?x = "(Suc (Suc ?n), \<lparr>si_callback = Some ?n, si_aioCB = Suc ?n\<rparr>)"
  note E = sig_submit_cases [OF inv, of sys f fd buff len offset ioc]
  have P: "polls S' = polls S" using s E by (auto simp: polls_def split: if_splits)
  show ?thesis
  proof (cases "0 \<le> sint (fst (sys_submit sys f ?cb))")
    case True
    have S': "aio_infos S' = (aio_infos S)(fst ?x \<mapsto> snd ?x)" "aio_next S' = Suc (Suc (Suc ?n))"
        "aio_cbs S' = (aio_cbs S)(Suc ?n \<mapsto> ?cb)" "aio_callbacks S' = (aio_callbacks S)(?n \<mapsto> ioc)"
      using s E True by auto
    have "poll_inv (owns_of is) (aio_cbs S) (aio_callbacks S) ?n" using o unfolding sig_owned_def by blast
    from poll_inv_add [OF this, of ?cb ioc]
    have "poll_inv (owns_of is @ [(Suc ?n, Some ?n)]) (aio_cbs S') (aio_callbacks S') (Suc (Suc ?n))"
      unfolding S' .
    then have "poll_inv ((Suc ?n, Some ?n) # owns_of is) (aio_cbs S') (aio_callbacks S') (Suc (Suc (Suc ?n)))"
      using poll_inv_next [of _ _ _ "Suc (Suc ?n)" "Suc (Suc (Suc ?n))"] by (auto simp: poll_inv_def)
    then have "poll_inv (owns_of (?x # is)) (aio_cbs S') (aio_callbacks S') (aio_next S')" by (simp add: owns_of_def S'(2))
    moreover have lt: "\<forall>y \<in> set (map fst is). y < ?n" and d: "distinct (map fst is)" and m: "aio_infos S = map_of is"
      using o unfolding sig_owned_def by blast+
    then have "fst ?x \<notin> set (map fst is)" by force
    then have "distinct (map fst (?x # is))" using d by simp
    moreover have "\<forall>y \<in> set (map fst (?x # is)). y < aio_next S'" using lt by (auto simp: S'(2))
    moreover have "aio_infos S' = map_of (?x # is)" using m S'(1) by simp
    ultimately have "sig_owned (?x # is) S'" unfolding sig_owned_def by blast
    then show ?thesis using P inv unfolding sig_inv_def by metis
  next
    case False
    then have S': "S' = S\<lparr>aio_next := Suc (Suc (Suc ?n))\<rparr>" using s E by simp
    have "sig_owned is S'"
      using o poll_inv_next [of "owns_of is" "aio_cbs S" "aio_callbacks S" ?n "Suc (Suc (Suc ?n))"] unfolding sig_owned_def S' by auto
    then show ?thesis using P inv unfolding sig_inv_def by metis
  qed
qed

lemma sig_inv_reach: "sig_reach S \<Longrightarrow> sig_inv S"
proof (induction rule: sig_reach.induct)
  case new
  have "sig_owned [] aio_new" by (simp add: sig_owned_def owns_of_def poll_inv_def aio_new_def)
  then show ?case by (auto simp: sig_inv_def aio_new_def polls_def)
next
  case (submit S sys f fd buff len offset ioc ret S')
  then show ?case using sig_inv_submit by blast
next
  case (signal S p info sys S')
  then show ?case using handler_completes [OF signal.IH signal.hyps(2)] sig_inv_completed [OF signal.IH signal.hyps(2)]
    by (metis handlers_agree sum.inject(2))
next
  case (thread S p info sys S')
  then show ?case using handler_completes [OF thread.IH thread.hyps(2)] sig_inv_completed [OF thread.IH thread.hyps(2)]
    by (metis sum.inject(2))
next
  case (run S sys S')
  then obtain ut q where q: "aio_queue S = ut # q" by (auto simp: run_front_def split: list.splits)
  have "\<not> (\<exists>a c. ut_task ut = CheckTask a c)" and P: "polls (S\<lparr>aio_queue := q\<rparr>) = []"
    using run.IH polls_pop [OF q] by (auto simp: sig_inv_def split: task.splits)
  then have "S' = S\<lparr>aio_queue := q\<rparr>" using run.hyps(2) q by (auto simp: run_front_def Let_def split: task.splits)
  then show ?case using run.IH P by (auto simp: sig_inv_def sig_owned_def)
next
  case (client S t i)
  then show ?case by (auto simp: sig_inv_def sig_owned_def)
qed

section \<open>The two builds\<close>

text \<open>
  C24: The build with signals and the polling build report an operation alike. Take any
  operation outstanding in a reachable state of each, with the same descriptor, buffer and
  callback, that the kernel has finished with the same status and result: both completion
  handlers of the signal build, on their signal, and the poll of the polling build return, append
  the same task (or none) to their queues, and free exactly the control block, the callback and
  the info object of this operation.
\<close>

theorem aio_builds_agree:
  assumes Q: "sig_reach Q" "aio_infos Q p = Some info" "si_callback info = Some q'" "aio_callbacks Q q' = Some ioc"
      "aio_cbs Q (si_aioCB info) = Some cb'"
    and P: "aio_reach P" "aio_queue P = ut # rest" "ut_task ut = CheckTask a (Some q)" "aio_callbacks P q = Some ioc"
      "aio_cbs P a = Some cb"
    and same: "cb_fildes cb' = cb_fildes cb" "cb_buf cb' = cb_buf cb"
      "sys_error sys' (si_aioCB info) = sys_error sys a" "sys_return sys' (si_aioCB info) = sys_return sys a"
    and finished: "sys_error sys a \<noteq> EINPROGRESS"
  shows "\<exists>N P' Q'. run_front sys P = Some (Inr P') \<and> aio_done sys' SIGIO p Q = Inr Q' \<and> aioDone sys' p Q = Inr Q' \<and>
    aio_queue P' = rest @ N \<and> aio_queue Q' = aio_queue Q @ N \<and>
    N = (if sys_error sys a = 0
         then (case ioc_okCB ioc of None \<Rightarrow> []
               | Some ok \<Rightarrow> [UnitTask_id (OkTask ok (cb_fildes cb) (cb_buf cb) (sys_return sys a)) (ioc_id ioc)])
         else (case ioc_errCB ioc of None \<Rightarrow> []
               | Some err \<Rightarrow> [UnitTask_id (ErrTask err (cb_fildes cb) (sys_error sys a)) (ioc_id ioc)])) \<and>
    aio_cbs P' = (aio_cbs P)(a := None) \<and> aio_callbacks P' = (aio_callbacks P)(q := None) \<and>
    aio_cbs Q' = (aio_cbs Q)(si_aioCB info := None) \<and> aio_callbacks Q' = (aio_callbacks Q)(q' := None) \<and>
    aio_infos Q' = (aio_infos Q)(p := None)"
proof -
  let ?N = "case completion sys a cb ioc of None \<Rightarrow> [] | Some t \<Rightarrow> [UnitTask_id t (ioc_id ioc)]"
  let ?P = "P\<lparr>aio_queue := rest\<rparr>"
  have c: "completion sys' (si_aioCB info) cb' ioc = completion sys a cb ioc" using same by (simp add: completion_def)
  have "run_front sys P = Some (checkIOProgress sys a (Some q) ?P)" using P(2,3) by (simp add: run_front_def)
  then have p: "run_front sys P = Some (Inr ((enqueue_opt (completion sys a cb ioc) (ioc_id ioc) ?P)
      \<lparr>aio_cbs := (aio_cbs P)(a := None), aio_callbacks := (aio_callbacks P)(q := None)\<rparr>))"
    using check_cases [of ?P a cb q ioc sys] P(4,5) finished by simp
  have s: "aioDone sys' p Q = Inr (sig_completed sys' p (si_aioCB info) q' cb' ioc Q)"
    by (rule handler_completes [OF sig_inv_reach [OF Q(1)] Q(2), of sys']) (use Q in auto)
  have q: "aio_queue (enqueue_opt t i S) = aio_queue S @ (case t of None \<Rightarrow> [] | Some t \<Rightarrow> [UnitTask_id t i])"
    for t i and S :: "('a, 'b, 'd) aio"
    by (simp add: enqueue_opt_def enqueue_task_def split: option.split)
  show ?thesis unfolding handlers_agree p s sig_completed_def c
    by (rule exI [of _ ?N]) (simp add: q completion_def split: option.split)
qed

text \<open>
  A submission that the kernel refuses is reported to the error callback by the polling build
  only; the build with signals frees the callback without a call. Nothing stays allocated.
\<close>

theorem refused_submission_differs:
  assumes "aio_reach P" and "sig_reach Q" and "ioc_errCB ioc = Some err" and "\<forall>g cb. sys_submit sys g cb = (- 1, errno)"
  shows "\<exists>P' Q'. submit False sys f fd buff len offset ioc P = Inr (- 1, P') \<and>
    aio_queue P' = aio_queue P @ [UnitTask_id (ErrTask err fd errno) (ioc_id ioc)] \<and>
    aio_cbs P' = aio_cbs P \<and> aio_callbacks P' = aio_callbacks P \<and>
    submit True sys f fd buff len offset ioc Q = Inr (- 1, Q') \<and> aio_queue Q' = aio_queue Q \<and>
    aio_cbs Q' = aio_cbs Q \<and> aio_callbacks Q' = aio_callbacks Q \<and> aio_infos Q' = aio_infos Q"
proof -
  have k: "sys_submit sys f cb = (- 1, errno)" for cb using assms(4) by blast
  note K = k [of "\<lparr>cb_func = f, cb_fildes = fd, cb_buf = buff, cb_nbytes = len, cb_offset = offset, cb_sival_ptr = None\<rparr>"]
  show ?thesis
    using submit_cases [OF aio_inv_reach [OF assms(1)] K, of ioc] sig_submit_cases [OF sig_inv_reach [OF assms(2)], of sys f fd buff len offset ioc]
      assms(3) k by (simp add: enqueue_task_def)
qed

text \<open>The poll of an operation without a callback dereferences null while it is in progress.\<close>

theorem null_callback_in_progress:
  "aio_cbs S a = Some cb \<Longrightarrow> sys_error sys a = EINPROGRESS \<Longrightarrow> checkIOProgress sys a None S = Inl NullDeref"
  by (simp add: checkIOProgress_def)

lemma one_outstanding:
  defines "s \<equiv> \<lparr>sys_submit = (\<lambda>_ _. (0, 0)), sys_error = (\<lambda>_. EINPROGRESS), sys_return = (\<lambda>_. 0)\<rparr>"
    and "i \<equiv> IOCallback_id (Some 1) (Some 2) 9"
  obtains P Q :: "(nat, nat, nat) aio" and cb cb' where
    "aio_reach P" "aio_queue P = [UnitTask_id (CheckTask 1 (Some 0)) 9]" "aio_callbacks P 0 = Some i" "aio_cbs P 1 = Some cb"
    "sig_reach Q" "aio_infos Q 2 = Some \<lparr>si_callback = Some 0, si_aioCB = 1\<rparr>" "aio_callbacks Q 0 = Some i" "aio_cbs Q 1 = Some cb'"
    "cb_fildes cb = 7" "cb_fildes cb' = 7" "cb_buf cb = Some 3" "cb_buf cb' = Some 3" "aio_queue Q = []"
proof -
  obtain P :: "(nat, nat, nat) aio" and cb where P: "submit False s AioRead 7 (Some 3) 100 0 i aio_new = Inr (0, P)"
      "aio_queue P = [UnitTask_id (CheckTask 1 (Some 0)) 9]" "aio_callbacks P 0 = Some i" "aio_cbs P 1 = Some cb"
      "cb_fildes cb = 7" "cb_buf cb = Some 3"
    by (simp add: s_def i_def IOCallback_id_def submit_def new_io_callback_def aioSkeletonFunction_def checkIOProgress_def
        aio_new_def Let_def enqueue_task_def)
  obtain Q :: "(nat, nat, nat) aio" and cb' where Q: "submit True s AioRead 7 (Some 3) 100 0 i aio_new = Inr (0, Q)"
      "aio_infos Q 2 = Some \<lparr>si_callback = Some 0, si_aioCB = 1\<rparr>" "aio_callbacks Q 0 = Some i" "aio_cbs Q 1 = Some cb'"
      "cb_fildes cb' = 7" "cb_buf cb' = Some 3" "aio_queue Q = []"
    by (simp add: s_def i_def IOCallback_id_def submit_def new_io_callback_def aioSkeletonFunction_def
        aio_new_def Let_def numeral_2_eq_2)
  show ?thesis
    by (rule that [OF aio_reach.submit [OF aio_reach.new P(1)] P(2-4) sig_reach.submit [OF sig_reach.new Q(1)] Q(2-4)])
      (use P Q in simp_all)
qed

theorem aio_builds_agree_witness:
  "\<exists>(P' :: (nat, nat, nat) aio) (Q' :: (nat, nat, nat) aio). aio_queue P' = [UnitTask_id (OkTask 1 7 (Some 3) 42) 9] \<and>
     aio_queue Q' = [UnitTask_id (OkTask 1 7 (Some 3) 42) 9] \<and> aio_cbs P' 1 = None \<and> aio_infos Q' 2 = None"
proof -
  let ?f = "\<lparr>sys_submit = (\<lambda>_ _. (0, 0)), sys_error = (\<lambda>_. 0), sys_return = (\<lambda>_. 42)\<rparr>"
  let ?i = "IOCallback_id (Some (1 :: nat)) (Some (2 :: nat)) 9"
  obtain P Q :: "(nat, nat, nat) aio" and cb cb' where
    P: "aio_reach P" "aio_queue P = [UnitTask_id (CheckTask 1 (Some 0)) 9]" "aio_callbacks P 0 = Some ?i" "aio_cbs P 1 = Some cb"
    and Q: "sig_reach Q" "aio_infos Q 2 = Some \<lparr>si_callback = Some 0, si_aioCB = 1\<rparr>" "aio_callbacks Q 0 = Some ?i" "aio_cbs Q 1 = Some cb'"
    and v: "cb_fildes cb = 7" "cb_fildes cb' = 7" "cb_buf cb = Some 3" "cb_buf cb' = Some 3" "aio_queue Q = []"
    by (rule one_outstanding)
  let ?N = "[UnitTask_id (OkTask 1 7 (Some 3) 42) 9] :: (nat, nat, nat) task unit_task list"
  from aio_builds_agree [OF Q(1,2) _ Q(3) _ P(1,2) _ P(3,4), where cb' = cb' and sys' = ?f and sys = ?f] Q(4) v
  obtain P' Q' :: "(nat, nat, nat) aio" where "aio_queue P' = ?N" "aio_queue Q' = ?N" "aio_cbs P' 1 = None" "aio_infos Q' 2 = None"
    by (auto simp: IOCallback_id_def EINPROGRESS_def)
  then show ?thesis by blast
qed

end
