(* ===== verification/HttpParse.thy ===== *)
theory HttpParse
  imports Prelude
begin

text \<open>
  The text side of \<open>webserver/svr_http.cc\<close>: C strings in character arrays, the scan of a request
  (\<open>svr_http_parse\<close>), the replies and the cache keys that the server prints. A character array
  is the list of its bytes; a pointer into it is an offset. Reading on past the end of the array
  is a fault.
\<close>

section \<open>C strings\<close>

definition NUL :: char where "NUL = CHR 0x00"
definition CRLF :: string where "CRLF = [CHR 0x0D, CHR 0x0A]"

text \<open>The string that starts at offset \<open>i\<close> of an array: up to the next NUL, which must be there.\<close>

definition c_str :: "string \<Rightarrow> nat \<Rightarrow> fault + string" where
  "c_str buf i =
     (if NUL \<in> set (drop i buf) then Inr (takeWhile (\<lambda>c. c \<noteq> NUL) (drop i buf)) else Inl OutOfRange)"

text \<open>\<open>strstr\<close> and \<open>strchr\<close> (of a character that is not NUL), as offsets.\<close>

fun strstr :: "string \<Rightarrow> string \<Rightarrow> nat option" where
  "strstr [] pat = (if pat = [] then Some 0 else None)"
| "strstr (c # s) pat = (if take (length pat) (c # s) = pat then Some 0 else map_option Suc (strstr s pat))"

fun strchr :: "string \<Rightarrow> char \<Rightarrow> nat option" where
  "strchr [] x = None"
| "strchr (c # s) x = (if c = x then Some 0 else map_option Suc (strchr s x))"

text \<open>\<open>strncmp(buf + i, pat, strlen(pat)) == 0\<close>, byte by byte.\<close>

fun strncmp_eq :: "string \<Rightarrow> nat \<Rightarrow> string \<Rightarrow> fault + bool" where
  "strncmp_eq buf i [] = Inr True"
| "strncmp_eq buf i (p # pat) =
     (if i < length buf then (if buf ! i = p then strncmp_eq buf (Suc i) pat else Inr False) else Inl OutOfRange)"

text \<open>\<open>memcpy\<close> of \<open>n\<close> bytes from offset \<open>i\<close> into a new C string.\<close>

definition copy_str :: "string \<Rightarrow> nat \<Rightarrow> nat \<Rightarrow> fault + string" where
  "copy_str buf i n = (if i + n \<le> length buf then Inr (take n (drop i buf)) else Inl OutOfRange)"

text \<open>\<open>strncpy(p, s, n)\<close> into an array of at least \<open>n\<close> bytes, and \<open>snprintf(p, n, "%s", s)\<close>.\<close>

definition strncpy :: "string \<Rightarrow> string \<Rightarrow> nat \<Rightarrow> string" where
  "strncpy p s n = take n s @ replicate (n - length s) NUL @ drop n p"

definition snprintf :: "string \<Rightarrow> nat \<Rightarrow> string \<Rightarrow> string" where
  "snprintf p n s = take (n - 1) s @ [NUL] @ drop (min (n - 1) (length s) + 1) p"

text \<open>\<open>%zu\<close>.\<close>

fun decimal :: "nat \<Rightarrow> string" where
  "decimal n = (if n < 10 then [char_of (48 + n)] else decimal (n div 10) @ [char_of (48 + n mod 10)])"

declare decimal.simps [simp del]

section \<open>Scanning a request\<close>

text \<open>
  One round of the loop of \<open>svr_http_parse\<close> at offset \<open>ph\<close>: \<open>pt\<close> is the end of the line. A line
  that starts with \<open>GET\<close> gives the uri and the version, or neither when there is no second blank
  in the line; the next round starts behind what was taken. Any other line is skipped.
\<close>

type_synonym request = "(string option \<times> string option)"

definition blank_before :: "string \<Rightarrow> nat \<Rightarrow> nat \<Rightarrow> nat option" where
  "blank_before s ph pt =
     (case strchr s (CHR '' '') of Some k \<Rightarrow> if ph + k < pt then Some (ph + k) else None | None \<Rightarrow> None)"

definition scan_get :: "string \<Rightarrow> nat \<Rightarrow> nat \<Rightarrow> fault + (request \<times> nat)" where
  "scan_get buf ph pt =
     and_then (c_str buf ph) (\<lambda>s.
     let ps = blank_before s ph pt;
         ph = (if buf ! ph = CHR ''/'' then ph + 1 else ph)
     in case ps of
          Some ps \<Rightarrow>
            and_then (copy_str buf ph (ps - ph)) (\<lambda>uri.
            let ph = ps + 1 in
            if ph \<le> pt then and_then (copy_str buf ph (pt - ph)) (\<lambda>ver. Inr ((Some uri, Some ver), ph))
            else Inr ((Some uri, None), ph))
        | None \<Rightarrow> Inr ((None, None), ph))"

definition scan_line :: "string \<Rightarrow> nat \<Rightarrow> nat \<Rightarrow> fault + (request option \<times> nat)" where
  "scan_line buf ph pe =
     and_then (c_str buf ph) (\<lambda>s.
     let pt = (case strstr s CRLF of None \<Rightarrow> pe | Some k \<Rightarrow> ph + k)
     in if take 4 s = ''GET '' then and_then (scan_get buf (ph + 4) pt) (\<lambda>(r, ph). Inr (Some r, ph))
        else Inr (None, pt + length CRLF))"

text \<open>The loop, with fuel.\<close>

fun scan :: "nat \<Rightarrow> string \<Rightarrow> nat \<Rightarrow> nat \<Rightarrow> fault + request list" where
  "scan 0 buf ph pe = Inl NoReturn"
| "scan (Suc fuel) buf ph pe =
     (if ph < pe then
        and_then (scan_line buf ph pe) (\<lambda>(r, ph).
        and_then (scan fuel buf ph pe) (\<lambda>rs. Inr ((case r of None \<Rightarrow> [] | Some r \<Rightarrow> [r]) @ rs)))
      else Inr [])"

section \<open>Termination and bounds\<close>

lemma c_str_Inr:
  assumes "c_str buf i = Inr s"
  shows "\<exists>rest. drop i buf = s @ NUL # rest \<and> NUL \<notin> set s"
proof -
  have n: "NUL \<in> set (drop i buf)" and s: "s = takeWhile (\<lambda>c. c \<noteq> NUL) (drop i buf)"
    using assms by (auto simp: c_str_def split: if_splits)
  have "dropWhile (\<lambda>c. c \<noteq> NUL) (drop i buf) \<noteq> []" using n by (auto simp: dropWhile_eq_Nil_conv)
  then obtain x rest where d: "dropWhile (\<lambda>c. c \<noteq> NUL) (drop i buf) = x # rest" by (cases "dropWhile (\<lambda>c. c \<noteq> NUL) (drop i buf)") auto
  then have "x = NUL" using hd_dropWhile [of "\<lambda>c. c \<noteq> NUL" "drop i buf"] by simp
  then have "drop i buf = s @ NUL # rest" using takeWhile_dropWhile_id [of "\<lambda>c. c \<noteq> NUL" "drop i buf"] d s by metis
  moreover have "NUL \<notin> set s" unfolding s by (auto dest: set_takeWhileD)
  ultimately show ?thesis by blast
qed

lemma c_str_len: "c_str buf i = Inr s \<Longrightarrow> i + length s < length buf"
proof -
  assume "c_str buf i = Inr s"
  then obtain rest where "drop i buf = s @ NUL # rest" using c_str_Inr by blast
  then have "length (drop i buf) = length s + Suc (length rest)" by simp
  then show ?thesis by simp
qed

lemma c_str_total:
  assumes "i \<le> j" and "j < length buf" and "buf ! j = NUL"
  shows "\<exists>s. c_str buf i = Inr s"
proof -
  have "NUL \<in> set (drop i buf)"
    using assms nth_mem [of "j - i" "drop i buf"] by simp
  then show ?thesis by (simp add: c_str_def)
qed

lemma strstr_bound: "strstr s pat = Some k \<Longrightarrow> k \<le> length s \<and> (pat \<noteq> [] \<longrightarrow> k + length pat \<le> length s)"
proof (induction s arbitrary: k)
  case (Cons c s)
  show ?case
  proof (cases "take (length pat) (c # s) = pat")
    case True
    then have "length pat \<le> length (c # s)" by (metis length_take min.cobounded1)
    then show ?thesis using Cons.prems True by auto
  next
    case False
    then show ?thesis using Cons by auto
  qed
qed (simp split: if_splits)

lemma strchr_bound: "strchr s x = Some k \<Longrightarrow> k < length s \<and> s ! k = x \<and> (\<forall>i < k. s ! i \<noteq> x)"
proof (induction s arbitrary: k)
  case (Cons c s)
  show ?case
  proof (cases "c = x")
    case True
    then show ?thesis using Cons.prems by simp
  next
    case False
    then obtain j where "strchr s x = Some j" "k = Suc j" using Cons.prems by auto
    then show ?thesis using Cons.IH False by (auto simp: nth_Cons split: nat.splits)
  qed
qed simp

text \<open>The next round starts further on.\<close>

lemma blank_before_bound:
  "blank_before s ph pt = Some q \<Longrightarrow> ph \<le> q \<and> q < pt \<and> q < ph + length s \<and> s ! (q - ph) = CHR '' ''"
  by (auto simp: blank_before_def dest: strchr_bound split: option.splits if_splits)

lemma scan_get_forward:
  assumes "scan_get buf ph pt = Inr (r, ph')" shows "ph \<le> ph'"
proof -
  obtain s where s: "c_str buf ph = Inr s" using assms by (auto simp: scan_get_def and_then_Inr_iff)
  show ?thesis
  proof (cases "blank_before s ph pt")
    case None
    then show ?thesis using assms s by (simp add: scan_get_def Let_def split: if_splits)
  next
    case (Some q)
    then show ?thesis using assms s blank_before_bound [OF Some]
      by (simp add: scan_get_def Let_def copy_str_def split: if_splits)
  qed
qed

lemma scan_line_forward: "scan_line buf ph pe = Inr (r, ph') \<Longrightarrow> ph < pe \<Longrightarrow> ph < ph'"
  by (auto simp: scan_line_def and_then_Inr_iff Let_def CRLF_def dest!: scan_get_forward split: if_splits option.splits)

text \<open>No read leaves the array when there is a NUL at or behind the end, and the next round keeps it so.\<close>

lemma scan_get_safe:
  assumes s: "c_str buf ph = Inr s" and pt: "pt < length buf"
  shows "\<exists>r ph'. scan_get buf ph pt = Inr (r, ph') \<and> ph' \<le> max (ph + 1) (pt + 1)"
proof -
  have l: "ph + length s < length buf" by (rule c_str_len [OF s])
  show ?thesis
  proof (cases "blank_before s ph pt")
    case None
    then show ?thesis using s by (simp add: scan_get_def Let_def max_def)
  next
    case (Some q)
    note q = blank_before_bound [OF Some]
    have "buf ! ph = CHR ''/'' \<Longrightarrow> ph < q"
    proof -
      assume b: "buf ! ph = CHR ''/''"
      obtain rest where "drop ph buf = s @ NUL # rest" using c_str_Inr [OF s] by blast
      then have "drop ph buf ! 0 = s ! 0" if "s \<noteq> []" using that by (simp add: nth_append)
      then have "s ! 0 = buf ! ph" if "s \<noteq> []" using that nth_drop [of ph buf 0] l by simp
      then show "ph < q" using q b by (cases "q = ph") auto
    qed
    then show ?thesis using s Some q l pt by (auto simp: scan_get_def copy_str_def Let_def)
  qed
qed

lemma take_length_le: "take n s = p \<Longrightarrow> length p = n \<Longrightarrow> n \<le> length s"
  by (metis length_take min.cobounded1)

lemma scan_line_safe:
  assumes ph: "ph < pe" and pe: "pe \<le> e" "e < length buf" "buf ! e = NUL"
  shows "\<exists>r ph'. scan_line buf ph pe = Inr (r, ph') \<and> ph' \<le> e + 2"
proof -
  obtain s where s: "c_str buf ph = Inr s" using c_str_total [of ph e buf] ph pe by auto
  obtain rest where d: "drop ph buf = s @ NUL # rest" "NUL \<notin> set s" using c_str_Inr [OF s] by blast
  have l: "ph + length s \<le> e"
  proof (rule ccontr)
    assume "\<not> ph + length s \<le> e"
    then have "e - ph < length s" using ph pe by simp
    then have "buf ! e = s ! (e - ph)" using d(1) ph pe nth_append [of s "NUL # rest" "e - ph"] nth_drop [of ph buf "e - ph"] by simp
    then show False using d(2) pe(3) \<open>e - ph < length s\<close> nth_mem by metis
  qed
  let ?pt = "case strstr s CRLF of None \<Rightarrow> pe | Some k \<Rightarrow> ph + k"
  have pt: "?pt \<le> e" using pe(1) l strstr_bound [of s CRLF] by (auto split: option.splits)
  show ?thesis
  proof (cases "take 4 s = ''GET ''")
    case True
    then have g: "4 \<le> length s" by (rule take_length_le) simp
    obtain s' where s': "c_str buf (ph + 4) = Inr s'" using c_str_total [of "ph + 4" e buf] l g pe by auto
    obtain r ph' where r: "scan_get buf (ph + 4) ?pt = Inr (r, ph')" "ph' \<le> max (ph + 4 + 1) (?pt + 1)"
      using scan_get_safe [OF s', of ?pt] pt pe(2) by auto
    then have "ph' \<le> e + 2" using l g pt by linarith
    then show ?thesis using s r(1) True by (simp add: scan_line_def Let_def)
  next
    case False
    then show ?thesis using s pt by (simp add: scan_line_def Let_def CRLF_def)
  qed
qed

lemma scan_ends:
  assumes pe: "pe \<le> e" "e < length buf" "buf ! e = NUL"
  shows "pe - ph < fuel \<Longrightarrow> \<exists>rs. scan fuel buf ph pe = Inr rs"
proof (induction fuel arbitrary: ph)
  case (Suc fuel)
  show ?case
  proof (cases "ph < pe")
    case True
    obtain r ph' where r: "scan_line buf ph pe = Inr (r, ph')" using scan_line_safe [OF True pe] by blast
    then have "pe - ph' < fuel" using scan_line_forward [OF r True] Suc.prems True by linarith
    then show ?thesis using Suc.IH [of ph'] r True by auto
  qed simp
qed simp

section \<open>Printing and scanning\<close>

text \<open>The lines of a request as a client prints them.\<close>

datatype line = GetLine string string | OtherLine string

fun print_line :: "line \<Rightarrow> string" where
  "print_line (GetLine uri ver) = ''GET /'' @ uri @ '' '' @ ver @ CRLF"
| "print_line (OtherLine l) = l @ CRLF"

definition print_request :: "line list \<Rightarrow> string" where
  "print_request ls = concat (map print_line ls) @ CRLF"

definition plain :: "string \<Rightarrow> bool" where
  "plain s \<longleftrightarrow> NUL \<notin> set s \<and> CHR 0x0D \<notin> set s"

fun line_ok :: "line \<Rightarrow> bool" where
  "line_ok (GetLine uri ver) \<longleftrightarrow> plain uri \<and> CHR '' '' \<notin> set uri \<and> plain ver \<and> take 4 ver \<noteq> ''GET ''"
| "line_ok (OtherLine l) \<longleftrightarrow> plain l \<and> take 4 l \<noteq> ''GET ''"

fun line_request :: "line \<Rightarrow> request list" where
  "line_request (GetLine uri ver) = [(Some uri, Some ver)]"
| "line_request (OtherLine l) = []"

lemma NUL_neq [simp]: "NUL \<noteq> CHR 0x0D" "NUL \<noteq> CHR 0x0A" "NUL \<noteq> CHR '' ''" "NUL \<noteq> CHR ''/''" "NUL \<noteq> CHR ''G''"
    "NUL \<noteq> CHR ''E''" "NUL \<noteq> CHR ''T''"
  by (simp_all add: NUL_def)

lemma c_str_split:
  assumes "drop i buf = s @ NUL # rest" and "NUL \<notin> set s"
  shows "c_str buf i = Inr s"
proof -
  have "takeWhile (\<lambda>c. c \<noteq> NUL) (s @ NUL # rest) = s" using assms(2) by (induction s) auto
  then show ?thesis unfolding c_str_def assms(1) by simp
qed

lemma strstr_CRLF: "CHR 0x0D \<notin> set l \<Longrightarrow> strstr (l @ CRLF @ r) CRLF = Some (length l)"
  by (induction l) (auto simp: CRLF_def)

lemma strchr_first: "x \<notin> set l \<Longrightarrow> strchr (l @ x # r) x = Some (length l)"
  by (induction l) auto

lemma take_GET:
  assumes "take 4 l \<noteq> ''GET ''" shows "take 4 (l @ CRLF @ r) \<noteq> ''GET ''"
proof (cases "length l < 4")
  case True
  show ?thesis
  proof
    assume h: "take 4 (l @ CRLF @ r) = ''GET ''"
    have "take 4 (l @ CRLF @ r) ! length l = CHR 0x0D" using True by (simp add: CRLF_def nth_append)
    then have "CHR 0x0D \<in> set (take 4 (l @ CRLF @ r))"
      using True nth_mem [of "length l" "take 4 (l @ CRLF @ r)"] by (simp add: CRLF_def)
    then show False unfolding h by simp
  qed
next
  case False
  then show ?thesis using assms by simp
qed

lemma drop_at: "drop i buf = xs @ ys \<Longrightarrow> j = i + length xs \<Longrightarrow> drop j buf = ys"
  by (metis add.commute append_eq_conv_conj drop_drop)

lemma scan_other:
  assumes d: "drop ph buf = l @ CRLF @ r @ NUL # junk" and p: "plain l" "NUL \<notin> set r" and g: "take 4 l \<noteq> ''GET ''"
  shows "scan_line buf ph pe = Inr (None, ph + length l + 2)"
proof -
  have "c_str buf ph = Inr (l @ CRLF @ r)"
    using c_str_split [of ph buf "l @ CRLF @ r" junk] d p by (simp add: plain_def CRLF_def)
  then show ?thesis
    using strstr_CRLF [of l r] take_GET [OF g, of r] p by (simp add: scan_line_def plain_def CRLF_def)
qed

lemma scan_request:
  assumes d: "drop ph buf = (''GET /'' @ uri @ '' '' @ ver @ CRLF) @ r @ NUL # junk"
    and ok: "line_ok (GetLine uri ver)" and r: "NUL \<notin> set r"
  shows "scan_line buf ph pe = Inr (Some (Some uri, Some ver), ph + length uri + 6)"
proof -
  let ?s = "''/'' @ uri @ '' '' @ ver @ CRLF @ r"
  have nn: "NUL \<notin> set ?s" using ok r by (auto simp: plain_def CRLF_def)
  have c1: "c_str buf ph = Inr (''GET '' @ ?s)" by (rule c_str_split [of _ _ _ junk]) (use d nn in auto)
  have len: "ph + 4 + length ?s < length buf" using c_str_len [OF c1] by simp
  have d4: "drop (ph + 4) buf = ?s @ NUL # junk" by (rule drop_at [of ph _ "''GET ''"]) (simp_all add: d)
  have c2: "c_str buf (ph + 4) = Inr ?s" by (rule c_str_split [OF d4 nn])
  have pt: "strstr (''GET '' @ ?s) CRLF = Some (length uri + length ver + 6)"
    using strstr_CRLF [of "''GET /'' @ uri @ '' '' @ ver" r] ok by (auto simp: plain_def)
  have sp: "strchr ?s (CHR '' '') = Some (length uri + 1)"
    using strchr_first [of "CHR '' ''" "''/'' @ uri" "ver @ CRLF @ r"] ok by simp
  have sl: "buf ! (ph + 4) = CHR ''/''" using arg_cong [OF d4, of "\<lambda>xs. xs ! 0"] len by simp
  have u: "drop (ph + 5) buf = uri @ '' '' @ ver @ CRLF @ r @ NUL # junk"
    by (rule drop_at [of "ph + 4" _ "''/''"]) (simp_all add: d4)
  have v: "drop (ph + length uri + 6) buf = ver @ CRLF @ r @ NUL # junk"
    by (rule drop_at [of "ph + 5" _ "uri @ '' ''"]) (simp_all add: u)
  have "scan_get buf (ph + 4) (ph + (length uri + length ver + 6)) = Inr ((Some uri, Some ver), ph + length uri + 6)"
    using c2 sp sl u v v [unfolded add.assoc] len
    by (simp add: scan_get_def blank_before_def copy_str_def Let_def add.commute add.left_commute)
  then show ?thesis using c1 pt by (simp add: scan_line_def Let_def)
qed

lemma scan_lines:
  "drop ph buf = concat (map print_line ls) @ CRLF @ NUL # junk \<Longrightarrow> \<forall>l \<in> set ls. line_ok l \<Longrightarrow>
   pe = ph + length (concat (map print_line ls)) + 1 \<Longrightarrow> pe - ph < fuel \<Longrightarrow>
     scan fuel buf ph pe = Inr (concat (map line_request ls))"
proof (induction ls arbitrary: ph fuel)
  case Nil
  obtain f where f: "fuel = Suc f" using Nil.prems(4) by (cases fuel) auto
  obtain f' where f': "f = Suc f'" using Nil.prems(3,4) f by (cases f) auto
  have "scan_line buf ph pe = Inr (None, ph + 2)"
    using scan_other [of ph buf "[]" "[]" junk] Nil.prems(1) by (simp add: plain_def)
  then show ?case using Nil.prems(3) f f' by simp
next
  case (Cons l ls)
  let ?t = "concat (map print_line ls) @ CRLF"
  have nn: "NUL \<notin> set ?t"
  proof -
    have "NUL \<notin> set (print_line l')" if "line_ok l'" for l' using that by (cases l') (auto simp: plain_def CRLF_def)
    then show ?thesis using Cons.prems(2) by (auto simp: CRLF_def)
  qed
  obtain f where f: "fuel = Suc f" using Cons.prems(4) by (cases fuel) auto
  show ?case
  proof (cases l)
    case (OtherLine s)
    have s: "scan_line buf ph pe = Inr (None, ph + length s + 2)"
      by (rule scan_other [of _ _ _ ?t junk]) (use Cons.prems(1,2) OtherLine nn in auto)
    have d: "drop (ph + length s + 2) buf = concat (map print_line ls) @ CRLF @ NUL # junk"
      by (rule drop_at [of ph _ "s @ CRLF"]) (use Cons.prems(1) OtherLine in \<open>simp_all add: CRLF_def\<close>)
    have "scan f buf (ph + length s + 2) pe = Inr (concat (map line_request ls))"
      by (rule Cons.IH [OF d]) (use Cons.prems f OtherLine in \<open>auto simp: CRLF_def\<close>)
    then show ?thesis using s f Cons.prems(3) OtherLine by simp
  next
    case (GetLine uri ver)
    have ok: "line_ok (GetLine uri ver)" using Cons.prems(2) GetLine by simp
    have s: "scan_line buf ph pe = Inr (Some (Some uri, Some ver), ph + length uri + 6)"
      by (rule scan_request [of _ _ _ _ ?t junk]) (use Cons.prems(1) GetLine ok nn in auto)
    have d1: "drop (ph + length uri + 6) buf = ver @ CRLF @ ?t @ NUL # junk"
      by (rule drop_at [of ph _ "''GET /'' @ uri @ '' ''"]) (use Cons.prems(1) GetLine in simp_all)
    have s2: "scan_line buf (ph + length uri + 6) pe = Inr (None, ph + length uri + 6 + length ver + 2)"
      by (rule scan_other [OF d1]) (use ok nn in auto)
    have d2: "drop (ph + length uri + 6 + length ver + 2) buf = concat (map print_line ls) @ CRLF @ NUL # junk"
      by (rule drop_at [of "ph + length uri + 6" _ "ver @ CRLF"]) (simp_all add: d1 CRLF_def)
    obtain g where g: "f = Suc g" using Cons.prems(3,4) f GetLine by (cases f) auto
    have "scan g buf (ph + length uri + 6 + length ver + 2) pe = Inr (concat (map line_request ls))"
      by (rule Cons.IH [OF d2]) (use Cons.prems f g GetLine in \<open>auto simp: CRLF_def\<close>)
    then have "scan f buf (ph + length uri + 6) pe = Inr (concat (map line_request ls))"
      using s2 g Cons.prems(3) GetLine by (simp add: CRLF_def)
    then show ?thesis using s f Cons.prems(3) GetLine by simp
  qed
qed

text \<open>
  C26: Parsing a printed request gives back its GET lines, uris and versions, in order and nothing
  else, whatever the other header lines are and whatever follows the text in the buffer. (The end
  that \<open>svr_http_parse_aio\<close> sets leaves out the last byte, which is the newline of the blank line.)
\<close>

theorem parse_roundtrip:
  assumes "\<forall>l \<in> set ls. line_ok l"
  shows "scan (length (print_request ls)) (print_request ls @ NUL # junk) 0 (length (print_request ls) - 1) =
    Inr (concat (map line_request ls))"
  by (rule scan_lines) (use assms in \<open>auto simp: print_request_def CRLF_def\<close>)

theorem parse_roundtrip_witness:
  "scan 50 (print_request [GetLine ''a.html'' ''HTTP/1.1'', OtherLine ''Host: h'', GetLine ''b'' ''HTTP/1.0''] @ [NUL]) 0 49 =
     Inr [(Some ''a.html'', Some ''HTTP/1.1''), (Some ''b'', Some ''HTTP/1.0'')]"
proof -
  let ?ls = "[GetLine ''a.html'' ''HTTP/1.1'', OtherLine ''Host: h'', GetLine ''b'' ''HTTP/1.0'']"
  have "\<forall>l \<in> set ?ls. line_ok l" by (simp add: plain_def NUL_def)
  note R = parse_roundtrip [OF this, of "[]"]
  have "length (print_request ?ls) = 50" by (simp add: print_request_def CRLF_def)
  then show ?thesis using R by (simp del: scan.simps)
qed

text \<open>
  C27: The scan of whatever bytes a client sends ends and stays inside the read buffer: \<open>svr_http_read\<close>
  clears all of it and reads one byte less than its size, so there is a NUL behind the bytes.
\<close>

theorem scan_stays_inside:
  assumes "0 < length bytes" and "length bytes < n"
  shows "\<exists>rs. scan (length bytes) (bytes @ replicate (n - length bytes) NUL) 0 (length bytes - 1) = Inr rs"
  by (rule scan_ends [of _ "length bytes"]) (use assms in \<open>auto simp: nth_append\<close>)

theorem scan_stays_inside_witness:
  "\<exists>rs. scan 3 (''GET'' @ replicate 5 NUL) 0 2 = Inr rs"
  using scan_stays_inside [of "''GET''" 8] by (simp add: numeral_2_eq_2 numeral_3_eq_3 del: scan.simps)

end
