(* ===== verification/CopyFile.thy ===== *)
theory CopyFile
  imports AioProps HttpParse
begin

text \<open>
  \<open>sample/copy.cc\<close>: a program that copies a file with one asynchronous read and one asynchronous
  write, over the model of the I/O wrapper in its polling build. The operating system is the
  parameter \<open>copy_sys\<close>, one record of answers for each step; assertions are on.
\<close>

section \<open>State\<close>

text \<open>What is bound into the two \<open>IOCallback\<close>s; \<open>copyTo\<close> has the destination bound to it.\<close>

datatype copy_ok = CopyTo c_int | CopyDone
datatype copy_err = ErrOccured

text \<open>\<open>cp_dest\<close> is the destination file, \<open>cp_out\<close> what was printed, \<open>cp_exit\<close> the code passed to \<open>exit\<close>.\<close>

record copy =
  cp_aio :: "(copy_ok, copy_err, unit) aio"
  cp_bufs :: "addr \<rightharpoonup> string"
  cp_next :: addr
  cp_fds :: "c_int set"
  cp_dest :: string
  cp_out :: "string list"
  cp_exit :: "c_int option"

record copy_sys =
  ce_aio :: aio_sys
  ce_data :: "addr \<Rightarrow> string"
  ce_source :: c_int
  ce_dest :: c_int
  ce_size :: size_t

definition copy_block :: "addr option \<Rightarrow> copy \<Rightarrow> fault + string" where
  "copy_block p s = (case p of None \<Rightarrow> Inl NullDeref | Some b \<Rightarrow> deref (cp_bufs s) b)"

definition exits :: "c_int \<Rightarrow> copy \<Rightarrow> copy" where "exits n s = s\<lparr>cp_exit := Some n\<rparr>"

definition closes :: "c_int \<Rightarrow> copy \<Rightarrow> copy" where "closes fd s = s\<lparr>cp_fds := cp_fds s - {fd}\<rparr>"

text \<open>
  Writing \<open>w\<close> at an offset of a file, and what the kernel has done when an operation is complete: it
  never reads or writes more than the \<open>aio_nbytes\<close> of the request, and outside the buffer it is a fault.
\<close>

definition write_at :: "nat \<Rightarrow> string \<Rightarrow> string \<Rightarrow> string" where
  "write_at k w f = take k (f @ replicate (k - length f) NUL) @ w @ drop (k + length w) f"

definition copy_deliver :: "copy_sys \<Rightarrow> addr \<Rightarrow> aiocb \<Rightarrow> copy \<Rightarrow> fault + copy" where
  "copy_deliver E a cb s =
     (if sys_error (ce_aio E) a = 0 then
        and_then (copy_block (cb_buf cb) s) (\<lambda>d.
        case cb_func cb of
          AioRead \<Rightarrow>
            let x = take (unat (cb_nbytes cb)) (ce_data E a) in
            if length x \<le> length d then Inr (s\<lparr>cp_bufs := (cp_bufs s)(the (cb_buf cb) \<mapsto> x @ drop (length x) d)\<rparr>) else Inl OutOfRange
        | AioWrite \<Rightarrow>
            let k = min (unat (cb_nbytes cb)) (unat (sys_return (ce_aio E) a)) in
            if k \<le> length d then Inr (s\<lparr>cp_dest := write_at (unat (cb_offset cb)) (take k d) (cp_dest s)\<rparr>) else Inl OutOfRange)
      else Inr s)"

text \<open>\<open>aio_read\<close> and \<open>aio_write\<close> with \<open>new IOCallback(ok, err)\<close>.\<close>

definition copy_aio ::
  "copy_sys \<Rightarrow> aio_func \<Rightarrow> c_int \<Rightarrow> addr option \<Rightarrow> size_t \<Rightarrow> off_t \<Rightarrow> copy_ok \<Rightarrow> copy \<Rightarrow> fault + (c_int \<times> copy)" where
  "copy_aio E f fd buf len offset ok s =
     (let (p, A) = new_io_callback (IOCallback (Some ok) (Some ErrOccured)) (cp_aio s);
          cb = \<lparr>cb_func = f, cb_fildes = fd, cb_buf = buf, cb_nbytes = len, cb_offset = offset, cb_sival_ptr = None\<rparr>
      in and_then (if 0 \<le> sint (fst (sys_submit (ce_aio E) f cb)) then copy_deliver E (aio_next A) cb s else Inr s) (\<lambda>s.
         and_then
           (case f of
              AioRead \<Rightarrow> wrap_aio_read False (ce_aio E) fd buf len offset (Some p) A
            | AioWrite \<Rightarrow> wrap_aio_write False (ce_aio E) fd buf len offset (Some p) A) (\<lambda>(ret, A).
         Inr (ret, s\<lparr>cp_aio := A\<rparr>))))"

section \<open>The program\<close>

definition errOccured :: "c_int \<Rightarrow> c_int \<Rightarrow> copy \<Rightarrow> fault + copy" where
  "errOccured fd err s = Inr (exits 0 (closes fd s))"

text \<open>
  \<open>data\<close> has room for \<open>len\<close> bytes and no terminating NUL; \<open>cout\<close> reads it up to a NUL. \<open>strncpy\<close>
  stops at a NUL of \<open>contents\<close> and fills the rest with NULs.
\<close>

definition copyDone :: "c_int \<Rightarrow> addr option \<Rightarrow> ssize_t \<Rightarrow> copy \<Rightarrow> fault + copy" where
  "copyDone fd contents len s =
     and_then (c_assert (0 \<le> sint len)) (\<lambda>_.
     and_then (copy_block contents s) (\<lambda>buf.
     and_then (copy_str buf 0 (unat len)) (\<lambda>src.
     let data = strncpy (replicate (unat len) NUL) (takeWhile (\<lambda>c. c \<noteq> NUL) src) (unat len) in
     and_then (c_str data 0) (\<lambda>text.
     Inr (exits 0 (closes fd (s\<lparr>cp_out := cp_out s @ [''Successfully written: '' @ text],
            cp_bufs := (cp_bufs s)(the contents := None)\<rparr>)))))))"

definition copyTo :: "copy_sys \<Rightarrow> c_int \<Rightarrow> c_int \<Rightarrow> addr option \<Rightarrow> ssize_t \<Rightarrow> copy \<Rightarrow> fault + copy" where
  "copyTo E destFd srcFd contents len s =
     and_then (c_assert (0 \<le> sint len)) (\<lambda>_.
     and_then (copy_aio E AioWrite destFd contents len 0 CopyDone s) (\<lambda>(ret, s).
     and_then (c_assert (ret = 0)) (\<lambda>_.
     Inr (closes srcFd s))))"

text \<open>\<open>main\<close> up to its endless loop: \<open>open\<close> truncates the destination \<open>old\<close>.\<close>

definition copy_new :: "string \<Rightarrow> copy" where
  "copy_new old = \<lparr>cp_aio = aio_new, cp_bufs = Map.empty, cp_next = 0, cp_fds = {}, cp_dest = old, cp_out = [], cp_exit = None\<rparr>"

definition copy_main :: "copy_sys \<Rightarrow> nat \<Rightarrow> string \<Rightarrow> fault + copy" where
  "copy_main E argc old =
     (let s = copy_new old in
      if argc \<noteq> 3 then Inr (exits (- 1) s)
      else
        and_then (c_assert (0 < sint (ce_source E))) (\<lambda>_.
        let s = s\<lparr>cp_fds := insert (ce_source E) (cp_fds s)\<rparr> in
        let s = (if 0 \<le> sint (ce_dest E) then s\<lparr>cp_fds := insert (ce_dest E) (cp_fds s), cp_dest := []\<rparr> else s) in
        and_then (c_assert (0 < sint (ce_dest E))) (\<lambda>_.
        let fileSize = ce_size E; data = cp_next s;
            s = s\<lparr>cp_bufs := (cp_bufs s)(data \<mapsto> replicate (unat fileSize) NUL), cp_next := Suc data\<rparr> in
        and_then (copy_aio E AioRead (ce_source E) (Some data) fileSize 0 (CopyTo (ce_dest E)) s) (\<lambda>(ret, s).
        and_then (c_assert (ret = 0)) (\<lambda>_. Inr s)))))"

text \<open>The dispatcher's thread runs the front task, until the process has exited.\<close>

definition copy_step :: "copy_sys \<Rightarrow> copy \<Rightarrow> (fault + copy) option" where
  "copy_step E s =
     (if cp_exit s \<noteq> None then None
      else case aio_queue (cp_aio s) of
        [] \<Rightarrow> None
      | ut # q \<Rightarrow>
          let s = s\<lparr>cp_aio := (cp_aio s)\<lparr>aio_queue := q\<rparr>\<rparr> in
          Some (case ut_task ut of
              CheckTask a callback \<Rightarrow>
                and_then (deref (aio_cbs (cp_aio s)) a) (\<lambda>cb.
                and_then (copy_deliver E a cb s) (\<lambda>s.
                and_then (checkIOProgress (ce_aio E) a callback (cp_aio s)) (\<lambda>A. Inr (s\<lparr>cp_aio := A\<rparr>))))
            | OkTask ok fd buf n \<Rightarrow> (case ok of CopyTo destFd \<Rightarrow> copyTo E destFd fd buf n s | CopyDone \<Rightarrow> copyDone fd buf n s)
            | ErrTask err fd errcode \<Rightarrow> errOccured fd errcode s
            | ClientTask _ \<Rightarrow> Inr s))"

fun copy_steps :: "(nat \<Rightarrow> copy_sys) \<Rightarrow> nat \<Rightarrow> copy \<Rightarrow> (fault + copy) option" where
  "copy_steps Es 0 s = Some (Inr s)"
| "copy_steps Es (Suc n) s =
     (case copy_step (Es 0) s of Some (Inr s') \<Rightarrow> copy_steps (\<lambda>k. Es (Suc k)) n s' | r \<Rightarrow> r)"

section \<open>Waiting\<close>

text \<open>One operation is under way, with its control block at \<open>a\<close> and its callback at \<open>p\<close>.\<close>

definition waiting :: "addr \<Rightarrow> addr \<Rightarrow> aiocb \<Rightarrow> copy_ok \<Rightarrow> copy \<Rightarrow> bool" where
  "waiting a p cb ok s \<longleftrightarrow> cp_exit s = None \<and> aio_queue (cp_aio s) = [UnitTask_id (CheckTask a (Some p)) DEFAULT_ID] \<and>
     aio_cbs (cp_aio s) a = Some cb \<and> aio_callbacks (cp_aio s) p = Some (IOCallback (Some ok) (Some ErrOccured))"

definition in_progress :: "copy_sys \<Rightarrow> bool" where
  "in_progress E \<longleftrightarrow> (\<forall>f cb. fst (sys_submit (ce_aio E) f cb) = 0) \<and> (\<forall>a. sys_error (ce_aio E) a = EINPROGRESS)"

lemma wait_step: "waiting a p cb ok s \<Longrightarrow> in_progress E \<Longrightarrow> copy_step E s = Some (Inr s)"
  by (cases s; cases "cp_aio s")
    (auto simp: waiting_def in_progress_def copy_step_def copy_deliver_def checkIOProgress_def EINPROGRESS_def enqueue_task_def IOCallback_def
      UnitTask_id_def)

lemma wait_steps: "waiting a p cb ok s \<Longrightarrow> \<forall>k < n. in_progress (Es k) \<Longrightarrow> copy_steps Es n s = Some (Inr s)"
proof (induction n arbitrary: Es)
  case (Suc n)
  have "in_progress (Es 0)" "\<forall>k < n. in_progress (Es (Suc k))" using Suc.prems(2) by auto
  then show ?case using Suc.IH [OF Suc.prems(1), of "\<lambda>k. Es (Suc k)"] wait_step [OF Suc.prems(1), of "Es 0"] by simp
qed simp

lemma steps_add:
  "copy_steps Es i s = Some (Inr t) \<Longrightarrow> copy_steps Es (i + j) s = copy_steps (\<lambda>k. Es (i + k)) j t"
proof (induction i arbitrary: Es s)
  case (Suc i)
  then obtain u where "copy_step (Es 0) s = Some (Inr u)" "copy_steps (\<lambda>k. Es (Suc k)) i u = Some (Inr t)"
    by (auto split: option.splits sum.splits)
  then show ?case using Suc.IH [of "\<lambda>k. Es (Suc k)" u] by simp
qed simp

lemma submit_waits:
  assumes "in_progress E" "aio_queue (cp_aio s) = []" "cp_exit s = None"
  shows "\<exists>a p A. copy_aio E f fd buf len offset ok s = Inr (0, s\<lparr>cp_aio := A\<rparr>) \<and>
    waiting a p \<lparr>cb_func = f, cb_fildes = fd, cb_buf = buf, cb_nbytes = len, cb_offset = offset, cb_sival_ptr = None\<rparr> ok (s\<lparr>cp_aio := A\<rparr>)"
proof -
  let ?A = "cp_aio s"
  let ?cb = "\<lparr>cb_func = f, cb_fildes = fd, cb_buf = buf, cb_nbytes = len, cb_offset = offset, cb_sival_ptr = None\<rparr>"
  obtain errno where e: "sys_submit (ce_aio E) f ?cb = (0, errno)" using assms(1) by (metis in_progress_def prod.collapse)
  show ?thesis
    using assms e
    by (intro exI [of _ "Suc (aio_next ?A)"] exI [of _ "aio_next ?A"] exI [of _ "?A\<lparr>aio_cbs := (aio_cbs ?A)(Suc (aio_next ?A) \<mapsto> ?cb),
      aio_callbacks := (aio_callbacks ?A)(aio_next ?A \<mapsto> IOCallback (Some ok) (Some ErrOccured)),
      aio_next := Suc (Suc (aio_next ?A)), aio_queue := [UnitTask_id (CheckTask (Suc (aio_next ?A)) (Some (aio_next ?A))) DEFAULT_ID]\<rparr>"])
      (cases f; simp add: copy_aio_def new_io_callback_def Let_def copy_deliver_def in_progress_def EINPROGRESS_def wrap_aio_read_def wrap_aio_write_def
        aioSkeletonFunction_def checkIOProgress_def enqueue_task_def waiting_def IOCallback_def)
qed

text \<open>The operation is found complete, or to have failed.\<close>

lemma done_step:
  assumes w: "waiting a p cb ok s" and e: "sys_error (ce_aio E) a = 0" and b: "cb_buf cb = Some b" "cp_bufs s b = Some d"
    and k: "unat (cb_nbytes cb) \<le> length d" "k = min (unat (cb_nbytes cb)) (unat (sys_return (ce_aio E) a))"
      "x = take (unat (cb_nbytes cb)) (ce_data E a)"
  shows "\<exists>A. copy_step E s = Some (Inr (case cb_func cb of
      AioRead \<Rightarrow> s\<lparr>cp_bufs := (cp_bufs s)(b \<mapsto> x @ drop (length x) d), cp_aio := A\<rparr>
    | AioWrite \<Rightarrow> s\<lparr>cp_dest := write_at (unat (cb_offset cb)) (take k d) (cp_dest s), cp_aio := A\<rparr>)) \<and>
    aio_queue A = [UnitTask_id (OkTask ok (cb_fildes cb) (Some b) (sys_return (ce_aio E) a)) DEFAULT_ID]"
  using w e b k
  by (cases "cb_func cb") (auto simp: waiting_def copy_step_def copy_deliver_def copy_block_def checkIOProgress_def EINPROGRESS_def notify_def
      enqueue_task_def IOCallback_def delete_io_callback_def delete_aiocb_def UnitTask_id_def Let_def)

lemma failed_step:
  assumes w: "waiting a p cb ok s" and e: "sys_error (ce_aio E) a \<noteq> 0" "sys_error (ce_aio E) a \<noteq> EINPROGRESS"
  shows "\<exists>A. copy_step E s = Some (Inr (s\<lparr>cp_aio := A\<rparr>)) \<and>
    aio_queue A = [UnitTask_id (ErrTask ErrOccured (cb_fildes cb) (sys_error (ce_aio E) a)) DEFAULT_ID]"
  using assms
  by (auto simp: waiting_def copy_step_def copy_deliver_def checkIOProgress_def notify_def
      enqueue_task_def IOCallback_def delete_io_callback_def delete_aiocb_def UnitTask_id_def Let_def)

section \<open>A copy\<close>

lemma main_waits:
  assumes "in_progress E" "0 < sint (ce_source E)" "0 < sint (ce_dest E)"
  shows "\<exists>s a p. copy_main E 3 old = Inr s \<and>
    waiting a p \<lparr>cb_func = AioRead, cb_fildes = ce_source E, cb_buf = Some 0, cb_nbytes = ce_size E, cb_offset = 0, cb_sival_ptr = None\<rparr>
      (CopyTo (ce_dest E)) s \<and>
    cp_bufs s = [0 \<mapsto> replicate (unat (ce_size E)) NUL] \<and> cp_fds s = {ce_source E, ce_dest E} \<and> cp_dest s = [] \<and> cp_out s = []"
proof -
  let ?s = "(copy_new old)\<lparr>cp_fds := {ce_dest E, ce_source E}, cp_dest := [], cp_bufs := [0 \<mapsto> replicate (unat (ce_size E)) NUL], cp_next := 1\<rparr>"
  have pre: "aio_queue (cp_aio ?s) = []" "cp_exit ?s = None" by (simp_all add: copy_new_def aio_new_def)
  obtain a p A where A: "copy_aio E AioRead (ce_source E) (Some 0) (ce_size E) 0 (CopyTo (ce_dest E)) ?s = Inr (0, ?s\<lparr>cp_aio := A\<rparr>)"
    "waiting a p \<lparr>cb_func = AioRead, cb_fildes = ce_source E, cb_buf = Some 0, cb_nbytes = ce_size E, cb_offset = 0, cb_sival_ptr = None\<rparr>
      (CopyTo (ce_dest E)) (?s\<lparr>cp_aio := A\<rparr>)"
    using submit_waits [OF assms(1) pre] by blast
  show ?thesis
    by (rule exI [of _ "?s\<lparr>cp_aio := A\<rparr>"], rule exI [of _ a], rule exI [of _ p])
      (use A assms(2,3) in \<open>auto simp: copy_main_def copy_new_def Let_def\<close>)
qed

lemma copyDone_result:
  assumes b: "cp_bufs s b = Some buf" and m: "unat len = m" "0 \<le> sint len" "m \<le> length buf"
  shows "copyDone fd (Some b) len s =
    (if NUL \<in> set (take m buf)
     then Inr (exits 0 (closes fd (s\<lparr>cp_out := cp_out s @ [''Successfully written: '' @ takeWhile (\<lambda>c. c \<noteq> NUL) (take m buf)],
       cp_bufs := (cp_bufs s)(b := None)\<rparr>)))
     else Inl OutOfRange)"
proof -
  define bs where "bs = take m buf"
  define x where "x = takeWhile (\<lambda>c. c \<noteq> NUL) bs"
  have x: "length x \<le> m" "NUL \<notin> set x" using m(3) length_takeWhile_le [of "\<lambda>c. c \<noteq> NUL" bs] by (auto simp: x_def bs_def dest: set_takeWhileD)
  have data: "strncpy (replicate m NUL) x m = x @ replicate (m - length x) NUL" using x(1) by (simp add: strncpy_def)
  have "length bs = m" using m(3) by (simp add: bs_def)
  then have "NUL \<in> set bs \<longleftrightarrow> length x < m"
    unfolding x_def by (metis (mono_tags, lifting) length_takeWhile_le nat_less_le takeWhile_eq_all_conv takeWhile_eq_take take_all_iff order_refl)
  moreover have "takeWhile (\<lambda>c. c \<noteq> NUL) (x @ replicate k NUL) = x" for k using x(2) by (cases k) (auto simp: takeWhile_append)
  ultimately have "c_str (strncpy (replicate m NUL) x m) 0 = (if NUL \<in> set bs then Inr x else Inl OutOfRange)"
    unfolding data using x(2) by (auto simp: c_str_def)
  then show ?thesis
    using b m by (simp add: copyDone_def copy_block_def copy_str_def Let_def flip: bs_def x_def)
qed

lemma sint_of_length:
  assumes "n < 2 ^ 63"
  shows "0 \<le> sint (of_nat n :: 64 word)"
proof -
  have "uint (of_nat n :: 64 word) = int n" using assms by (simp add: unsigned_of_nat take_bit_nat_eq_self)
  then show ?thesis using assms by (simp add: sint_uint signed_take_bit_int_eq_self)
qed

text \<open>
  A kernel that accepts both operations, finishes the read in step \<open>r\<close> and the write in step \<open>w\<close>:
  \<open>n\<close> bytes of the source are read, \<open>m\<close> of them written.
\<close>

definition transfers :: "(nat \<Rightarrow> copy_sys) \<Rightarrow> nat \<Rightarrow> nat \<Rightarrow> string \<Rightarrow> nat \<Rightarrow> nat \<Rightarrow> bool" where
  "transfers Es r w src n m \<longleftrightarrow> r + 1 < w \<and> (\<forall>k < w. k \<noteq> r \<longrightarrow> in_progress (Es k)) \<and>
     (\<forall>a. sys_error (ce_aio (Es r)) a = 0 \<and> sys_return (ce_aio (Es r)) a = of_nat n \<and> ce_data (Es r) a = take n src) \<and>
     (\<forall>a. sys_error (ce_aio (Es w)) a = 0 \<and> sys_return (ce_aio (Es w)) a = of_nat m) \<and>
     n \<le> length src \<and> m \<le> n \<and> n < 2 ^ 63"

text \<open>
  C40: The copy of a file, for every schedule of the kernel: \<open>main\<close> asks for as many bytes as the file
  has, \<open>copyTo\<close> for exactly the \<open>n\<close> bytes that were read; when the write is complete the destination
  is exactly the \<open>m\<close> bytes that were written, whatever it held before, and the source is closed;
  nothing tells a short copy from a whole one. The message that follows is printed only if a NUL
  is among these bytes: the buffer that is printed ends with the data, so for a text file the
  program reads past it.
\<close>

theorem copy_copies:
  assumes E: "in_progress E" "0 < sint (ce_source E)" "0 < sint (ce_dest E)" "ce_source E \<noteq> ce_dest E"
    and T: "transfers Es r w src n m" and sz: "n \<le> unat (ce_size E)"
  shows "\<exists>s u t a b p q. copy_main E 3 old = Inr s \<and> copy_steps Es (r + 2) s = Some (Inr u) \<and> copy_steps Es (Suc w) s = Some (Inr t) \<and>
    waiting a p \<lparr>cb_func = AioRead, cb_fildes = ce_source E, cb_buf = Some 0, cb_nbytes = ce_size E, cb_offset = 0, cb_sival_ptr = None\<rparr>
      (CopyTo (ce_dest E)) s \<and>
    waiting b q \<lparr>cb_func = AioWrite, cb_fildes = ce_dest E, cb_buf = Some 0, cb_nbytes = of_nat n, cb_offset = 0, cb_sival_ptr = None\<rparr>
      CopyDone u \<and>
    cp_dest t = take m src \<and> cp_fds t = {ce_dest E} \<and> cp_exit t = None \<and>
    (\<forall>F. copy_step F t = Some
      (if NUL \<in> set (take m src)
       then Inr (t\<lparr>cp_aio := (cp_aio t)\<lparr>aio_queue := []\<rparr>, cp_out := [''Successfully written: '' @ takeWhile (\<lambda>c. c \<noteq> NUL) (take m src)],
         cp_bufs := Map.empty, cp_fds := {}, cp_exit := Some 0\<rparr>)
       else Inl OutOfRange))"
proof -
  have K: "r + 1 < w" "\<And>k. k < w \<Longrightarrow> k \<noteq> r \<Longrightarrow> in_progress (Es k)" "n \<le> length src" "m \<le> n" "n < 2 ^ 63"
    "\<And>a. sys_error (ce_aio (Es r)) a = 0" "\<And>a. sys_return (ce_aio (Es r)) a = of_nat n" "\<And>a. ce_data (Es r) a = take n src"
    "\<And>a. sys_error (ce_aio (Es w)) a = 0" "\<And>a. sys_return (ce_aio (Es w)) a = of_nat m"
    using T by (auto simp: transfers_def)
  have u: "unat (of_nat n :: 64 word) = n" "unat (of_nat m :: 64 word) = m" using K(4,5) by (simp_all add: unat_of_nat)
  have pos: "0 \<le> sint (of_nat n :: 64 word)" "0 \<le> sint (of_nat m :: 64 word)"
    using K(4,5) by (simp_all add: sint_of_length)
  obtain s a p where s: "copy_main E 3 old = Inr s"
    "waiting a p \<lparr>cb_func = AioRead, cb_fildes = ce_source E, cb_buf = Some 0, cb_nbytes = ce_size E, cb_offset = 0, cb_sival_ptr = None\<rparr>
      (CopyTo (ce_dest E)) s"
    "cp_bufs s = [0 \<mapsto> replicate (unat (ce_size E)) NUL]" "cp_fds s = {ce_source E, ce_dest E}" "cp_dest s = []" "cp_out s = []"
    using main_waits [OF E(1-3), of old] by blast
  define R where "R = replicate (unat (ce_size E)) NUL"
  define x where "x = take n src"
  have len: "length R = unat (ce_size E)" "length x = n" using K(3) by (simp_all add: R_def x_def)
  let ?buf = "x @ drop (length x) R"
  have buf: "take m ?buf = take m src" "m \<le> length ?buf" "n \<le> length ?buf" using K(3,4) sz len by (simp_all add: x_def min_def)
  have d: "cp_bufs s 0 = Some R" "cp_bufs s = [0 \<mapsto> R]" using s(3) by (simp_all add: R_def)
  have w1: "copy_steps Es r s = Some (Inr s)" by (rule wait_steps [OF s(2)]) (use K(1,2) in auto)
  obtain A where A: "copy_step (Es r) s = Some (Inr (s\<lparr>cp_bufs := [0 \<mapsto> ?buf], cp_aio := A\<rparr>))"
    "aio_queue A = [UnitTask_id (OkTask (CopyTo (ce_dest E)) (ce_source E) (Some 0) (of_nat n)) DEFAULT_ID]"
    using done_step [OF s(2) K(6) _ d(1) _ refl, of x] d(2) K(7,8) sz len by (auto simp: x_def)
  let ?s1 = "s\<lparr>cp_bufs := [0 \<mapsto> ?buf], cp_aio := A\<lparr>aio_queue := []\<rparr>\<rparr>"
  have ex: "cp_exit s = None" using s(2) by (simp add: waiting_def)
  obtain b q B where B: "copy_aio (Es (Suc r)) AioWrite (ce_dest E) (Some 0) (of_nat n) 0 CopyDone ?s1 = Inr (0, ?s1\<lparr>cp_aio := B\<rparr>)"
    "waiting b q \<lparr>cb_func = AioWrite, cb_fildes = ce_dest E, cb_buf = Some 0, cb_nbytes = of_nat n, cb_offset = 0, cb_sival_ptr = None\<rparr>
      CopyDone (?s1\<lparr>cp_aio := B\<rparr>)"
    using submit_waits [of "Es (Suc r)" ?s1] K(1,2) ex by fastforce
  let ?s2 = "closes (ce_source E) (?s1\<lparr>cp_aio := B\<rparr>)"
  have st: "copy_step (Es (Suc r)) (s\<lparr>cp_bufs := [0 \<mapsto> ?buf], cp_aio := A\<rparr>) = Some (Inr ?s2)"
    using A(2) B(1) pos(1) ex by (simp add: copy_step_def copyTo_def UnitTask_id_def Let_def)
  have W: "waiting b q \<lparr>cb_func = AioWrite, cb_fildes = ce_dest E, cb_buf = Some 0, cb_nbytes = of_nat n, cb_offset = 0, cb_sival_ptr = None\<rparr>
      CopyDone ?s2" using B(2) by (simp add: waiting_def closes_def)
  obtain j where j: "w = r + 2 + j" using K(1) by (metis add.assoc less_iff_Suc_add nat_1_add_1 add_Suc_right plus_1_eq_Suc add.commute)
  have w2: "copy_steps (\<lambda>k. Es (r + 2 + k)) j ?s2 = Some (Inr ?s2)" by (rule wait_steps [OF W]) (use K(2) j in auto)
  let ?wcb = "\<lparr>cb_func = AioWrite, cb_fildes = ce_dest E, cb_buf = Some 0, cb_nbytes = of_nat n, cb_offset = 0, cb_sival_ptr = None\<rparr>"
  have mk: "unat (cb_nbytes ?wcb) \<le> length ?buf" "m = min (unat (cb_nbytes ?wcb)) (unat (sys_return (ce_aio (Es w)) b))" "cb_buf ?wcb = Some 0"
    using u K(4,10) buf(3) by simp_all
  have bb: "cp_bufs ?s2 0 = Some ?buf" by (simp add: closes_def)
  obtain C where C: "copy_step (Es w) ?s2 = Some (Inr (?s2\<lparr>cp_dest := write_at 0 (take m ?buf) (cp_dest ?s2), cp_aio := C\<rparr>))"
    "aio_queue C = [UnitTask_id (OkTask CopyDone (ce_dest E) (Some 0) (of_nat m)) DEFAULT_ID]"
    using done_step [OF W K(9) mk(3) bb mk(1,2) refl] K(10) by auto
  let ?t = "?s2\<lparr>cp_dest := take m src, cp_aio := C\<rparr>"
  have dest: "write_at 0 (take m ?buf) (cp_dest ?s2) = take m src" using s(5) buf(1) by (simp add: write_at_def closes_def)
  have one: "copy_steps Fs (Suc 0) v = copy_step (Fs 0) v" if "copy_step (Fs 0) v = Some (Inr v')" for Fs v v' using that by simp
  have mid: "copy_steps Es (r + 2) s = Some (Inr ?s2)"
    using steps_add [OF w1, of 2] A(1) st by (simp add: numeral_2_eq_2)
  have "copy_steps Es (r + 2 + j) s = Some (Inr ?s2)" using steps_add [OF mid, of j] w2 by simp
  then have run: "copy_steps Es (Suc w) s = Some (Inr ?t)"
    using steps_add [of Es w s ?s2 1] C(1) j dest by simp
  have last: "copy_step F ?t = Some (copyDone (ce_dest E) (Some 0) (of_nat m) (?t\<lparr>cp_aio := C\<lparr>aio_queue := []\<rparr>\<rparr>))" for F
    using C(2) ex by (simp add: copy_step_def UnitTask_id_def Let_def closes_def)
  let ?T = "?t\<lparr>cp_aio := C\<lparr>aio_queue := []\<rparr>\<rparr>"
  have b: "cp_bufs ?T 0 = Some ?buf" by (simp add: closes_def)
  have fds: "cp_fds ?t = {ce_dest E}" using s(4) E(4) by (auto simp: closes_def)
  have final: "copy_step F ?t = Some
      (if NUL \<in> set (take m src)
       then Inr (?t\<lparr>cp_aio := (cp_aio ?t)\<lparr>aio_queue := []\<rparr>, cp_out := [''Successfully written: '' @ takeWhile (\<lambda>c. c \<noteq> NUL) (take m src)],
         cp_bufs := Map.empty, cp_fds := {}, cp_exit := Some 0\<rparr>)
       else Inl OutOfRange)" for F
    unfolding last copyDone_result [OF b u(2) pos(2) buf(2), unfolded buf(1)]
    using s(4,6) E(4) by (auto simp: exits_def closes_def)
  show ?thesis
    by (rule exI [of _ s], rule exI [of _ ?s2], rule exI [of _ ?t], rule exI [of _ a], rule exI [of _ b], rule exI [of _ p], rule exI [of _ q])
      (use s(1,2) mid run W fds final ex in \<open>simp add: closes_def\<close>)
qed

definition copy_idle :: copy_sys where
  "copy_idle = \<lparr>ce_aio = \<lparr>sys_submit = (\<lambda>_ _. (0, 0)), sys_error = (\<lambda>_. EINPROGRESS), sys_return = (\<lambda>_. 0)\<rparr>,
     ce_data = (\<lambda>_. []), ce_source = 3, ce_dest = 4, ce_size = 4\<rparr>"

definition copy_ready :: "size_t \<Rightarrow> string \<Rightarrow> copy_sys" where
  "copy_ready n d = copy_idle\<lparr>ce_aio := \<lparr>sys_submit = (\<lambda>_ _. (0, 0)), sys_error = (\<lambda>_. 0), sys_return = (\<lambda>_. n)\<rparr>, ce_data := (\<lambda>_. d)\<rparr>"

lemma copy_idle: "in_progress copy_idle" "0 < sint (ce_source copy_idle)" "0 < sint (ce_dest copy_idle)" "ce_source copy_idle \<noteq> ce_dest copy_idle"
  by (simp_all add: in_progress_def copy_idle_def)

text \<open>Four bytes are read in step 1 and three of them written in step 4: the program reads past its buffer.\<close>

theorem copy_copies_witness: "\<exists>s t. copy_main copy_idle 3 ''old'' = Inr s \<and>
    copy_steps (\<lambda>k. if k = 1 then copy_ready 4 ''text'' else if k = 4 then copy_ready 3 [] else copy_idle) 5 s = Some (Inr t) \<and>
    cp_dest t = ''tex'' \<and> copy_step copy_idle t = Some (Inl OutOfRange)"
proof -
  let ?Es = "\<lambda>k :: nat. if k = 1 then copy_ready 4 ''text'' else if k = 4 then copy_ready 3 [] else copy_idle"
  have "transfers ?Es 1 4 ''text'' 4 3" using copy_idle(1) by (simp add: transfers_def copy_ready_def)
  from copy_copies [OF copy_idle this, of "''old''"] show ?thesis by (auto simp: copy_idle_def NUL_def)
qed

text \<open>
  When the read fails the program ends with the code of a success; it has printed nothing but the
  error, and what the destination held is gone.
\<close>

theorem failed_copy_loses_destination:
  assumes E: "in_progress E" "0 < sint (ce_source E)" "0 < sint (ce_dest E)" "ce_source E \<noteq> ce_dest E"
    and K: "\<forall>k < r. in_progress (Es k)" "\<forall>a. sys_error (ce_aio (Es r)) a \<notin> {0, EINPROGRESS}"
  shows "\<exists>s t. copy_main E 3 old = Inr s \<and> copy_steps Es (r + 2) s = Some (Inr t) \<and> cp_dest t = [] \<and> cp_out t = [] \<and>
    cp_exit t = Some 0 \<and> cp_fds t = {ce_dest E}"
proof -
  obtain s a p where s: "copy_main E 3 old = Inr s"
    "waiting a p \<lparr>cb_func = AioRead, cb_fildes = ce_source E, cb_buf = Some 0, cb_nbytes = ce_size E, cb_offset = 0, cb_sival_ptr = None\<rparr>
      (CopyTo (ce_dest E)) s" "cp_fds s = {ce_source E, ce_dest E}" "cp_dest s = []" "cp_out s = []"
    using main_waits [OF E(1-3), of old] by blast
  have e: "sys_error (ce_aio (Es r)) a \<noteq> 0" "sys_error (ce_aio (Es r)) a \<noteq> EINPROGRESS" using K(2) by auto
  obtain A where A: "copy_step (Es r) s = Some (Inr (s\<lparr>cp_aio := A\<rparr>))"
    "aio_queue A = [UnitTask_id (ErrTask ErrOccured (ce_source E) (sys_error (ce_aio (Es r)) a)) DEFAULT_ID]"
    using failed_step [OF s(2) e] by auto
  let ?t = "exits 0 (closes (ce_source E) (s\<lparr>cp_aio := A\<lparr>aio_queue := []\<rparr>\<rparr>))"
  have "copy_step (Es (Suc r)) (s\<lparr>cp_aio := A\<rparr>) = Some (Inr ?t)"
    using A(2) s(2) by (simp add: copy_step_def waiting_def UnitTask_id_def errOccured_def Let_def)
  then have "copy_steps Es (r + 2) s = Some (Inr ?t)"
    using steps_add [OF wait_steps [OF s(2) K(1)], of 2] A(1) by (simp add: numeral_2_eq_2)
  then show ?thesis using s E(4) by (intro exI [of _ s] exI [of _ ?t]) (auto simp: exits_def closes_def)
qed

end
