(* ===== verification/DelayedTask.thy ===== *)
theory DelayedTask
  imports Prelude
begin

text \<open>
  \<open>DelayedTask\<close> of \<open>lib/delayed_task.cc\<close>: one object with its POSIX timer, the thread of the client
  that owns it, and the threads that the timer starts when it expires (\<open>SIGEV_THREAD\<close>), which
  interleave at every lock, unlock, call and access of the members. A run is a list of events, one
  for every step; an event that cannot happen is \<open>None\<close>.

  The operating system is modelled as POSIX documents it: a zero \<open>it_value\<close> disarms the timer, a
  malformed one and a deleted timer are refused, and deleting a timer does not take back a
  notification that is under way. \<open>ndebug\<close> says whether the library is compiled with \<open>NDEBUG\<close>, which
  removes every \<open>assert\<close> together with the call it is written around.
\<close>

section \<open>Time and the timer\<close>

record timespec =
  tv_sec :: "64 word"
  tv_nsec :: "64 word"

definition valid_time :: "timespec \<Rightarrow> bool" where
  "valid_time d \<longleftrightarrow> 0 \<le> sint (tv_sec d) \<and> 0 \<le> sint (tv_nsec d) \<and> sint (tv_nsec d) < 1000000000"

definition nanos :: "timespec \<Rightarrow> nat" where
  "nanos d = nat (sint (tv_sec d)) * 1000000000 + nat (sint (tv_nsec d))"

text \<open>\<open>Armed a d\<close>: armed at time \<open>a\<close> to expire once, \<open>d\<close> later. \<open>Unset\<close> is a \<open>timer_t\<close> that was never assigned.\<close>

datatype timer = Unset | Disarmed | Armed nat timespec | Deleted

text \<open>\<open>timer_settime\<close> with a zero interval; \<open>None\<close> is an error.\<close>

definition timer_settime :: "nat \<Rightarrow> timespec \<Rightarrow> timer \<Rightarrow> timer option" where
  "timer_settime now d t =
     (if t = Deleted \<or> \<not> valid_time d then None else Some (if nanos d = 0 then Disarmed else Armed now d))"

section \<open>State\<close>

datatype handler_pc = H_None | H_Lock | H_Test | H_Enqueue | H_TimerDelete | H_Set | H_Unlock | H_Done
datatype client_pc = C_Idle | C_Lock | C_Test | C_TimerDelete | C_DeleteTask | C_Set | C_Unlock | C_Free | C_Gone
datatype dt_thread = Client | Handler nat

text \<open>
  \<open>dt_live\<close> is whether the object's memory is still there. The fields after \<open>dt_now\<close> are the history:
  the times at which the task was handed to the dispatcher, its deletions, and the settings of the
  timer that ran out.
\<close>

record dt =
  dt_live :: bool
  dt_id :: timer
  dt_task :: addr
  dt_hasCompleted :: bool
  dt_owner :: "dt_thread option"
  dt_client :: client_pc
  dt_handlers :: "nat \<Rightarrow> handler_pc"
  dt_now :: nat
  dt_enqueued :: "(nat \<times> addr) list"
  dt_deleted :: "addr list"
  dt_fired :: "(nat \<times> timespec) list"

text \<open>The constructor; \<open>created\<close> is whether \<open>timer_create\<close> succeeds.\<close>

definition DelayedTask :: "bool \<Rightarrow> bool \<Rightarrow> addr \<Rightarrow> timespec \<Rightarrow> nat \<Rightarrow> fault + dt" where
  "DelayedTask ndebug created newTask delay now =
     (let s = \<lparr>dt_live = True, dt_id = Unset, dt_task = newTask, dt_hasCompleted = False, dt_owner = None,
               dt_client = C_Idle, dt_handlers = (\<lambda>_. H_None), dt_now = now, dt_enqueued = [], dt_deleted = [],
               dt_fired = []\<rparr>
      in if ndebug then Inr s
         else and_then (c_assert created) (\<lambda>_.
              case timer_settime now delay Disarmed of
                None \<Rightarrow> Inl AssertFailed
              | Some t \<Rightarrow> Inr (s\<lparr>dt_id := t\<rparr>)))"

section \<open>Operations\<close>

definition resetTimer :: "bool \<Rightarrow> timespec \<Rightarrow> dt \<Rightarrow> fault + dt" where
  "resetTimer ndebug newDelay s =
     (if ndebug then Inr s
      else case timer_settime (dt_now s) newDelay (dt_id s) of
             None \<Rightarrow> Inl AssertFailed
           | Some t \<Rightarrow> Inr (s\<lparr>dt_id := t\<rparr>))"

definition timer_delete :: "dt \<Rightarrow> fault + dt" where
  "timer_delete s = (if dt_id s = Unset then Inl Indeterminate else Inr (s\<lparr>dt_id := Deleted\<rparr>))"

definition dt_goto :: "nat \<Rightarrow> handler_pc \<Rightarrow> dt \<Rightarrow> dt" where
  "dt_goto h pc s = s\<lparr>dt_handlers := (dt_handlers s)(h := pc)\<rparr>"

text \<open>The handler, which runs on a thread of its own; every step of it uses the object.\<close>

definition timeoutHandler :: "nat \<Rightarrow> dt \<Rightarrow> (fault + dt) option" where
  "timeoutHandler h s =
     (if dt_handlers s h = H_None \<or> dt_handlers s h = H_Done then None
      else if \<not> dt_live s then Some (Inl UseAfterFree)
      else case dt_handlers s h of
        H_Lock \<Rightarrow> (if dt_owner s = None then Some (Inr (dt_goto h H_Test (s\<lparr>dt_owner := Some (Handler h)\<rparr>))) else None)
      | H_Test \<Rightarrow> Some (Inr (dt_goto h (if \<not> dt_hasCompleted s then H_Enqueue else H_Unlock) s))
      | H_Enqueue \<Rightarrow>
          Some (Inr (dt_goto h H_TimerDelete (s\<lparr>dt_enqueued := dt_enqueued s @ [(dt_now s, dt_task s)]\<rparr>)))
      | H_TimerDelete \<Rightarrow> Some (and_then (timer_delete s) (\<lambda>s. Inr (dt_goto h H_Set s)))
      | H_Set \<Rightarrow> Some (Inr (dt_goto h H_Unlock (s\<lparr>dt_hasCompleted := True\<rparr>)))
      | H_Unlock \<Rightarrow> Some (Inr (dt_goto h H_Done (s\<lparr>dt_owner := None\<rparr>)))
      | _ \<Rightarrow> None)"

text \<open>The destructor: its body, then the memory is gone.\<close>

definition dt_dtor :: "dt \<Rightarrow> (fault + dt) option" where
  "dt_dtor s =
     (case dt_client s of
        C_Lock \<Rightarrow> (if dt_owner s = None then Some (Inr (s\<lparr>dt_owner := Some Client, dt_client := C_Test\<rparr>)) else None)
      | C_Test \<Rightarrow> Some (Inr (s\<lparr>dt_client := (if \<not> dt_hasCompleted s then C_TimerDelete else C_Unlock)\<rparr>))
      | C_TimerDelete \<Rightarrow> Some (and_then (timer_delete s) (\<lambda>s. Inr (s\<lparr>dt_client := C_DeleteTask\<rparr>)))
      | C_DeleteTask \<Rightarrow> Some (Inr (s\<lparr>dt_deleted := dt_deleted s @ [dt_task s], dt_client := C_Set\<rparr>))
      | C_Set \<Rightarrow> Some (Inr (s\<lparr>dt_hasCompleted := True, dt_client := C_Unlock\<rparr>))
      | C_Unlock \<Rightarrow> Some (Inr (s\<lparr>dt_owner := None, dt_client := C_Free\<rparr>))
      | C_Free \<Rightarrow> Some (Inr (s\<lparr>dt_live := False, dt_client := C_Gone\<rparr>))
      | _ \<Rightarrow> None)"

section \<open>Runs\<close>

datatype dt_event = Tick | Expire nat | Handle nat | Reset timespec | Destroy | Dtor

definition dt_step :: "bool \<Rightarrow> dt_event \<Rightarrow> dt \<Rightarrow> (fault + dt) option" where
  "dt_step ndebug e s =
     (case e of
        Tick \<Rightarrow> Some (Inr (s\<lparr>dt_now := Suc (dt_now s)\<rparr>))
      | Expire h \<Rightarrow>
          (case dt_id s of
             Armed a d \<Rightarrow>
               if a + nanos d \<le> dt_now s \<and> dt_handlers s h = H_None
               then Some (Inr (dt_goto h H_Lock (s\<lparr>dt_id := Disarmed, dt_fired := dt_fired s @ [(a, d)]\<rparr>)))
               else None
           | _ \<Rightarrow> None)
      | Handle h \<Rightarrow> timeoutHandler h s
      | Reset d \<Rightarrow> if dt_client s = C_Idle then Some (resetTimer ndebug d s) else None
      | Destroy \<Rightarrow> if dt_client s = C_Idle then Some (Inr (s\<lparr>dt_client := C_Lock\<rparr>)) else None
      | Dtor \<Rightarrow> dt_dtor s)"

fun dt_run :: "bool \<Rightarrow> dt_event list \<Rightarrow> dt \<Rightarrow> (fault + dt) option" where
  "dt_run ndebug [] s = Some (Inr s)"
| "dt_run ndebug (e # es) s =
     (case dt_step ndebug e s of Some (Inr s') \<Rightarrow> dt_run ndebug es s' | r \<Rightarrow> r)"

lemma dt_run_append:
  "dt_run nd (es @ fs) s = (case dt_run nd es s of Some (Inr s') \<Rightarrow> dt_run nd fs s' | r \<Rightarrow> r)"
  by (induction nd es s rule: dt_run.induct) (auto split: option.splits sum.splits)

lemma dt_run_invariant:
  assumes "\<And>e s s'. e \<in> set es \<Longrightarrow> J s \<Longrightarrow> dt_step nd e s = Some (Inr s') \<Longrightarrow> J s'"
  shows "dt_run nd es s = Some (Inr s') \<Longrightarrow> J s \<Longrightarrow> J s'"
  using assms
proof (induction es arbitrary: s)
  case (Cons e es)
  obtain t where t: "dt_step nd e s = Some (Inr t)" "dt_run nd es t = Some (Inr s')"
    using Cons.prems(1) by (auto split: option.splits sum.splits)
  have "J t" by (rule Cons.prems(3) [OF _ Cons.prems(2) t(1)]) simp
  then show ?case by (rule Cons.IH [OF t(2)]) (meson Cons.prems(3) list.set_intros(2))
qed simp

section \<open>The invariant\<close>

definition h_holds :: "handler_pc \<Rightarrow> bool" where
  "h_holds pc \<longleftrightarrow> pc \<in> {H_Test, H_Enqueue, H_TimerDelete, H_Set, H_Unlock}"

definition c_holds :: "client_pc \<Rightarrow> bool" where
  "c_holds pc \<longleftrightarrow> pc \<in> {C_Test, C_TimerDelete, C_DeleteTask, C_Set, C_Unlock}"

definition dt_locked :: "dt \<Rightarrow> bool" where
  "dt_locked s \<longleftrightarrow> (\<forall>h. dt_owner s = Some (Handler h) \<longleftrightarrow> h_holds (dt_handlers s h)) \<and>
     (dt_owner s = Some Client \<longleftrightarrow> c_holds (dt_client s))"

text \<open>The task has left the object, although \<open>hasCompleted_\<close> may not say so yet.\<close>

definition dt_spent :: "dt \<Rightarrow> bool" where
  "dt_spent s \<longleftrightarrow> dt_hasCompleted s \<or> dt_client s = C_Set \<or> (\<exists>h. dt_handlers s h \<in> {H_TimerDelete, H_Set})"

definition dt_at_work :: "dt \<Rightarrow> bool" where
  "dt_at_work s \<longleftrightarrow> dt_client s \<in> {C_TimerDelete, C_DeleteTask, C_Set} \<or>
     (\<exists>h. dt_handlers s h \<in> {H_Enqueue, H_TimerDelete, H_Set})"

definition dt_over :: "dt \<Rightarrow> bool" where
  "dt_over s \<longleftrightarrow> dt_client s \<in> {C_Unlock, C_Free, C_Gone} \<or> (\<exists>h. dt_handlers s h \<in> {H_Unlock, H_Done})"

definition dt_inv :: "dt \<Rightarrow> bool" where
  "dt_inv s \<longleftrightarrow> dt_locked s \<and> (dt_at_work s \<longrightarrow> \<not> dt_hasCompleted s) \<and> (dt_over s \<longrightarrow> dt_hasCompleted s) \<and>
     map snd (dt_enqueued s) @ dt_deleted s = (if dt_spent s then [dt_task s] else [])"

lemma dt_locked_handler: "dt_locked s \<Longrightarrow> h_holds (dt_handlers s h) \<Longrightarrow> h_holds (dt_handlers s h') \<Longrightarrow> h' = h"
  unfolding dt_locked_def by (metis dt_thread.inject option.inject)

lemma dt_locked_client: "dt_locked s \<Longrightarrow> h_holds (dt_handlers s h) \<Longrightarrow> \<not> c_holds (dt_client s)"
  unfolding dt_locked_def by (metis dt_thread.distinct(1) option.inject)

lemma dt_locked_frame:
  "dt_locked (s\<lparr>dt_id := t, dt_now := n, dt_fired := f\<rparr>) = dt_locked s"
  by (simp add: dt_locked_def)

lemma dt_inv_handler:
  assumes "dt_inv s" and h: "h_holds (dt_handlers s h)" and l: "dt_locked s'"
    and s': "dt_handlers s' = (dt_handlers s)(h := pc)" "dt_client s' = dt_client s" "dt_task s' = dt_task s"
    and w: "pc \<in> {H_Enqueue, H_TimerDelete, H_Set} \<Longrightarrow> \<not> dt_hasCompleted s'"
    and o: "pc \<in> {H_Unlock, H_Done} \<Longrightarrow> dt_hasCompleted s'" "dt_hasCompleted s \<Longrightarrow> dt_hasCompleted s'"
    and f: "map snd (dt_enqueued s) @ dt_deleted s = (if dt_hasCompleted s \<or> dt_handlers s h \<in> {H_TimerDelete, H_Set} then [dt_task s] else []) \<Longrightarrow>
      map snd (dt_enqueued s') @ dt_deleted s' = (if dt_hasCompleted s' \<or> pc \<in> {H_TimerDelete, H_Set} then [dt_task s] else [])"
  shows "dt_inv s'"
proof -
  have L: "dt_locked s" using assms(1) by (simp add: dt_inv_def)
  have only: "dt_handlers s x \<notin> {H_Enqueue, H_TimerDelete, H_Set}" if "x \<noteq> h" for x
    using dt_locked_handler [OF L h, of x] that by (auto simp: h_holds_def)
  have c: "dt_client s \<notin> {C_TimerDelete, C_DeleteTask, C_Set}"
    using dt_locked_client [OF L h] by (auto simp: c_holds_def)
  have some: "(\<exists>x. dt_handlers s x \<in> A) \<longleftrightarrow> dt_handlers s h \<in> A" "(\<exists>x. dt_handlers s' x \<in> A) \<longleftrightarrow> pc \<in> A"
    if "A \<subseteq> {H_Enqueue, H_TimerDelete, H_Set}" for A
    using only that by (metis subsetD, unfold s'(1)) (metis fun_upd_apply subsetD)
  have spent: "dt_spent s \<longleftrightarrow> dt_hasCompleted s \<or> dt_handlers s h \<in> {H_TimerDelete, H_Set}"
    "dt_spent s' \<longleftrightarrow> dt_hasCompleted s' \<or> pc \<in> {H_TimerDelete, H_Set}"
    "dt_at_work s' \<longleftrightarrow> pc \<in> {H_Enqueue, H_TimerDelete, H_Set}"
    using c s'(2) some unfolding dt_spent_def dt_at_work_def by auto
  have "dt_over s' \<Longrightarrow> dt_hasCompleted s'"
    using assms(1) o s' by (auto simp: dt_inv_def dt_over_def split: if_splits)
  moreover have "map snd (dt_enqueued s') @ dt_deleted s' = (if dt_spent s' then [dt_task s'] else [])"
    unfolding spent(2) s'(3) by (rule f) (use assms(1) spent(1) in \<open>simp add: dt_inv_def\<close>)
  ultimately show ?thesis unfolding dt_inv_def using l w spent(3) by blast
qed

lemma dt_inv_same:
  assumes "dt_inv s" and "dt_locked s'" "dt_spent s' = dt_spent s" "dt_at_work s' \<Longrightarrow> dt_at_work s" "dt_over s' \<Longrightarrow> dt_over s"
    and "dt_hasCompleted s' = dt_hasCompleted s" "dt_enqueued s' = dt_enqueued s" "dt_deleted s' = dt_deleted s" "dt_task s' = dt_task s"
  shows "dt_inv s'"
  using assms unfolding dt_inv_def by simp

lemma ex_update:
  assumes "f h \<notin> A" "pc \<notin> A"
  shows "(\<exists>x. (f(h := pc)) x \<in> A) \<longleftrightarrow> (\<exists>x. f x \<in> A)"
  using assms by (metis fun_upd_apply)

text \<open>A handler that neither works nor has worked on the task.\<close>

lemma dt_inv_idle:
  assumes "dt_inv s" and "dt_locked s'" and h: "dt_handlers s' = (dt_handlers s)(h := pc)"
    and pc: "{dt_handlers s h, pc} \<subseteq> {H_None, H_Lock, H_Test} \<or> {dt_handlers s h, pc} \<subseteq> {H_Unlock, H_Done}"
    and s': "dt_client s' = dt_client s" "dt_hasCompleted s' = dt_hasCompleted s" "dt_enqueued s' = dt_enqueued s"
      "dt_deleted s' = dt_deleted s" "dt_task s' = dt_task s"
  shows "dt_inv s'"
proof (rule dt_inv_same [OF assms(1,2) _ _ _ s'(2-5)])
  have w: "(\<exists>x. dt_handlers s' x \<in> A) \<longleftrightarrow> (\<exists>x. dt_handlers s x \<in> A)" if "A \<subseteq> {H_Enqueue, H_TimerDelete, H_Set}" for A
    unfolding h by (rule ex_update) (use pc that in auto)
  show "dt_spent s' = dt_spent s" using w [of "{H_TimerDelete, H_Set}"] by (simp add: dt_spent_def s')
  show "dt_at_work s' \<Longrightarrow> dt_at_work s" using w [of "{H_Enqueue, H_TimerDelete, H_Set}"] by (simp add: dt_at_work_def s')
  show "dt_over s' \<Longrightarrow> dt_over s" using pc by (auto simp: dt_over_def s' h split: if_splits)
qed

lemma dt_inv_client:
  assumes "dt_inv s" and c: "c_holds (dt_client s)" and l: "dt_locked s'"
    and s': "dt_handlers s' = dt_handlers s" "dt_task s' = dt_task s"
    and w: "dt_client s' \<in> {C_TimerDelete, C_DeleteTask, C_Set} \<Longrightarrow> \<not> dt_hasCompleted s'"
    and o: "dt_client s' \<in> {C_Unlock, C_Free, C_Gone} \<Longrightarrow> dt_hasCompleted s'" "dt_hasCompleted s \<Longrightarrow> dt_hasCompleted s'"
    and f: "map snd (dt_enqueued s) @ dt_deleted s = (if dt_hasCompleted s \<or> dt_client s = C_Set then [dt_task s] else []) \<Longrightarrow>
      map snd (dt_enqueued s') @ dt_deleted s' = (if dt_hasCompleted s' \<or> dt_client s' = C_Set then [dt_task s] else [])"
  shows "dt_inv s'"
proof -
  have L: "dt_locked s" using assms(1) by (simp add: dt_inv_def)
  have no: "dt_handlers s x \<notin> {H_Enqueue, H_TimerDelete, H_Set}" for x
    using dt_locked_client [OF L, of x] c by (auto simp: h_holds_def)
  have spent: "dt_spent s \<longleftrightarrow> dt_hasCompleted s \<or> dt_client s = C_Set" "dt_spent s' \<longleftrightarrow> dt_hasCompleted s' \<or> dt_client s' = C_Set"
    "dt_at_work s' \<longleftrightarrow> dt_client s' \<in> {C_TimerDelete, C_DeleteTask, C_Set}"
    using no s' unfolding dt_spent_def dt_at_work_def by auto
  have "dt_over s' \<Longrightarrow> dt_hasCompleted s'"
    using assms(1) o s' by (auto simp: dt_inv_def dt_over_def)
  moreover have "map snd (dt_enqueued s') @ dt_deleted s' = (if dt_spent s' then [dt_task s'] else [])"
    unfolding spent(2) s'(2) by (rule f) (use assms(1) spent(1) in \<open>simp add: dt_inv_def\<close>)
  ultimately show ?thesis unfolding dt_inv_def using l w spent(3) by blast
qed

text \<open>The three ways in which a step treats the lock.\<close>

lemma dt_locked_handlerI:
  assumes L: "dt_locked s" and s': "dt_handlers s' = (dt_handlers s)(h := pc)" "dt_client s' = dt_client s"
    and o: "dt_owner s' = dt_owner s \<and> (h_holds pc \<longleftrightarrow> h_holds (dt_handlers s h)) \<or>
      dt_owner s = None \<and> dt_owner s' = Some (Handler h) \<and> h_holds pc \<or>
      h_holds (dt_handlers s h) \<and> dt_owner s' = None \<and> \<not> h_holds pc"
  shows "dt_locked s'"
  using o
proof (elim disjE conjE)
  assume a: "h_holds (dt_handlers s h)" "dt_owner s' = None" "\<not> h_holds pc"
  have "\<not> h_holds (((dt_handlers s)(h := pc)) x)" for x using a dt_locked_handler [OF L a(1), of x] by auto
  then show ?thesis using a(2) dt_locked_client [OF L a(1)] by (simp add: dt_locked_def s')
next
  assume a: "dt_owner s = None" "dt_owner s' = Some (Handler h)" "h_holds pc"
  have "\<not> h_holds (dt_handlers s x)" "\<not> c_holds (dt_client s)" for x using L a(1) by (simp_all add: dt_locked_def)
  then show ?thesis using a by (simp add: dt_locked_def s')
next
  assume a: "dt_owner s' = dt_owner s" "h_holds pc \<longleftrightarrow> h_holds (dt_handlers s h)"
  then have "h_holds (((dt_handlers s)(h := pc)) x) = h_holds (dt_handlers s x)" for x by simp
  then show ?thesis using L a(1) by (simp add: dt_locked_def s' del: fun_upd_apply)
qed

lemma dt_locked_clientI:
  assumes L: "dt_locked s" and s': "dt_handlers s' = dt_handlers s"
    and o: "dt_owner s' = dt_owner s \<and> (c_holds (dt_client s') \<longleftrightarrow> c_holds (dt_client s)) \<or>
      dt_owner s = None \<and> dt_owner s' = Some Client \<and> c_holds (dt_client s') \<or>
      c_holds (dt_client s) \<and> dt_owner s' = None \<and> \<not> c_holds (dt_client s')"
  shows "dt_locked s'"
  using o
proof (elim disjE conjE)
  assume a: "c_holds (dt_client s)" "dt_owner s' = None" "\<not> c_holds (dt_client s')"
  have "\<not> h_holds (dt_handlers s x)" for x using dt_locked_client [OF L, of x] a(1) by blast
  then show ?thesis using a by (simp add: dt_locked_def s')
next
  assume a: "dt_owner s = None" "dt_owner s' = Some Client" "c_holds (dt_client s')"
  have "\<not> h_holds (dt_handlers s x)" for x using L a(1) by (simp add: dt_locked_def)
  then show ?thesis using a by (simp add: dt_locked_def s')
next
  assume "dt_owner s' = dt_owner s" "c_holds (dt_client s') \<longleftrightarrow> c_holds (dt_client s)"
  then show ?thesis using L by (simp add: dt_locked_def s')
qed

lemma dt_locked_step:
  assumes st: "dt_step nd e s = Some (Inr s')" and L: "dt_locked s"
  shows "dt_locked s'"
proof (cases e)
  case (Handle h)
  show ?thesis
    using st Handle by (cases "dt_handlers s h")
      (auto simp: dt_step_def timeoutHandler_def dt_goto_def timer_delete_def h_holds_def intro!: dt_locked_handlerI [OF L, of _ h] split: if_splits)
next
  case Dtor
  show ?thesis
    using st Dtor by (intro dt_locked_clientI [OF L]; cases "dt_client s")
      (auto simp: dt_step_def dt_dtor_def timer_delete_def c_holds_def split: if_splits)
next
  case (Expire h)
  show ?thesis
    using st Expire by (intro dt_locked_handlerI [OF L, of s' h "dt_handlers s' h"])
      (auto simp: dt_step_def dt_goto_def h_holds_def split: if_splits timer.splits)
qed (use st in \<open>auto simp: dt_step_def resetTimer_def c_holds_def intro!: dt_locked_clientI [OF L] split: if_splits option.splits\<close>)

lemma dt_inv_step:
  assumes st: "dt_step nd e s = Some (Inr s')" and I: "dt_inv s"
  shows "dt_inv s'"
proof -
  have L: "dt_locked s'" using I dt_locked_step [OF st] by (simp add: dt_inv_def)
  show ?thesis
  proof (cases e)
    case (Handle h)
    show ?thesis
    proof (cases "dt_handlers s h \<in> {H_Lock, H_Unlock}")
      case True
      then show ?thesis
        using st Handle by (intro dt_inv_idle [OF I L, of h "dt_handlers s' h"])
          (auto simp: dt_step_def timeoutHandler_def dt_goto_def split: if_splits)
    next
      case False
      have H: "h_holds (dt_handlers s h)" using False st Handle
        by (cases "dt_handlers s h") (auto simp: h_holds_def dt_step_def timeoutHandler_def)
      have w: "dt_handlers s h \<in> {H_Enqueue, H_TimerDelete, H_Set} \<Longrightarrow> \<not> dt_hasCompleted s"
        using I by (auto simp: dt_inv_def dt_at_work_def)
      show ?thesis
        using st Handle False w by (intro dt_inv_handler [OF I H L, of "dt_handlers s' h"]; cases "dt_handlers s h")
          (auto simp: dt_step_def timeoutHandler_def dt_goto_def timer_delete_def split: if_splits)
    qed
  next
    case Dtor
    show ?thesis
    proof (cases "c_holds (dt_client s)")
      case True
      have w: "dt_client s \<in> {C_TimerDelete, C_DeleteTask, C_Set} \<Longrightarrow> \<not> dt_hasCompleted s"
        "dt_client s = C_Unlock \<Longrightarrow> dt_hasCompleted s"
        using I by (auto simp: dt_inv_def dt_at_work_def dt_over_def)
      show ?thesis
        using True st Dtor w by (intro dt_inv_client [OF I True L]; cases "dt_client s")
          (auto simp: dt_step_def dt_dtor_def timer_delete_def c_holds_def split: if_splits)
    next
      case False
      then show ?thesis
        using st Dtor by (intro dt_inv_same [OF I L]; cases "dt_client s")
          (auto simp: dt_step_def dt_dtor_def dt_spent_def dt_at_work_def dt_over_def c_holds_def split: if_splits)
    qed
  next
    case (Expire h)
    show ?thesis
      using st Expire by (intro dt_inv_idle [OF I L, of h "dt_handlers s' h"])
        (auto simp: dt_step_def dt_goto_def split: if_splits timer.splits)
  qed (use st L in \<open>auto simp: dt_step_def resetTimer_def dt_spent_def dt_at_work_def dt_over_def
      intro!: dt_inv_same [OF I] split: if_splits option.splits\<close>)
qed

text \<open>
  What the timer has done: only settings that have run out are in \<open>dt_fired\<close>, a handler runs only
  after one of them, and whoever disposes of the task has deleted the timer before.
\<close>

definition run_out :: "(nat \<times> timespec) list \<Rightarrow> nat \<Rightarrow> bool" where
  "run_out fired t \<longleftrightarrow> (\<exists>(a, d) \<in> set fired. 0 < nanos d \<and> a + nanos d \<le> t)"

definition dt_fair :: "dt \<Rightarrow> bool" where
  "dt_fair s \<longleftrightarrow> ((\<exists>h. dt_handlers s h \<noteq> H_None) \<longrightarrow> run_out (dt_fired s) (dt_now s)) \<and>
     (\<forall>(t, q) \<in> set (dt_enqueued s). run_out (dt_fired s) t) \<and> (\<forall>a d. dt_id s = Armed a d \<longrightarrow> 0 < nanos d)"

definition dt_timer :: "bool \<Rightarrow> dt \<Rightarrow> bool" where
  "dt_timer nd s \<longleftrightarrow>
     (dt_hasCompleted s \<or> (\<exists>h. dt_handlers s h = H_Set) \<or> dt_client s \<in> {C_DeleteTask, C_Set} \<longrightarrow> dt_id s = Deleted) \<and>
     (dt_live s \<longleftrightarrow> dt_client s \<noteq> C_Gone) \<and> (dt_id s = Unset \<longleftrightarrow> nd)"

lemma timer_settime_Some:
  "timer_settime n d t = Some t' \<longleftrightarrow> t \<noteq> Deleted \<and> valid_time d \<and> t' = (if nanos d = 0 then Disarmed else Armed n d)"
  by (auto simp: timer_settime_def)

lemma run_out_mono: "run_out f t \<Longrightarrow> t \<le> t' \<Longrightarrow> run_out (f @ g) t'"
proof -
  assume "run_out f t" "t \<le> t'"
  then obtain a d where "(a, d) \<in> set f" "0 < nanos d" "a + nanos d \<le> t'" by (auto simp: run_out_def)
  then show ?thesis unfolding run_out_def by (intro bexI [of _ "(a, d)"]) simp_all
qed

text \<open>A step of a handler changes no time, and it enqueues now.\<close>

lemma handler_fair:
  assumes "timeoutHandler h s = Some (Inr s')"
  shows "dt_fired s' = dt_fired s \<and> dt_now s' = dt_now s \<and> dt_handlers s h \<noteq> H_None \<and>
    (dt_id s' = dt_id s \<or> dt_id s' = Deleted) \<and> (\<exists>pc. dt_handlers s' = (dt_handlers s)(h := pc)) \<and>
    set (dt_enqueued s') \<subseteq> insert (dt_now s, dt_task s) (set (dt_enqueued s))"
  using assms by (cases "dt_handlers s h") (auto simp: timeoutHandler_def dt_goto_def timer_delete_def split: if_splits)

lemma dtor_fair:
  assumes "dt_dtor s = Some (Inr s')"
  shows "dt_fired s' = dt_fired s \<and> dt_now s' = dt_now s \<and> (dt_id s' = dt_id s \<or> dt_id s' = Deleted) \<and>
    dt_handlers s' = dt_handlers s \<and> dt_enqueued s' = dt_enqueued s"
  using assms by (cases "dt_client s") (auto simp: dt_dtor_def timer_delete_def split: if_splits)

lemma dt_fair_step:
  assumes st: "dt_step nd e s = Some (Inr s')" and T: "dt_fair s"
  shows "dt_fair s'"
proof (cases e)
  case (Handle h)
  have h: "timeoutHandler h s = Some (Inr s')" using st Handle by (simp add: dt_step_def)
  note s' = handler_fair [OF h]
  have now: "run_out (dt_fired s) (dt_now s)" using T s' by (auto simp: dt_fair_def)
  have "run_out (dt_fired s') t" if "(t, q) \<in> set (dt_enqueued s')" for t q
  proof -
    have "(t, q) = (dt_now s, dt_task s) \<or> (t, q) \<in> set (dt_enqueued s)" using s' that by blast
    then show ?thesis using s' now T by (auto simp: dt_fair_def)
  qed
  moreover have "0 < nanos d" if "dt_id s' = Armed a d" for a d
  proof -
    have "dt_id s = Armed a d" using s' that by auto
    then show ?thesis using T by (simp add: dt_fair_def)
  qed
  ultimately show ?thesis using now s' by (auto simp: dt_fair_def)
next
  case Dtor
  have "dt_dtor s = Some (Inr s')" using st Dtor by (simp add: dt_step_def)
  then show ?thesis using T dtor_fair [of s s'] unfolding dt_fair_def by auto
next
  case (Expire h)
  obtain a d where a: "dt_id s = Armed a d" "a + nanos d \<le> dt_now s"
    "s' = dt_goto h H_Lock (s\<lparr>dt_id := Disarmed, dt_fired := dt_fired s @ [(a, d)]\<rparr>)"
    using st Expire by (auto simp: dt_step_def split: timer.splits if_splits)
  have "run_out (dt_fired s @ [(a, d)]) (dt_now s)" using T a by (auto simp: dt_fair_def run_out_def)
  then show ?thesis using T a(3) run_out_mono [of "dt_fired s" _ _ "[(a, d)]"] by (fastforce simp: dt_fair_def dt_goto_def)
next
  case Tick
  then show ?thesis using st T run_out_mono [of "dt_fired s" "dt_now s" _ "[]"] by (auto simp: dt_step_def dt_fair_def)
qed (use st T in \<open>auto simp: dt_step_def resetTimer_def dt_fair_def timer_settime_Some split: if_splits option.splits\<close>)

lemma dt_timer_step:
  assumes st: "dt_step nd e s = Some (Inr s')" and T: "dt_timer nd s"
  shows "dt_timer nd s'"
proof (cases e)
  case (Handle h)
  have h: "timeoutHandler h s = Some (Inr s')" using st Handle by (simp add: dt_step_def)
  have "dt_hasCompleted s' \<Longrightarrow> dt_hasCompleted s \<or> dt_handlers s h = H_Set" "dt_handlers s' x = H_Set \<Longrightarrow> dt_handlers s x = H_Set \<or> dt_id s' = Deleted"
    "dt_client s' = dt_client s" "dt_live s' = dt_live s" "dt_id s' = dt_id s \<or> dt_id s' = Deleted \<and> dt_id s \<noteq> Unset" for x
    using h by (cases "dt_handlers s h"; auto simp: timeoutHandler_def dt_goto_def timer_delete_def split: if_splits)+
  note s' = this
  have d: "dt_id s = Deleted \<Longrightarrow> dt_id s' = Deleted" "dt_id s' = Unset \<longleftrightarrow> dt_id s = Unset" using s'(5) by auto
  have set: "dt_id s = Deleted" if "dt_handlers s x = H_Set" for x using T that unfolding dt_timer_def by blast
  have "dt_id s' = Deleted" if "dt_handlers s' x = H_Set" for x using s'(2) [OF that] set d(1) by blast
  moreover have "dt_id s' = Deleted" if "dt_hasCompleted s'"
    using s'(1) [OF that] set d(1) T unfolding dt_timer_def by blast
  moreover have "dt_id s' = Deleted" if "dt_client s' \<in> {C_DeleteTask, C_Set}"
    using that s'(3) d(1) T unfolding dt_timer_def by simp
  ultimately show ?thesis using T s'(3,4) d(2) unfolding dt_timer_def by auto
next
  case Dtor
  then show ?thesis using st T
    by (cases "dt_client s") (auto simp: dt_step_def dt_dtor_def timer_delete_def dt_timer_def split: if_splits)
next
  case (Expire h)
  then show ?thesis using st T
    by (auto simp: dt_step_def dt_goto_def dt_timer_def split: if_splits timer.splits)
next
  case (Reset d)
  then show ?thesis using st T
    by (cases nd) (auto simp: dt_step_def resetTimer_def timer_settime_Some dt_timer_def split: if_splits option.splits)
next
  case Tick
  then have "s' = s\<lparr>dt_now := Suc (dt_now s)\<rparr>" using st by (simp add: dt_step_def)
  then show ?thesis using T by (simp add: dt_timer_def)
next
  case Destroy
  then have "dt_client s = C_Idle" "s' = s\<lparr>dt_client := C_Lock\<rparr>" using st by (auto simp: dt_step_def split: if_splits)
  then show ?thesis using T by (simp add: dt_timer_def)
qed

lemma dt_new:
  assumes "DelayedTask nd created p delay now = Inr s0"
  shows "dt_inv s0 \<and> dt_fair s0 \<and> dt_timer nd s0 \<and> dt_task s0 = p \<and> dt_now s0 = now"
  using assms
  by (auto simp: DelayedTask_def Let_def dt_inv_def dt_locked_def dt_at_work_def dt_over_def dt_spent_def dt_fair_def dt_timer_def
      h_holds_def c_holds_def and_then_Inr_iff timer_settime_Some split: if_splits option.splits)

lemma dt_task_step: "dt_step nd e s = Some (Inr s') \<Longrightarrow> dt_task s' = dt_task s"
  by (cases e; cases "dt_client s")
     (auto simp: dt_step_def resetTimer_def timeoutHandler_def dt_dtor_def dt_goto_def timer_delete_def split: if_splits timer.splits
       option.splits handler_pc.splits)

lemma dt_reachable:
  assumes "DelayedTask nd created p delay now = Inr s0" and "dt_run nd es s0 = Some (Inr s)"
  shows "dt_inv s \<and> dt_fair s \<and> dt_timer nd s \<and> dt_task s = p"
  by (rule dt_run_invariant [OF _ assms(2), of "\<lambda>s. dt_inv s \<and> dt_fair s \<and> dt_timer nd s \<and> dt_task s = p"])
     (use dt_new [OF assms(1)] dt_inv_step dt_fair_step dt_timer_step dt_task_step in auto)

section \<open>Properties\<close>

lemma dt_ready:
  assumes I: "dt_inv s" "dt_timer nd s" and a: "dt_id s = Armed a d" "dt_client s = C_Idle" "dt_owner s = None"
  shows "\<not> dt_hasCompleted s" "dt_live s" "\<not> nd" "dt_enqueued s = []" "dt_deleted s = []"
proof -
  have "\<not> h_holds (dt_handlers s h)" for h using I(1) a(3) by (simp add: dt_inv_def dt_locked_def)
  then have "\<not> dt_spent s \<longleftrightarrow> \<not> dt_hasCompleted s" using a(2) unfolding dt_spent_def h_holds_def by auto
  moreover show "\<not> dt_hasCompleted s" "dt_live s" "\<not> nd" using I(2) a by (auto simp: dt_timer_def)
  ultimately show "dt_enqueued s = []" "dt_deleted s = []" using I(1) by (simp_all add: dt_inv_def)
qed

lemma dt_ticks: "dt_run nd (replicate n Tick) s = Some (Inr (s\<lparr>dt_now := dt_now s + n\<rparr>))"
  by (induction n arbitrary: s) (simp_all add: dt_step_def)

text \<open>
  C37: Whatever the client does and however the threads interleave: the task leaves the object at most
  once, either to the dispatcher or by \<open>delete\<close>; it has left once the timeout handler or the
  destructor has ended; and it is never handed to the dispatcher before a delay that was set for
  it, and not reset in the meantime, has run out.
\<close>

theorem delayed_task_once:
  assumes "DelayedTask nd created p delay now = Inr s0" and "dt_run nd es s0 = Some (Inr s)"
  shows "map snd (dt_enqueued s) @ dt_deleted s \<in> {[], [p]} \<and>
    (dt_client s = C_Gone \<or> (\<exists>h. dt_handlers s h = H_Done) \<longrightarrow> map snd (dt_enqueued s) @ dt_deleted s = [p]) \<and>
    (\<forall>(t, q) \<in> set (dt_enqueued s). \<exists>(a, d) \<in> set (dt_fired s). 0 < nanos d \<and> a + nanos d \<le> t)"
  using dt_reachable [OF assms]
  by (auto simp: dt_inv_def dt_over_def dt_spent_def dt_fair_def run_out_def)

text \<open>
  The course of one expiry: after \<open>k\<close> steps of the notification (the expiry itself and six of the
  handler) of a timer that was set at \<open>a\<close> to expire \<open>d\<close> later.
\<close>

definition course :: "nat \<Rightarrow> handler_pc" where
  "course k = [H_None, H_Lock, H_Test, H_Enqueue, H_TimerDelete, H_Set, H_Unlock, H_Done] ! k"

definition on_course :: "nat \<Rightarrow> timespec \<Rightarrow> addr \<Rightarrow> nat \<Rightarrow> dt \<Rightarrow> bool" where
  "on_course a d p k s \<longleftrightarrow> k \<le> 7 \<and> dt_live s \<and> dt_client s = C_Idle \<and> dt_task s = p \<and> dt_deleted s = [] \<and>
     dt_id s = (if k = 0 then Armed a d else if k < 5 then Disarmed else Deleted) \<and> (0 < k \<longrightarrow> a + nanos d \<le> dt_now s) \<and>
     (dt_hasCompleted s \<longleftrightarrow> 6 \<le> k) \<and>
     (\<exists>h. dt_handlers s = (\<lambda>_. H_None)(h := course k) \<and> dt_owner s = (if 2 \<le> k \<and> k \<le> 6 then Some (Handler h) else None)) \<and>
     (if k < 4 then dt_enqueued s = [] else \<exists>t. dt_enqueued s = [(t, p)] \<and> a + nanos d \<le> t \<and> t \<le> dt_now s)"

lemma course_cases:
  assumes "(k :: nat) \<le> 7"
  obtains "k = 0" | "k = 1" | "k = 2" | "k = 3" | "k = 4" | "k = 5" | "k = 6" | "k = 7"
  using assms by linarith

lemma course_simps [simp]:
  "course 0 = H_None" "course 1 = H_Lock" "course (Suc 0) = H_Lock" "course 2 = H_Test" "course (Suc (Suc 0)) = H_Test" "course 3 = H_Enqueue" "course 4 = H_TimerDelete"
  "course 5 = H_Set" "course 6 = H_Unlock" "course 7 = H_Done"
  by (simp_all add: course_def)

lemma one_handler:
  "(\<lambda>_. H_None)(h := x) = (\<lambda>_. H_None)(h' := y) \<longleftrightarrow> x = y \<and> (h = h' \<or> x = H_None)"
  by (auto simp: fun_eq_iff)

text \<open>While the client does nothing, time passes or the notification does its next step, without a fault.\<close>

lemma on_course_tick: "on_course a d p k s \<Longrightarrow> on_course a d p k (s\<lparr>dt_now := Suc (dt_now s)\<rparr>)"
  by (auto simp: on_course_def)

lemma on_course_step:
  assumes c: "on_course a d p k s" and e: "e \<noteq> Tick" "e \<noteq> Destroy" "\<forall>d'. e \<noteq> Reset d'" and r: "dt_step nd e s = Some r"
  shows "\<exists>s'. r = Inr s' \<and> on_course a d p (Suc k) s'"
proof -
  obtain h where h: "dt_handlers s = (\<lambda>_. H_None)(h := course k)" using c by (auto simp: on_course_def)
  have i: "dt_client s = C_Idle" "dt_live s" "k \<le> 7" using c by (auto simp: on_course_def)
  show ?thesis
  proof (cases e)
    case (Expire x)
    have k: "k = 0" using r Expire c by (auto simp: dt_step_def on_course_def split: if_splits)
    have none: "(\<lambda>_. H_None)(y := H_None) = (\<lambda>_. H_None)" for y :: nat by auto
    show ?thesis using r Expire c unfolding k
      by (auto simp: dt_step_def dt_goto_def on_course_def none split: if_splits)
  next
    case (Handle x)
    have x: "x = h" using r Handle h by (auto simp: dt_step_def timeoutHandler_def split: if_splits)
    from i(3) show ?thesis
      by (cases rule: course_cases; use r Handle c h x in \<open>auto simp: dt_step_def timeoutHandler_def dt_goto_def timer_delete_def on_course_def
          one_handler split: if_splits\<close>)
  qed (use r e i in \<open>auto simp: dt_step_def dt_dtor_def\<close>)
qed

lemma on_course_next:
  assumes c: "on_course a d p k s" and k: "k < 7" "a + nanos d \<le> dt_now s"
  shows "\<exists>e s'. e \<noteq> Tick \<and> e \<noteq> Destroy \<and> (\<forall>d'. e \<noteq> Reset d') \<and> dt_step nd e s = Some (Inr s')"
proof -
  obtain h where h: "dt_handlers s = (\<lambda>_. H_None)(h := course k)" using c by (auto simp: on_course_def)
  have "\<exists>r. dt_step nd (if k = 0 then Expire h else Handle h) s = Some r"
  proof -
    have "k \<le> 7" using k by simp
    then show ?thesis
      by (cases rule: course_cases; use c k h in \<open>auto simp: dt_step_def timeoutHandler_def on_course_def\<close>)
  qed
  then obtain r where r: "dt_step nd (if k = 0 then Expire h else Handle h) s = Some r" by blast
  then obtain s' where "r = Inr s'" using on_course_step [OF c _ _ _ r] by (auto split: if_splits)
  then show ?thesis using r by (intro exI [of _ "if k = 0 then Expire h else Handle h"] exI [of _ s']) auto
qed

definition client_idle :: "dt_event list \<Rightarrow> bool" where
  "client_idle es \<longleftrightarrow> Destroy \<notin> set es \<and> (\<forall>d. Reset d \<notin> set es)"

lemma on_course_run:
  assumes "on_course a d p k s" and "client_idle es" and "dt_run nd es s = Some r"
  shows "\<exists>s'. r = Inr s' \<and> on_course a d p (k + length (filter (\<lambda>e. e \<noteq> Tick) es)) s'"
  using assms
proof (induction es arbitrary: s k)
  case (Cons e es)
  have i: "e \<noteq> Destroy" "\<forall>d'. e \<noteq> Reset d'" "client_idle es" using Cons.prems(2) by (auto simp: client_idle_def)
  show ?case
  proof (cases "e = Tick")
    case True
    then show ?thesis using Cons.IH [OF on_course_tick [OF Cons.prems(1)] i(3)] Cons.prems(3) by (simp add: dt_step_def)
  next
    case False
    obtain q where q: "dt_step nd e s = Some q" using Cons.prems(3) by (cases "dt_step nd e s") auto
    obtain t where t: "q = Inr t" "on_course a d p (Suc k) t" using on_course_step [OF Cons.prems(1) False i(1,2) q] by blast
    then show ?thesis using Cons.IH [OF t(2) i(3)] Cons.prems(3) q False by simp
  qed
qed auto

text \<open>
  C38: A delayed task whose timer is armed, with no notification under way, and whose client then leaves
  the object alone. In every run from there, whatever the order of its steps, nothing faults, and
  everything that happens besides the passing of time is the notification of this one expiry. The
  task is handed to the dispatcher by its fourth step, once, at a time at which the delay is over,
  and never deleted by the object. The notification is never stuck: once the delay is over it has a
  next step until it has finished, and seven steps finish it, with the flag set and the mutex free.
\<close>

theorem delayed_task_runs:
  assumes "DelayedTask nd created p delay now = Inr s0" and "dt_run nd es s0 = Some (Inr s)"
    and a: "dt_id s = Armed a d" "dt_client s = C_Idle" "\<forall>h. dt_handlers s h = H_None"
    and r: "client_idle fs" "dt_run nd fs s = Some r" and k: "k = length (filter (\<lambda>e. e \<noteq> Tick) fs)"
  shows "\<exists>s'. r = Inr s' \<and> k \<le> 7 \<and> dt_deleted s' = [] \<and>
    (if k < 4 then dt_enqueued s' = [] else \<exists>t. dt_enqueued s' = [(t, p)] \<and> a + nanos d \<le> t \<and> t \<le> dt_now s') \<and>
    (k = 7 \<longrightarrow> dt_hasCompleted s' \<and> dt_owner s' = None \<and> (\<exists>h. dt_handlers s' h = H_Done)) \<and>
    (k < 7 \<and> a + nanos d \<le> dt_now s' \<longrightarrow> (\<exists>e s''. e \<noteq> Tick \<and> client_idle [e] \<and> dt_step nd e s' = Some (Inr s'')))"
proof -
  have I: "dt_inv s" "dt_timer nd s" "dt_task s = p" using dt_reachable [OF assms(1,2)] by simp_all
  have "dt_owner s = None"
    using I(1) a(2,3) by (cases "dt_owner s"; cases "the (dt_owner s)") (auto simp: dt_inv_def dt_locked_def h_holds_def c_holds_def)
  note w = dt_ready [OF I(1,2) a(1,2) this] this
  have "on_course a d p 0 s" using a w I(3) by (auto simp: on_course_def fun_eq_iff)
  from on_course_run [OF this r] obtain s' where s': "r = Inr s'" "on_course a d p k s'" unfolding k by auto
  have "\<exists>e s''. e \<noteq> Tick \<and> client_idle [e] \<and> dt_step nd e s' = Some (Inr s'')" if "k < 7" "a + nanos d \<le> dt_now s'"
    using on_course_next [OF s'(2) that, of nd] by (auto simp: client_idle_def)
  then show ?thesis using s' by (intro exI [of _ s']) (auto simp: on_course_def)
qed

text \<open>
  C39: Two uses that the interface allows and the code does not survive, with any delay: the timer may
  expire just before the destructor, whose notification then locks the mutex of an object that is
  gone; and setting the timer again after the task was handed over aborts the process.
\<close>

theorem delayed_task_lifetime:
  assumes d: "valid_time delay" "0 < nanos delay" "valid_time again"
    and s0: "DelayedTask False True p delay now = Inr s0"
  shows "\<exists>es fs. Reset again \<notin> set es \<and> dt_run False (es @ [Destroy] @ replicate 7 Dtor @ [Handle 0]) s0 = Some (Inl UseAfterFree) \<and>
    (\<exists>s. dt_run False fs s0 = Some (Inr s) \<and> dt_client s = C_Idle \<and> dt_enqueued s \<noteq> [] \<and>
      dt_step False (Reset again) s = Some (Inl AssertFailed))"
proof -
  have s: "s0 = \<lparr>dt_live = True, dt_id = Armed now delay, dt_task = p, dt_hasCompleted = False, dt_owner = None,
      dt_client = C_Idle, dt_handlers = (\<lambda>_. H_None), dt_now = now, dt_enqueued = [], dt_deleted = [], dt_fired = []\<rparr>"
    using s0 d by (simp add: DelayedTask_def Let_def timer_settime_def)
  let ?es = "replicate (nanos delay) Tick @ [Expire 0]"
  have e: "dt_run False (?es @ [Destroy] @ replicate 7 Dtor @ [Handle 0]) s0 = Some (Inl UseAfterFree)"
    unfolding s by (simp add: dt_run_append dt_ticks dt_step_def dt_goto_def dt_dtor_def timeoutHandler_def timer_delete_def numeral_eq_Suc)
  obtain t where t: "dt_run False (replicate (nanos delay) Tick @ Expire 0 # replicate 6 (Handle 0)) s0 = Some (Inr t)"
    "dt_enqueued t \<noteq> []" "dt_client t = C_Idle" "dt_id t = Deleted"
    unfolding s by (simp add: dt_run_append dt_ticks dt_step_def dt_goto_def timeoutHandler_def timer_delete_def numeral_eq_Suc)
  have "dt_step False (Reset again) t = Some (Inl AssertFailed)"
    using t(3,4) by (simp add: dt_step_def resetTimer_def timer_settime_def)
  then show ?thesis using e t by (intro exI [of _ ?es] exI [of _ "replicate (nanos delay) Tick @ Expire 0 # replicate 6 (Handle 0)"]) auto
qed

text \<open>
  Every fault of the object: an assertion on a timer that is gone or on a malformed delay, a
  handler that comes after the destructor, and with \<open>NDEBUG\<close> a timer that was never created.
\<close>

lemma delayed_task_faults:
  assumes "DelayedTask nd created p delay now = Inr s0" and "dt_run nd es s0 = Some (Inr s)" and f: "dt_step nd e s = Some (Inl f)"
  shows "(\<exists>d. e = Reset d \<and> f = AssertFailed \<and> (dt_id s = Deleted \<or> \<not> valid_time d)) \<or>
    (\<exists>h. e = Handle h \<and> f = UseAfterFree \<and> dt_client s = C_Gone) \<or>
    (nd \<and> f = Indeterminate)"
proof -
  have T: "dt_timer nd s" using dt_reachable [OF assms(1,2)] by simp
  show ?thesis
  proof (cases e)
    case (Handle h)
    then show ?thesis using f T
      by (cases "dt_handlers s h") (auto simp: dt_step_def timeoutHandler_def timer_delete_def dt_timer_def split: if_splits)
  next
    case Dtor
    then show ?thesis using f T
      by (cases "dt_client s") (auto simp: dt_step_def dt_dtor_def timer_delete_def dt_timer_def split: if_splits)
  qed (use f in \<open>auto simp: dt_step_def resetTimer_def timer_settime_def split: if_splits timer.splits\<close>)
qed

text \<open>With a zero delay, or when the library is built with \<open>NDEBUG\<close>, the task never runs.\<close>

lemma no_timer_no_task:
  assumes "DelayedTask nd created p delay now = Inr s0" and r: "dt_run nd es s0 = Some (Inr s)"
    and n: "nd \<or> nanos delay = 0 \<and> (\<forall>d. Reset d \<notin> set es)"
  shows "dt_enqueued s = []"
proof -
  let ?J = "\<lambda>s. (\<forall>a d. dt_id s \<noteq> Armed a d) \<and> (\<forall>h. dt_handlers s h = H_None) \<and> dt_enqueued s = []"
  have "?J s0" using assms(1) n by (auto simp: DelayedTask_def Let_def and_then_Inr_iff timer_settime_Some split: if_splits option.splits)
  moreover have "?J s'" if "e \<in> set es" "?J s" "dt_step nd e s = Some (Inr s')" for e s s'
    by (cases e; cases "dt_id s"; use that n dtor_fair [of s s'] in \<open>auto simp: dt_step_def resetTimer_def timeoutHandler_def split: if_splits\<close>)
  ultimately show ?thesis using dt_run_invariant [OF _ r, of ?J] by blast
qed

definition msec :: timespec where "msec = \<lparr>tv_sec = 0, tv_nsec = 5\<rparr>"

lemma msec: "valid_time msec" "nanos msec = 5"
  by (simp_all add: msec_def valid_time_def nanos_def)

theorem delayed_task_once_witness:
  "\<exists>s. and_then (DelayedTask False True 7 msec 100) (\<lambda>s0. the (dt_run False (replicate 5 Tick @ Expire 0 # replicate 6 (Handle 0)) s0)) = Inr s \<and>
     map snd (dt_enqueued s) @ dt_deleted s = [7]"
proof -
  obtain s0 where s0: "DelayedTask False True 7 msec 100 = Inr s0" "dt_id s0 = Armed 100 msec" "dt_client s0 = C_Idle" "dt_owner s0 = None"
    "dt_handlers s0 0 = H_None" "dt_now s0 = 100" "dt_hasCompleted s0 = False" "dt_live s0"
    by (simp add: DelayedTask_def Let_def timer_settime_def msec)
  obtain s where s: "dt_run False (replicate 5 Tick @ Expire 0 # replicate 6 (Handle 0)) s0 = Some (Inr s)" "dt_handlers s 0 = H_Done"
    using s0 by (simp add: dt_run_append dt_ticks dt_step_def dt_goto_def timeoutHandler_def timer_delete_def numeral_eq_Suc msec)
  then show ?thesis using delayed_task_once [OF s0(1) s(1)] s0(1) by auto
qed

text \<open>The timer is set again before it has expired; the notification is interrupted by the clock, and the task is enqueued after 5 more.\<close>

theorem delayed_task_runs_witness:
  "\<exists>s0 s s'. DelayedTask False True 7 msec 100 = Inr s0 \<and> dt_run False [Tick, Tick, Reset msec] s0 = Some (Inr s) \<and> dt_id s = Armed 102 msec \<and>
     dt_run False (replicate 5 Tick @ Expire 0 # Handle 0 # Tick # replicate 5 (Handle 0)) s = Some (Inr s') \<and>
     dt_enqueued s' = [(108, 7)] \<and> dt_hasCompleted s' \<and> dt_owner s' = None"
proof -
  let ?fs = "replicate 5 Tick @ Expire 0 # Handle 0 # Tick # replicate 5 (Handle 0)"
  obtain s0 where s0: "DelayedTask False True 7 msec 100 = Inr s0" "dt_id s0 = Armed 100 msec" "dt_client s0 = C_Idle" "dt_owner s0 = None"
    "dt_handlers s0 = (\<lambda>_. H_None)" "dt_now s0 = 100" "dt_hasCompleted s0 = False" "dt_live s0" "dt_task s0 = 7" "dt_enqueued s0 = []"
    by (simp add: DelayedTask_def Let_def timer_settime_def msec)
  let ?s = "s0\<lparr>dt_now := 102, dt_id := Armed 102 msec\<rparr>"
  have s: "dt_run False [Tick, Tick, Reset msec] s0 = Some (Inr ?s)"
    using s0 by (simp add: dt_step_def resetTimer_def timer_settime_def msec)
  obtain s' where s': "dt_run False ?fs ?s = Some (Inr s')" "dt_enqueued s' = [(108, 7)]"
    using s0 by (simp add: dt_run_append dt_ticks dt_step_def dt_goto_def timeoutHandler_def timer_delete_def numeral_eq_Suc msec)
  have "client_idle ?fs" "length (filter (\<lambda>e. e \<noteq> Tick) ?fs) = 7" by (auto simp: client_idle_def)
  then have "dt_hasCompleted s' \<and> dt_owner s' = None"
    using delayed_task_runs [OF s0(1) s, of 102 msec ?fs "Inr s'" 7] s0(3,5) s'(1) by simp
  then show ?thesis using s0(1) s s' by (intro exI [of _ s0] exI [of _ ?s] exI [of _ s']) simp
qed

theorem delayed_task_lifetime_witness:
  "\<exists>s0 es. DelayedTask False True 7 msec 100 = Inr s0 \<and> dt_run False es s0 = Some (Inl UseAfterFree)"
proof -
  obtain s0 where s0: "DelayedTask False True 7 msec 100 = Inr s0"
    by (simp add: DelayedTask_def Let_def timer_settime_def msec)
  show ?thesis using delayed_task_lifetime [OF msec(1) _ msec(1) s0] s0 by (auto simp: msec)
qed

end
