(* ===== verification/HttpState.thy ===== *)
theory HttpState
  imports CacheStore AioWrapper HttpParse
begin

text \<open>
  The state of the web server (\<open>svr_tcp_ip.h\<close>, \<open>svr_http.h\<close>, \<open>svr_common.h\<close>): connections, HTTP
  packages and the character blocks they own, beside the cache and the asynchronous I/O layer
  with the dispatcher's queue. Everything that the code asks of the operating system is a field
  of \<open>srv_sys\<close>, one record of answers for each step. The code is that of the debug level in
  \<open>svr_common.h\<close> (\<open>DBGL\<close> is 0: assertions are on, the traces are dead code), of one dispatcher
  (\<open>NDISPATCHER\<close> is 1, so every task id is 0) and of the polling build of the I/O layer.

  With one dispatcher, one thread runs every handler and the main thread accepts; what they share
  is locked, so each handler and each \<open>accept\<close> is one step.
\<close>

section \<open>Constants\<close>

definition MAXCSIZE :: size_t where "MAXCSIZE = 1048576"
definition MAXKEYS :: nat where "MAXKEYS = 256"
definition CacheTaskID :: task_group_id where "CacheTaskID = 0"
definition ReadTaskID :: task_group_id where "ReadTaskID = 0"
definition MaxACCEPT :: size_t where "MaxACCEPT = 1024"
definition MAXRH :: nat where "MAXRH = 8192"
definition MAXWH :: nat where "MAXWH = 8192"
definition MAXWHL :: nat where "MAXWHL = 256"
definition MAXWB :: nat where "MAXWB = 65536"

definition websvrd :: string where "websvrd = ''Rain/1.1''"

definition sline_200 :: "string list" where "sline_200 = [''HTTP/1.0 200 OK'', ''HTTP/1.1 200 OK'']"
definition sline_400 :: "string list" where "sline_400 = [''HTTP/1.0 400 Bad Request'', ''HTTP/1.1 400 Bad Request'']"
definition sline_404 :: "string list" where "sline_404 = [''HTTP/1.0 404 Not Found'', ''HTTP/1.1 404 Not Found'']"

section \<open>Data\<close>

datatype err_conn =
    ERRCONN_OK | ERRCONN_CR | ERRCONN_BI | ERRCONN_LI | ERRCONN_AC | ERRCONN_CL | ERRCONN_CO | ERRCONN_KA

datatype conn_st =
    CS_LISTENING | CS_CONNECTING | CS_CONNECTED | CS_CLOSING_R | CS_CLOSING_W | CS_CLOSING | CS_CLOSED

datatype http_sn = N_200 | N_404 | N_400 | N_UNO
datatype http_st = HS_READING | HS_PARSING | HS_FETCHING | HS_WRITING | HS_UNKNOWN
datatype http_wst = WS_HEAD | WS_BODY | WS_UNO

text \<open>Of the enumeration \<open>ErrHTTP\<close> the code returns two values and compares with a third.\<close>

datatype err_http = EHTTP_OK | EHTTP_READ | EHTTP_FINAL

record sockaddr_in =
  sin_family :: "16 word"
  sin_port :: "16 word"
  sin_addr :: "32 word"

text \<open>\<open>class Conn\<close>. Members that the constructor does not set are \<open>None\<close> until they are assigned.\<close>

record conn =
  cst :: "conn_st option"
  cfd :: "c_int option"
  csa :: "sockaddr_in option"
  cpp :: "addr option"
  nc :: size_t

text \<open>\<open>struct charn\<close>: a block, how much of it counts, and whether the cache owns it.\<close>

record charn =
  ch_p :: "addr option"
  ch_n :: size_t
  ch_cached :: bool

definition charn_new :: charn where "charn_new = \<lparr>ch_p = None, ch_n = 0, ch_cached = False\<rparr>"

text \<open>\<open>class HPKG\<close>: a request that is being read (no parent) or one GET of it.\<close>

record hpkg =
  hsn :: "http_sn option"
  hst :: http_st
  wst :: "http_wst option"
  vern :: nat
  pk_ver :: charn
  pk_met :: charn
  pk_uri :: charn
  pk_host :: charn
  chead :: charn
  headkey :: charn
  cbody :: charn
  bodykey :: charn
  hfd :: c_int
  tr_offset :: off_t
  tr_nbytes :: size_t
  tr_times :: "(nat \<times> nat) option"
  cpn :: addr
  ppg :: "addr option"
  lcg :: "addr option"
  nsg :: "addr option"

definition HPKG :: "addr \<Rightarrow> hpkg" where
  "HPKG cn =
     \<lparr>hsn = None, hst = HS_UNKNOWN, wst = None, vern = 1,
      pk_ver = charn_new, pk_met = charn_new, pk_uri = charn_new, pk_host = charn_new,
      chead = charn_new, headkey = charn_new, cbody = charn_new, bodykey = charn_new,
      hfd = - 1, tr_offset = 0, tr_nbytes = 0, tr_times = None, cpn = cn, ppg = None, lcg = None, nsg = None\<rparr>"

text \<open>What the server binds: completion and error callbacks of the I/O, callbacks of the cache, tasks.\<close>

datatype srv_ok = ParseAio addr | HeaderToBody addr | BodyRio addr | BodyPio addr
datatype srv_err = FinalAio addr
datatype srv_task = ReadTask addr | FetchTask addr
datatype srv_cb = HeaderWio addr | BodyWio addr

text \<open>
  The server beside its cache; a block is the list of its bytes. \<open>sv_fds\<close> are the descriptors that
  the server has open, \<open>sv_out\<close> is what the kernel has written, oldest first.
\<close>

record srv =
  sv_pkgs :: "addr \<rightharpoonup> hpkg"
  sv_conns :: "addr \<rightharpoonup> conn"
  sv_bufs :: "addr \<rightharpoonup> string"
  sv_next :: addr
  sv_fds :: "c_int set"
  sv_aio :: "(srv_ok, srv_err, srv_task) aio"
  sv_out :: "(c_int \<times> string) list"

type_synonym srv_st = "srv_cb cache \<times> srv"
type_synonym srv_call = "(srv_cb, srv) callback_call"

text \<open>
  The operating system. \<open>env_data\<close> are the bytes that a read leaves in the buffer of its control
  block, \<open>env_fstat\<close> the size and the time of modification, \<open>env_date\<close> the text that
  \<open>gmtime\<close> and \<open>strftime\<close> make of a time, \<open>env_junk\<close> what is in a fresh block.
\<close>

record srv_sys =
  env_aio :: aio_sys
  env_data :: "addr \<Rightarrow> string"
  env_open :: "string \<Rightarrow> c_int"
  env_fstat :: "c_int \<Rightarrow> (size_t \<times> nat) option"
  env_time :: nat
  env_date :: "nat \<Rightarrow> string"
  env_close :: "c_int \<Rightarrow> c_int"
  env_junk :: "addr \<Rightarrow> nat \<Rightarrow> char"
  env_socket :: c_int
  env_bind :: "c_int \<Rightarrow> sockaddr_in \<Rightarrow> c_int"
  env_listen :: "c_int \<Rightarrow> c_int"
  env_accept :: "c_int \<Rightarrow> c_int"
  env_rcvtimeo :: "c_int \<Rightarrow> c_int"
  env_connect :: "c_int \<Rightarrow> sockaddr_in \<Rightarrow> c_int"

section \<open>Primitives\<close>

definition known :: "'a option \<Rightarrow> fault + 'a" where
  "known x = (case x of None \<Rightarrow> Inl Indeterminate | Some v \<Rightarrow> Inr v)"

lemma known_Some [simp]: "known (Some v) = Inr v"
  by (simp add: known_def)

lemma known_Inr_iff: "known x = Inr v \<longleftrightarrow> x = Some v"
  by (cases x) (auto simp: known_def)

definition pkg_of :: "addr \<Rightarrow> srv_st \<Rightarrow> fault + hpkg" where
  "pkg_of pk s = deref (sv_pkgs (snd s)) pk"

definition store_pkg :: "addr \<Rightarrow> hpkg \<Rightarrow> srv_st \<Rightarrow> srv_st" where
  "store_pkg pk p s = (fst s, (snd s)\<lparr>sv_pkgs := (sv_pkgs (snd s))(pk \<mapsto> p)\<rparr>)"

definition new_pkg :: "hpkg \<Rightarrow> srv_st \<Rightarrow> addr \<times> srv_st" where
  "new_pkg p s =
     (sv_next (snd s), fst s, (snd s)\<lparr>sv_pkgs := (sv_pkgs (snd s))(sv_next (snd s) \<mapsto> p), sv_next := Suc (sv_next (snd s))\<rparr>)"

definition conn_of :: "addr \<Rightarrow> srv_st \<Rightarrow> fault + conn" where
  "conn_of cn s = deref (sv_conns (snd s)) cn"

definition store_conn :: "addr \<Rightarrow> conn \<Rightarrow> srv_st \<Rightarrow> srv_st" where
  "store_conn cn c s = (fst s, (snd s)\<lparr>sv_conns := (sv_conns (snd s))(cn \<mapsto> c)\<rparr>)"

text \<open>\<open>cn->cst\<close>, \<open>cn->cfd\<close> of the connection of a package.\<close>

definition cst_of :: "addr \<Rightarrow> srv_st \<Rightarrow> fault + conn_st" where
  "cst_of cn s = and_then (conn_of cn s) (\<lambda>c. known (cst c))"

definition cfd_of :: "addr \<Rightarrow> srv_st \<Rightarrow> fault + c_int" where
  "cfd_of cn s = and_then (conn_of cn s) (\<lambda>c. known (cfd c))"

text \<open>Blocks of \<open>malloc\<close>. The cache frees the blocks that were put into it.\<close>

definition new_block :: "string \<Rightarrow> srv_st \<Rightarrow> addr \<times> srv_st" where
  "new_block d s =
     (sv_next (snd s), fst s, (snd s)\<lparr>sv_bufs := (sv_bufs (snd s))(sv_next (snd s) \<mapsto> d), sv_next := Suc (sv_next (snd s))\<rparr>)"

definition malloc :: "srv_sys \<Rightarrow> nat \<Rightarrow> srv_st \<Rightarrow> addr \<times> srv_st" where
  "malloc E n s = new_block (map (env_junk E (sv_next (snd s))) [0..<n]) s"

definition block_of :: "addr option \<Rightarrow> srv_st \<Rightarrow> fault + string" where
  "block_of p s =
     (case p of
        None \<Rightarrow> Inl NullDeref
      | Some b \<Rightarrow> if b \<in> set (freed_bufs (fst s)) then Inl UseAfterFree else deref (sv_bufs (snd s)) b)"

definition store_block :: "addr option \<Rightarrow> string \<Rightarrow> srv_st \<Rightarrow> fault + srv_st" where
  "store_block p d s =
     (case p of
        None \<Rightarrow> Inl NullDeref
      | Some b \<Rightarrow>
          and_then (block_of p s) (\<lambda>old.
          if length d = length old then Inr (fst s, (snd s)\<lparr>sv_bufs := (sv_bufs (snd s))(b \<mapsto> d)\<rparr>)
          else Inl OutOfRange))"

definition free_block :: "addr option \<Rightarrow> srv_st \<Rightarrow> fault + srv_st" where
  "free_block p s =
     (case p of
        None \<Rightarrow> Inr s
      | Some b \<Rightarrow>
          if b \<in> set (freed_bufs (fst s)) \<or> sv_bufs (snd s) b = None then Inl DoubleFree
          else Inr (fst s, (snd s)\<lparr>sv_bufs := (sv_bufs (snd s))(b := None)\<rparr>))"

text \<open>The C string at the start of a block.\<close>

definition str_of :: "addr option \<Rightarrow> srv_st \<Rightarrow> fault + string" where
  "str_of p s = and_then (block_of p s) (\<lambda>buf. c_str buf 0)"

text \<open>\<open>~charn\<close>, and \<open>delete pk\<close>: the members go in the reverse order of their declaration.\<close>

definition charn_delete :: "charn \<Rightarrow> srv_st \<Rightarrow> fault + srv_st" where
  "charn_delete c s = (if ch_p c \<noteq> None \<and> \<not> ch_cached c then free_block (ch_p c) s else Inr s)"

fun charns_delete :: "charn list \<Rightarrow> srv_st \<Rightarrow> fault + srv_st" where
  "charns_delete [] s = Inr s"
| "charns_delete (c # cs) s = and_then (charn_delete c s) (charns_delete cs)"

definition close_fd :: "srv_sys \<Rightarrow> c_int \<Rightarrow> srv_st \<Rightarrow> c_int \<times> srv_st" where
  "close_fd E fd s =
     (env_close E fd, if sint (env_close E fd) < 0 then s else (fst s, (snd s)\<lparr>sv_fds := sv_fds (snd s) - {fd}\<rparr>))"

definition open_fd :: "c_int \<Rightarrow> srv_st \<Rightarrow> srv_st" where
  "open_fd fd s = (if sint fd < 0 then s else (fst s, (snd s)\<lparr>sv_fds := insert fd (sv_fds (snd s))\<rparr>))"

definition delete_pkg :: "srv_sys \<Rightarrow> addr \<Rightarrow> srv_st \<Rightarrow> fault + srv_st" where
  "delete_pkg E pk s =
     and_then (pkg_of pk s) (\<lambda>p.
     let s = (if hfd p \<noteq> - 1 then snd (close_fd E (hfd p) s) else s) in
     and_then (charns_delete [bodykey p, cbody p, headkey p, chead p, pk_host p, pk_uri p, pk_met p, pk_ver p] s) (\<lambda>s.
     Inr (fst s, (snd s)\<lparr>sv_pkgs := (sv_pkgs (snd s))(pk := None)\<rparr>)))"

text \<open>\<open>new Conn(cn)\<close> and \<open>delete cn\<close>.\<close>

definition Conn :: "addr option \<Rightarrow> srv_st \<Rightarrow> fault + (addr \<times> srv_st)" where
  "Conn cn s =
     (let a = sv_next (snd s);
          new = (\<lambda>s. (fst s, (snd s)\<lparr>sv_conns := (sv_conns (snd s))(a \<mapsto> \<lparr>cst = None, cfd = None, csa = None, cpp = cn, nc = 0\<rparr>),
                                      sv_next := Suc a\<rparr>))
      in case cn of
           None \<Rightarrow> Inr (a, new s)
         | Some parent \<Rightarrow>
             and_then (conn_of parent s) (\<lambda>c. Inr (a, new (store_conn parent (c\<lparr>nc := nc c + 1\<rparr>) s))))"

definition delete_conn :: "addr \<Rightarrow> srv_st \<Rightarrow> fault + srv_st" where
  "delete_conn cn s =
     and_then (conn_of cn s) (\<lambda>c.
     let remove = (\<lambda>s. (fst s, (snd s)\<lparr>sv_conns := (sv_conns (snd s))(cn := None)\<rparr>)) in
     case cpp c of
       None \<Rightarrow> Inr (remove s)
     | Some parent \<Rightarrow>
         and_then (conn_of parent s) (\<lambda>q. Inr (remove (store_conn parent (q\<lparr>nc := nc q - 1\<rparr>) s))))"

text \<open>
  \<open>Dispatcher::instance()->enqueue(new UnitTask(...))\<close>; \<open>enqueueTask\<close> returns true.
\<close>

definition srv_enqueue :: "srv_task \<Rightarrow> task_group_id \<Rightarrow> srv_st \<Rightarrow> bool \<times> srv_st" where
  "srv_enqueue t i s = (True, fst s, (snd s)\<lparr>sv_aio := enqueue_task (ClientTask t) i (sv_aio (snd s))\<rparr>)"

text \<open>
  What the kernel has done when an operation is found complete: the bytes that were read are in
  the buffer, the bytes that were written have left it.
\<close>

definition deliver :: "srv_sys \<Rightarrow> addr \<Rightarrow> aio_func \<Rightarrow> c_int \<Rightarrow> addr option \<Rightarrow> srv_st \<Rightarrow> fault + srv_st" where
  "deliver E a f fd buf s =
     (if sys_error (env_aio E) a = 0 then
        and_then (block_of buf s) (\<lambda>d.
        case f of
          AioRead \<Rightarrow> store_block buf (take (length d) (env_data E a @ drop (length (env_data E a)) d)) s
        | AioWrite \<Rightarrow>
            Inr (fst s, (snd s)\<lparr>sv_out := sv_out (snd s) @ [(fd, take (unat (sys_return (env_aio E) a)) d)]\<rparr>))
      else Inr s)"

text \<open>\<open>aio_read\<close> and \<open>aio_write\<close> with a new callback. The callers ignore the result.\<close>

definition srv_aio ::
  "srv_sys \<Rightarrow> aio_func \<Rightarrow> c_int \<Rightarrow> addr option \<Rightarrow> size_t \<Rightarrow> off_t \<Rightarrow> srv_ok \<Rightarrow> srv_err \<Rightarrow> task_group_id \<Rightarrow> srv_st
     \<Rightarrow> fault + srv_st" where
  "srv_aio E f fd buf len offset ok err i s =
     (let (p, A) = new_io_callback (IOCallback_id (Some ok) (Some err) i) (sv_aio (snd s));
          cb = \<lparr>cb_func = f, cb_fildes = fd, cb_buf = buf, cb_nbytes = len, cb_offset = offset, cb_sival_ptr = None\<rparr>
      in and_then (if 0 \<le> sint (fst (sys_submit (env_aio E) f cb)) then deliver E (aio_next A) f fd buf s else Inr s) (\<lambda>s.
         and_then
           (case f of
              AioRead \<Rightarrow> wrap_aio_read False (env_aio E) fd buf len offset (Some p) A
            | AioWrite \<Rightarrow> wrap_aio_write False (env_aio E) fd buf len offset (Some p) A) (\<lambda>(nret, A).
         Inr (fst s, (snd s)\<lparr>sv_aio := A\<rparr>))))"

text \<open>\<open>new CacheCallback(...)\<close>.\<close>

definition new_cache_cb :: "srv_cb \<Rightarrow> srv_st \<Rightarrow> addr \<times> srv_st" where
  "new_cache_cb cb s = (let (a, c) = new_callback cb (fst s) in (a, c, snd s))"

text \<open>An operating system for examples: it takes every operation and never finishes one.\<close>

definition idle_sys :: srv_sys where
  "idle_sys = \<lparr>env_aio = \<lparr>sys_submit = (\<lambda>_ _. (0, 0)), sys_error = (\<lambda>_. EINPROGRESS), sys_return = (\<lambda>_. 0)\<rparr>,
     env_data = (\<lambda>_. []), env_open = (\<lambda>_. 9), env_fstat = (\<lambda>_. Some (3, 77)), env_time = 78, env_date = (\<lambda>_. ''day''),
     env_close = (\<lambda>_. 0), env_junk = (\<lambda>_ _. CHR ''j''), env_socket = 3, env_bind = (\<lambda>_ _. 0), env_listen = (\<lambda>_. 0),
     env_accept = (\<lambda>_. 5), env_rcvtimeo = (\<lambda>_. 0), env_connect = (\<lambda>_ _. 0)\<rparr>"

end
