(* ===== verification/HttpServer.thy ===== *)
theory HttpServer
  imports HttpState
begin

text \<open>
  The operations of \<open>svr_tcp_ip.cc\<close>, \<open>svr_http.cc\<close> and \<open>websvrd.cc\<close>. A handler gets the answers of
  the operating system \<open>E\<close> and the state, and faults or returns its error code and the new state.
  Handlers that use the cache get \<open>call\<close>, which runs a callback of the cache: \<open>run_cb\<close> ties the
  knot with fuel, and \<open>srv_call\<close> is what the server runs with. Arguments that a handler only
  prints are left out.
\<close>

section \<open>Connections\<close>

text \<open>\<open>htons(8080)\<close> on the little-endian targets of the makefiles.\<close>

definition SVR_PORT :: "16 word" where "SVR_PORT = 36895"
definition AF_INET :: "16 word" where "AF_INET = 2"

definition socketSetBlockingAndTimeout :: "srv_sys \<Rightarrow> c_int \<Rightarrow> c_int" where
  "socketSetBlockingAndTimeout E sockfd = (if sint (env_rcvtimeo E sockfd) < 0 then - 1 else 0)"

definition svr_conn_listen :: "srv_sys \<Rightarrow> addr \<Rightarrow> srv_st \<Rightarrow> fault + (err_conn \<times> srv_st)" where
  "svr_conn_listen E cn s =
     (let listenfd = env_socket E;
          s = open_fd listenfd s;
          servaddr = \<lparr>sin_family = AF_INET, sin_port = SVR_PORT, sin_addr = 0\<rparr>
      in if sint listenfd < 0 then Inr (ERRCONN_CR, s)
         else if sint (env_bind E listenfd servaddr) < 0 then Inr (ERRCONN_BI, snd (close_fd E listenfd s))
         else if sint (env_listen E listenfd) < 0 then Inr (ERRCONN_LI, s)
         else and_then (conn_of cn s) (\<lambda>c.
           Inr (ERRCONN_OK,
             store_conn cn (c\<lparr>cst := Some CS_LISTENING, cfd := Some listenfd, csa := Some servaddr, cpp := None\<rparr>) s)))"

definition svr_conn_connect :: "srv_sys \<Rightarrow> addr option \<Rightarrow> srv_st \<Rightarrow> fault + (err_conn \<times> srv_st)" where
  "svr_conn_connect E pn s =
     (case pn of
        None \<Rightarrow> Inr (ERRCONN_CO, s)
      | Some pn \<Rightarrow>
          and_then (conn_of pn s) (\<lambda>c.
          and_then (known (cfd c)) (\<lambda>fd.
          and_then (known (csa c)) (\<lambda>sa.
          if sint (env_connect E fd sa) < 0
          then Inr (ERRCONN_CO, store_conn pn (c\<lparr>cst := Some CS_CONNECTING\<rparr>) s)
          else Inr (ERRCONN_OK, store_conn pn (c\<lparr>cst := Some CS_CONNECTED\<rparr>) s)))))"

definition svr_conn_close :: "srv_sys \<Rightarrow> addr \<Rightarrow> srv_st \<Rightarrow> fault + (err_conn \<times> srv_st)" where
  "svr_conn_close E cn s =
     and_then (cfd_of cn s) (\<lambda>connfd.
     let (ret, s) = close_fd E connfd s in
     if sint ret < 0 then Inr (ERRCONN_CL, s)
     else and_then (conn_of cn s) (\<lambda>c.
          and_then (delete_conn cn (store_conn cn (c\<lparr>cst := Some CS_CLOSED\<rparr>) s)) (\<lambda>s.
          Inr (ERRCONN_OK, s))))"

definition set_cst :: "addr \<Rightarrow> conn_st \<Rightarrow> srv_st \<Rightarrow> fault + srv_st" where
  "set_cst cn st s = and_then (conn_of cn s) (\<lambda>c. Inr (store_conn cn (c\<lparr>cst := Some st\<rparr>) s))"

section \<open>The end of a package\<close>

definition svr_http_final :: "srv_sys \<Rightarrow> addr \<Rightarrow> srv_st \<Rightarrow> fault + (err_http \<times> srv_st)" where
  "svr_http_final E pk s =
     and_then (pkg_of pk s) (\<lambda>p.
     and_then (delete_pkg E pk s) (\<lambda>s.
     case ppg p of
       None \<Rightarrow> and_then (svr_conn_close E (cpn p) s) (\<lambda>(_, s). Inr (EHTTP_FINAL, s))
     | Some park \<Rightarrow>
         (case nsg p of
            None \<Rightarrow>
              and_then (pkg_of park s) (\<lambda>q.
              let (bret, s) = srv_enqueue (ReadTask park) ReadTaskID (store_pkg park (q\<lparr>lcg := None\<rparr>) s) in
              and_then (c_assert bret) (\<lambda>_. Inr (EHTTP_FINAL, s)))
          | Some fget \<Rightarrow>
              \<comment> \<open>\<open>enqueue\<close> returns true, so the branch that finishes \<open>fget\<close> at once is not taken\<close>
              let (bret, s) = srv_enqueue (FetchTask fget) CacheTaskID s in Inr (EHTTP_FINAL, s))))"

text \<open>An operation has failed, or the peer has closed: the state of the connection moves on.\<close>

definition svr_http_final_aio :: "srv_sys \<Rightarrow> srv_call \<Rightarrow> addr \<Rightarrow> srv_st \<Rightarrow> fault + (err_http \<times> srv_st)" where
  "svr_http_final_aio E call pk s =
     and_then (pkg_of pk s) (\<lambda>p.
     and_then (cst_of (cpn p) s) (\<lambda>st.
     and_then (c_assert (st \<noteq> CS_CLOSING)) (\<lambda>_.
     if hst p = HS_READING \<or> hst p = HS_PARSING then
       and_then (set_cst (cpn p) (if st = CS_CLOSING_W then CS_CLOSING else CS_CLOSING_R) s) (svr_http_final E pk)
     else if hst p = HS_WRITING \<or> hst p = HS_FETCHING then
       and_then (set_cst (cpn p) (if st = CS_CLOSING_R then CS_CLOSING else CS_CLOSING_W) s) (\<lambda>s.
       and_then (known (wst p)) (\<lambda>w.
       if hst p = HS_FETCHING \<and> w = WS_BODY then
         and_then (str_of (ch_p (bodykey p)) s) (\<lambda>key.
         and_then (Cache_cancelReservation call key s) (\<lambda>(_, s).
         Inr (EHTTP_FINAL, s)))
       else
         and_then
           (if hst p = HS_WRITING \<and> w = WS_HEAD then
              and_then (c_assert (ch_p (headkey p) \<noteq> None)) (\<lambda>_.
              and_then (str_of (ch_p (headkey p)) s) (\<lambda>key.
              and_then (Cache_doneWith key (fst s)) (\<lambda>c. Inr (c, snd s))))
            else if hst p = HS_WRITING \<and> w = WS_BODY then
              and_then (c_assert (ch_p (bodykey p) \<noteq> None)) (\<lambda>_.
              and_then (str_of (ch_p (bodykey p)) s) (\<lambda>key.
              and_then (Cache_doneWith key (fst s)) (\<lambda>c. Inr (c, snd s))))
            else Inr s)
           (svr_http_final E pk)))
     else svr_http_final E pk s)))"

definition closing :: "conn_st \<Rightarrow> bool" where
  "closing st \<longleftrightarrow> st = CS_CLOSING \<or> st = CS_CLOSING_W"

section \<open>Reading and parsing\<close>

definition svr_http_read :: "srv_sys \<Rightarrow> addr \<Rightarrow> srv_st \<Rightarrow> fault + (err_http \<times> srv_st)" where
  "svr_http_read E pk s =
     and_then (pkg_of pk s) (\<lambda>p.
     and_then (cst_of (cpn p) s) (\<lambda>st.
     if st = CS_CLOSING \<or> st = CS_CLOSING_R then svr_http_final E pk s
     else
       let p = p\<lparr>hst := HS_READING\<rparr>;
           (p, s) = (if ch_p (chead p) = None
                     then let (b, s) = malloc E MAXRH s in (p\<lparr>chead := (chead p)\<lparr>ch_p := Some b, ch_n := 0\<rparr>\<rparr>, s)
                     else (p, s));
           s = store_pkg pk p s
       in and_then (store_block (ch_p (chead p)) (replicate MAXRH NUL) s) (\<lambda>s.
          and_then (cfd_of (cpn p) s) (\<lambda>fd.
          and_then (srv_aio E AioRead fd (ch_p (chead p)) (of_nat (MAXRH - 1)) 0 (ParseAio pk) (FinalAio pk) ReadTaskID s) (\<lambda>s.
          Inr (EHTTP_OK, s))))))"

text \<open>One GET of the request becomes a child of \<open>pk\<close>, behind the children that are there.\<close>

definition new_charn :: "string option \<Rightarrow> srv_st \<Rightarrow> charn \<times> srv_st" where
  "new_charn d s =
     (case d of
        None \<Rightarrow> (charn_new, s)
      | Some d \<Rightarrow> let (b, s) = new_block (d @ [NUL]) s in (\<lparr>ch_p = Some b, ch_n = of_nat (length d), ch_cached = False\<rparr>, s))"

definition add_get :: "addr \<Rightarrow> request \<Rightarrow> addr option \<Rightarrow> srv_st \<Rightarrow> fault + (addr option \<times> srv_st)" where
  "add_get pk r fget s =
     and_then (pkg_of pk s) (\<lambda>p.
     let (gk, s) = new_pkg (HPKG (cpn p)) s;
         (met, s) = new_charn (Some ''GET'') s;
         (uri, s) = new_charn (fst r) s;
         (ver, s) = new_charn (snd r) s;
         s = store_pkg gk ((HPKG (cpn p))\<lparr>pk_ver := ver, pk_met := met, pk_uri := uri, ppg := Some pk\<rparr>) s
     in case lcg p of
          None \<Rightarrow> Inr (Some gk, store_pkg pk (p\<lparr>lcg := Some gk\<rparr>) s)
        | Some lastc \<Rightarrow>
            and_then (pkg_of lastc s) (\<lambda>q.
            Inr (fget, store_pkg pk (p\<lparr>lcg := Some gk\<rparr>) (store_pkg lastc (q\<lparr>nsg := Some gk\<rparr>) s))))"

fun add_gets :: "addr \<Rightarrow> request list \<Rightarrow> addr option \<Rightarrow> srv_st \<Rightarrow> fault + (addr option \<times> srv_st)" where
  "add_gets pk [] fget s = Inr (fget, s)"
| "add_gets pk (r # rs) fget s = and_then (add_get pk r fget s) (\<lambda>(fget, s). add_gets pk rs fget s)"

definition svr_http_parse :: "srv_sys \<Rightarrow> addr \<Rightarrow> srv_st \<Rightarrow> fault + (err_http \<times> srv_st)" where
  "svr_http_parse E pk s =
     and_then (pkg_of pk s) (\<lambda>p.
     and_then (cst_of (cpn p) s) (\<lambda>st.
     if closing st then svr_http_final E pk s
     else
       let s = store_pkg pk (p\<lparr>hst := HS_PARSING\<rparr>) s; n = unat (ch_n (chead p)) in
       and_then (block_of (ch_p (chead p)) s) (\<lambda>buf.
       and_then (scan (Suc n) buf 0 n) (\<lambda>rs.
       and_then (add_gets pk rs None s) (\<lambda>(fget, s).
       let (bret, s) = (case fget of
                          Some fget \<Rightarrow> srv_enqueue (FetchTask fget) CacheTaskID s
                        | None \<Rightarrow> srv_enqueue (ReadTask pk) ReadTaskID s)
       in and_then (c_assert bret) (\<lambda>_. Inr (EHTTP_OK, s)))))))"

definition svr_http_parse_aio ::
  "srv_sys \<Rightarrow> srv_call \<Rightarrow> addr \<Rightarrow> addr option \<Rightarrow> size_t \<Rightarrow> srv_st \<Rightarrow> fault + (err_http \<times> srv_st)" where
  "svr_http_parse_aio E call pk buf nbytes s =
     and_then (pkg_of pk s) (\<lambda>p.
     and_then (c_assert (ch_p (chead p) = buf)) (\<lambda>_.
     and_then (cst_of (cpn p) s) (\<lambda>st.
     if closing st then svr_http_final E pk s
     else
       let s = store_pkg pk (p\<lparr>hst := HS_PARSING, chead := (chead p)\<lparr>ch_p := buf, ch_n := nbytes - 1\<rparr>\<rparr>) s in
       if nbytes = 0 then svr_http_final_aio E call pk s else svr_http_parse E pk s)))"

section \<open>The keys of the cache\<close>

text \<open>The block of a key, and what \<open>strncpy\<close> or \<open>snprintf\<close> leaves in it.\<close>

definition key_block :: "srv_sys \<Rightarrow> charn \<Rightarrow> srv_st \<Rightarrow> charn \<times> srv_st" where
  "key_block E k s =
     (case ch_p k of
        None \<Rightarrow>
          let (b, s) = new_block ((map (env_junk E (sv_next (snd s))) [0..<MAXKEYS])[MAXKEYS - 1 := NUL]) s
          in (k\<lparr>ch_p := Some b, ch_cached := False\<rparr>, s)
      | Some b \<Rightarrow> (k, s))"

definition body_text :: "string \<Rightarrow> off_t \<Rightarrow> string" where
  "body_text uri offset = uri @ ''#'' @ decimal (unat offset)"

text \<open>A key that is not cached is reserved, and the callback waits for it. True is a hit.\<close>

definition get_or_reserve :: "srv_call \<Rightarrow> string \<Rightarrow> srv_cb \<Rightarrow> srv_st \<Rightarrow> fault + (bool \<times> srv_st)" where
  "get_or_reserve call key cb s =
     (let (cCB, s) = new_cache_cb cb s in
      and_then (Cache_get call key (Some cCB) s) (\<lambda>(hit, s).
      if hit then Inr (True, s)
      else
        and_then (Cache_reserve key (fst s)) (\<lambda>(rsvp, c).
        and_then (c_assert rsvp) (\<lambda>_.
        let (cCB, s) = new_cache_cb cb (c, snd s) in
        and_then (Cache_get call key (Some cCB) s) (\<lambda>(iscac, s).
        and_then (c_assert iscac) (\<lambda>_. Inr (False, s)))))))"

section \<open>The body\<close>

text \<open>A block of the file was read: it goes into the cache, which serves everyone who waits for it.\<close>

definition svr_http_body_pio ::
  "srv_call \<Rightarrow> addr \<Rightarrow> addr option \<Rightarrow> size_t \<Rightarrow> srv_st \<Rightarrow> fault + (err_http \<times> srv_st)" where
  "svr_http_body_pio call pk buf nbytes s =
     and_then (pkg_of pk s) (\<lambda>p.
     and_then (str_of (ch_p (bodykey p)) s) (\<lambda>key.
     and_then (Cache_put call key buf nbytes s) (\<lambda>(iscac, s).
     and_then (c_assert iscac) (\<lambda>_.
     and_then (pkg_of pk s) (\<lambda>p.
     Inr (EHTTP_OK, store_pkg pk (p\<lparr>cbody := (cbody p)\<lparr>ch_cached := iscac\<rparr>\<rparr>) s))))))"

definition read_block :: "srv_sys \<Rightarrow> addr \<Rightarrow> srv_st \<Rightarrow> fault + (err_http \<times> srv_st)" where
  "read_block E pk s =
     and_then (pkg_of pk s) (\<lambda>p.
     let (b, s) = malloc E MAXWB s; p = p\<lparr>cbody := (cbody p)\<lparr>ch_p := Some b\<rparr>\<rparr> in
     and_then (if hfd p = - 1
               then and_then (str_of (ch_p (pk_uri p)) s) (\<lambda>uri.
                    Inr (p\<lparr>hfd := env_open E uri\<rparr>, open_fd (env_open E uri) s))
               else Inr (p, s)) (\<lambda>(p, s).
     and_then (srv_aio E AioRead (hfd p) (Some b) (of_nat MAXWB) (tr_offset p) (BodyPio pk) (FinalAio pk) CacheTaskID
                 (store_pkg pk p s)) (\<lambda>s.
     Inr (EHTTP_OK, s))))"

definition svr_http_body :: "srv_sys \<Rightarrow> srv_call \<Rightarrow> addr \<Rightarrow> srv_st \<Rightarrow> fault + (err_http \<times> srv_st)" where
  "svr_http_body E call pk s =
     and_then (pkg_of pk s) (\<lambda>p.
     let p = p\<lparr>hst := HS_FETCHING, wst := Some WS_BODY\<rparr>; s = store_pkg pk p s in
     and_then (cst_of (cpn p) s) (\<lambda>st.
     if closing st then svr_http_final E pk s
     else
       let (k, s) = key_block E (bodykey p) s in
       and_then (str_of (ch_p (pk_uri p)) s) (\<lambda>uri.
       let text = body_text uri (tr_offset p) in
       and_then (block_of (ch_p k) s) (\<lambda>old.
       and_then (store_block (ch_p k) (snprintf old MAXKEYS text) s) (\<lambda>s.
       let s = store_pkg pk (p\<lparr>bodykey := k\<lparr>ch_n := of_nat (length text)\<rparr>\<rparr>) s in
       and_then (str_of (ch_p k) s) (\<lambda>key.
       and_then (get_or_reserve call key (BodyWio pk) s) (\<lambda>(hit, s).
       if hit then Inr (EHTTP_OK, s) else read_block E pk s)))))))"

text \<open>A block is there: it is written to the peer.\<close>

definition svr_http_body_wio ::
  "srv_sys \<Rightarrow> srv_call \<Rightarrow> addr \<Rightarrow> cache_data \<Rightarrow> srv_st \<Rightarrow> fault + (err_http \<times> srv_st)" where
  "svr_http_body_wio E call pk cd s =
     and_then (pkg_of pk s) (\<lambda>p.
     if cd_data cd = None then svr_http_final E pk s
     else
       and_then (cst_of (cpn p) s) (\<lambda>st.
       if closing st then svr_http_final_aio E call pk s
       else
         and_then (cfd_of (cpn p) s) (\<lambda>fd.
         and_then (srv_aio E AioWrite fd (cd_data cd) (cd_size cd) 0 (BodyRio pk) (FinalAio pk) CacheTaskID
                     (store_pkg pk (p\<lparr>hst := HS_WRITING, wst := Some WS_BODY\<rparr>) s)) (\<lambda>s.
         Inr (EHTTP_OK, s)))))"

text \<open>A block is written: on to the next one, until the file ends.\<close>

definition svr_http_body_rio ::
  "srv_sys \<Rightarrow> srv_call \<Rightarrow> addr \<Rightarrow> size_t \<Rightarrow> srv_st \<Rightarrow> fault + (err_http \<times> srv_st)" where
  "svr_http_body_rio E call pk nbytes s =
     and_then (pkg_of pk s) (\<lambda>p.
     and_then (known (wst p)) (\<lambda>w.
     if w = WS_BODY then
       and_then
         (if ch_p (bodykey p) \<noteq> None then
            and_then (str_of (ch_p (bodykey p)) s) (\<lambda>key.
            and_then (Cache_doneWith key (fst s)) (\<lambda>c. Inr (c, snd s)))
          else Inr s) (\<lambda>s.
       if nbytes > 0 then svr_http_body E call pk (store_pkg pk (p\<lparr>tr_offset := tr_offset p + nbytes\<rparr>) s)
       else svr_http_final E pk (store_pkg pk (p\<lparr>wst := Some WS_UNO\<rparr>) s))
     else svr_http_final E pk s))"

section \<open>The header\<close>

definition svr_http_header_to_body_aio ::
  "srv_sys \<Rightarrow> srv_call \<Rightarrow> addr \<Rightarrow> srv_st \<Rightarrow> fault + (err_http \<times> srv_st)" where
  "svr_http_header_to_body_aio E call pk s =
     and_then (pkg_of pk s) (\<lambda>p.
     let s = store_pkg pk (p\<lparr>hst := HS_UNKNOWN, wst := Some WS_HEAD\<rparr>) s in
     and_then (known (hsn p)) (\<lambda>sn.
     if sn = N_200 then svr_http_body E call pk s else svr_http_final E pk s))"

definition svr_http_header_wio :: "srv_sys \<Rightarrow> addr \<Rightarrow> cache_data \<Rightarrow> srv_st \<Rightarrow> fault + (err_http \<times> srv_st)" where
  "svr_http_header_wio E pk cd s =
     and_then (pkg_of pk s) (\<lambda>p.
     let p = p\<lparr>hst := HS_WRITING, wst := Some WS_HEAD\<rparr>; s = store_pkg pk p s in
     and_then (cst_of (cpn p) s) (\<lambda>st.
     if closing st then svr_http_final E pk s
     else
       and_then (block_of (cd_data cd) s) (\<lambda>buf.
       and_then (strncmp_eq buf 9 ''200'') (\<lambda>ok.
       and_then (if ok then Inr N_200
                 else and_then (strncmp_eq buf 9 ''404'') (\<lambda>missing. Inr (if missing then N_404 else N_UNO))) (\<lambda>sn.
       and_then (cfd_of (cpn p) s) (\<lambda>fd.
       and_then (srv_aio E AioWrite fd (cd_data cd) (cd_size cd) 0 (HeaderToBody pk) (FinalAio pk) CacheTaskID
                   (store_pkg pk (p\<lparr>hsn := Some sn\<rparr>) s)) (\<lambda>s.
       Inr (EHTTP_OK, s))))))))"

text \<open>The text of the two replies that are cached. \<open>strftime\<close> has made the dates.\<close>

definition header_404 :: "nat \<Rightarrow> string" where
  "header_404 v = sline_404 ! v @ CRLF @ CRLF"

definition header_200 :: "nat \<Rightarrow> string \<Rightarrow> string \<Rightarrow> size_t \<Rightarrow> string" where
  "header_200 v datestr lastmod nbytes =
     sline_200 ! v @ CRLF @ ''Date: '' @ datestr @ CRLF @ ''Server: '' @ websvrd @ CRLF @
     ''Last-Modified: '' @ lastmod @ CRLF @ ''Content-Type: '' @ ''text/plain'' @ CRLF @
     ''Content-Length: '' @ decimal (unat nbytes) @ CRLF @ CRLF"

text \<open>\<open>malloc(n)\<close> and \<open>snprintf(p, k, ...)\<close> into it.\<close>

definition print_block :: "srv_sys \<Rightarrow> nat \<Rightarrow> nat \<Rightarrow> string \<Rightarrow> srv_st \<Rightarrow> charn \<times> srv_st" where
  "print_block E n k text s =
     (let (b, s) = new_block (snprintf (map (env_junk E (sv_next (snd s))) [0..<n]) k text) s
      in (\<lparr>ch_p = Some b, ch_n = of_nat (length text), ch_cached = False\<rparr>, s))"

definition put_header :: "srv_call \<Rightarrow> addr \<Rightarrow> hpkg \<Rightarrow> srv_st \<Rightarrow> fault + (err_http \<times> srv_st)" where
  "put_header call pk p s =
     and_then (str_of (ch_p (headkey p)) s) (\<lambda>key.
     and_then (Cache_put call key (ch_p (chead p)) (ch_n (chead p)) (store_pkg pk p s)) (\<lambda>(isput, s).
     and_then (c_assert isput) (\<lambda>_.
     and_then (pkg_of pk s) (\<lambda>p.
     Inr (EHTTP_OK, store_pkg pk (p\<lparr>chead := (chead p)\<lparr>ch_cached := isput\<rparr>\<rparr>) s)))))"

definition svr_http_header_rio :: "srv_sys \<Rightarrow> srv_call \<Rightarrow> addr \<Rightarrow> srv_st \<Rightarrow> fault + (err_http \<times> srv_st)" where
  "svr_http_header_rio E call pk s =
     and_then (pkg_of pk s) (\<lambda>p.
     let p = p\<lparr>hst := HS_FETCHING, wst := Some WS_HEAD\<rparr> in
     and_then (if hfd p = - 1
               then and_then (str_of (ch_p (pk_uri p)) s) (\<lambda>uri. Inr (p\<lparr>hfd := env_open E uri\<rparr>, open_fd (env_open E uri) s))
               else Inr (p, s)) (\<lambda>(p, s).
     if sint (hfd p) < 0 then
       let text = header_404 (vern p);
           (head, s) = print_block E (length text + 1) (length text + 1) text s
       in put_header call pk (p\<lparr>hsn := Some N_404, chead := head\<lparr>ch_cached := ch_cached (chead p)\<rparr>\<rparr>) s
     else
       and_then (known (env_fstat E (hfd p))) (\<lambda>(st_size, st_mtime).
       and_then (c_assert (ch_p (chead p) = None)) (\<lambda>_.
       let text = header_200 (vern p) (env_date E (env_time E)) (env_date E st_mtime) st_size;
           (head, s) = print_block E MAXWH (MAXWH - 1) text s
       in put_header call pk
            (p\<lparr>hsn := Some N_200, chead := head\<lparr>ch_cached := ch_cached (chead p)\<rparr>, tr_offset := 0,
               tr_nbytes := st_size, tr_times := Some (env_time E, st_mtime)\<rparr>) s))))"

definition svr_http_header :: "srv_sys \<Rightarrow> srv_call \<Rightarrow> addr \<Rightarrow> srv_st \<Rightarrow> fault + (err_http \<times> srv_st)" where
  "svr_http_header E call pk s =
     and_then (pkg_of pk s) (\<lambda>p.
     let p = p\<lparr>hst := HS_FETCHING, wst := Some WS_HEAD\<rparr>; s = store_pkg pk p s in
     and_then (cst_of (cpn p) s) (\<lambda>st.
     if closing st then svr_http_final E pk s
     else
       let (k, s) = key_block E (headkey p) s in
       and_then (str_of (ch_p (pk_uri p)) s) (\<lambda>uri.
       and_then (block_of (ch_p k) s) (\<lambda>old.
       and_then (store_block (ch_p k) (strncpy old uri (MAXKEYS - 1)) s) (\<lambda>s.
       and_then (str_of (ch_p k) s) (\<lambda>key.
       let s = store_pkg pk (p\<lparr>headkey := k\<lparr>ch_n := of_nat (length key)\<rparr>\<rparr>) s in
       and_then (get_or_reserve call key (HeaderWio pk) s) (\<lambda>(hit, s).
       if hit then Inr (EHTTP_OK, s) else svr_http_header_rio E call pk s)))))))"

definition svr_http_write_400 :: "srv_sys \<Rightarrow> addr \<Rightarrow> srv_st \<Rightarrow> fault + (err_http \<times> srv_st)" where
  "svr_http_write_400 E pk s =
     and_then (pkg_of pk s) (\<lambda>p.
     let p = p\<lparr>hst := HS_WRITING, wst := Some WS_HEAD, hsn := Some N_400\<rparr>; s = store_pkg pk p s in
     and_then (cst_of (cpn p) s) (\<lambda>st.
     if closing st then svr_http_final E pk s
     else
       let text = sline_400 ! 1 @ CRLF @ CRLF;
           (head, s) = print_block E (length text + 1) (length text + 1) text s;
           head = head\<lparr>ch_cached := ch_cached (chead p)\<rparr>
       in and_then (cfd_of (cpn p) s) (\<lambda>fd.
          and_then (srv_aio E AioWrite fd (ch_p head) (ch_n head) 0 (BodyRio pk) (FinalAio pk) CacheTaskID
                      (store_pkg pk (p\<lparr>chead := head\<rparr>) s)) (\<lambda>s.
          Inr (EHTTP_OK, s)))))"

definition svr_http_fetch :: "srv_sys \<Rightarrow> srv_call \<Rightarrow> addr \<Rightarrow> srv_st \<Rightarrow> fault + (err_http \<times> srv_st)" where
  "svr_http_fetch E call pk s =
     and_then (pkg_of pk s) (\<lambda>p.
     and_then (cst_of (cpn p) s) (\<lambda>st.
     if closing st then svr_http_final E pk s
     else
       let p = p\<lparr>hst := HS_FETCHING, wst := Some WS_HEAD, hsn := Some N_UNO\<rparr>; s = store_pkg pk p s in
       if ch_p (pk_met p) = None \<or> ch_p (pk_ver p) = None \<or> ch_p (pk_uri p) = None then svr_http_write_400 E pk s
       else
         and_then (str_of (ch_p (pk_ver p)) s) (\<lambda>ver.
         if ver = ''HTTP/1.0'' then svr_http_header E call pk (store_pkg pk (p\<lparr>vern := 0\<rparr>) s)
         else if ver = ''HTTP/1.1'' then svr_http_header E call pk (store_pkg pk (p\<lparr>vern := 1\<rparr>) s)
         else svr_http_write_400 E pk s)))"

section \<open>Callbacks of the cache\<close>

text \<open>The server's function objects drop the error code.\<close>

definition drop_code :: "fault + (err_http \<times> srv_st) \<Rightarrow> fault + srv_st" where
  "drop_code r = and_then r (\<lambda>(_, s). Inr s)"

fun run_cb :: "nat \<Rightarrow> srv_sys \<Rightarrow> srv_call" where
  "run_cb 0 E cb cd s = Inl NoReturn"
| "run_cb (Suc fuel) E (HeaderWio pk) cd s = drop_code (svr_http_header_wio E pk cd s)"
| "run_cb (Suc fuel) E (BodyWio pk) cd s = drop_code (svr_http_body_wio E (run_cb fuel E) pk cd s)"

definition srv_call :: "srv_sys \<Rightarrow> srv_call" where "srv_call E = run_cb 2 E"

section \<open>Accepting\<close>

text \<open>The client is connected: its connection, its package, and the first read.\<close>

definition new_peer :: "srv_sys \<Rightarrow> addr \<Rightarrow> c_int \<Rightarrow> srv_st \<Rightarrow> fault + (err_conn \<times> addr option \<times> srv_st)" where
  "new_peer E cn connfd s =
     and_then (Conn (Some cn) s) (\<lambda>(pn, s).
     and_then (conn_of pn s) (\<lambda>pc.
     let s = store_conn pn (pc\<lparr>cst := Some CS_CONNECTED, cfd := Some connfd\<rparr>) s;
         (pk, s) = new_pkg (HPKG pn) s
     in and_then (svr_http_read E pk s) (\<lambda>(err, s).
        Inr (if err = EHTTP_READ then ERRCONN_AC else ERRCONN_OK, Some pn, s))))"

text \<open>\<open>None\<close> when the pool is full: the code sleeps until a connection is gone.\<close>

definition svr_conn_accept ::
  "srv_sys \<Rightarrow> addr option \<Rightarrow> srv_st \<Rightarrow> (fault + (err_conn \<times> addr option \<times> srv_st)) option" where
  "svr_conn_accept E cn s =
     (case cn of
        None \<Rightarrow> Some (Inr (ERRCONN_AC, None, s))
      | Some cn \<Rightarrow>
          (case and_then (conn_of cn s) (\<lambda>c. and_then (known (cst c)) (\<lambda>st. Inr (c, st))) of
             Inl f \<Rightarrow> Some (Inl f)
           | Inr (c, st) \<Rightarrow>
               if st \<noteq> CS_LISTENING then Some (Inr (ERRCONN_AC, None, s))
               else if nc c > MaxACCEPT then None
               else Some (
                 and_then (known (cfd c)) (\<lambda>lfd.
                 let connfd = env_accept E lfd; s = open_fd connfd s in
                 if sint connfd < 0 then Inr (ERRCONN_AC, None, s)
                 else if sint (socketSetBlockingAndTimeout E connfd) < 0 then Inr (ERRCONN_AC, None, s)
                 else new_peer E cn connfd s))))"

section \<open>The server\<close>

text \<open>
  \<open>svr_start\<close> up to its loop: the result of \<open>svr_conn_listen\<close> is compared with \<open>< 0\<close>, which no value
  of the enumeration is, so \<open>svr_stop\<close> is not called.
\<close>

definition srv_new :: srv_st where
  "srv_new = (Cache_new MAXCSIZE,
     \<lparr>sv_pkgs = Map.empty, sv_conns = Map.empty, sv_bufs = Map.empty, sv_next = 0, sv_fds = {},
      sv_aio = aio_new, sv_out = []\<rparr>)"

definition svr_start :: "srv_sys \<Rightarrow> fault + (addr \<times> srv_st)" where
  "svr_start E =
     and_then (Conn None srv_new) (\<lambda>(svrC, s).
     and_then (svr_conn_listen E svrC s) (\<lambda>(err, s).
     Inr (svrC, s)))"

definition svr_stop :: "srv_sys \<Rightarrow> addr option \<Rightarrow> srv_st \<Rightarrow> fault + srv_st" where
  "svr_stop E svrC s =
     (case svrC of None \<Rightarrow> Inr s | Some svrC \<Rightarrow> and_then (svr_conn_close E svrC s) (\<lambda>(_, s). Inr s))"

text \<open>The dispatcher's thread runs the front task.\<close>

definition run_task :: "srv_sys \<Rightarrow> (srv_ok, srv_err, srv_task) task \<Rightarrow> srv_st \<Rightarrow> fault + srv_st" where
  "run_task E t s =
     (case t of
        CheckTask a callback \<Rightarrow>
          and_then (deref (aio_cbs (sv_aio (snd s))) a) (\<lambda>cb.
          and_then (deliver E a (cb_func cb) (cb_fildes cb) (cb_buf cb) s) (\<lambda>s.
          and_then (checkIOProgress (env_aio E) a callback (sv_aio (snd s))) (\<lambda>A.
          Inr (fst s, (snd s)\<lparr>sv_aio := A\<rparr>))))
      | OkTask ok fd buf nbytes \<Rightarrow>
          drop_code (case ok of
            ParseAio pk \<Rightarrow> svr_http_parse_aio E (srv_call E) pk buf nbytes s
          | HeaderToBody pk \<Rightarrow> svr_http_header_to_body_aio E (srv_call E) pk s
          | BodyRio pk \<Rightarrow> svr_http_body_rio E (srv_call E) pk nbytes s
          | BodyPio pk \<Rightarrow> svr_http_body_pio (srv_call E) pk buf nbytes s)
      | ErrTask err fd errcode \<Rightarrow>
          drop_code (case err of FinalAio pk \<Rightarrow> svr_http_final_aio E (srv_call E) pk s)
      | ClientTask t \<Rightarrow>
          drop_code (case t of
            ReadTask pk \<Rightarrow> svr_http_read E pk s
          | FetchTask pk \<Rightarrow> svr_http_fetch E (srv_call E) pk s))"

definition srv_step :: "srv_sys \<Rightarrow> srv_st \<Rightarrow> (fault + srv_st) option" where
  "srv_step E s =
     (case aio_queue (sv_aio (snd s)) of
        [] \<Rightarrow> None
      | ut # q \<Rightarrow> Some (run_task E (ut_task ut) (fst s, (snd s)\<lparr>sv_aio := (sv_aio (snd s))\<lparr>aio_queue := q\<rparr>\<rparr>)))"

text \<open>Every run of the server: its two threads in any order, the operating system free to answer.\<close>

inductive srv_reach :: "addr \<Rightarrow> srv_st \<Rightarrow> bool" for svrC where
  start: "svr_start E = Inr (svrC, s) \<Longrightarrow> srv_reach svrC s"
| accept: "srv_reach svrC s \<Longrightarrow> svr_conn_accept E (Some svrC) s = Some (Inr (err, peer, s')) \<Longrightarrow> srv_reach svrC s'"
| run: "srv_reach svrC s \<Longrightarrow> srv_step E s = Some (Inr s') \<Longrightarrow> srv_reach svrC s'"

end
