(* ===== verification/HttpReply.thy ===== *)
theory HttpReply
  imports HttpServer
begin

text \<open>
  What the server prints: the keys under which headers and blocks are cached, and the two
  cached replies, which the server reads back to learn the status of a page.
\<close>

section \<open>Numbers\<close>

definition undecimal :: "string \<Rightarrow> nat" where
  "undecimal s = foldl (\<lambda>a c. 10 * a + (of_char c - 48)) 0 s"

lemma digit: "d < 10 \<Longrightarrow> of_char (char_of (48 + d) :: char) = 48 + (d :: nat)"
  by simp

lemma undecimal_decimal: "undecimal (decimal n) = n"
proof (induction n rule: decimal.induct)
  case (1 n)
  show ?case
  proof (cases "n < 10")
    case True
    then show ?thesis using digit [of n] by (simp add: decimal.simps [of n] undecimal_def)
  next
    case False
    then show ?thesis using 1 digit [of "n mod 10"] by (simp add: decimal.simps [of n] undecimal_def)
  qed
qed

lemma decimal_inj: "decimal m = decimal n \<longleftrightarrow> m = n"
  using undecimal_decimal by metis

lemma digit_neq: "d < 10 \<Longrightarrow> char_of (48 + d) \<noteq> NUL \<and> char_of (48 + d) \<noteq> CHR ''#'' \<and> char_of (48 + d) \<noteq> CHR 0x0D" for d :: nat
proof -
  assume "d < 10"
  then have "d \<in> {0,1,2,3,4,5,6,7,8,9}" by auto
  then show ?thesis by (auto simp: NUL_def char_of_def)
qed

lemma decimal_chars: "NUL \<notin> set (decimal n) \<and> CHR ''#'' \<notin> set (decimal n) \<and> CHR 0x0D \<notin> set (decimal n)"
proof (induction n rule: decimal.induct)
  case (1 n)
  show ?case
    using 1 digit_neq [of n] digit_neq [of "n mod 10"] by (auto simp: decimal.simps [of n])
qed

section \<open>Keys\<close>

lemma c_str_strncpy:
  assumes "length old = MAXKEYS" "old ! (MAXKEYS - 1) = NUL" "NUL \<notin> set u"
  shows "c_str (strncpy old u (MAXKEYS - 1)) 0 = Inr (take (MAXKEYS - 1) u)"
proof -
  have d: "drop 255 old = [NUL]" using assms(1,2) by (simp add: MAXKEYS_def list_eq_iff_nth_eq)
  have n: "NUL \<notin> set (take 255 u)" using assms(3) by (auto dest: in_set_takeD)
  show ?thesis
  proof (cases "length u < 255")
    case True
    then have "replicate (255 - length u) NUL = NUL # replicate (254 - length u) NUL"
      by (simp flip: replicate_Suc)
    then show ?thesis
      by (intro c_str_split [of _ _ _ "replicate (254 - length u) NUL @ [NUL]"])
         (use d n True in \<open>simp_all add: strncpy_def MAXKEYS_def\<close>)
  next
    case False
    then show ?thesis
      by (intro c_str_split [of _ _ _ "[]"]) (use d n in \<open>simp_all add: strncpy_def MAXKEYS_def\<close>)
  qed
qed

lemma c_str_snprintf:
  assumes "NUL \<notin> set t"
  shows "c_str (snprintf old n t) 0 = Inr (take (n - 1) t)"
  by (rule c_str_split [of _ _ _ "drop (min (n - 1) (length t) + 1) old"])
     (use assms in \<open>auto simp: snprintf_def dest: in_set_takeD\<close>)

lemma body_text_chars: "NUL \<notin> set u \<Longrightarrow> NUL \<notin> set (body_text u n)"
  using decimal_chars [of "unat n"] by (simp add: body_text_def NUL_def)

lemma sharp_split: "CHR ''#'' \<notin> set u \<Longrightarrow> CHR ''#'' \<notin> set v \<Longrightarrow> u @ ''#'' @ x = v @ ''#'' @ y \<longleftrightarrow> u = v \<and> x = y"
proof (induction u arbitrary: v)
  case Nil
  then show ?case by (cases v) auto
next
  case (Cons a u)
  then show ?case by (cases v) auto
qed

text \<open>
  C31: The keys of the cache: the block of a header key holds the uri and that of a body key the uri,
  a \<open>#\<close> and the offset, each cut at 255 characters. For uris without \<open>#\<close> whose keys fit, keys are
  equal exactly for the same page and offset and no body key is a header key. With a \<open>#\<close> in the uri
  or a longer uri that fails: the header of one page and a block of another share an entry.
\<close>

theorem cache_keys:
  assumes "length old = MAXKEYS" "old ! (MAXKEYS - 1) = NUL" "NUL \<notin> set u" "NUL \<notin> set v"
  defines "head_key \<equiv> \<lambda>u. c_str (strncpy old u (MAXKEYS - 1)) 0"
    and "body_key \<equiv> \<lambda>u n. c_str (snprintf old MAXKEYS (body_text u n)) 0"
  shows "head_key u = Inr (take 255 u) \<and> body_key u m = Inr (take 255 (u @ ''#'' @ decimal (unat m))) \<and>
    (CHR ''#'' \<notin> set u \<and> CHR ''#'' \<notin> set v \<and> length (body_text u m) \<le> 255 \<and> length (body_text v n) \<le> 255 \<longrightarrow>
       (body_key u m = body_key v n \<longleftrightarrow> u = v \<and> m = n) \<and> (head_key u = head_key v \<longleftrightarrow> u = v) \<and>
       head_key u \<noteq> body_key v n) \<and>
    head_key (v @ ''#'' @ decimal (unat n)) = body_key v n \<and>
    (255 \<le> length v \<longrightarrow> head_key v = body_key v n)"
proof -
  have h: "head_key x = Inr (take 255 x)" if "NUL \<notin> set x" for x
    using c_str_strncpy [OF assms(1,2) that] by (simp add: head_key_def MAXKEYS_def)
  have b: "body_key x k = Inr (take 255 (body_text x k))" if "NUL \<notin> set x" for x k
    using c_str_snprintf [OF body_text_chars [OF that], of old MAXKEYS k] by (simp add: body_key_def MAXKEYS_def)
  have d: "NUL \<notin> set (v @ ''#'' @ decimal (unat n))" using body_text_chars [OF assms(4), of n] by (simp add: body_text_def)
  have s: "(body_text u m = body_text v n \<longleftrightarrow> u = v \<and> m = n) \<and> u \<noteq> body_text v n \<and> length u \<le> 255 \<and> length v \<le> 255"
    if "CHR ''#'' \<notin> set u" "CHR ''#'' \<notin> set v" "length (body_text u m) \<le> 255" "length (body_text v n) \<le> 255"
    using that sharp_split [of u v] by (auto simp: body_text_def decimal_inj intro: unsigned_word_eqI)
  show ?thesis
    using h [OF assms(3)] h [OF assms(4)] h [OF d] b [OF assms(3)] b [OF assms(4)] s
    by (auto simp: body_text_def)
qed

theorem cache_keys_witness:
  "c_str (strncpy (replicate 256 NUL) ''a#0'' 255) 0 = c_str (snprintf (replicate 256 NUL) 256 (body_text ''a'' 0)) 0"
proof -
  have "NUL \<notin> set ''b''" "NUL \<notin> set ''a''" by (simp_all add: NUL_def)
  moreover have "decimal 0 = ''0''" by code_simp
  ultimately show ?thesis
    using cache_keys [of "replicate 256 NUL" "''b''" "''a''" 0 0] by (simp add: MAXKEYS_def)
qed

section \<open>Replies\<close>

lemma strncmp_eq_take: "i + length pat \<le> length buf \<Longrightarrow> strncmp_eq buf i pat = Inr (take (length pat) (drop i buf) = pat)"
proof (induction pat arbitrary: i)
  case (Cons p pat)
  have "drop i buf = buf ! i # drop (Suc i) buf" using Cons.prems by (simp add: Cons_nth_drop_Suc)
  then show ?case using Cons.prems Cons.IH [of "Suc i"] by auto
qed simp

text \<open>Replies are shorter than their block, so the block starts with the whole text.\<close>

lemma print_block_text:
  assumes "length text < k" "k \<le> n"
  shows "\<exists>b junk s'. print_block E n k text s = (\<lparr>ch_p = Some b, ch_n = of_nat (length text), ch_cached = False\<rparr>, s') \<and>
    b = sv_next (snd s) \<and> sv_bufs (snd s') = (sv_bufs (snd s))(b \<mapsto> text @ NUL # junk) \<and>
    length (text @ NUL # junk) = n \<and> fst s' = fst s \<and> sv_pkgs (snd s') = sv_pkgs (snd s) \<and>
    sv_conns (snd s') = sv_conns (snd s) \<and> sv_aio (snd s') = sv_aio (snd s) \<and> sv_out (snd s') = sv_out (snd s) \<and>
    sv_next (snd s') = Suc (sv_next (snd s))"
  using assms
  by (intro exI [of _ "sv_next (snd s)"] exI [of _ "drop (Suc (length text)) (map (env_junk E (sv_next (snd s))) [0..<n])"])
     (simp add: print_block_def new_block_def snprintf_def Let_def)

lemma status_of_reply:
  assumes "v < 2"
  shows "strncmp_eq (header_200 v d l n @ x) 9 ''200'' = Inr True \<and>
    strncmp_eq (header_404 v @ x) 9 ''200'' = Inr False \<and> strncmp_eq (header_404 v @ x) 9 ''404'' = Inr True"
proof -
  have "v = 0 \<or> v = 1" using assms by auto
  then show ?thesis by (auto simp: header_200_def header_404_def sline_200_def sline_404_def)
qed

end
