(* ===== verification/HttpInv.thy ===== *)
theory HttpInv
  imports HttpServer
begin

text \<open>
  How invariants of the server are proved: \<open>post m Q\<close> says that whatever \<open>m\<close> returns satisfies \<open>Q\<close>,
  and the locale \<open>srv_ops\<close> asks of an invariant only that the elementary changes of the server's
  state keep it. Inside the locale every handler and every callback of the cache is shown to keep
  it; \<open>srv_inv\<close> adds the front of the queue being taken, and with it every step and every run, once
  for all the invariants of \<open>HttpConn\<close>.
\<close>

section \<open>What a computation returns\<close>

definition post :: "fault + 'a \<Rightarrow> ('a \<Rightarrow> bool) \<Rightarrow> bool" where
  "post m Q \<longleftrightarrow> (\<forall>x. m = Inr x \<longrightarrow> Q x)"

lemma post_simps [simp]:
  "post (Inl f) Q"
  "post (Inr x) Q \<longleftrightarrow> Q x"
  "post (and_then m k) Q \<longleftrightarrow> post m (\<lambda>x. post (k x) Q)"
  by (auto simp: post_def and_then_Inr_iff)

lemma post_mono: "post m P \<Longrightarrow> (\<And>x. P x \<Longrightarrow> Q x) \<Longrightarrow> post m Q"
  by (auto simp: post_def)

lemma postD: "post m Q \<Longrightarrow> m = Inr x \<Longrightarrow> Q x"
  by (simp add: post_def)

lemma post_of_read: "(\<And>x. m = Inr x \<Longrightarrow> Q x) \<Longrightarrow> post m Q"
  by (simp add: post_def)

lemma post_if: "post (if b then m else n) Q \<longleftrightarrow> (b \<longrightarrow> post m Q) \<and> (\<not> b \<longrightarrow> post n Q)"
  by simp

named_theorems post_rules

lemma post_reads [simp]:
  "post (c_assert b) Q \<longleftrightarrow> (b \<longrightarrow> Q ())"
  "post (known x) R \<longleftrightarrow> (\<forall>v. x = Some v \<longrightarrow> R v)"
  "post (deref h a) S \<longleftrightarrow> (\<forall>v. h a = Some v \<longrightarrow> S v)"
  "post (pkg_of pk s) T \<longleftrightarrow> (\<forall>p. sv_pkgs (snd s) pk = Some p \<longrightarrow> T p)"
  "post (conn_of cn s) U \<longleftrightarrow> (\<forall>c. sv_conns (snd s) cn = Some c \<longrightarrow> U c)"
  "post (cst_of cn s) V \<longleftrightarrow> (\<forall>c st. sv_conns (snd s) cn = Some c \<and> cst c = Some st \<longrightarrow> V st)"
  by (auto simp: post_def c_assert_def known_Inr_iff deref_Inr_iff pkg_of_def conn_of_def cst_of_def and_then_Inr_iff)

text \<open>Reads whose value does not matter for the state.\<close>

lemma post_strings [post_rules]:
  "(\<And>x. Q x) \<Longrightarrow> post (str_of p s) Q"
  "(\<And>x. R x) \<Longrightarrow> post (block_of p s) R"
  "(\<And>x. S x) \<Longrightarrow> post (cfd_of cn s) S"
  "(\<And>x. T x) \<Longrightarrow> post (strncmp_eq buf i pat) T"
  "(\<And>x. U x) \<Longrightarrow> post (scan n buf i j) U"
  by (simp_all add: post_def)

section \<open>The cache keeps what its callbacks keep\<close>

lemma post_invoke:
  assumes call: "\<And>cb cd s. J (snd s) \<Longrightarrow> post (call cb cd s) (\<lambda>s'. J (snd s'))" and J: "J (snd s)"
  shows "(\<And>c w. J w \<Longrightarrow> Q (c, w)) \<Longrightarrow> post (invoke call p d s) Q"
  using J by (auto simp: invoke_def split: option.splits intro!: post_mono [OF call])

lemma post_put_loop:
  assumes call: "\<And>cb cd s. J (snd s) \<Longrightarrow> post (call cb cd s) (\<lambda>s'. J (snd s'))"
  shows "J (snd s) \<Longrightarrow> post (put_loop call e d q s) (\<lambda>s'. J (snd s'))"
proof (induction q arbitrary: s)
  case (Cons p q)
  show ?case
    unfolding put_loop.simps post_simps
    by (rule post_of_read, rule post_invoke [where J = J, OF call]) (auto simp: Cons.prems intro!: post_of_read [of "delete_callback _ _"] Cons.IH)
qed simp

lemma post_cancel_loop:
  assumes call: "\<And>cb cd s. J (snd s) \<Longrightarrow> post (call cb cd s) (\<lambda>s'. J (snd s'))"
  shows "J (snd s) \<Longrightarrow> post (cancel_loop call q s) (\<lambda>s'. J (snd s'))"
proof (induction q arbitrary: s)
  case (Cons p q)
  show ?case
    unfolding cancel_loop.simps post_simps
    by (rule post_invoke [where J = J, OF call]) (auto simp: Cons.prems intro!: post_of_read [of "delete_callback _ _"] Cons.IH)
qed simp

lemma post_Cache_put:
  assumes call: "\<And>cb cd s. J (snd s) \<Longrightarrow> post (call cb cd s) (\<lambda>s'. J (snd s'))" and J: "J (snd s)"
  shows "post (Cache_put call key buf sz s) (\<lambda>x. J (snd (snd x)))"
proof -
  have loop: "post (put_loop call e d q (c, snd s)) (\<lambda>(c, w). J w)" for e d q c
    by (rule post_mono [OF post_put_loop [where J = J, OF call]]) (use J in auto)
  show ?thesis
    by (auto simp: Cache_put_def Let_def J split: prod.splits option.splits
        intro!: post_of_read [of "update_entry _ _ _"] post_mono [OF loop])
qed

lemma post_Cache_get:
  assumes call: "\<And>cb cd s. J (snd s) \<Longrightarrow> post (call cb cd s) (\<lambda>s'. J (snd s'))" and J: "J (snd s)"
  shows "post (Cache_get call key cb s) (\<lambda>x. J (snd (snd x)))"
  by (auto simp: Cache_get_def Let_def J split: option.splits
      intro!: post_of_read [of "update_entry _ _ _"] post_of_read [of "delete_callback _ _"] post_of_read [of "ff_removeNode _ _"]
        post_invoke [where J = J, OF call])

lemma post_Cache_cancel:
  assumes call: "\<And>cb cd s. J (snd s) \<Longrightarrow> post (call cb cd s) (\<lambda>s'. J (snd s'))" and J: "J (snd s)"
  shows "post (Cache_cancelReservation call key s) (\<lambda>x. J (snd (snd x)))"
proof -
  have loop: "post (cancel_loop call q (c, snd s)) (\<lambda>(c, w). J w)" for q c
    by (rule post_mono [OF post_cancel_loop [where J = J, OF call]]) (use J in auto)
  show ?thesis
    by (auto simp: Cache_cancelReservation_def Let_def J split: option.splits
        intro!: post_of_read [of "update_entry _ _ _"] post_mono [OF loop])
qed

section \<open>Frames\<close>

lemma frames [simp]:
  "fst (store_pkg pk p s) = fst s"
  "sv_pkgs (snd (store_pkg pk p s)) = (sv_pkgs (snd s))(pk \<mapsto> p)"
  "sv_conns (snd (store_pkg pk p s)) = sv_conns (snd s)"
  "sv_pkgs (snd (store_conn cn c s)) = sv_pkgs (snd s)"
  "sv_pkgs (snd (snd (malloc E n s))) = sv_pkgs (snd s)"
  "sv_conns (snd (snd (malloc E n s))) = sv_conns (snd s)"
  "sv_pkgs (snd (open_fd fd s)) = sv_pkgs (snd s)"
  "sv_conns (snd (open_fd fd s)) = sv_conns (snd s)"
  "sv_pkgs (snd (snd (close_fd E fd s))) = sv_pkgs (snd s)"
  "sv_conns (snd (snd (close_fd E fd s))) = sv_conns (snd s)"
  "sv_pkgs (snd (snd (key_block E k s))) = sv_pkgs (snd s)"
  "sv_conns (snd (snd (key_block E k s))) = sv_conns (snd s)"
  "sv_pkgs (snd (snd (print_block E n j text s))) = sv_pkgs (snd s)"
  "sv_conns (snd (snd (print_block E n j text s))) = sv_conns (snd s)"
  "sv_pkgs (snd (snd (new_charn d s))) = sv_pkgs (snd s)"
  "sv_conns (snd (snd (new_charn d s))) = sv_conns (snd s)"
  "fst (new_pkg p s) = sv_next (snd s)"
  "sv_pkgs (snd (snd (new_pkg p s))) = (sv_pkgs (snd s))(sv_next (snd s) \<mapsto> p)"
  "snd (snd (new_cache_cb cb s)) = snd s"
  "fst (srv_enqueue t i s)"
  by (simp_all add: store_pkg_def new_pkg_def store_conn_def malloc_def new_block_def open_fd_def close_fd_def key_block_def
      print_block_def new_charn_def new_cache_cb_def new_callback_def srv_enqueue_def Let_def split: option.splits)

section \<open>Invariants of the server\<close>

text \<open>
  The assumptions are the elementary changes: packages, blocks, descriptors, the three operations
  of the I/O layer, always for the task ids of the server, and what happens to a connection: an error (\<open>cst\<close>), its end (\<open>close\<close>) and a
  new one (\<open>accept\<close>). A package always belongs to a connection with a parent.
\<close>

definition after_error :: "conn_st \<Rightarrow> conn_st \<Rightarrow> bool" where
  "after_error st st' \<longleftrightarrow> st \<noteq> CS_CLOSING \<and>
     (st' = (if st = CS_CLOSING_W then CS_CLOSING else CS_CLOSING_R) \<or>
      st' = (if st = CS_CLOSING_R then CS_CLOSING else CS_CLOSING_W))"

text \<open>
  The I/O operations that the server starts: which function and length go with which completion
  callback, and that the error callback is bound to the same package.
\<close>

definition op_typed :: "aio_func \<Rightarrow> size_t \<Rightarrow> srv_ok \<Rightarrow> srv_err \<Rightarrow> bool" where
  "op_typed f len ok err \<longleftrightarrow>
     (case ok of
        ParseAio pk \<Rightarrow> f = AioRead \<and> len = of_nat (MAXRH - 1) \<and> err = FinalAio pk
      | BodyPio pk \<Rightarrow> f = AioRead \<and> len = of_nat MAXWB \<and> err = FinalAio pk
      | HeaderToBody pk \<Rightarrow> f = AioWrite \<and> err = FinalAio pk
      | BodyRio pk \<Rightarrow> f = AioWrite \<and> err = FinalAio pk)"

lemma op_typed [simp]:
  "op_typed AioRead (of_nat (MAXRH - Suc 0)) (ParseAio pk) (FinalAio pk)" "op_typed AioRead (of_nat (MAXRH - 1)) (ParseAio pk) (FinalAio pk)"
  "op_typed AioRead (of_nat MAXWB) (BodyPio pk) (FinalAio pk)"
  "op_typed AioWrite len (HeaderToBody pk) (FinalAio pk)" "op_typed AioWrite len (BodyRio pk) (FinalAio pk)"
  by (simp_all add: op_typed_def)

locale srv_ops =
  fixes I :: "srv \<Rightarrow> bool"
  assumes pkg_store: "I w \<Longrightarrow> sv_pkgs w pk = Some p0 \<Longrightarrow> cpn p = cpn p0 \<Longrightarrow> I (w\<lparr>sv_pkgs := (sv_pkgs w)(pk \<mapsto> p)\<rparr>)"
    and pkg_new: "I w \<Longrightarrow> sv_pkgs w pk = Some p0 \<Longrightarrow> cpn p = cpn p0 \<Longrightarrow>
      I (w\<lparr>sv_pkgs := (sv_pkgs w)(sv_next w \<mapsto> p), sv_next := Suc (sv_next w)\<rparr>)"
    and pkg_delete: "I w \<Longrightarrow> I (w\<lparr>sv_pkgs := (sv_pkgs w)(pk := None)\<rparr>)"
    and pkg_peer: "I w \<Longrightarrow> sv_pkgs w pk = Some p \<Longrightarrow> sv_conns w (cpn p) = Some c \<Longrightarrow>
      \<exists>parent. cpp c = Some parent \<and> parent \<noteq> cpn p"
    and conn_old: "I w \<Longrightarrow> sv_conns w cn = Some c \<Longrightarrow> cn < sv_next w"
    and block_new: "I w \<Longrightarrow> I (w\<lparr>sv_bufs := bufs, sv_next := Suc (sv_next w)\<rparr>)"
    and block: "I w \<Longrightarrow> I (w\<lparr>sv_bufs := bufs\<rparr>)"
    and fds: "I w \<Longrightarrow> I (w\<lparr>sv_fds := fds\<rparr>)"
    and out: "I w \<Longrightarrow> I (w\<lparr>sv_out := sv_out w @ [x]\<rparr>)"
    and enq: "I w \<Longrightarrow> i \<in> {CacheTaskID, ReadTaskID} \<Longrightarrow> I (w\<lparr>sv_aio := enqueue_task (ClientTask t) i (sv_aio w)\<rparr>)"
    and submitted: "I w \<Longrightarrow> i \<in> {CacheTaskID, ReadTaskID} \<Longrightarrow> ioc = IOCallback_id (Some ok) (Some err) i \<Longrightarrow> op_typed f len ok err \<Longrightarrow>
      submit False sys f fd buf len offset ioc (sv_aio w) = Inr (ret, A) \<Longrightarrow> I (w\<lparr>sv_aio := A\<rparr>)"
    and error: "I w \<Longrightarrow> sv_pkgs w pk = Some p \<Longrightarrow> sv_conns w (cpn p) = Some c \<Longrightarrow> cst c = Some st \<Longrightarrow>
      after_error st st' \<Longrightarrow> I (w\<lparr>sv_conns := (sv_conns w)(cpn p \<mapsto> c\<lparr>cst := Some st'\<rparr>)\<rparr>)"
    and close: "I w \<Longrightarrow> sv_conns w cn = Some c \<Longrightarrow> cpp c = Some parent \<Longrightarrow> sv_conns w parent = Some q \<Longrightarrow>
      parent \<noteq> cn \<Longrightarrow> I (w\<lparr>sv_conns := (sv_conns w)(parent \<mapsto> q\<lparr>nc := nc q - 1\<rparr>, cn := None)\<rparr>)"
    and accept: "I w \<Longrightarrow> sv_conns w cn = Some c \<Longrightarrow> cst c = Some CS_LISTENING \<Longrightarrow> nc c \<le> MaxACCEPT \<Longrightarrow> 0 \<le> sint fd \<Longrightarrow>
      I (w\<lparr>sv_conns := (sv_conns w)(cn \<mapsto> c\<lparr>nc := nc c + 1\<rparr>, sv_next w \<mapsto>
             \<lparr>cst = Some CS_CONNECTED, cfd = Some fd, csa = None, cpp = Some cn, nc = 0\<rparr>),
           sv_pkgs := (sv_pkgs w)(Suc (sv_next w) \<mapsto> HPKG (sv_next w)), sv_next := Suc (Suc (sv_next w))\<rparr>)"
begin

lemma keeps [simp]:
  "I (snd s) \<Longrightarrow> map_option cpn (sv_pkgs (snd s) pk) = Some (cpn p) \<Longrightarrow> I (snd (store_pkg pk p s))"
  "I (snd s) \<Longrightarrow> I (snd (snd (new_block d s)))"
  "I (snd s) \<Longrightarrow> I (snd (snd (malloc E n s)))"
  "I (snd s) \<Longrightarrow> I (snd (open_fd fd s))"
  "I (snd s) \<Longrightarrow> I (snd (snd (close_fd E fd s)))"
  "I (snd s) \<Longrightarrow> I (snd (snd (key_block E k s)))"
  "I (snd s) \<Longrightarrow> I (snd (snd (print_block E n j text s)))"
  "I (snd s) \<Longrightarrow> I (snd (snd (new_charn x s)))"
  "I (snd s) \<Longrightarrow> i \<in> {CacheTaskID, ReadTaskID} \<Longrightarrow> I (snd (snd (srv_enqueue t i s)))"
  by (auto simp: store_pkg_def malloc_def new_block_def open_fd_def close_fd_def key_block_def
      print_block_def new_charn_def srv_enqueue_def Let_def intro: pkg_store block_new fds enq split: option.splits)

lemma post_store_block:
  assumes I: "I (snd s)" and Q: "\<And>s'. I (snd s') \<Longrightarrow> sv_pkgs (snd s') = sv_pkgs (snd s) \<Longrightarrow>
    sv_conns (snd s') = sv_conns (snd s) \<Longrightarrow> sv_aio (snd s') = sv_aio (snd s) \<Longrightarrow> Q s'"
  shows "post (store_block p d s) Q"
  using I by (auto simp: store_block_def post_if intro!: Q block post_strings split: option.splits)

lemma post_charns_delete:
  "I (snd s) \<Longrightarrow>
    (\<And>s'. I (snd s') \<Longrightarrow> sv_pkgs (snd s') = sv_pkgs (snd s) \<Longrightarrow> sv_conns (snd s') = sv_conns (snd s) \<Longrightarrow> Q s') \<Longrightarrow>
    post (charns_delete cs s) Q"
proof (induction cs arbitrary: s)
  case (Cons c cs)
  have free: "post (free_block p s) Q'" if "\<And>s'. I (snd s') \<Longrightarrow> sv_pkgs (snd s') = sv_pkgs (snd s) \<Longrightarrow>
      sv_conns (snd s') = sv_conns (snd s) \<Longrightarrow> Q' s'" for p Q'
    using Cons.prems(1) by (auto simp: free_block_def post_if intro!: that block split: option.splits)
  show ?case by (auto simp: charn_delete_def post_if intro!: free Cons.IH Cons.prems)
qed simp

lemma post_delete_pkg:
  assumes "I (snd s)" and Q: "\<And>s'. I (snd s') \<Longrightarrow> sv_conns (snd s') = sv_conns (snd s) \<Longrightarrow>
    sv_pkgs (snd s') = (sv_pkgs (snd s))(pk := None) \<Longrightarrow> Q s'"
  shows "post (delete_pkg E pk s) Q"
proof -
  have removed: "I (w\<lparr>sv_pkgs := m(pk := None)\<rparr>)" if "I w" "sv_pkgs w = m" for w m
    using pkg_delete [OF that(1), of pk] that(2) by simp
  have d: "post (charns_delete cs t) (\<lambda>s'. Q (fst s', (snd s')\<lparr>sv_pkgs := (sv_pkgs (snd s'))(pk := None)\<rparr>))"
    if "I (snd t)" "sv_conns (snd t) = sv_conns (snd s)" "sv_pkgs (snd t) = sv_pkgs (snd s)" for cs t
    by (rule post_charns_delete [OF that(1)]) (auto simp: that intro!: Q removed)
  show ?thesis unfolding delete_pkg_def Let_def by (auto simp: assms simp del: charns_delete.simps intro!: d)
qed

lemma post_deliver:
  assumes I: "I (snd s)" and Q: "\<And>s'. I (snd s') \<Longrightarrow> sv_pkgs (snd s') = sv_pkgs (snd s) \<Longrightarrow>
    sv_conns (snd s') = sv_conns (snd s) \<Longrightarrow> sv_aio (snd s') = sv_aio (snd s) \<Longrightarrow> Q s'"
  shows "post (deliver E a f fd buf s) Q"
  using I by (cases f) (auto simp: deliver_def post_if intro!: Q out post_strings post_store_block)

lemma post_srv_aio:
  assumes "I (snd s)" and i: "i \<in> {CacheTaskID, ReadTaskID}" "op_typed f len ok err" and Q: "\<And>s'. I (snd s') \<Longrightarrow> sv_pkgs (snd s') = sv_pkgs (snd s) \<Longrightarrow>
    sv_conns (snd s') = sv_conns (snd s) \<Longrightarrow> Q s'"
  shows "post (srv_aio E f fd buf len offset ok err i s) Q"
proof -
  define ioc where "ioc = IOCallback_id (Some ok) (Some err) i"
  obtain p A where pA: "new_io_callback ioc (sv_aio (snd s)) = (p, A)" by fastforce
  have sub: "submit False (env_aio E) f fd buf len offset ioc (sv_aio (snd s)) =
      aioSkeletonFunction False (env_aio E) f fd buf len offset (Some p) A"
    by (simp add: submit_def pA)
  have k: "post (case f of AioRead \<Rightarrow> wrap_aio_read False (env_aio E) fd buf len offset (Some p) A
      | AioWrite \<Rightarrow> wrap_aio_write False (env_aio E) fd buf len offset (Some p) A)
      (\<lambda>x. post (case x of (nret, A) \<Rightarrow> Inr (fst t, (snd t)\<lparr>sv_aio := A\<rparr>)) Q)"
    if t: "I (snd t)" "sv_pkgs (snd t) = sv_pkgs (snd s)" "sv_conns (snd t) = sv_conns (snd s)"
      "sv_aio (snd t) = sv_aio (snd s)" for t
  proof -
    have "I ((snd t)\<lparr>sv_aio := A'\<rparr>)" if "aioSkeletonFunction False (env_aio E) f fd buf len offset (Some p) A = Inr (ret, A')" for ret A'
      by (rule submitted [OF t(1) i(1) ioc_def i(2)]) (use that t(4) sub in simp)
    then show ?thesis using t by (cases f) (auto simp: post_def wrap_aio_read_def wrap_aio_write_def intro!: Q)
  qed
  show ?thesis unfolding srv_aio_def ioc_def [symmetric] pA Let_def prod.case post_simps post_if
    by (intro conjI impI post_deliver [OF assms(1)] k) (simp_all add: assms(1))
qed

lemma post_close:
  assumes I: "I (snd s)" and p: "\<And>c. sv_conns (snd s) cn = Some c \<Longrightarrow> \<exists>parent. cpp c = Some parent \<and> parent \<noteq> cn"
    and Q: "\<And>e s'. I (snd s') \<Longrightarrow> Q (e, s')"
  shows "post (svr_conn_close E cn s) Q"
proof -
  have closed: "I (w\<lparr>sv_conns := m(parent \<mapsto> q\<lparr>nc := nc q - 1\<rparr>, cn := None)\<rparr>)"
    if "I w" "sv_conns w = m" "m cn \<noteq> None" "cpp (the (m cn)) = Some parent" "m parent = Some q" "parent \<noteq> cn" for w m parent q
    using close [of w cn "the (m cn)" parent q] that by auto
  show ?thesis
    unfolding svr_conn_close_def delete_conn_def store_conn_def
    by (auto simp: Let_def split_def I post_if intro!: Q post_strings closed split: option.splits dest: p)
qed

lemma post_final:
  assumes I: "I (snd s)" and Q: "\<And>e s'. I (snd s') \<Longrightarrow> Q (e, s')"
  shows "post (svr_http_final E pk s) Q"
  unfolding svr_http_final_def
  by (auto simp: Let_def split_def I Q intro!: post_delete_pkg post_close split: option.splits dest: pkg_peer [OF I])

lemma post_read:
  assumes I: "I (snd s)" and Q: "\<And>e s'. I (snd s') \<Longrightarrow> Q (e, s')"
  shows "post (svr_http_read E pk s) Q"
  unfolding svr_http_read_def
  by (auto simp: Let_def split_def I post_if intro!: Q post_final post_store_block post_strings post_srv_aio)

definition calls :: "srv_call \<Rightarrow> bool" where
  "calls call \<longleftrightarrow> (\<forall>cb cd s. I (snd s) \<longrightarrow> post (call cb cd s) (\<lambda>s'. I (snd s')))"

lemma post_cache:
  assumes c: "calls call" and I: "I (snd s)" and Q: "\<And>b c w. I w \<Longrightarrow> Q (b, c, w)"
  shows "post (Cache_put call key buf sz s) Q" "post (Cache_get call key cb s) Q"
    "post (Cache_cancelReservation call key s) Q"
proof -
  have c': "post (call cb cd s) (\<lambda>s'. I (snd s'))" if "I (snd s)" for cb cd s
    using c that unfolding calls_def by blast
  show "post (Cache_put call key buf sz s) Q"
    by (rule post_mono [OF post_Cache_put [where J = I, OF c' I]]) (auto intro: Q)
  show "post (Cache_get call key cb s) Q"
    by (rule post_mono [OF post_Cache_get [where J = I, OF c' I]]) (auto intro: Q)
  show "post (Cache_cancelReservation call key s) Q"
    by (rule post_mono [OF post_Cache_cancel [where J = I, OF c' I]]) (auto intro: Q)
qed

lemma post_doneWith: "(\<And>c. Q c) \<Longrightarrow> post (Cache_doneWith key c) Q" "(\<And>x. R x) \<Longrightarrow> post (Cache_reserve key c) R"
  by (simp_all add: post_def)

lemma post_set_cst:
  assumes I: "I (snd s)" and p: "sv_pkgs (snd s) pk = Some p" "sv_conns (snd s) (cpn p) = Some c" "cst c = Some st"
    and e: "after_error st st'" and Q: "\<And>s'. I (snd s') \<Longrightarrow> sv_pkgs (snd s') = sv_pkgs (snd s) \<Longrightarrow> Q s'"
  shows "post (set_cst (cpn p) st' s) Q"
  using error [OF I p e] p by (auto simp: set_cst_def store_conn_def intro!: Q)

lemma post_final_aio:
  assumes I: "I (snd s)" and c: "calls call" and Q: "\<And>e s'. I (snd s') \<Longrightarrow> Q (e, s')"
  shows "post (svr_http_final_aio E call pk s) Q"
proof -
  have go: "post (set_cst (cpn p) st' s) R"
    if "sv_pkgs (snd s) pk = Some p" "sv_conns (snd s) (cpn p) = Some cn" "cst cn = Some st" "after_error st st'"
      "\<And>s'. I (snd s') \<Longrightarrow> R s'" for p cn st st' R
    by (rule post_set_cst [OF I that(1-4)]) (rule that(5))
  show ?thesis
    unfolding svr_http_final_aio_def
    by (auto simp: I split_def post_if after_error_def intro!: go post_final post_strings post_cache [OF c] post_doneWith Q)
qed

lemma post_add_get:
  assumes I: "I (snd s)" and Q: "\<And>f s'. I (snd s') \<Longrightarrow> Q (f, s')"
  shows "post (add_get pk r fget s) Q"
proof -
  have new: "I (snd (snd (new_pkg (HPKG (cpn p)) s)))" if "sv_pkgs (snd s) pk = Some p" for p
    using pkg_new [OF I that, of "HPKG (cpn p)"] by (simp add: new_pkg_def HPKG_def)
  have "cpn (HPKG cn) = cn" for cn by (simp add: HPKG_def)
  then show ?thesis
    unfolding add_get_def by (auto simp: Let_def split_def I new intro!: Q keeps(1) split: option.splits)
qed

lemma post_add_gets: "I (snd s) \<Longrightarrow> post (add_gets pk rs fget s) (\<lambda>(f, s'). I (snd s'))"
proof (induction rs arbitrary: fget s)
  case (Cons r rs)
  then show ?case by (auto simp: split_def intro!: post_add_get)
qed simp

lemma post_parse:
  assumes I: "I (snd s)" and Q: "\<And>e s'. I (snd s') \<Longrightarrow> Q (e, s')"
  shows "post (svr_http_parse E pk s) Q"
  unfolding svr_http_parse_def
  by (auto simp: Let_def split_def I post_if intro!: Q post_final post_strings post_mono [OF post_add_gets]
      simp del: scan.simps add_gets.simps split: option.splits)

lemma post_parse_aio:
  assumes I: "I (snd s)" and c: "calls call" and Q: "\<And>e s'. I (snd s') \<Longrightarrow> Q (e, s')"
  shows "post (svr_http_parse_aio E call pk buf nbytes s) Q"
  unfolding svr_http_parse_aio_def
  by (auto simp: Let_def I post_if intro!: Q post_final post_parse post_final_aio c)

lemma post_get_or_reserve:
  assumes I: "I (snd s)" and c: "calls call" and Q: "\<And>b s'. I (snd s') \<Longrightarrow> Q (b, s')"
  shows "post (get_or_reserve call key cb s) Q"
  unfolding get_or_reserve_def
  by (auto simp: Let_def split_def I post_if intro!: Q post_doneWith post_cache [OF c])

lemma post_read_block:
  assumes I: "I (snd s)" and Q: "\<And>e s'. I (snd s') \<Longrightarrow> Q (e, s')"
  shows "post (read_block E pk s) Q"
  unfolding read_block_def
  by (auto simp: Let_def split_def I post_if intro!: Q post_strings post_srv_aio)

lemma post_body:
  assumes I: "I (snd s)" and c: "calls call" and Q: "\<And>e s'. I (snd s') \<Longrightarrow> Q (e, s')"
  shows "post (svr_http_body E call pk s) Q"
  unfolding svr_http_body_def
  by (auto simp: Let_def split_def I post_if
      intro!: Q post_final post_strings post_store_block post_get_or_reserve [OF _ c] post_read_block)

lemma post_body_pio:
  assumes I: "I (snd s)" and c: "calls call" and Q: "\<And>e s'. I (snd s') \<Longrightarrow> Q (e, s')"
  shows "post (svr_http_body_pio call pk buf nbytes s) Q"
  unfolding svr_http_body_pio_def
  by (auto simp: Let_def split_def I post_if intro!: Q post_strings post_cache [OF c])

lemma post_body_wio:
  assumes I: "I (snd s)" and c: "calls call" and Q: "\<And>e s'. I (snd s') \<Longrightarrow> Q (e, s')"
  shows "post (svr_http_body_wio E call pk cd s) Q"
  unfolding svr_http_body_wio_def
  by (auto simp: Let_def split_def I post_if intro!: Q post_final post_strings post_final_aio c post_srv_aio)

lemma post_body_rio:
  assumes I: "I (snd s)" and c: "calls call" and Q: "\<And>e s'. I (snd s') \<Longrightarrow> Q (e, s')"
  shows "post (svr_http_body_rio E call pk nbytes s) Q"
  unfolding svr_http_body_rio_def
  by (auto simp: Let_def split_def I post_if intro!: Q post_final post_strings post_body c post_doneWith)

lemma post_header_to_body:
  assumes I: "I (snd s)" and c: "calls call" and Q: "\<And>e s'. I (snd s') \<Longrightarrow> Q (e, s')"
  shows "post (svr_http_header_to_body_aio E call pk s) Q"
  unfolding svr_http_header_to_body_aio_def
  by (auto simp: Let_def split_def I post_if intro!: Q post_final post_body c)

lemma post_header_wio:
  assumes I: "I (snd s)" and Q: "\<And>e s'. I (snd s') \<Longrightarrow> Q (e, s')"
  shows "post (svr_http_header_wio E pk cd s) Q"
  unfolding svr_http_header_wio_def
  by (auto simp: Let_def split_def I post_if intro!: Q post_final post_strings post_srv_aio)

lemma post_put_header:
  assumes I: "I (snd s)" and c: "calls call" and p: "map_option cpn (sv_pkgs (snd s) pk) = Some (cpn p)"
    and Q: "\<And>e s'. I (snd s') \<Longrightarrow> Q (e, s')"
  shows "post (put_header call pk p s) Q"
  unfolding put_header_def
  by (auto simp: Let_def split_def I p post_if intro!: Q post_strings post_cache [OF c])

lemma post_header_rio:
  assumes I: "I (snd s)" and c: "calls call" and Q: "\<And>e s'. I (snd s') \<Longrightarrow> Q (e, s')"
  shows "post (svr_http_header_rio E call pk s) Q"
  unfolding svr_http_header_rio_def
  by (auto simp: Let_def split_def I post_if intro!: Q post_strings post_put_header c)

lemma post_header:
  assumes I: "I (snd s)" and c: "calls call" and Q: "\<And>e s'. I (snd s') \<Longrightarrow> Q (e, s')"
  shows "post (svr_http_header E call pk s) Q"
  unfolding svr_http_header_def
  by (auto simp: Let_def split_def I post_if
      intro!: Q post_final post_strings post_store_block post_get_or_reserve [OF _ c] post_header_rio c)

lemma post_write_400:
  assumes I: "I (snd s)" and Q: "\<And>e s'. I (snd s') \<Longrightarrow> Q (e, s')"
  shows "post (svr_http_write_400 E pk s) Q"
  unfolding svr_http_write_400_def
  by (auto simp: Let_def split_def I post_if intro!: Q post_final post_strings post_srv_aio)

lemma post_fetch:
  assumes I: "I (snd s)" and c: "calls call" and Q: "\<And>e s'. I (snd s') \<Longrightarrow> Q (e, s')"
  shows "post (svr_http_fetch E call pk s) Q"
  unfolding svr_http_fetch_def
  by (auto simp: Let_def split_def I post_if intro!: Q post_final post_strings post_write_400 post_header c)

lemma calls_run_cb: "calls (run_cb n E)"
proof (induction n)
  case (Suc n)
  have "post (run_cb (Suc n) E cb cd s) (\<lambda>s'. I (snd s'))" if "I (snd s)" for cb cd s
    by (cases cb) (auto simp: drop_code_def split_def that intro!: post_header_wio post_body_wio Suc)
  then show ?case unfolding calls_def by blast
qed (simp add: calls_def)

lemma post_new_peer:
  assumes I: "I (snd s)" and c: "sv_conns (snd s) cn = Some c" "cst c = Some CS_LISTENING" "nc c \<le> MaxACCEPT"
    and fd: "0 \<le> sint fd"
  shows "post (new_peer E cn fd s) (\<lambda>(_, _, s'). I (snd s'))"
proof -
  have old: "cn < sv_next (snd s)" by (rule conn_old [OF I c(1)])
  then show ?thesis
    using accept [OF I c fd] c
    by (auto simp: new_peer_def Conn_def Let_def store_conn_def new_pkg_def conn_of_def split_def intro!: post_read)
qed

lemma post_accept:
  assumes I: "I (snd s)" and r: "svr_conn_accept E cn s = Some r"
  shows "post r (\<lambda>(_, _, s'). I (snd s'))"
proof (cases cn)
  case (Some svr)
  show ?thesis
  proof (cases "and_then (conn_of svr s) (\<lambda>c. and_then (known (cst c)) (\<lambda>st. Inr (c, st)))")
    case (Inr x)
    then obtain c st where c: "sv_conns (snd s) svr = Some c" "cst c = Some st" and x: "x = (c, st)"
      by (auto simp: and_then_Inr_iff conn_of_def deref_Inr_iff known_Inr_iff)
    have fds': "I (snd (open_fd fd s))" "sv_conns (snd (open_fd fd s)) = sv_conns (snd s)" for fd
      using keeps(4) [OF I] by simp_all
    have new: "post (new_peer E svr fd (open_fd fd s)) (\<lambda>(_, _, s'). I (snd s'))"
      if "st = CS_LISTENING" "\<not> MaxACCEPT < nc c" "\<not> sint fd < 0" for fd
      by (rule post_new_peer [OF fds'(1)]) (use c that fds' in \<open>auto simp: not_less\<close>)
    show ?thesis
    proof (cases "st = CS_LISTENING \<and> \<not> MaxACCEPT < nc c")
      case True
      then show ?thesis using r new fds' unfolding svr_conn_accept_def Some option.case Inr x
        by (auto simp: Let_def post_if)
    qed (use r I in \<open>auto simp: svr_conn_accept_def Some Inr x split: if_splits\<close>)
  qed (use r Some I in \<open>auto simp: svr_conn_accept_def\<close>)
qed (use r I in \<open>auto simp: svr_conn_accept_def\<close>)

lemma block_of_aio: "block_of p (fst s, (snd s)\<lparr>sv_aio := X\<rparr>) = block_of p s"
  by (simp add: block_of_def split: option.splits)

lemma store_block_aio:
  "store_block p d (fst s, (snd s)\<lparr>sv_aio := X\<rparr>) = and_then (store_block p d s) (\<lambda>t. Inr (fst t, (snd t)\<lparr>sv_aio := X\<rparr>))"
  by (cases "block_of p s") (auto simp: store_block_def block_of_aio split: option.splits)

lemma deliver_aio:
  "deliver E a f fd buf (fst s, (snd s)\<lparr>sv_aio := X\<rparr>) =
    and_then (deliver E a f fd buf s) (\<lambda>t. Inr (fst t, (snd t)\<lparr>sv_aio := X\<rparr>))"
  by (cases f; cases "block_of buf s") (simp_all add: deliver_def store_block_aio block_of_aio)

text \<open>Every task but the poll of an operation, whose handler is not the server's.\<close>

lemma post_task:
  assumes I: "I (snd s)" and t: "\<forall>a p. t \<noteq> CheckTask a p"
  shows "post (run_task E t s) (\<lambda>s'. I (snd s'))"
proof -
  have c: "calls (srv_call E)" by (simp add: srv_call_def calls_run_cb)
  show ?thesis
    using t by (auto simp: run_task_def drop_code_def split_def I split: task.splits srv_ok.splits srv_err.splits srv_task.splits
        intro!: post_parse_aio post_header_to_body post_body_rio post_body_pio post_final_aio post_read post_fetch c)
qed

end

text \<open>An invariant that also survives the front task being taken holds in every run.\<close>

locale srv_inv = srv_ops +
  assumes polled: "I w \<Longrightarrow> run_front sys (sv_aio w) = Some (Inr A) \<Longrightarrow> I (w\<lparr>sv_aio := A\<rparr>)"
begin

lemma post_step:
  assumes I: "I (snd s)" and r: "srv_step E s = Some r"
  shows "post r (\<lambda>s'. I (snd s'))"
proof (cases "aio_queue (sv_aio (snd s))")
  case (Cons ut q)
  let ?t = "(fst s, (snd s)\<lparr>sv_aio := (sv_aio (snd s))\<lparr>aio_queue := q\<rparr>\<rparr>)"
  have r': "r = run_task E (ut_task ut) ?t" using r Cons by (simp add: srv_step_def)
  show ?thesis
  proof (cases "\<exists>a p. ut_task ut = CheckTask a p")
    case True
    then obtain a p where t: "ut_task ut = CheckTask a p" by blast
    have front: "run_front (env_aio E) (sv_aio (snd s)) = Some (checkIOProgress (env_aio E) a p ((sv_aio (snd s))\<lparr>aio_queue := q\<rparr>))"
      using Cons t by (simp add: run_front_def)
    have "I ((snd s')\<lparr>sv_aio := A\<rparr>)"
      if d: "deliver E a f fd buf ?t = Inr s'"
        and A: "checkIOProgress (env_aio E) a p (sv_aio (snd s')) = Inr A" for f fd buf s' A
    proof -
      obtain u where u: "deliver E a f fd buf s = Inr u" "s' = (fst u, (snd u)\<lparr>sv_aio := (sv_aio (snd s))\<lparr>aio_queue := q\<rparr>\<rparr>)"
        using d unfolding deliver_aio by (auto simp: and_then_Inr_iff)
      have "I (snd u)" "sv_aio (snd u) = sv_aio (snd s)"
        using postD [OF post_deliver [OF I, of "\<lambda>u. I (snd u) \<and> sv_aio (snd u) = sv_aio (snd s)"] u(1)] by auto
      then show ?thesis
        using polled [of "snd u" "env_aio E" A] front A u(2) by simp
    qed
    then show ?thesis unfolding r' t by (auto simp: run_task_def post_def and_then_Inr_iff)
  next
    case False
    then have "run_front (env_aio E) (sv_aio (snd s)) = Some (Inr ((sv_aio (snd s))\<lparr>aio_queue := q\<rparr>))"
      using Cons by (auto simp: run_front_def Let_def split: task.splits)
    then have I': "I (snd ?t)" using polled [OF I] by simp
    show ?thesis unfolding r' by (rule post_task [OF I']) (use False in blast)
  qed
qed (use r in \<open>simp add: srv_step_def\<close>)

text \<open>So an invariant that holds when the server has started holds in every run.\<close>

lemma reach:
  assumes "srv_reach svrC s" and start: "\<And>E s. svr_start E = Inr (svrC, s) \<Longrightarrow> I (snd s)"
  shows "I (snd s)"
  using assms(1)
proof induction
  case (accept s E err peer s')
  then show ?case using post_accept [of s E "Some svrC"] by (fastforce simp: post_def)
next
  case (run s E s')
  then show ?case using post_step [of s E] by (fastforce simp: post_def)
qed (rule start)

end

end
