(* ===== verification/HttpConn.thy ===== *)
theory HttpConn
  imports HttpInv AioProps
begin

text \<open>
  What holds of the server in every run, by the locale \<open>srv_inv\<close>: the pool of connections and its
  counter, the way of a connection through its states, and that the I/O layer is only ever used
  as its own theorems ask.
\<close>

section \<open>The pool\<close>

definition alive :: "conn_st \<Rightarrow> bool" where
  "alive st \<longleftrightarrow> st \<in> {CS_CONNECTED, CS_CLOSING_R, CS_CLOSING_W, CS_CLOSING}"

definition peer_ok :: "addr \<Rightarrow> conn \<Rightarrow> bool" where
  "peer_ok svrC c \<longleftrightarrow> cpp c = Some svrC \<and> nc c = 0 \<and> (\<exists>st. cst c = Some st \<and> alive st) \<and> (\<exists>fd. cfd c = Some fd \<and> 0 \<le> sint fd)"

definition peers :: "addr \<Rightarrow> srv \<Rightarrow> addr set" where
  "peers svrC w = dom (sv_conns w) - {svrC}"

definition pool_inv :: "addr \<Rightarrow> srv \<Rightarrow> bool" where
  "pool_inv svrC w \<longleftrightarrow>
     finite (peers svrC w) \<and> card (peers svrC w) \<le> 1025 \<and>
     (\<exists>c. sv_conns w svrC = Some c \<and> cpp c = None \<and> (cst c = None \<or> cst c = Some CS_LISTENING) \<and>
       nc c = of_nat (card (peers svrC w))) \<and>
     (\<forall>cn c. sv_conns w cn = Some c \<longrightarrow> cn < sv_next w \<and> (cn \<noteq> svrC \<longrightarrow> peer_ok svrC c)) \<and>
     (\<forall>pk p. sv_pkgs w pk = Some p \<longrightarrow> cpn p < sv_next w \<and> cpn p \<noteq> svrC)"

lemma pool_conn: "pool_inv svrC w \<Longrightarrow> sv_conns w cn = Some c \<Longrightarrow> cn < sv_next w \<and> (cn \<noteq> svrC \<longrightarrow> peer_ok svrC c)"
  unfolding pool_inv_def by blast

lemma pool_pkg: "pool_inv svrC w \<Longrightarrow> sv_pkgs w pk = Some p \<Longrightarrow> cpn p < sv_next w \<and> cpn p \<noteq> svrC"
  unfolding pool_inv_def by blast

lemma pool_server:
  "pool_inv svrC w \<Longrightarrow> sv_conns w svrC = Some c \<Longrightarrow>
    cpp c = None \<and> (cst c = None \<or> cst c = Some CS_LISTENING) \<and> nc c = of_nat (card (peers svrC w)) \<and>
    finite (peers svrC w) \<and> card (peers svrC w) \<le> 1025"
  unfolding pool_inv_def by auto

lemma pool_invI:
  assumes "sv_conns w svrC = Some c" "cpp c = None" "cst c = None \<or> cst c = Some CS_LISTENING"
    "nc c = of_nat (card (peers svrC w))" "finite (peers svrC w)" "card (peers svrC w) \<le> 1025"
    "\<And>cn c. sv_conns w cn = Some c \<Longrightarrow> cn < sv_next w"
    "\<And>cn c. sv_conns w cn = Some c \<Longrightarrow> cn \<noteq> svrC \<Longrightarrow> peer_ok svrC c"
    "\<And>pk p. sv_pkgs w pk = Some p \<Longrightarrow> cpn p < sv_next w \<and> cpn p \<noteq> svrC"
  shows "pool_inv svrC w"
  unfolding pool_inv_def using assms by blast

lemma pool_has_server: "pool_inv svrC w \<Longrightarrow> \<exists>c. sv_conns w svrC = Some c"
  unfolding pool_inv_def by blast

lemma pool_same:
  assumes I: "pool_inv svrC w" and w': "sv_conns w' = sv_conns w" "sv_next w \<le> sv_next w'"
    and p: "\<And>pk p. sv_pkgs w' pk = Some p \<Longrightarrow> \<exists>pk0 p0. sv_pkgs w pk0 = Some p0 \<and> cpn p = cpn p0"
  shows "pool_inv svrC w'"
proof -
  obtain c where c: "sv_conns w svrC = Some c" using pool_has_server [OF I] by blast
  have e: "peers svrC w' = peers svrC w" by (simp add: peers_def w')
  show ?thesis
  proof (rule pool_invI [of _ _ c])
    show "cpn p < sv_next w' \<and> cpn p \<noteq> svrC" if "sv_pkgs w' pk = Some p" for pk p
      using p [OF that] pool_pkg [OF I] w'(2) by fastforce
    show "a < sv_next w'" if "sv_conns w' a = Some d" for a d
      using pool_conn [OF I, of a d] that w' by simp
    show "peer_ok svrC d" if "sv_conns w' a = Some d" "a \<noteq> svrC" for a d
      using pool_conn [OF I, of a d] that w' by simp
  qed (use pool_server [OF I c] c e w'(1) in auto)
qed

lemma pool_error:
  assumes I: "pool_inv svrC w" and c: "sv_conns w cn = Some c" "cn \<noteq> svrC" "cst c = Some st" "after_error st st'"
  shows "pool_inv svrC (w\<lparr>sv_conns := (sv_conns w)(cn \<mapsto> c\<lparr>cst := Some st'\<rparr>)\<rparr>)" (is "pool_inv svrC ?w")
proof -
  obtain q where q: "sv_conns w svrC = Some q" using pool_has_server [OF I] by blast
  have p: "peers svrC ?w = peers svrC w" using c(1) by (auto simp: peers_def)
  have "peer_ok svrC c" using pool_conn [OF I c(1)] c(2) by blast
  then have "peer_ok svrC (c\<lparr>cst := Some st'\<rparr>)"
    using c(3,4) by (auto simp: peer_ok_def alive_def after_error_def split: if_splits)
  then show ?thesis
    by (intro pool_invI [of _ _ q])
       (use pool_server [OF I q] pool_conn [OF I] pool_pkg [OF I] p q c in \<open>auto split: if_splits\<close>)
qed

lemma of_nat_pred: "x \<in> A \<Longrightarrow> finite A \<Longrightarrow> of_nat (card A) - 1 = (of_nat (card (A - {x})) :: size_t)"
  by (metis add_diff_cancel_left' card.remove of_nat_Suc)

lemma pool_close:
  assumes I: "pool_inv svrC w" and c: "sv_conns w cn = Some c" "cpp c = Some parent" "sv_conns w parent = Some q" "parent \<noteq> cn"
  shows "pool_inv svrC (w\<lparr>sv_conns := (sv_conns w)(parent \<mapsto> q\<lparr>nc := nc q - 1\<rparr>, cn := None)\<rparr>)" (is "pool_inv svrC ?w")
proof -
  have ne: "cn \<noteq> svrC" using pool_server [OF I, of c] c(1,2) by auto
  then have "peer_ok svrC c" using pool_conn [OF I c(1)] by blast
  then have par: "parent = svrC" using c(2) by (simp add: peer_ok_def)
  have p: "peers svrC ?w = peers svrC w - {cn}" using c par by (auto simp: peers_def)
  have cn: "cn \<in> peers svrC w" using c(1) ne by (auto simp: peers_def)
  note q = pool_server [OF I c(3) [unfolded par]]
  have card: "card (peers svrC w - {cn}) \<le> 1025" using q card_Diff1_le [of "peers svrC w" cn] by simp
  show ?thesis
    by (intro pool_invI [of _ _ "q\<lparr>nc := nc q - 1\<rparr>"], unfold p)
       (use q card of_nat_pred [OF cn] pool_conn [OF I] pool_pkg [OF I] c par in \<open>auto split: if_splits\<close>)
qed

lemma pool_accept:
  assumes I: "pool_inv svrC w" and c: "sv_conns w cn = Some c" "cst c = Some CS_LISTENING" "nc c \<le> MaxACCEPT" and fd: "0 \<le> sint fd"
  shows "pool_inv svrC (w\<lparr>sv_conns := (sv_conns w)(cn \<mapsto> c\<lparr>nc := nc c + 1\<rparr>, sv_next w \<mapsto>
             \<lparr>cst = Some CS_CONNECTED, cfd = Some fd, csa = None, cpp = Some cn, nc = 0\<rparr>),
           sv_pkgs := (sv_pkgs w)(Suc (sv_next w) \<mapsto> HPKG (sv_next w)), sv_next := Suc (Suc (sv_next w))\<rparr>)"
    (is "pool_inv svrC ?w")
proof -
  have cn: "cn = svrC" using pool_conn [OF I c(1)] c(2) by (auto simp: peer_ok_def alive_def)
  have old: "svrC < sv_next w" using pool_conn [OF I c(1)] cn by simp
  have p: "peers svrC ?w = insert (sv_next w) (peers svrC w)" using cn c(1) old by (auto simp: peers_def)
  note q = pool_server [OF I c(1) [unfolded cn]]
  have new: "sv_next w \<notin> peers svrC w" using pool_conn [OF I] by (auto simp: peers_def)
  have "unat (nc c) = card (peers svrC w)"
    using q by (simp add: unat_of_nat)
  then have le: "card (peers svrC w) \<le> 1024" using c(3) by (simp add: MaxACCEPT_def word_le_nat_alt)
  have k: "card (peers svrC ?w) = Suc (card (peers svrC w))" using p q new by simp
  have peer: "peer_ok svrC \<lparr>cst = Some CS_CONNECTED, cfd = Some fd, csa = None, cpp = Some cn, nc = 0\<rparr>"
    using fd cn by (simp add: peer_ok_def alive_def)
  have fin: "finite (peers svrC ?w)" using p q by simp
  show ?thesis
  proof (rule pool_invI [of _ _ "c\<lparr>nc := nc c + 1\<rparr>"])
    show "a < sv_next ?w" if "sv_conns ?w a = Some d" for a d
      using that pool_conn [OF I, of a] old cn by (auto split: if_splits)
    show "peer_ok svrC d" if "sv_conns ?w a = Some d" "a \<noteq> svrC" for a d
      using that pool_conn [OF I, of a d] peer cn by (auto split: if_splits)
    show "cpn x < sv_next ?w \<and> cpn x \<noteq> svrC" if "sv_pkgs ?w pk = Some x" for pk x
      using that pool_pkg [OF I, of pk x] old by (auto simp: HPKG_def split: if_splits)
  qed (use cn old q k le fin c(2) in auto)
qed

interpretation pool: srv_inv "pool_inv svrC" for svrC
proof
  fix w :: srv and pk p c
  assume I: "pool_inv svrC w" and p: "sv_pkgs w pk = Some p" "sv_conns w (cpn p) = Some c"
  show "\<exists>parent. cpp c = Some parent \<and> parent \<noteq> cpn p"
    using pool_pkg [OF I p(1)] pool_conn [OF I p(2)] by (auto simp: peer_ok_def)
next
  fix w :: srv and pk p c st st'
  assume I: "pool_inv svrC w" and p: "sv_pkgs w pk = Some p" "sv_conns w (cpn p) = Some c" "cst c = Some st" "after_error st st'"
  show "pool_inv svrC (w\<lparr>sv_conns := (sv_conns w)(cpn p \<mapsto> c\<lparr>cst := Some st'\<rparr>)\<rparr>)"
    by (rule pool_error [OF I p(2) _ p(3,4)]) (use pool_pkg [OF I p(1)] in blast)
qed ((rule pool_close pool_accept; assumption) | blast dest: pool_conn |
    (auto elim!: pool_same dest: pool_conn split: if_splits)[1])+

lemmas pool_closed = pool.pkg_store pool.pkg_new pool.pkg_delete pool.block_new pool.block pool.fds pool.out pool.enq
  pool.submitted pool.polled pool.error pool.close pool.accept

lemma pool_start: "svr_start E = Inr (svrC, s) \<Longrightarrow> pool_inv svrC (snd s)"
  by (auto simp: svr_start_def Conn_def srv_new_def svr_conn_listen_def Let_def open_fd_def close_fd_def conn_of_def
      store_conn_def and_then_Inr_iff deref_Inr_iff pool_inv_def peers_def split: if_splits)

lemma pool_reach: "srv_reach svrC s \<Longrightarrow> pool_inv svrC (snd s)"
  by (rule pool.reach) (auto intro: pool_start)

lemma peer_closed:
  assumes I: "pool_inv svrC (snd s)" and d: "sv_conns (snd s) pn = Some d" and c: "sv_conns (snd s) svrC = Some c"
    and n: "pn \<noteq> svrC" and fd: "cfd d = Some fd"
  shows "svr_conn_close E pn s = Inr (
     if sint (env_close E fd) < 0 then (ERRCONN_CL, s)
     else (ERRCONN_OK, fst s, (snd s)\<lparr>sv_fds := sv_fds (snd s) - {fd},
             sv_conns := (sv_conns (snd s))(svrC \<mapsto> c\<lparr>nc := nc c - 1\<rparr>, pn := None)\<rparr>))"
proof -
  have p: "cpp d = Some svrC" using pool_conn [OF I d] n by (simp add: peer_ok_def)
  have f: "(sv_conns (snd s))(pn \<mapsto> x, svrC \<mapsto> y, pn := None) = (sv_conns (snd s))(svrC \<mapsto> y, pn := None)" for x y
    using n by (auto simp: fun_eq_iff)
  show ?thesis
    using d c n fd p f by (simp add: svr_conn_close_def close_fd_def cfd_of_def conn_of_def store_conn_def delete_conn_def Let_def)
qed

text \<open>
  C28: In every run of the server, whatever the clients and the operating system do: the listening
  connection stays in its state and has no package, its counter is exactly the number of the
  connections that were accepted and not yet closed, these are at most \<open>MaxACCEPT\<close> + 1, and
  each of them has the server as its parent, a descriptor number that is not negative and a state
  between connected and closing. Closing one of them closes its descriptor, takes it out of the
  pool and counts it down, all three, or none of them when the kernel refuses the close.
\<close>

theorem pool_is_bounded:
  assumes "srv_reach svrC s"
  shows "\<exists>c. sv_conns (snd s) svrC = Some c \<and> cst c \<in> {None, Some CS_LISTENING} \<and>
    finite (peers svrC (snd s)) \<and> unat (nc c) = card (peers svrC (snd s)) \<and> card (peers svrC (snd s)) \<le> unat MaxACCEPT + 1 \<and>
    (\<forall>pn d. pn \<noteq> svrC \<and> sv_conns (snd s) pn = Some d \<longrightarrow> peer_ok svrC d) \<and>
    (\<forall>pk p. sv_pkgs (snd s) pk = Some p \<longrightarrow> cpn p \<noteq> svrC) \<and>
    (\<forall>E pn d fd. pn \<noteq> svrC \<and> sv_conns (snd s) pn = Some d \<and> cfd d = Some fd \<longrightarrow>
       svr_conn_close E pn s = Inr (
         if sint (env_close E fd) < 0 then (ERRCONN_CL, s)
         else (ERRCONN_OK, fst s, (snd s)\<lparr>sv_fds := sv_fds (snd s) - {fd},
                 sv_conns := (sv_conns (snd s))(svrC \<mapsto> c\<lparr>nc := nc c - 1\<rparr>, pn := None)\<rparr>)))"
proof -
  note I = pool_reach [OF assms]
  obtain c where c: "sv_conns (snd s) svrC = Some c" using pool_has_server [OF I] by blast
  show ?thesis
    using pool_server [OF I c] c pool_conn [OF I] pool_pkg [OF I] peer_closed [OF I _ c]
    by (intro exI [of _ c]) (auto simp: unat_of_nat MaxACCEPT_def)
qed

theorem pool_is_bounded_witness: "\<exists>s c. svr_start idle_sys = Inr (0, s) \<and> sv_conns (snd s) 0 = Some c \<and> unat (nc c) = card (peers 0 (snd s))"
proof -
  obtain s where s: "svr_start idle_sys = Inr (0, s)"
    by (simp add: svr_start_def Conn_def srv_new_def svr_conn_listen_def Let_def open_fd_def conn_of_def store_conn_def idle_sys_def)
  show ?thesis using pool_is_bounded [OF srv_reach.start [OF s]] s by blast
qed

section \<open>The way of a connection\<close>

definition read_shut :: "conn_st \<Rightarrow> bool" where
  "read_shut st \<longleftrightarrow> st = CS_CLOSING \<or> st = CS_CLOSING_R"

text \<open>What may become of the connections of \<open>w\<close>.\<close>

definition conn_later :: "conn \<Rightarrow> conn \<Rightarrow> bool" where
  "conn_later c d \<longleftrightarrow> cfd d = cfd c \<and> cpp d = cpp c \<and>
     (\<forall>st. cst c = Some st \<longrightarrow> (\<exists>st'. cst d = Some st' \<and> (closing st \<longrightarrow> closing st') \<and> (read_shut st \<longrightarrow> read_shut st')))"

definition conns_later :: "srv \<Rightarrow> srv \<Rightarrow> bool" where
  "conns_later w w' \<longleftrightarrow> sv_next w \<le> sv_next w' \<and>
     (\<forall>cn < sv_next w. case sv_conns w' cn of None \<Rightarrow> True
        | Some d \<Rightarrow> (case sv_conns w cn of None \<Rightarrow> False | Some c \<Rightarrow> conn_later c d))"

lemma conn_later_refl: "conn_later c c"
  by (simp add: conn_later_def)

lemma conn_later_nc: "conn_later c d \<Longrightarrow> conn_later c (d\<lparr>nc := n\<rparr>)"
  by (simp add: conn_later_def)

lemma conn_later_error: "conn_later c d \<Longrightarrow> cst d = Some st \<Longrightarrow> after_error st st' \<Longrightarrow> conn_later c (d\<lparr>cst := Some st'\<rparr>)"
  by (cases "cst c") (auto simp: conn_later_def after_error_def closing_def read_shut_def split: if_splits)

lemma conns_later_same: "conns_later w0 w \<Longrightarrow> sv_conns w' = sv_conns w \<Longrightarrow> sv_next w \<le> sv_next w' \<Longrightarrow> conns_later w0 w'"
  by (auto simp: conns_later_def)

lemma conns_laterI:
  assumes "conns_later w0 w" "sv_next w \<le> sv_next w'"
    and "\<And>cn d. cn < sv_next w0 \<Longrightarrow> sv_conns w' cn = Some d \<Longrightarrow>
      (\<exists>e. sv_conns w cn = Some e \<and> (\<forall>c. conn_later c e \<longrightarrow> conn_later c d))"
  shows "conns_later w0 w'"
  using assms(1,2) assms(3) unfolding conns_later_def by (fastforce split: option.splits)

interpretation later: srv_inv "\<lambda>w. pool_inv svrC w \<and> conns_later w0 w" for svrC w0
proof
  fix w :: srv and pk p c st st'
  assume I: "pool_inv svrC w \<and> conns_later w0 w"
    and p: "sv_pkgs w pk = Some p" "sv_conns w (cpn p) = Some c" "cst c = Some st" "after_error st st'"
  have "conns_later w0 (w\<lparr>sv_conns := (sv_conns w)(cpn p \<mapsto> c\<lparr>cst := Some st'\<rparr>)\<rparr>)"
    by (rule conns_laterI [of _ w]) (use I p in \<open>auto intro: conn_later_error split: if_splits\<close>)
  then show "pool_inv svrC (w\<lparr>sv_conns := (sv_conns w)(cpn p \<mapsto> c\<lparr>cst := Some st'\<rparr>)\<rparr>) \<and>
      conns_later w0 (w\<lparr>sv_conns := (sv_conns w)(cpn p \<mapsto> c\<lparr>cst := Some st'\<rparr>)\<rparr>)"
    using pool.error [OF _ p] I by blast
next
  fix w :: srv and cn c parent q
  assume I: "pool_inv svrC w \<and> conns_later w0 w"
    and c: "sv_conns w cn = Some c" "cpp c = Some parent" "sv_conns w parent = Some q" "parent \<noteq> cn"
  have "conns_later w0 (w\<lparr>sv_conns := (sv_conns w)(parent \<mapsto> q\<lparr>nc := nc q - 1\<rparr>, cn := None)\<rparr>)"
    by (rule conns_laterI [of _ w]) (use I c in \<open>auto intro: conn_later_nc split: if_splits\<close>)
  then show "pool_inv svrC (w\<lparr>sv_conns := (sv_conns w)(parent \<mapsto> q\<lparr>nc := nc q - 1\<rparr>, cn := None)\<rparr>) \<and>
      conns_later w0 (w\<lparr>sv_conns := (sv_conns w)(parent \<mapsto> q\<lparr>nc := nc q - 1\<rparr>, cn := None)\<rparr>)"
    using pool.close [OF _ c] I by blast
next
  fix w :: srv and cn c and fd :: c_int
  assume I: "pool_inv svrC w \<and> conns_later w0 w"
    and c: "sv_conns w cn = Some c" "cst c = Some CS_LISTENING" "nc c \<le> MaxACCEPT" "0 \<le> sint fd"
  let ?w = "w\<lparr>sv_conns := (sv_conns w)(cn \<mapsto> c\<lparr>nc := nc c + 1\<rparr>, sv_next w \<mapsto>
             \<lparr>cst = Some CS_CONNECTED, cfd = Some fd, csa = None, cpp = Some cn, nc = 0\<rparr>),
           sv_pkgs := (sv_pkgs w)(Suc (sv_next w) \<mapsto> HPKG (sv_next w)), sv_next := Suc (Suc (sv_next w))\<rparr>"
  have n: "sv_next w0 \<le> sv_next w" using I by (simp add: conns_later_def)
  have "conns_later w0 ?w"
    by (rule conns_laterI [of _ w]) (use I c n in \<open>auto intro: conn_later_nc split: if_splits\<close>)
  then show "pool_inv svrC ?w \<and> conns_later w0 ?w" using pool.accept [OF _ c] I by blast
qed (auto intro: pool_closed elim!: conns_later_same dest: pool.conn_old pool.pkg_peer)

text \<open>Runs from one state of the server to a later one.\<close>

inductive srv_later :: "addr \<Rightarrow> srv_st \<Rightarrow> srv_st \<Rightarrow> bool" for svrC s0 where
  now: "srv_later svrC s0 s0"
| accept: "srv_later svrC s0 s \<Longrightarrow> svr_conn_accept E (Some svrC) s = Some (Inr (err, peer, s')) \<Longrightarrow> srv_later svrC s0 s'"
| run: "srv_later svrC s0 s \<Longrightarrow> srv_step E s = Some (Inr s') \<Longrightarrow> srv_later svrC s0 s'"

lemma later_run:
  assumes "srv_later svrC s0 s" and "pool_inv svrC (snd s0)"
  shows "pool_inv svrC (snd s) \<and> conns_later (snd s0) (snd s)"
  using assms(1)
proof induction
  case now
  show ?case using assms(2) by (auto simp: conns_later_def conn_later_refl split: option.splits)
next
  case (accept s E err peer s')
  then show ?case using later.post_accept [OF accept.IH accept.hyps(2)] by (auto simp: post_def)
next
  case (run s E s')
  then show ?case using later.post_step [OF run.IH run.hyps(2)] by (auto simp: post_def)
qed

text \<open>
  C29: A connection only ever moves towards its end: in all later states of a run it has the same
  descriptor and the same parent, a direction that was shut stays shut, and once it was closed
  its object never comes back.
\<close>

theorem connections_only_close:
  assumes "srv_reach svrC s0" and "srv_later svrC s0 s" and "sv_conns (snd s) cn = Some d" and "cn < sv_next (snd s0)"
  shows "\<exists>c. sv_conns (snd s0) cn = Some c \<and> cfd d = cfd c \<and> cpp d = cpp c \<and>
    (\<forall>st. cst c = Some st \<longrightarrow> (\<exists>st'. cst d = Some st' \<and> (closing st \<longrightarrow> closing st') \<and> (read_shut st \<longrightarrow> read_shut st')))"
  using later_run [OF assms(2) pool_reach [OF assms(1)]] assms(3,4)
  unfolding conns_later_def conn_later_def by (auto dest!: spec [of _ cn] split: option.splits)

section \<open>The I/O layer under the server\<close>

text \<open>
  Every task that waits has an id of the server, and every poll that waits is of an operation whose
  callbacks fit it.
\<close>

definition server_id :: "task_group_id \<Rightarrow> bool" where
  "server_id i \<longleftrightarrow> i \<in> {CacheTaskID, ReadTaskID}"

definition ioc_typed :: "aiocb \<Rightarrow> (srv_ok, srv_err) io_callback \<Rightarrow> bool" where
  "ioc_typed cb ioc \<longleftrightarrow> (\<exists>ok err i. ioc = IOCallback_id (Some ok) (Some err) i \<and> server_id i \<and> op_typed (cb_func cb) (cb_nbytes cb) ok err)"

definition typed :: "(srv_ok, srv_err, srv_task) aio \<Rightarrow> bool" where
  "typed A \<longleftrightarrow> (\<forall>ut \<in> set (aio_queue A). server_id (ut_id ut)) \<and>
     (\<forall>a p cb ioc. (a, Some p) \<in> set (polls A) \<and> aio_cbs A a = Some cb \<and> aio_callbacks A p = Some ioc \<longrightarrow> ioc_typed cb ioc)"

lemma enqueue_parts [simp]:
  "aio_queue (enqueue_task t i A) = aio_queue A @ [UnitTask_id t i]" "aio_cbs (enqueue_task t i A) = aio_cbs A"
  "aio_callbacks (enqueue_task t i A) = aio_callbacks A" "ut_id (UnitTask_id x i) = i"
  by (simp_all add: enqueue_task_def UnitTask_id_def)

lemma typed_enqueue: "typed A \<Longrightarrow> server_id i \<Longrightarrow> \<forall>a c. t \<noteq> CheckTask a c \<Longrightarrow> typed (enqueue_task t i A)"
  by (cases t) (auto simp: typed_def)

lemma typed_opt:
  "typed A \<Longrightarrow> server_id i \<Longrightarrow> \<forall>a c. t \<noteq> Some (CheckTask a c) \<Longrightarrow> typed (enqueue_opt t i A)"
  by (cases t) (auto simp: enqueue_opt_def intro: typed_enqueue)

lemma typed_heap:
  "typed A \<Longrightarrow> (\<And>a x. h a = Some x \<Longrightarrow> aio_cbs A a = Some x) \<Longrightarrow> (\<And>a x. c a = Some x \<Longrightarrow> aio_callbacks A a = Some x) \<Longrightarrow>
    typed (A\<lparr>aio_cbs := h, aio_callbacks := c\<rparr>)"
  by (fastforce simp: typed_def)

lemma typed_check:
  assumes T: "typed A" and h: "aio_cbs A a = Some cb" "aio_callbacks A p = Some ioc" and ty: "ioc_typed cb ioc"
    and r: "checkIOProgress sys a (Some p) A = Inr A'"
  shows "typed A'"
proof -
  have i: "server_id (ioc_id ioc)" using ty by (auto simp: ioc_typed_def IOCallback_id_def)
  have "typed (enqueue_task (CheckTask a (Some p)) (ioc_id ioc) A)"
    using T h ty i unfolding typed_def by auto
  moreover have "typed (enqueue_opt (completion sys a cb ioc) (ioc_id ioc) A)"
    by (rule typed_opt [OF T i]) (use completion_not_check in blast)
  then have "typed ((enqueue_opt (completion sys a cb ioc) (ioc_id ioc) A)\<lparr>aio_cbs := (aio_cbs A)(a := None), aio_callbacks := (aio_callbacks A)(p := None)\<rparr>)"
    by (rule typed_heap) (auto simp: enqueue_opt_def enqueue_task_def split: if_splits option.splits)
  ultimately show ?thesis using r check_cases [OF h, of sys] by (auto split: if_splits)
qed

lemma typed_run:
  assumes I: "aio_inv A" and T: "typed A" and r: "run_front sys A = Some (Inr A')"
  shows "typed A'"
proof -
  obtain ut q where q: "aio_queue A = ut # q" using r by (auto simp: run_front_def split: list.splits)
  have T': "typed (A\<lparr>aio_queue := q\<rparr>)" using T polls_pop [OF q] q unfolding typed_def by simp blast
  show ?thesis
  proof (cases "\<exists>a c. ut_task ut = CheckTask a c")
    case True
    then obtain a c where t: "ut_task ut = CheckTask a c" by blast
    then have m: "(a, c) \<in> set (polls A)" using q by (simp add: polls_def)
    from inv_poll_live [OF I this] obtain p cb ioc where p: "c = Some p" "aio_cbs A a = Some cb" "aio_callbacks A p = Some ioc" by blast
    have "ioc_typed cb ioc" using T m p unfolding typed_def by blast
    then show ?thesis
      using typed_check [OF T', of a cb p ioc sys A'] p r q t by (simp add: run_front_def)
  next
    case False
    then have "A' = A\<lparr>aio_queue := q\<rparr>" using r q by (auto simp: run_front_def Let_def split: task.splits)
    then show ?thesis using T' by simp
  qed
qed

lemma typed_submit:
  assumes I: "aio_inv A" and T: "typed A" and i: "server_id i" and ty: "op_typed f len ok err"
    and r: "submit False sys f fd buf len offset (IOCallback_id (Some ok) (Some err) i) A = Inr (ret, A')"
  shows "typed A'"
proof -
  let ?cb = "\<lparr>cb_func = f, cb_fildes = fd, cb_buf = buf, cb_nbytes = len, cb_offset = offset, cb_sival_ptr = None\<rparr>"
  let ?ioc = "IOCallback_id (Some ok) (Some err) i"
  let ?A = "A\<lparr>aio_callbacks := (aio_callbacks A)(aio_next A \<mapsto> ?ioc), aio_cbs := (aio_cbs A)(Suc (aio_next A) \<mapsto> ?cb), aio_next := Suc (Suc (aio_next A))\<rparr>"
  obtain n errno where k: "sys_submit sys f ?cb = (n, errno)" by (cases "sys_submit sys f ?cb")
  note E = submit_cases [OF I k, of ?ioc]
  have ty': "ioc_typed ?cb ?ioc" unfolding ioc_typed_def using ty i by (intro exI [of _ ok] exI [of _ err] exI [of _ i]) simp
  have old: "a < aio_next A \<and> p < aio_next A" if "(a, Some p) \<in> set (polls A)" for a p
    using inv_poll_live [OF I that] I unfolding aio_inv_def poll_inv_def by (metis leI option.distinct(1) option.inject)
  have T1: "typed ?A"
    unfolding typed_def
  proof (intro conjI allI impI)
    fix a p cb ioc assume h: "(a, Some p) \<in> set (polls ?A) \<and> aio_cbs ?A a = Some cb \<and> aio_callbacks ?A p = Some ioc"
    then have m: "(a, Some p) \<in> set (polls A)" by (simp add: polls_def)
    then show "ioc_typed cb ioc" using h old [OF m] T unfolding typed_def by auto
  qed (use T in \<open>simp add: typed_def\<close>)
  show ?thesis
  proof (cases "0 \<le> sint n")
    case True
    have "checkIOProgress sys (Suc (aio_next A)) (Some (aio_next A)) ?A = Inr A'" using r E True by (simp add: and_then_Inr_iff)
    then show ?thesis
      by (rule typed_check [OF T1, rotated 3]) (use ty' in simp_all)
  next
    case False
    have "typed (enqueue_task (ErrTask err fd errno) i A)" by (rule typed_enqueue [OF T i]) simp
    moreover have "A' = (enqueue_task (ErrTask err fd errno) i A)\<lparr>aio_next := Suc (Suc (aio_next A))\<rparr>"
      using r E False by (simp add: IOCallback_id_def)
    ultimately show ?thesis by (simp add: typed_def polls_def)
  qed
qed

interpretation io: srv_inv "\<lambda>w. pool_inv svrC w \<and> aio_reach (sv_aio w) \<and> typed (sv_aio w)" for svrC
proof
  fix w :: srv and f fd buf len offset ioc ok err i ret A sys
  assume "pool_inv svrC w \<and> aio_reach (sv_aio w) \<and> typed (sv_aio w)" "i \<in> {CacheTaskID, ReadTaskID}" "ioc = IOCallback_id (Some ok) (Some err) i"
    "op_typed f len ok err" "submit False sys f fd buf len offset ioc (sv_aio w) = Inr (ret, A)"
  then show "pool_inv svrC (w\<lparr>sv_aio := A\<rparr>) \<and> aio_reach (sv_aio (w\<lparr>sv_aio := A\<rparr>)) \<and> typed (sv_aio (w\<lparr>sv_aio := A\<rparr>))"
    using typed_submit [OF aio_inv_reach, of "sv_aio w" i f len ok err] pool.submitted aio_reach.submit by (fastforce simp: server_id_def)
next
  fix w :: srv and t i
  assume "pool_inv svrC w \<and> aio_reach (sv_aio w) \<and> typed (sv_aio w)" "i \<in> {CacheTaskID, ReadTaskID}"
  then show "pool_inv svrC (w\<lparr>sv_aio := enqueue_task (ClientTask t) i (sv_aio w)\<rparr>) \<and>
      aio_reach (sv_aio (w\<lparr>sv_aio := enqueue_task (ClientTask t) i (sv_aio w)\<rparr>)) \<and> typed (sv_aio (w\<lparr>sv_aio := enqueue_task (ClientTask t) i (sv_aio w)\<rparr>))"
    using typed_enqueue [of "sv_aio w" i "ClientTask t"] by (auto simp: server_id_def intro: pool.enq aio_reach.client)
next
  fix w :: srv and sys A
  assume "pool_inv svrC w \<and> aio_reach (sv_aio w) \<and> typed (sv_aio w)" "run_front sys (sv_aio w) = Some (Inr A)"
  then show "pool_inv svrC (w\<lparr>sv_aio := A\<rparr>) \<and> aio_reach (sv_aio (w\<lparr>sv_aio := A\<rparr>)) \<and> typed (sv_aio (w\<lparr>sv_aio := A\<rparr>))"
    using typed_run [OF aio_inv_reach, of "sv_aio w"] by (auto intro: pool.polled aio_reach.run)
qed (auto intro: pool_closed dest: pool.conn_old pool.pkg_peer)

lemma io_start: "svr_start E = Inr (svrC, s) \<Longrightarrow> aio_reach (sv_aio (snd s)) \<and> typed (sv_aio (snd s))"
  by (auto simp: svr_start_def Conn_def srv_new_def svr_conn_listen_def Let_def open_fd_def close_fd_def conn_of_def
      store_conn_def and_then_Inr_iff typed_def aio_new_def polls_def split: if_splits intro: aio_reach.new [unfolded aio_new_def])

lemma io_reach: "srv_reach svrC s \<Longrightarrow> aio_reach (sv_aio (snd s)) \<and> typed (sv_aio (snd s))"
  using io.reach [of svrC s] pool_start io_start by blast

text \<open>
  C30: In every run the I/O of the server is well typed: each poll in the queue has a control block
  and a callback of its own, both alive; a read has the callback of a read and asks for no more
  than the buffer of its kind holds (\<open>MAXRH\<close> - 1 bytes of a request, \<open>MAXWB\<close> of a file), a write
  has the callback of a write, and the error callback belongs to the same package. All tasks have
  one id, so no two of them ever run at the same time, however many dispatchers there are.
\<close>

theorem server_io_is_typed:
  assumes "srv_reach svrC s"
  shows "(\<forall>a c. (a, c) \<in> set (polls (sv_aio (snd s))) \<longrightarrow>
      (\<exists>p cb ok err. c = Some p \<and> aio_cbs (sv_aio (snd s)) a = Some cb \<and>
        aio_callbacks (sv_aio (snd s)) p = Some (IOCallback_id (Some ok) (Some err) 0) \<and> op_typed (cb_func cb) (cb_nbytes cb) ok err)) \<and>
    distinct (map fst (polls (sv_aio (snd s)))) \<and> distinct (map snd (polls (sv_aio (snd s)))) \<and>
    (\<forall>ut \<in> set (aio_queue (sv_aio (snd s))). ut_id ut = 0)"
proof -
  let ?A = "sv_aio (snd s)"
  have I: "aio_inv ?A" and T: "typed ?A" using io_reach [OF assms] aio_inv_reach by blast+
  have id: "server_id i \<longleftrightarrow> i = 0" for i by (simp add: server_id_def CacheTaskID_def ReadTaskID_def)
  have "\<exists>p cb ok err. c = Some p \<and> aio_cbs ?A a = Some cb \<and> aio_callbacks ?A p = Some (IOCallback_id (Some ok) (Some err) 0) \<and>
      op_typed (cb_func cb) (cb_nbytes cb) ok err" if m: "(a, c) \<in> set (polls ?A)" for a c
  proof -
    obtain p cb ioc where p: "c = Some p" "aio_cbs ?A a = Some cb" "aio_callbacks ?A p = Some ioc" using inv_poll_live [OF I m] by blast
    then have "ioc_typed cb ioc" using T m unfolding typed_def by blast
    then show ?thesis using p by (auto simp: ioc_typed_def id)
  qed
  then show ?thesis using I T by (auto simp: aio_inv_def poll_inv_def typed_def id)
qed

end
