(* ===== verification/HttpProps.thy ===== *)
theory HttpProps
  imports HttpReply HttpConn
begin

text \<open>
  What the handlers do on a request: the callbacks of the cache end, the GETs of a request become
  a chain that is worked off in order, a bad request is answered, and what happens when the
  server cannot listen.
\<close>

section \<open>Examples\<close>

definition sample_peer :: conn where
  "sample_peer = \<lparr>cst = Some CS_CONNECTED, cfd = Some 5, csa = None, cpp = Some 0, nc = 0\<rparr>"

text \<open>A server with one peer, at address 1, and these packages and blocks.\<close>

definition sample :: "(addr \<rightharpoonup> hpkg) \<Rightarrow> (addr \<rightharpoonup> string) \<Rightarrow> srv" where
  "sample pkgs bufs =
     \<lparr>sv_pkgs = pkgs, sv_conns = [0 \<mapsto> \<lparr>cst = Some CS_LISTENING, cfd = Some 3, csa = None, cpp = None, nc = 1\<rparr>, 1 \<mapsto> sample_peer],
      sv_bufs = bufs, sv_next = 20, sv_fds = {3, 5}, sv_aio = aio_new, sv_out = []\<rparr>"

definition bad_get :: hpkg where
  "bad_get = (HPKG 1)\<lparr>pk_met := \<lparr>ch_p = Some 6, ch_n = 3, ch_cached = False\<rparr>, ppg := Some 3\<rparr>"

section \<open>Callbacks end\<close>

lemma final_call: "cd_data cd = None \<Longrightarrow> run_cb (Suc m) E cb cd s = run_cb (Suc n) E cb cd s"
  by (cases cb) (simp_all add: svr_http_body_wio_def)

lemma cancel_loop_fuel: "cancel_loop (run_cb (Suc m) E) q s = cancel_loop (run_cb (Suc n) E) q s"
proof (induction q arbitrary: s)
  case (Cons p q)
  have "invoke (run_cb (Suc m) E) (Some p) (CacheData None 0 False) s = invoke (run_cb (Suc n) E) (Some p) (CacheData None 0 False) s"
    using final_call [of "CacheData None 0 False" m E _ _ n] by (simp add: invoke_def CacheData_def del: run_cb.simps)
  then show ?case using Cons by (simp del: run_cb.simps)
qed simp

lemma final_aio_fuel: "svr_http_final_aio E (run_cb (Suc m) E) pk s = svr_http_final_aio E (run_cb (Suc n) E) pk s"
  unfolding svr_http_final_aio_def Cache_cancelReservation_def cancel_loop_fuel [of m E _ _ n] ..

text \<open>
  The callbacks that the server gives to the cache always end: a callback may cancel a
  reservation and so call others, but those are cancelled and call nothing, so two levels are
  enough and more make no difference.
\<close>

theorem callbacks_end: "run_cb (Suc (Suc n)) E = srv_call E"
proof (intro ext)
  fix cb cd s
  show "run_cb (Suc (Suc n)) E cb cd s = srv_call E cb cd s"
    using final_aio_fuel [of E n _ _ 0]
    by (cases cb) (simp_all add: srv_call_def numeral_2_eq_2 svr_http_body_wio_def cong: if_cong)
qed

section \<open>The chain of a request\<close>

text \<open>A string member of a package holds a text, or nothing.\<close>

definition holds :: "srv \<Rightarrow> charn \<Rightarrow> string option \<Rightarrow> bool" where
  "holds w c d \<longleftrightarrow> (case d of None \<Rightarrow> ch_p c = None
     | Some t \<Rightarrow> \<exists>b. ch_p c = Some b \<and> sv_bufs w b = Some (t @ [NUL]) \<and> b < sv_next w)"

definition kid :: "srv \<Rightarrow> addr \<Rightarrow> addr \<Rightarrow> request \<Rightarrow> addr option \<Rightarrow> addr \<Rightarrow> bool" where
  "kid w pk cn r nxt g \<longleftrightarrow> (\<exists>h. sv_pkgs w g = Some h \<and> ppg h = Some pk \<and> cpn h = cn \<and> nsg h = nxt \<and>
     holds w (pk_met h) (Some ''GET'') \<and> holds w (pk_uri h) (fst r) \<and> holds w (pk_ver h) (snd r))"

definition next_of :: "addr list \<Rightarrow> nat \<Rightarrow> addr option" where
  "next_of gs i = (if Suc i < length gs then Some (gs ! Suc i) else None)"

definition chain :: "srv \<Rightarrow> addr \<Rightarrow> addr \<Rightarrow> request list \<Rightarrow> addr list \<Rightarrow> bool" where
  "chain w pk cn rs gs \<longleftrightarrow> length gs = length rs \<and> distinct gs \<and> pk \<notin> set gs \<and>
     (\<forall>i < length rs. kid w pk cn (rs ! i) (next_of gs i) (gs ! i)) \<and>
     (\<exists>p. sv_pkgs w pk = Some p \<and> cpn p = cn \<and> lcg p = (if gs = [] then None else Some (last gs))) \<and>
     (\<forall>a \<ge> sv_next w. sv_pkgs w a = None)"

text \<open>More blocks at fresh addresses change nothing for what is there.\<close>

definition more_blocks :: "srv \<Rightarrow> srv \<Rightarrow> bool" where
  "more_blocks w w' \<longleftrightarrow> sv_next w \<le> sv_next w' \<and> (\<forall>b < sv_next w. sv_bufs w' b = sv_bufs w b)"

lemma more_blocks_trans: "more_blocks u v \<Longrightarrow> more_blocks v w \<Longrightarrow> more_blocks u w"
  by (auto simp: more_blocks_def)

lemma holds_more: "holds w c d \<Longrightarrow> more_blocks w w' \<Longrightarrow> holds w' c d"
  by (auto simp: holds_def more_blocks_def split: option.splits)

lemma new_charn_spec:
  "\<exists>c t. new_charn d s = (c, fst s, t) \<and> holds t c d \<and> more_blocks (snd s) t \<and> sv_pkgs t = sv_pkgs (snd s) \<and>
     sv_conns t = sv_conns (snd s) \<and> sv_aio t = sv_aio (snd s)"
proof (cases d)
  case None
  then show ?thesis
    by (intro exI [of _ charn_new] exI [of _ "snd s"]) (simp add: new_charn_def charn_new_def holds_def more_blocks_def)
next
  case (Some t)
  then show ?thesis by (auto simp: new_charn_def new_block_def holds_def more_blocks_def Let_def)
qed

lemma add_get_spec:
  assumes p: "sv_pkgs (snd s) pk = Some p" and f: "\<forall>a \<ge> sv_next (snd s). sv_pkgs (snd s) a = None"
    and l: "\<And>g. lcg p = Some g \<Longrightarrow> g \<noteq> pk \<and> sv_pkgs (snd s) g = Some q"
  shows "\<exists>w h. add_get pk r fget s = Inr (case lcg p of None \<Rightarrow> Some (sv_next (snd s)) | Some _ \<Rightarrow> fget, fst s, w) \<and>
    h = (the (sv_pkgs w (sv_next (snd s)))) \<and> cpn h = cpn p \<and> ppg h = Some pk \<and> nsg h = None \<and>
    holds w (pk_met h) (Some ''GET'') \<and> holds w (pk_uri h) (fst r) \<and> holds w (pk_ver h) (snd r) \<and>
    sv_pkgs w = (case lcg p of None \<Rightarrow> (sv_pkgs (snd s))(sv_next (snd s) \<mapsto> h)
      | Some g \<Rightarrow> (sv_pkgs (snd s))(sv_next (snd s) \<mapsto> h, g \<mapsto> q\<lparr>nsg := Some (sv_next (snd s))\<rparr>))(pk \<mapsto> p\<lparr>lcg := Some (sv_next (snd s))\<rparr>) \<and>
    more_blocks (snd s) w \<and> sv_next (snd s) < sv_next w \<and> sv_conns w = sv_conns (snd s) \<and> sv_aio w = sv_aio (snd s)"
proof -
  let ?g = "sv_next (snd s)"
  have old: "pk < ?g" using p f by (metis linorder_not_less option.distinct(1))
  have lold: "g < ?g" if "lcg p = Some g" for g using l [OF that] f by (metis linorder_not_less option.distinct(1))
  define s0 where "s0 = snd (new_pkg (HPKG (cpn p)) s)"
  have s0: "fst s0 = fst s" "sv_pkgs (snd s0) = (sv_pkgs (snd s))(?g \<mapsto> HPKG (cpn p))" "sv_conns (snd s0) = sv_conns (snd s)"
    "sv_aio (snd s0) = sv_aio (snd s)" "more_blocks (snd s) (snd s0)" "sv_next (snd s0) = Suc ?g"
    by (simp_all add: s0_def new_pkg_def more_blocks_def)
  obtain m t1 where 1: "new_charn (Some ''GET'') s0 = (m, fst s0, t1)" "holds t1 m (Some ''GET'')" "more_blocks (snd s0) t1"
    "sv_pkgs t1 = sv_pkgs (snd s0)" "sv_conns t1 = sv_conns (snd s0)" "sv_aio t1 = sv_aio (snd s0)"
    using new_charn_spec [of "Some ''GET''" s0] by auto
  obtain u t2 where 2: "new_charn (fst r) (fst s0, t1) = (u, fst s0, t2)" "holds t2 u (fst r)" "more_blocks t1 t2"
    "sv_pkgs t2 = sv_pkgs t1" "sv_conns t2 = sv_conns t1" "sv_aio t2 = sv_aio t1"
    using new_charn_spec [of "fst r" "(fst s0, t1)"] by auto
  obtain v t3 where 3: "new_charn (snd r) (fst s0, t2) = (v, fst s0, t3)" "holds t3 v (snd r)" "more_blocks t2 t3"
    "sv_pkgs t3 = sv_pkgs t2" "sv_conns t3 = sv_conns t2" "sv_aio t3 = sv_aio t2"
    using new_charn_spec [of "snd r" "(fst s0, t2)"] by auto
  have m: "more_blocks t1 t3" "more_blocks (snd s) t3" "Suc ?g \<le> sv_next t3"
    using more_blocks_trans 1(3) 2(3) 3(3) s0(5,6) by (blast, blast, auto simp: more_blocks_def)
  define h where "h = (HPKG (cpn p))\<lparr>pk_ver := v, pk_met := m, pk_uri := u, ppg := Some pk\<rparr>"
  define w where "w = t3\<lparr>sv_pkgs := (case lcg p of None \<Rightarrow> (sv_pkgs (snd s))(?g \<mapsto> h)
      | Some g \<Rightarrow> (sv_pkgs (snd s))(?g \<mapsto> h, g \<mapsto> q\<lparr>nsg := Some ?g\<rparr>))(pk \<mapsto> p\<lparr>lcg := Some ?g\<rparr>)\<rparr>"
  have wt: "sv_bufs w = sv_bufs t3" "sv_next w = sv_next t3" by (simp_all add: w_def)
  then have hw: "holds w c d = holds t3 c d" for c d by (cases d) (simp_all add: holds_def)
  have hold: "holds w (pk_met h) (Some ''GET'')" "holds w (pk_uri h) (fst r)" "holds w (pk_ver h) (snd r)"
    using holds_more [OF 1(2) m(1)] holds_more [OF 2(2) 3(3)] 3(2) unfolding hw by (simp_all add: h_def)
  have np: "new_pkg (HPKG (cpn p)) s = (?g, s0)" by (simp add: s0_def new_pkg_def)
  have r: "add_get pk r fget s = Inr (case lcg p of None \<Rightarrow> Some ?g | Some _ \<Rightarrow> fget, fst s, w)"
  proof (cases "lcg p")
    case None
    then show ?thesis
      using 1 2 3 s0 np p by (simp add: add_get_def pkg_of_def Let_def store_pkg_def h_def w_def)
  next
    case (Some g)
    then show ?thesis
      using 1 2 3 s0 np p l [OF Some] lold [OF Some] by (simp add: add_get_def pkg_of_def Let_def store_pkg_def h_def w_def)
  qed
  have "the (sv_pkgs w ?g) = h" using old lold by (auto simp: w_def split: option.splits)
  then show ?thesis
    using r hold m 3 2 1 s0 by (intro exI [of _ w] exI [of _ h]) (auto simp: h_def w_def HPKG_def more_blocks_def)
qed

lemma kid_more:
  "kid w pk cn r nxt g \<Longrightarrow> more_blocks w w' \<Longrightarrow> sv_pkgs w' g = map_option (\<lambda>h. h\<lparr>nsg := nxt'\<rparr>) (sv_pkgs w g) \<Longrightarrow>
    kid w' pk cn r nxt' g"
proof -
  assume k: "kid w pk cn r nxt g" and m: "more_blocks w w'"
    and g: "sv_pkgs w' g = map_option (\<lambda>h. h\<lparr>nsg := nxt'\<rparr>) (sv_pkgs w g)"
  obtain h where h: "sv_pkgs w g = Some h" "ppg h = Some pk" "cpn h = cn" "holds w (pk_met h) (Some ''GET'')"
    "holds w (pk_uri h) (fst r)" "holds w (pk_ver h) (snd r)"
    using k by (auto simp: kid_def)
  show ?thesis
    using h g holds_more [OF h(4) m] holds_more [OF h(5) m] holds_more [OF h(6) m] by (simp add: kid_def)
qed

lemma kid_same: "kid w pk cn r nxt g \<Longrightarrow> more_blocks w w' \<Longrightarrow> sv_pkgs w' g = sv_pkgs w g \<Longrightarrow> kid w' pk cn r nxt g"
  by (auto simp: kid_def intro: holds_more)

lemma chain_add:
  assumes c: "chain (snd s) pk cn rs gs"
  shows "\<exists>w. add_get pk r fget s = Inr (if gs = [] then Some (sv_next (snd s)) else fget, fst s, w) \<and>
    chain w pk cn (rs @ [r]) (gs @ [sv_next (snd s)]) \<and> sv_conns w = sv_conns (snd s) \<and> sv_aio w = sv_aio (snd s)"
proof -
  let ?g = "sv_next (snd s)"
  have len: "length gs = length rs" and dist: "distinct gs" "pk \<notin> set gs"
    and kids: "\<And>i. i < length rs \<Longrightarrow> kid (snd s) pk cn (rs ! i) (next_of gs i) (gs ! i)"
    and fresh: "\<forall>a \<ge> ?g. sv_pkgs (snd s) a = None"
    using c by (simp_all add: chain_def)
  obtain p where p: "sv_pkgs (snd s) pk = Some p" "cpn p = cn" "lcg p = (if gs = [] then None else Some (last gs))"
    using c by (auto simp: chain_def)
  have live: "sv_pkgs (snd s) (gs ! i) \<noteq> None" if "i < length gs" for i using kids [of i] that len by (auto simp: kid_def)
  have gnew: "gs ! i \<noteq> ?g" if "i < length gs" for i using live [OF that] fresh by auto
  have pnew: "pk \<noteq> ?g" using p(1) fresh by auto
  have lastlive: "gs \<noteq> [] \<Longrightarrow> \<exists>q. sv_pkgs (snd s) (last gs) = Some q"
    using live [of "length gs - 1"] by (auto simp: last_conv_nth)
  have lastold: "gs \<noteq> [] \<Longrightarrow> last gs < ?g" using lastlive fresh by (metis linorder_not_less option.distinct(1))
  have pold: "pk < ?g" using p(1) fresh by (metis linorder_not_less option.distinct(1))
  define q where "q = the (sv_pkgs (snd s) (last gs))"
  have l: "g \<noteq> pk \<and> sv_pkgs (snd s) g = Some q" if "lcg p = Some g" for g
    using that p(3) lastlive dist(2) by (auto simp: q_def split: if_splits)
  obtain w h where w: "add_get pk r fget s = Inr (case lcg p of None \<Rightarrow> Some ?g | Some _ \<Rightarrow> fget, fst s, w)"
    "cpn h = cpn p" "ppg h = Some pk" "nsg h = None"
    "holds w (pk_met h) (Some ''GET'')" "holds w (pk_uri h) (fst r)" "holds w (pk_ver h) (snd r)"
    "sv_pkgs w = (case lcg p of None \<Rightarrow> (sv_pkgs (snd s))(?g \<mapsto> h)
      | Some g \<Rightarrow> (sv_pkgs (snd s))(?g \<mapsto> h, g \<mapsto> q\<lparr>nsg := Some ?g\<rparr>))(pk \<mapsto> p\<lparr>lcg := Some ?g\<rparr>)"
    "more_blocks (snd s) w" "?g < sv_next w" "sv_conns w = sv_conns (snd s)" "sv_aio w = sv_aio (snd s)"
    using add_get_spec [OF p(1) fresh l, of r fget] by blast
  have pk: "sv_pkgs w = (if gs = [] then (sv_pkgs (snd s))(?g \<mapsto> h)
      else (sv_pkgs (snd s))(?g \<mapsto> h, last gs \<mapsto> q\<lparr>nsg := Some ?g\<rparr>))(pk \<mapsto> p\<lparr>lcg := Some ?g\<rparr>)"
    using w(8) p(3) by simp
  have lastnew: "gs \<noteq> [] \<Longrightarrow> last gs \<noteq> ?g" using gnew [of "length gs - 1"] by (simp add: last_conv_nth)
  have "kid w pk cn ((rs @ [r]) ! i) (next_of (gs @ [?g]) i) ((gs @ [?g]) ! i)" if i: "i < length (rs @ [r])" for i
  proof (cases "i < length rs")
    case True
    then have gi: "gs ! i \<in> set gs" "gs ! i \<noteq> pk" "gs ! i \<noteq> ?g" "gs \<noteq> []" using dist(2) len gnew by auto
    have "kid w pk cn (rs ! i) (next_of (gs @ [?g]) i) (gs ! i)"
    proof (cases "Suc i = length gs")
      case True
      then have "gs ! i = last gs" using gi(4) by (metis diff_Suc_1 last_conv_nth)
      then show ?thesis
        using True gi len l p(3) by (intro kid_more [OF kids [OF \<open>i < length rs\<close>] w(9)]) (auto simp: pk next_of_def nth_append)
    next
      case False
      then have "gs ! i \<noteq> last gs" using gi(4) dist(1) True len by (auto simp: last_conv_nth nth_eq_iff_index_eq)
      moreover have "next_of (gs @ [?g]) i = next_of gs i" using False True len by (auto simp: next_of_def nth_append)
      ultimately show ?thesis using gi kid_same [OF kids [OF True] w(9)] by (simp add: pk)
    qed
    then show ?thesis using True len by (simp add: nth_append)
  next
    case False
    then have i': "i = length rs" using i by simp
    have "sv_pkgs w ?g = Some h" using pnew lastnew by (auto simp: pk)
    then show ?thesis using i' len w(2-7) p(2) by (auto simp: kid_def next_of_def nth_append)
  qed
  moreover have "sv_pkgs w a = None" if "sv_next w \<le> a" for a
    using that w(10) fresh pold lastold by (cases "gs = []") (auto simp: pk)
  moreover have "?g \<notin> set gs" using gnew by (auto simp: in_set_conv_nth)
  ultimately have "chain w pk cn (rs @ [r]) (gs @ [?g])"
    using len dist pnew p(2) unfolding chain_def by (auto simp: pk)
  then show ?thesis using w(1,11,12) p(3) by (intro exI [of _ w]) auto
qed

lemma chain_adds:
  assumes "chain (snd s) pk cn rs0 gs0"
  shows "\<exists>w gs. add_gets pk rs fget s = Inr (if gs0 = [] \<and> rs \<noteq> [] then Some (hd gs) else fget, fst s, w) \<and>
    chain w pk cn (rs0 @ rs) (gs0 @ gs) \<and> sv_conns w = sv_conns (snd s) \<and> sv_aio w = sv_aio (snd s)"
  using assms
proof (induction rs arbitrary: s rs0 gs0 fget)
  case Nil
  then show ?case by (intro exI [of _ "snd s"] exI [of _ "[]"]) simp
next
  case (Cons r rs)
  let ?g = "sv_next (snd s)"
  obtain w where w: "add_get pk r fget s = Inr (if gs0 = [] then Some ?g else fget, fst s, w)"
    "chain w pk cn (rs0 @ [r]) (gs0 @ [?g])" "sv_conns w = sv_conns (snd s)" "sv_aio w = sv_aio (snd s)"
    using chain_add [OF Cons.prems, of r fget] by blast
  have "chain (snd (fst s, w)) pk cn (rs0 @ [r]) (gs0 @ [?g])" using w(2) by simp
  from Cons.IH [OF this, of "if gs0 = [] then Some ?g else fget"] obtain v gs where v:
    "add_gets pk rs (if gs0 = [] then Some ?g else fget) (fst s, w) = Inr (if gs0 = [] then Some ?g else fget, fst s, v)"
    "chain v pk cn (rs0 @ r # rs) (gs0 @ ?g # gs)" "sv_conns v = sv_conns w" "sv_aio v = sv_aio w"
    by auto
  then show ?case using w by (intro exI [of _ v] exI [of _ "?g # gs"]) simp
qed

text \<open>
  C32: The GETs of a request become packages of their own that hang below the package of the request
  in the order of the text, each with its method, uri and version (or without them, where the line
  lacks them), the connection, its parent and its next sibling; the first of them, and only that
  one, is enqueued to be fetched.
\<close>

theorem requests_become_a_chain:
  assumes p: "sv_pkgs (snd s) pk = Some p" "lcg p = None" and f: "\<forall>a \<ge> sv_next (snd s). sv_pkgs (snd s) a = None"
    and c: "sv_conns (snd s) (cpn p) = Some c" "cst c = Some st" "\<not> closing st"
    and b: "ch_p (chead p) = Some b" "b \<notin> set (freed_bufs (fst s))" "sv_bufs (snd s) b = Some buf"
    and r: "scan (Suc (unat (ch_n (chead p)))) buf 0 (unat (ch_n (chead p))) = Inr rs" "rs \<noteq> []"
  shows "\<exists>gs s'. svr_http_parse E pk s = Inr (EHTTP_OK, s') \<and> chain (snd s') pk (cpn p) rs gs \<and>
    aio_queue (sv_aio (snd s')) = aio_queue (sv_aio (snd s)) @ [UnitTask_id (ClientTask (FetchTask (hd gs))) CacheTaskID]"
proof -
  let ?s = "store_pkg pk (p\<lparr>hst := HS_PARSING\<rparr>) s"
  have "pk < sv_next (snd s)" using p(1) f by (metis linorder_not_less option.distinct(1))
  then have ch: "chain (snd ?s) pk (cpn p) [] []"
    using p(2) f by (simp add: chain_def store_pkg_def)
  obtain w gs where w: "add_gets pk rs None ?s = Inr (Some (hd gs), fst s, w)" "chain w pk (cpn p) rs gs" "sv_aio w = sv_aio (snd s)"
    using chain_adds [OF ch, of rs None] r(2) by (auto simp: store_pkg_def)
  have buf: "block_of (ch_p (chead p)) ?s = Inr buf" using b by (simp add: block_of_def store_pkg_def)
  have st: "cst_of (cpn p) s = Inr st" using c by (simp add: cst_of_def conn_of_def)
  have eq: "svr_http_parse E pk s = Inr (EHTTP_OK, fst s, w\<lparr>sv_aio := enqueue_task (ClientTask (FetchTask (hd gs))) CacheTaskID (sv_aio w)\<rparr>)"
    using p c(3) st buf r(1) w(1)
    by (simp add: svr_http_parse_def pkg_of_def Let_def srv_enqueue_def del: scan.simps)
  have "chain (w\<lparr>sv_aio := A\<rparr>) pk (cpn p) rs gs" for A
    using w(2) by (simp add: chain_def kid_def holds_def cong: option.case_cong)
  then show ?thesis using eq w(3) by (intro exI [of _ gs]) (simp add: enqueue_task_def)
qed

theorem requests_become_a_chain_witness: "\<exists>gs s'. svr_http_parse idle_sys 2 (Cache_new MAXCSIZE,
      sample [2 \<mapsto> (HPKG 1)\<lparr>chead := \<lparr>ch_p = Some 3, ch_n = 37, ch_cached = False\<rparr>\<rparr>]
        [3 \<mapsto> ''GET /a HTTP/1.1'' @ CRLF @ ''GET /b HTTP/1.0'' @ CRLF @ CRLF @ [NUL]]) = Inr (EHTTP_OK, s') \<and>
    chain (snd s') 2 1 [(Some ''a'', Some ''HTTP/1.1''), (Some ''b'', Some ''HTTP/1.0'')] gs"
proof -
  let ?p = "(HPKG 1)\<lparr>chead := \<lparr>ch_p = Some 3, ch_n = 37, ch_cached = False\<rparr>\<rparr>"
  let ?buf = "''GET /a HTTP/1.1'' @ CRLF @ ''GET /b HTTP/1.0'' @ CRLF @ CRLF @ [NUL]"
  let ?s = "(Cache_new MAXCSIZE, sample [2 \<mapsto> ?p] [3 \<mapsto> ?buf])"
  have sc: "scan 38 ?buf 0 37 = Inr [(Some ''a'', Some ''HTTP/1.1''), (Some ''b'', Some ''HTTP/1.0'')]" by code_simp
  have "\<not> closing CS_CONNECTED" by (simp add: closing_def)
  then show ?thesis
    using requests_become_a_chain [of ?s 2 ?p sample_peer CS_CONNECTED 3 ?buf
        "[(Some ''a'', Some ''HTTP/1.1''), (Some ''b'', Some ''HTTP/1.0'')]" idle_sys] sc
    by (auto simp: sample_def sample_peer_def HPKG_def Cache_new_def simp del: scan.simps)
qed

section \<open>The end of a request\<close>

text \<open>The blocks that the destructor of a package frees.\<close>

definition blocks_of :: "charn list \<Rightarrow> addr list" where
  "blocks_of cs = concat (map (\<lambda>c. if ch_cached c then [] else case ch_p c of None \<Rightarrow> [] | Some b \<Rightarrow> [b]) cs)"

definition owned :: "hpkg \<Rightarrow> addr list" where
  "owned p = blocks_of [bodykey p, cbody p, headkey p, chead p, pk_host p, pk_uri p, pk_met p, pk_ver p]"

definition owns :: "srv_st \<Rightarrow> hpkg \<Rightarrow> bool" where
  "owns s p \<longleftrightarrow> distinct (owned p) \<and> set (owned p) \<inter> set (freed_bufs (fst s)) = {} \<and> set (owned p) \<subseteq> dom (sv_bufs (snd s))"

lemma charns_delete_ok:
  "distinct (blocks_of cs) \<Longrightarrow> set (blocks_of cs) \<inter> set (freed_bufs (fst s)) = {} \<Longrightarrow>
    set (blocks_of cs) \<subseteq> dom (sv_bufs (snd s)) \<Longrightarrow>
    charns_delete cs s = Inr (fst s, (snd s)\<lparr>sv_bufs := sv_bufs (snd s) |` (- set (blocks_of cs))\<rparr>)"
proof (induction cs arbitrary: s)
  case Nil
  then show ?case by (cases s) (simp add: blocks_of_def)
next
  case (Cons c cs)
  show ?case
  proof (cases "ch_p c = None \<or> ch_cached c")
    case True
    then have "blocks_of (c # cs) = blocks_of cs" by (auto simp: blocks_of_def)
    then show ?thesis using True Cons by (auto simp: charn_delete_def)
  next
    case False
    then obtain b where b: "ch_p c = Some b" by auto
    then have bs: "blocks_of (c # cs) = b # blocks_of cs" using False by (simp add: blocks_of_def)
    let ?s = "(fst s, (snd s)\<lparr>sv_bufs := (sv_bufs (snd s))(b := None)\<rparr>)"
    have "charn_delete c s = Inr ?s" using False b Cons.prems bs by (auto simp: charn_delete_def free_block_def)
    moreover have "charns_delete cs ?s = Inr (fst ?s, (snd ?s)\<lparr>sv_bufs := sv_bufs (snd ?s) |` (- set (blocks_of cs))\<rparr>)"
      by (rule Cons.IH) (use Cons.prems bs in auto)
    moreover have "((sv_bufs (snd s))(b := None)) |` (- set (blocks_of cs)) = sv_bufs (snd s) |` (- set (blocks_of (c # cs)))"
      using bs by (auto simp: restrict_map_def fun_eq_iff)
    ultimately show ?thesis by simp
  qed
qed

lemma final_state:
  assumes p: "sv_pkgs (snd s) pk = Some p" "ppg p = Some park" "park \<noteq> pk" "sv_pkgs (snd s) park = Some q" and o: "owns s p"
  shows "\<exists>s'. svr_http_final E pk s = Inr (EHTTP_FINAL, s') \<and> fst s' = fst s \<and> sv_conns (snd s') = sv_conns (snd s) \<and> sv_out (snd s') = sv_out (snd s) \<and>
    sv_pkgs (snd s') = (if nsg p = None then (sv_pkgs (snd s))(pk := None, park \<mapsto> q\<lparr>lcg := None\<rparr>) else (sv_pkgs (snd s))(pk := None)) \<and>
    sv_bufs (snd s') = sv_bufs (snd s) |` (- set (owned p)) \<and>
    (hfd p \<noteq> - 1 \<and> 0 \<le> sint (env_close E (hfd p)) \<longrightarrow> sv_fds (snd s') = sv_fds (snd s) - {hfd p}) \<and>
    aio_queue (sv_aio (snd s')) = aio_queue (sv_aio (snd s)) @
      [case nsg p of None \<Rightarrow> UnitTask_id (ClientTask (ReadTask park)) ReadTaskID
       | Some g \<Rightarrow> UnitTask_id (ClientTask (FetchTask g)) CacheTaskID]"
proof -
  let ?c = "\<lambda>s. if hfd p \<noteq> - 1 then snd (close_fd E (hfd p) s) else s"
  let ?w = "(snd (?c s))\<lparr>sv_bufs := sv_bufs (snd s) |` (- set (owned p)), sv_pkgs := (sv_pkgs (snd s))(pk := None)\<rparr>"
  have d: "delete_pkg E pk s = Inr (fst s, ?w)"
    using p(1) o charns_delete_ok [of "[bodykey p, cbody p, headkey p, chead p, pk_host p, pk_uri p, pk_met p, pk_ver p]" "?c s"]
    unfolding delete_pkg_def owned_def owns_def
    by (auto simp: pkg_of_def Let_def close_fd_def simp del: charns_delete.simps)
  show ?thesis
    using p d
    by (cases "nsg p")
       (auto simp: svr_http_final_def pkg_of_def Let_def srv_enqueue_def store_pkg_def close_fd_def enqueue_task_def fun_upd_def)
qed

text \<open>
  The end of a GET: its package and exactly the blocks it owns are freed, its file is closed,
  and the dispatcher gets exactly one new task: the fetch of the next GET of the request, or, after
  the last one, the next read of the connection, with the chain taken off the package of the request.
\<close>

theorem final_goes_on:
  assumes p: "sv_pkgs (snd s) pk = Some p" "ppg p = Some park" "park \<noteq> pk" "sv_pkgs (snd s) park = Some q" and o: "owns s p"
  shows "\<exists>s'. svr_http_final E pk s = Inr (EHTTP_FINAL, s') \<and> fst s' = fst s \<and> sv_conns (snd s') = sv_conns (snd s) \<and>
    sv_pkgs (snd s') = (if nsg p = None then (sv_pkgs (snd s))(pk := None, park \<mapsto> q\<lparr>lcg := None\<rparr>) else (sv_pkgs (snd s))(pk := None)) \<and>
    sv_bufs (snd s') = sv_bufs (snd s) |` (- set (owned p)) \<and>
    (hfd p \<noteq> - 1 \<and> 0 \<le> sint (env_close E (hfd p)) \<longrightarrow> sv_fds (snd s') = sv_fds (snd s) - {hfd p}) \<and>
    aio_queue (sv_aio (snd s')) = aio_queue (sv_aio (snd s)) @
      [case nsg p of None \<Rightarrow> UnitTask_id (ClientTask (ReadTask park)) ReadTaskID
       | Some g \<Rightarrow> UnitTask_id (ClientTask (FetchTask g)) CacheTaskID]"
  using final_state [OF assms] by blast

theorem final_goes_on_witness: "\<exists>s'. svr_http_final idle_sys 2 (Cache_new MAXCSIZE, sample
      [2 \<mapsto> (HPKG 1)\<lparr>hfd := 9, ppg := Some 3, nsg := Some 4, pk_uri := \<lparr>ch_p = Some 6, ch_n = 1, ch_cached = False\<rparr>\<rparr>, 3 \<mapsto> HPKG 1] [6 \<mapsto> ''a'' @ [NUL]]) =
    Inr (EHTTP_FINAL, s') \<and> sv_bufs (snd s') = Map.empty \<and>
    aio_queue (sv_aio (snd s')) = [UnitTask_id (ClientTask (FetchTask 4)) CacheTaskID]"
proof -
  let ?p = "(HPKG 1)\<lparr>hfd := 9, ppg := Some 3, nsg := Some 4, pk_uri := \<lparr>ch_p = Some 6, ch_n = 1, ch_cached = False\<rparr>\<rparr>"
  let ?s = "(Cache_new MAXCSIZE :: srv_cb cache, sample [2 \<mapsto> ?p, 3 \<mapsto> HPKG 1] [6 \<mapsto> ''a'' @ [NUL]])"
  have o: "owned ?p = [6]" by (simp add: owned_def blocks_of_def HPKG_def charn_new_def)
  then have "owns ?s ?p" by (simp add: owns_def sample_def Cache_new_def)
  moreover have "ppg ?p = Some 3" "nsg ?p = Some 4" by simp_all
  ultimately show ?thesis
    using final_goes_on [of ?s 2 ?p 3 "HPKG 1" idle_sys] o
    by (auto simp: sample_def aio_new_def restrict_map_def fun_eq_iff)
qed

section \<open>Bad requests\<close>

text \<open>A kernel that takes every operation and has not finished any.\<close>

definition pending :: "srv_sys \<Rightarrow> bool" where
  "pending E \<longleftrightarrow> (\<forall>f cb. 0 \<le> sint (fst (sys_submit (env_aio E) f cb))) \<and> (\<forall>a. sys_error (env_aio E) a = EINPROGRESS)"

lemma srv_aio_pending:
  assumes "pending E"
  shows "srv_aio E f fd buf len offset ok err i s =
    (let A = sv_aio (snd s); p = aio_next A; a = Suc p in
     Inr (fst s, (snd s)\<lparr>sv_aio := A\<lparr>
       aio_cbs := (aio_cbs A)(a \<mapsto> \<lparr>cb_func = f, cb_fildes = fd, cb_buf = buf, cb_nbytes = len, cb_offset = offset, cb_sival_ptr = None\<rparr>),
       aio_callbacks := (aio_callbacks A)(p \<mapsto> IOCallback_id (Some ok) (Some err) i),
       aio_next := Suc a,
       aio_queue := aio_queue A @ [UnitTask_id (CheckTask a (Some p)) i]\<rparr>\<rparr>))"
proof -
  let ?cb = "\<lparr>cb_func = f, cb_fildes = fd, cb_buf = buf, cb_nbytes = len, cb_offset = offset, cb_sival_ptr = None\<rparr>"
  obtain ret errno where r: "sys_submit (env_aio E) f ?cb = (ret, errno)" by fastforce
  have r0: "0 \<le> sint ret" using assms r unfolding pending_def by (metis fst_conv)
  have e: "sys_error (env_aio E) a = EINPROGRESS" for a using assms by (simp add: pending_def)
  show ?thesis
    using r r0 e
    by (cases f) (simp_all add: srv_aio_def new_io_callback_def Let_def deliver_def wrap_aio_read_def wrap_aio_write_def
        aioSkeletonFunction_def checkIOProgress_def enqueue_task_def IOCallback_id_def EINPROGRESS_def)
qed

lemma idle_pending: "pending idle_sys"
  by (simp add: pending_def idle_sys_def)

definition bad_request :: "hpkg \<Rightarrow> srv_st \<Rightarrow> bool" where
  "bad_request p s \<longleftrightarrow> ch_p (pk_met p) = None \<or> ch_p (pk_ver p) = None \<or> ch_p (pk_uri p) = None \<or>
     (\<exists>ver. str_of (ch_p (pk_ver p)) s = Inr ver \<and> ver \<notin> {''HTTP/1.0'', ''HTTP/1.1''})"

lemma str_of_store: "str_of a (store_pkg pk p s) = str_of a s"
  by (simp add: str_of_def block_of_def store_pkg_def split: option.splits)

lemma conn_store [simp]: "cst_of cn (store_pkg pk p s) = cst_of cn s" "cfd_of cn (store_pkg pk p s) = cfd_of cn s"
  by (simp_all add: cst_of_def cfd_of_def conn_of_def)

lemma fetch_bad:
  assumes "sv_pkgs (snd s) pk = Some p" "cst_of (cpn p) s = Inr st" "\<not> closing st" "bad_request p s"
  shows "svr_http_fetch E call pk s =
    svr_http_write_400 E pk (store_pkg pk (p\<lparr>hst := HS_FETCHING, wst := Some WS_HEAD, hsn := Some N_UNO\<rparr>) s)"
  using assms by (auto simp: svr_http_fetch_def pkg_of_def bad_request_def Let_def str_of_store)

lemma bad_request_state:
  assumes p: "sv_pkgs (snd s) pk = Some p" "bad_request p s" "\<not> ch_cached (chead p)"
    and c: "sv_conns (snd s) (cpn p) = Some c" "cst c = Some st" "\<not> closing st" "cfd c = Some fd" and E: "pending E"
  shows "\<exists>s' q. svr_http_fetch E call pk s = Inr (EHTTP_OK, s') \<and> fst s' = fst s \<and>
    sv_pkgs (snd s') = (sv_pkgs (snd s))(pk \<mapsto> q) \<and> cpn q = cpn p \<and> hst q = HS_WRITING \<and> wst q = Some WS_HEAD \<and> hsn q = Some N_400 \<and>
    headkey q = headkey p \<and> sv_conns (snd s') = sv_conns (snd s) \<and>
    (\<exists>a b. aio_cbs (sv_aio (snd s')) a = Some \<lparr>cb_func = AioWrite, cb_fildes = fd, cb_buf = Some b, cb_nbytes = 28, cb_offset = 0, cb_sival_ptr = None\<rparr> \<and>
       sv_bufs (snd s') b = Some (''HTTP/1.1 400 Bad Request'' @ CRLF @ CRLF @ [NUL]) \<and>
       aio_queue (sv_aio (snd s')) = aio_queue (sv_aio (snd s)) @ [UnitTask_id (CheckTask a (Some (a - 1))) CacheTaskID] \<and>
       aio_callbacks (sv_aio (snd s')) (a - 1) = Some (IOCallback_id (Some (BodyRio pk)) (Some (FinalAio pk)) CacheTaskID))"
proof -
  have st: "cst_of (cpn p) s = Inr st" "cfd_of (cpn p) s = Inr fd" using c by (simp_all add: cst_of_def cfd_of_def conn_of_def)
  define T where "T = ''HTTP/1.1 400 Bad Request'' @ CRLF @ CRLF"
  have T: "sline_400 ! 1 @ CRLF @ CRLF = T" "length T = 28"
    "length (sline_400 ! 1) + (length CRLF + length CRLF) = 28" by (simp_all add: T_def sline_400_def CRLF_def)
  let ?p = "p\<lparr>hst := HS_WRITING, wst := Some WS_HEAD, hsn := Some N_400\<rparr>"
  define t where "t = store_pkg pk ?p (store_pkg pk (p\<lparr>hst := HS_FETCHING, wst := Some WS_HEAD, hsn := Some N_UNO\<rparr>) s)"
  have t: "fst t = fst s" "sv_next (snd t) = sv_next (snd s)" "sv_bufs (snd t) = sv_bufs (snd s)" "sv_aio (snd t) = sv_aio (snd s)"
    "sv_conns (snd t) = sv_conns (snd s)" "sv_pkgs (snd t) = (sv_pkgs (snd s))(pk \<mapsto> ?p)"
    by (simp_all add: t_def store_pkg_def)
  obtain junk u where u: "print_block E 29 29 T t = (\<lparr>ch_p = Some (sv_next (snd s)), ch_n = 28, ch_cached = False\<rparr>, u)"
    "sv_bufs (snd u) = (sv_bufs (snd s))(sv_next (snd s) \<mapsto> T @ NUL # junk)" "length (T @ NUL # junk) = 29"
    "fst u = fst s" "sv_pkgs (snd u) = (sv_pkgs (snd s))(pk \<mapsto> ?p)" "sv_conns (snd u) = sv_conns (snd s)" "sv_aio (snd u) = sv_aio (snd s)"
    using print_block_text [of T 29 29 E t] T(2) t by auto
  have j: "junk = []" using u(3) T(2) by simp
  have fd: "cfd_of (cpn p) u = Inr fd" using c u(6) by (simp add: cfd_of_def conn_of_def)
  let ?A = "sv_aio (snd s)"
  have r: "svr_http_fetch E call pk s = and_then (srv_aio E AioWrite fd (Some (sv_next (snd s))) 28 0 (BodyRio pk) (FinalAio pk) CacheTaskID
      (store_pkg pk (?p\<lparr>chead := \<lparr>ch_p = Some (sv_next (snd s)), ch_n = 28, ch_cached = False\<rparr>\<rparr>) u)) (\<lambda>s. Inr (EHTTP_OK, s))"
    unfolding fetch_bad [OF p(1) st(1) c(3) p(2)]
    using u(1) p(3) st c(3) T fd
    by (simp add: svr_http_write_400_def pkg_of_def Let_def t_def [symmetric])
  let ?q = "?p\<lparr>chead := \<lparr>ch_p = Some (sv_next (snd s)), ch_n = 28, ch_cached = False\<rparr>\<rparr>"
  let ?p = "aio_next ?A"
  let ?cb = "\<lparr>cb_func = AioWrite, cb_fildes = fd, cb_buf = Some (sv_next (snd s)), cb_nbytes = 28, cb_offset = 0, cb_sival_ptr = None\<rparr>"
  let ?S = "(fst s, (snd u)\<lparr>sv_pkgs := (sv_pkgs (snd u))(pk \<mapsto> ?q), sv_aio := ?A\<lparr>
       aio_cbs := (aio_cbs ?A)(Suc ?p \<mapsto> ?cb),
       aio_callbacks := (aio_callbacks ?A)(?p \<mapsto> IOCallback_id (Some (BodyRio pk)) (Some (FinalAio pk)) CacheTaskID),
       aio_next := Suc (Suc ?p),
       aio_queue := aio_queue ?A @ [UnitTask_id (CheckTask (Suc ?p) (Some ?p)) CacheTaskID]\<rparr>\<rparr>)"
  have "svr_http_fetch E call pk s = Inr (EHTTP_OK, ?S)"
    unfolding r srv_aio_pending [OF E] by (simp add: Let_def store_pkg_def u)
  moreover have "sv_pkgs (snd ?S) = (sv_pkgs (snd s))(pk \<mapsto> ?q)" by (simp add: u)
  moreover have "aio_cbs (sv_aio (snd ?S)) (Suc ?p) = Some ?cb \<and>
      sv_bufs (snd ?S) (sv_next (snd s)) = Some (''HTTP/1.1 400 Bad Request'' @ CRLF @ CRLF @ [NUL]) \<and>
      aio_queue (sv_aio (snd ?S)) = aio_queue ?A @ [UnitTask_id (CheckTask (Suc ?p) (Some (Suc ?p - 1))) CacheTaskID] \<and>
      aio_callbacks (sv_aio (snd ?S)) (Suc ?p - 1) = Some (IOCallback_id (Some (BodyRio pk)) (Some (FinalAio pk)) CacheTaskID)"
    by (simp add: u j T_def)
  ultimately show ?thesis
    by (intro exI [of _ ?S] exI [of _ ?q] conjI exI [of _ "Suc ?p"] exI [of _ "sv_next (snd s)"]) (simp_all add: u del: fun_upd_apply)
qed

text \<open>
  A GET line without a uri or a version, or with a version other than 1.0 and 1.1, is answered
  with \<open>400 Bad Request\<close>: that line and nothing else is handed to the kernel for the descriptor of
  the connection, with the package's next step behind it; the cache is not touched.
\<close>

theorem bad_request_answered:
  assumes p: "sv_pkgs (snd s) pk = Some p" "bad_request p s" "\<not> ch_cached (chead p)"
    and c: "sv_conns (snd s) (cpn p) = Some c" "cst c = Some st" "\<not> closing st" "cfd c = Some fd" and E: "pending E"
  shows "\<exists>s' a b. svr_http_fetch E call pk s = Inr (EHTTP_OK, s') \<and> fst s' = fst s \<and>
    aio_cbs (sv_aio (snd s')) a = Some \<lparr>cb_func = AioWrite, cb_fildes = fd, cb_buf = Some b, cb_nbytes = 28, cb_offset = 0, cb_sival_ptr = None\<rparr> \<and>
    sv_bufs (snd s') b = Some (''HTTP/1.1 400 Bad Request'' @ CRLF @ CRLF @ [NUL]) \<and>
    aio_queue (sv_aio (snd s')) = aio_queue (sv_aio (snd s)) @ [UnitTask_id (CheckTask a (Some (a - 1))) CacheTaskID] \<and>
    aio_callbacks (sv_aio (snd s')) (a - 1) = Some (IOCallback_id (Some (BodyRio pk)) (Some (FinalAio pk)) CacheTaskID)"
  using bad_request_state [OF assms, of call] by blast

theorem bad_request_answered_witness: "\<exists>s'. svr_http_fetch idle_sys (srv_call idle_sys) 2 (Cache_new MAXCSIZE, sample [2 \<mapsto> bad_get] [6 \<mapsto> ''GET'' @ [NUL]]) = Inr (EHTTP_OK, s') \<and>
   (\<exists>b. sv_bufs (snd s') b = Some (''HTTP/1.1 400 Bad Request'' @ CRLF @ CRLF @ [NUL]))"
proof -
  let ?s = "(Cache_new MAXCSIZE :: srv_cb cache, sample [2 \<mapsto> bad_get] [6 \<mapsto> ''GET'' @ [NUL]])"
  have "bad_request bad_get ?s" "\<not> ch_cached (chead bad_get)" "cpn bad_get = 1" by (simp_all add: bad_request_def bad_get_def HPKG_def charn_new_def)
  then show ?thesis
    using bad_request_answered [of ?s 2 bad_get sample_peer CS_CONNECTED 5 idle_sys "srv_call idle_sys"] idle_pending
    by (auto simp: sample_def sample_peer_def closing_def)
qed

text \<open>
  C33: When the peer of a bad request is gone before the reply is written, the server aborts: the
  error callback of the write expects the key of a header, which a bad request never has.
\<close>

theorem lost_400_aborts:
  assumes p: "sv_pkgs (snd s) pk = Some p" "bad_request p s" "\<not> ch_cached (chead p)" "ch_p (headkey p) = None"
    and c: "sv_conns (snd s) (cpn p) = Some c" "cst c = Some st" "\<not> closing st" "cfd c = Some fd" and E: "pending E"
  shows "\<exists>s'. svr_http_fetch E call pk s = Inr (EHTTP_OK, s') \<and>
    run_task E' (ErrTask (FinalAio pk) fd errcode) s' = Inl AssertFailed"
proof -
  obtain s' q where s': "svr_http_fetch E call pk s = Inr (EHTTP_OK, s')" "sv_pkgs (snd s') = (sv_pkgs (snd s))(pk \<mapsto> q)"
    "cpn q = cpn p" "hst q = HS_WRITING" "wst q = Some WS_HEAD" "headkey q = headkey p" "sv_conns (snd s') = sv_conns (snd s)"
    using bad_request_state [OF p(1-3) c E, of call] by blast
  have "cst_of (cpn p) s' = Inr st" "st \<noteq> CS_CLOSING" using c s'(7) by (simp_all add: cst_of_def conn_of_def closing_def)
  then have "svr_http_final_aio E' (srv_call E') pk s' = Inl AssertFailed"
    using s' p(4) c by (simp add: svr_http_final_aio_def pkg_of_def set_cst_def conn_of_def store_conn_def)
  then show ?thesis using s'(1) by (simp add: run_task_def drop_code_def)
qed

theorem lost_400_aborts_witness: "\<exists>s'. svr_http_fetch idle_sys (srv_call idle_sys) 2 (Cache_new MAXCSIZE, sample [2 \<mapsto> bad_get] [6 \<mapsto> ''GET'' @ [NUL]]) = Inr (EHTTP_OK, s') \<and>
   run_task idle_sys (ErrTask (FinalAio 2) 5 32) s' = Inl AssertFailed"
proof -
  let ?s = "(Cache_new MAXCSIZE :: srv_cb cache, sample [2 \<mapsto> bad_get] [6 \<mapsto> ''GET'' @ [NUL]])"
  have "bad_request bad_get ?s" "\<not> ch_cached (chead bad_get)" "cpn bad_get = 1" "ch_p (headkey bad_get) = None"
    by (simp_all add: bad_request_def bad_get_def HPKG_def charn_new_def)
  then show ?thesis
    using lost_400_aborts [of ?s 2 bad_get sample_peer CS_CONNECTED 5 idle_sys "srv_call idle_sys" idle_sys 32] idle_pending
    by (auto simp: sample_def sample_peer_def closing_def)
qed

section \<open>Listening and accepting\<close>

text \<open>
  When the socket cannot be created, bound or listened on, the server does not stop: it goes on
  to accept on a connection whose state was never set, and a socket that failed to listen stays open.
\<close>

theorem failed_listen_is_used:
  assumes "sint (env_socket E) < 0 \<or> sint (env_bind E (env_socket E) \<lparr>sin_family = AF_INET, sin_port = SVR_PORT, sin_addr = 0\<rparr>) < 0 \<or>
    sint (env_listen E (env_socket E)) < 0"
  shows "\<exists>svrC s. svr_start E = Inr (svrC, s) \<and> svr_conn_accept E' (Some svrC) s = Some (Inl Indeterminate) \<and>
    (0 \<le> sint (env_socket E) \<and> 0 \<le> sint (env_bind E (env_socket E) \<lparr>sin_family = AF_INET, sin_port = SVR_PORT, sin_addr = 0\<rparr>) \<longrightarrow>
       sv_fds (snd s) = {env_socket E})"
  using assms
  by (auto simp: svr_start_def Conn_def srv_new_def svr_conn_listen_def Let_def open_fd_def close_fd_def
      svr_conn_accept_def conn_of_def known_def)

theorem failed_listen_is_used_witness: "\<exists>svrC s. svr_start (idle_sys\<lparr>env_socket := - 1\<rparr>) = Inr (svrC, s) \<and>
    svr_conn_accept idle_sys (Some svrC) s = Some (Inl Indeterminate)"
  using failed_listen_is_used [of "idle_sys\<lparr>env_socket := - 1\<rparr>" idle_sys] by auto

text \<open>A connection with this descriptor was made, and the kernel reads its first request.\<close>

definition accepted :: "addr \<Rightarrow> conn \<Rightarrow> c_int \<Rightarrow> srv_st \<Rightarrow> srv_st \<Rightarrow> bool" where
  "accepted svr c fd s s' \<longleftrightarrow> (\<exists>p a b k.
     fst s' = fst s \<and>
     sv_conns (snd s') = (sv_conns (snd s))(svr \<mapsto> c\<lparr>nc := nc c + 1\<rparr>, sv_next (snd s) \<mapsto>
       \<lparr>cst = Some CS_CONNECTED, cfd = Some fd, csa = None, cpp = Some svr, nc = 0\<rparr>) \<and>
     sv_pkgs (snd s') = (sv_pkgs (snd s))(Suc (sv_next (snd s)) \<mapsto> p) \<and>
     cpn p = sv_next (snd s) \<and> ppg p = None \<and> hst p = HS_READING \<and> ch_p (chead p) = Some b \<and>
     aio_cbs (sv_aio (snd s')) a = Some \<lparr>cb_func = AioRead, cb_fildes = fd, cb_buf = Some b, cb_nbytes = 8191,
       cb_offset = 0, cb_sival_ptr = None\<rparr> \<and>
     aio_callbacks (sv_aio (snd s')) k \<noteq> None \<and>
     aio_queue (sv_aio (snd s')) = aio_queue (sv_aio (snd s)) @ [UnitTask_id (CheckTask a (Some k)) 0] \<and>
     sv_bufs (snd s') b = Some (replicate 8192 NUL))"

lemma new_peer_spec:
  assumes c: "sv_conns (snd s) svr = Some c" "svr < sv_next (snd s)" and f: "\<forall>b \<in> set (freed_bufs (fst s)). b < sv_next (snd s)"
    and E: "pending E"
  shows "\<exists>s'. new_peer E svr fd s = Inr (ERRCONN_OK, Some (sv_next (snd s)), s') \<and>
    sv_fds (snd s') = sv_fds (snd s) \<and> accepted svr c fd s s'"
proof -
  let ?n = "sv_next (snd s)"
  let ?peer = "\<lparr>cst = Some CS_CONNECTED, cfd = Some fd, csa = None, cpp = Some svr, nc = 0\<rparr>"
  let ?conns = "(sv_conns (snd s))(svr \<mapsto> c\<lparr>nc := nc c + 1\<rparr>, ?n \<mapsto> ?peer)"
  let ?t = "(fst s, (snd s)\<lparr>sv_conns := ?conns, sv_pkgs := (sv_pkgs (snd s))(Suc ?n \<mapsto> HPKG ?n), sv_next := Suc (Suc ?n)\<rparr>)"
  have eq: "new_peer E svr fd s = and_then (svr_http_read E (Suc ?n) ?t) (\<lambda>(err, s).
      Inr (if err = EHTTP_READ then ERRCONN_AC else ERRCONN_OK, Some ?n, s))"
    using c by (simp add: new_peer_def Conn_def Let_def conn_of_def store_conn_def new_pkg_def)
  have free: "Suc (Suc ?n) \<notin> set (freed_bufs (fst s))" using f by force
  let ?A = "sv_aio (snd s)"
  let ?p = "(HPKG ?n)\<lparr>hst := HS_READING, chead := \<lparr>ch_p = Some (Suc (Suc ?n)), ch_n = 0, ch_cached = False\<rparr>\<rparr>"
  let ?cb = "\<lparr>cb_func = AioRead, cb_fildes = fd, cb_buf = Some (Suc (Suc ?n)), cb_nbytes = 8191, cb_offset = 0, cb_sival_ptr = None\<rparr>"
  define u where "u = (fst s, (snd s)\<lparr>sv_conns := ?conns, sv_next := Suc (Suc (Suc ?n)),
     sv_pkgs := (sv_pkgs (snd s))(Suc ?n \<mapsto> ?p), sv_bufs := (sv_bufs (snd s))(Suc (Suc ?n) \<mapsto> replicate 8192 NUL)\<rparr>)"
  have u: "fst u = fst s" "sv_fds (snd u) = sv_fds (snd s)" "sv_conns (snd u) = ?conns" "sv_pkgs (snd u) = (sv_pkgs (snd s))(Suc ?n \<mapsto> ?p)"
    "sv_bufs (snd u) (Suc (Suc ?n)) = Some (replicate 8192 NUL)" "sv_aio (snd u) = ?A"
    by (simp_all add: u_def)
  have r: "svr_http_read E (Suc ?n) ?t =
      and_then (srv_aio E AioRead fd (Some (Suc (Suc ?n))) 8191 0 (ParseAio (Suc ?n)) (FinalAio (Suc ?n)) ReadTaskID u) (\<lambda>s. Inr (EHTTP_OK, s))"
    using free c(2)
    by (simp add: svr_http_read_def pkg_of_def cst_of_def cfd_of_def conn_of_def HPKG_def charn_new_def malloc_def new_block_def
        Let_def store_pkg_def store_block_def block_of_def MAXRH_def u_def fun_upd_twist)
  obtain v where v: "srv_aio E AioRead fd (Some (Suc (Suc ?n))) 8191 0 (ParseAio (Suc ?n)) (FinalAio (Suc ?n)) ReadTaskID u = Inr (fst u, (snd u)\<lparr>sv_aio := v\<rparr>)"
    "aio_cbs v (Suc (aio_next ?A)) = Some ?cb" "aio_callbacks v (aio_next ?A) \<noteq> None"
    "aio_queue v = aio_queue ?A @ [UnitTask_id (CheckTask (Suc (aio_next ?A)) (Some (aio_next ?A))) 0]"
    unfolding srv_aio_pending [OF E] by (simp add: Let_def u ReadTaskID_def)
  let ?s = "(fst u, (snd u)\<lparr>sv_aio := v\<rparr>)"
  have "new_peer E svr fd s = Inr (ERRCONN_OK, Some ?n, ?s)" unfolding eq r v(1) by simp
  moreover have "accepted svr c fd s ?s"
    unfolding accepted_def
    by (rule exI [of _ ?p], rule exI [of _ "Suc (aio_next ?A)"], rule exI [of _ "Suc (Suc ?n)"], rule exI [of _ "aio_next ?A"])
       (simp add: u v(2,4) v(3) [simplified] HPKG_def del: fun_upd_apply)
  moreover have "sv_fds (snd ?s) = sv_fds (snd s)" by (simp add: u)
  ultimately show ?thesis by blast
qed

lemma accept_eq:
  assumes "sv_conns (snd s) svr = Some c" "cst c = Some CS_LISTENING" "cfd c = Some lfd" "fd = env_accept E lfd"
  shows "svr_conn_accept E (Some svr) s =
    (if MaxACCEPT < nc c then None
     else if sint fd < 0 then Some (Inr (ERRCONN_AC, None, s))
     else if sint (env_rcvtimeo E fd) < 0 then
       Some (Inr (ERRCONN_AC, None, fst s, (snd s)\<lparr>sv_fds := insert fd (sv_fds (snd s))\<rparr>))
     else Some (new_peer E svr fd (fst s, (snd s)\<lparr>sv_fds := insert fd (sv_fds (snd s))\<rparr>)))"
  using assms by (simp add: svr_conn_accept_def conn_of_def socketSetBlockingAndTimeout_def Let_def open_fd_def)

lemma accept_new:
  assumes c: "sv_conns (snd s) svr = Some c" "cst c = Some CS_LISTENING" "cfd c = Some lfd" "svr < sv_next (snd s)"
    and f: "\<forall>b \<in> set (freed_bufs (fst s)). b < sv_next (snd s)" and E: "pending E" and fd: "fd = env_accept E lfd"
    and ok: "nc c \<le> MaxACCEPT" "0 \<le> sint fd" "0 \<le> sint (env_rcvtimeo E fd)"
  shows "\<exists>s'. svr_conn_accept E (Some svr) s = Some (Inr (ERRCONN_OK, Some (sv_next (snd s)), s')) \<and>
    sv_fds (snd s') = insert fd (sv_fds (snd s)) \<and> accepted svr c fd s s'"
proof -
  let ?t = "(fst s, (snd s)\<lparr>sv_fds := insert fd (sv_fds (snd s))\<rparr>)"
  have t: "accepted svr c fd ?t s' = accepted svr c fd s s'" for s' by (simp add: accepted_def)
  have "\<exists>s'. new_peer E svr fd ?t = Inr (ERRCONN_OK, Some (sv_next (snd s)), s') \<and>
      sv_fds (snd s') = insert fd (sv_fds (snd s)) \<and> accepted svr c fd s s'"
    using new_peer_spec [of ?t svr c E fd] c f E unfolding t by simp
  then show ?thesis using ok unfolding accept_eq [OF c(1-3) fd] by (auto simp: not_less)
qed

text \<open>
  What \<open>svr_conn_accept\<close> does on the listening connection, case by case: it sleeps while the pool
  is full; an error of \<open>accept\<close> changes nothing; when the timeout cannot be set the accepted
  descriptor stays open although no connection was made for it; otherwise there is a new connection
  with that descriptor, a package of its own, and a read into a cleared buffer that the kernel has.
\<close>

theorem accept_outcomes:
  assumes c: "sv_conns (snd s) svr = Some c" "cst c = Some CS_LISTENING" "cfd c = Some lfd" "svr < sv_next (snd s)"
    and f: "\<forall>b \<in> set (freed_bufs (fst s)). b < sv_next (snd s)" and E: "pending E" and fd: "fd = env_accept E lfd"
  shows "(MaxACCEPT < nc c \<longrightarrow> svr_conn_accept E (Some svr) s = None) \<and>
    (nc c \<le> MaxACCEPT \<and> sint fd < 0 \<longrightarrow> svr_conn_accept E (Some svr) s = Some (Inr (ERRCONN_AC, None, s))) \<and>
    (nc c \<le> MaxACCEPT \<and> 0 \<le> sint fd \<and> sint (env_rcvtimeo E fd) < 0 \<longrightarrow>
       svr_conn_accept E (Some svr) s = Some (Inr (ERRCONN_AC, None, fst s, (snd s)\<lparr>sv_fds := insert fd (sv_fds (snd s))\<rparr>))) \<and>
    (nc c \<le> MaxACCEPT \<and> 0 \<le> sint fd \<and> 0 \<le> sint (env_rcvtimeo E fd) \<longrightarrow>
       (\<exists>s'. svr_conn_accept E (Some svr) s = Some (Inr (ERRCONN_OK, Some (sv_next (snd s)), s')) \<and>
          sv_fds (snd s') = insert fd (sv_fds (snd s)) \<and> accepted svr c fd s s'))"
  using accept_eq [OF c(1-3) fd] accept_new [OF c f E fd] by (auto simp: not_less)

theorem accept_outcomes_witness: "\<exists>s'. svr_conn_accept idle_sys (Some 0) (Cache_new MAXCSIZE, sample Map.empty Map.empty) = Some (Inr (ERRCONN_OK, Some 20, s')) \<and>
    (\<exists>d. sv_conns (snd s') 0 = Some d \<and> nc d = 2)"
proof -
  let ?s = "(Cache_new MAXCSIZE :: srv_cb cache, sample Map.empty Map.empty)"
  let ?c = "\<lparr>cst = Some CS_LISTENING, cfd = Some 3, csa = None, cpp = None, nc = 1\<rparr>"
  have s: "sv_conns (snd ?s) 0 = Some ?c" "0 < sv_next (snd ?s)" "\<forall>b \<in> set (freed_bufs (fst ?s)). b < sv_next (snd ?s)"
    by (simp_all add: sample_def Cache_new_def)
  have E: "env_accept idle_sys 3 = 5" "env_rcvtimeo idle_sys 5 = 0" by (simp_all add: idle_sys_def)
  show ?thesis
    using accept_outcomes [OF s(1) _ _ s(2,3) idle_pending, of 3 5] E
    by (auto simp: accepted_def MaxACCEPT_def sample_def)
qed

text \<open>A server that has one client.\<close>

lemma first_client: "\<exists>s s'. svr_start idle_sys = Inr (0, s) \<and> svr_conn_accept idle_sys (Some 0) s = Some (Inr (ERRCONN_OK, Some 1, s')) \<and>
  0 < sv_next (snd s) \<and>
  accepted 0 \<lparr>cst = Some CS_LISTENING, cfd = Some 3, csa = Some \<lparr>sin_family = AF_INET, sin_port = SVR_PORT, sin_addr = 0\<rparr>, cpp = None, nc = 0\<rparr> 5 s s'"
proof -
  let ?c = "\<lparr>cst = Some CS_LISTENING, cfd = Some 3, csa = Some \<lparr>sin_family = AF_INET, sin_port = SVR_PORT, sin_addr = 0\<rparr>,
        cpp = None, nc = 0\<rparr>"
  let ?s = "(Cache_new MAXCSIZE, \<lparr>sv_pkgs = Map.empty, sv_conns = [0 \<mapsto> ?c],
      sv_bufs = Map.empty, sv_next = 1, sv_fds = {3}, sv_aio = aio_new, sv_out = []\<rparr>)"
  have s: "svr_start idle_sys = Inr (0, ?s)"
    by (simp add: svr_start_def Conn_def srv_new_def svr_conn_listen_def Let_def open_fd_def conn_of_def store_conn_def idle_sys_def)
  have c: "sv_conns (snd ?s) 0 = Some ?c" "0 < sv_next (snd ?s)" "\<forall>b \<in> set (freed_bufs (fst ?s)). b < sv_next (snd ?s)"
    by (simp_all add: Cache_new_def)
  have E: "5 = env_accept idle_sys 3" "env_rcvtimeo idle_sys 5 = 0" by (simp_all add: idle_sys_def)
  obtain s' where "svr_conn_accept idle_sys (Some 0) ?s = Some (Inr (ERRCONN_OK, Some 1, s'))" "accepted 0 ?c 5 ?s s'"
    using accept_new [OF c(1) _ _ c(2,3) idle_pending E(1)] E(2) by (auto simp: MaxACCEPT_def)
  with s c(2) show ?thesis by blast
qed

theorem connections_only_close_witness: "\<exists>s s' d. svr_start idle_sys = Inr (0, s) \<and> srv_later 0 s s' \<and> sv_conns (snd s') 0 = Some d \<and> nc d = 1 \<and> cfd d = Some 3"
proof -
  obtain s s' where s: "svr_start idle_sys = Inr (0, s)" "svr_conn_accept idle_sys (Some 0) s = Some (Inr (ERRCONN_OK, Some 1, s'))"
    "0 < sv_next (snd s)"
    "accepted 0 \<lparr>cst = Some CS_LISTENING, cfd = Some 3, csa = Some \<lparr>sin_family = AF_INET, sin_port = SVR_PORT, sin_addr = 0\<rparr>, cpp = None, nc = 0\<rparr> 5 s s'"
    using first_client by blast
  obtain d where d: "sv_conns (snd s') 0 = Some d" "nc d = 1" "cfd d = Some 3"
    using s(3,4) unfolding accepted_def by (elim exE conjE) simp
  have l: "srv_later 0 s s'" by (rule srv_later.accept [OF srv_later.now s(2)])
  show ?thesis using connections_only_close [OF srv_reach.start [OF s(1)] l d(1) s(3)] s(1) l d by blast
qed

theorem server_io_is_typed_witness: "\<exists>s a p pk. srv_reach 0 s \<and> (a, Some p) \<in> set (polls (sv_aio (snd s))) \<and>
    aio_callbacks (sv_aio (snd s)) p = Some (IOCallback_id (Some (ParseAio pk)) (Some (FinalAio pk)) 0)"
proof -
  obtain s s' c where s: "svr_start idle_sys = Inr (0, s)" "svr_conn_accept idle_sys (Some 0) s = Some (Inr (ERRCONN_OK, Some 1, s'))" "accepted 0 c 5 s s'"
    using first_client by blast
  have r: "srv_reach 0 s'" by (rule srv_reach.accept [OF srv_reach.start [OF s(1)] s(2)])
  obtain a cb where a: "aio_cbs (sv_aio (snd s')) a = Some cb" "cb_func cb = AioRead" "cb_nbytes cb = 8191"
    using s(3) unfolding accepted_def by fastforce
  have "aio_inv (sv_aio (snd s'))" using io_reach [OF r] aio_inv_reach by blast
  then have "dom (aio_cbs (sv_aio (snd s'))) = set (map fst (polls (sv_aio (snd s'))))" by (simp add: aio_inv_def poll_inv_def)
  then obtain x where x: "(a, x) \<in> set (polls (sv_aio (snd s')))" using a(1) by force
  then obtain p cb' ok err where p: "x = Some p" "aio_cbs (sv_aio (snd s')) a = Some cb'"
    "aio_callbacks (sv_aio (snd s')) p = Some (IOCallback_id (Some ok) (Some err) 0)" "op_typed (cb_func cb') (cb_nbytes cb') ok err"
    using server_io_is_typed [OF r] by blast
  then have "\<exists>pk. ok = ParseAio pk \<and> err = FinalAio pk" using a by (cases ok) (simp_all add: op_typed_def MAXWB_def)
  then show ?thesis using r x p by blast
qed

end
