(* ===== verification/HttpPage.thy ===== *)
theory HttpPage
  imports HttpProps
begin

text \<open>
  The first request for a page, through the server and its cache: the header is made once, put into
  the cache under the key of the page, and the very buffer that is cached goes to the client.
\<close>

section \<open>An example\<close>

definition page_get :: hpkg where
  "page_get = (HPKG 1)\<lparr>pk_uri := \<lparr>ch_p = Some 6, ch_n = 1, ch_cached = False\<rparr>, ppg := Some 3\<rparr>"

lemma page_get: "hfd page_get = - 1" "chead page_get = charn_new" "vern page_get < 2" "ch_p (headkey page_get) = None" "cpn page_get = 1" "ch_p (pk_uri page_get) = Some 6"
  by (simp_all add: page_get_def HPKG_def charn_new_def)

section \<open>The cache, for a key that is not there\<close>

definition cache_kept :: "'cb cache \<Rightarrow> 'cb cache \<Rightarrow> bool" where
  "cache_kept c c' \<longleftrightarrow> freed_bufs c' = freed_bufs c \<and> currentSize c' = currentSize c \<and> sizeQuota c' = sizeQuota c \<and>
     next_addr c \<le> next_addr c'"

lemma get_or_reserve_miss:
  assumes n: "find_entry key (fst s) = None"
  shows "\<exists>c e q. get_or_reserve call key cb s = Inr (False, c, snd s) \<and> find_entry key c = Some e \<and>
    entries c = (entries (fst s))(e \<mapsto> (CacheEntry_reserved key)\<lparr>ce_queue := [q]\<rparr>) \<and> callbacks c q = Some cb \<and>
    cacheMap c = cacheMap (fst s) @ [(key, e)] \<and> next_addr (fst s) \<le> e \<and> e < next_addr c \<and> cache_kept (fst s) c"
proof -
  have m: "map_of (cacheMap (fst s)) key = None" using n by (simp add: find_entry_def)
  let ?e = "Suc (next_addr (fst s))"
  have "\<exists>c. get_or_reserve call key cb s = Inr (False, c, snd s) \<and> find_entry key c = Some ?e \<and>
    entries c = (entries (fst s))(?e \<mapsto> (CacheEntry_reserved key)\<lparr>ce_queue := [Suc ?e]\<rparr>) \<and> callbacks c (Suc ?e) = Some cb \<and>
    cacheMap c = cacheMap (fst s) @ [(key, ?e)] \<and> next_addr (fst s) \<le> ?e \<and> ?e < next_addr c \<and> cache_kept (fst s) c"
    using m by (simp add: get_or_reserve_def new_cache_cb_def new_callback_def Let_def Cache_get_def find_entry_def
        delete_callback_def Cache_reserve_def new_name_def strCpy_eq insert_entry_def map_add_def update_entry_def
        CacheEntry_reserved_def cache_kept_def)
  then show ?thesis by blast
qed

text \<open>\<open>put\<close> of a reserved key for which one callback waits, when the callback leaves the cache alone.\<close>

lemma header_put_reserved:
  assumes e: "find_entry key c = Some e" "entries c e = Some ((CacheEntry_reserved key)\<lparr>ce_queue := [q]\<rparr>)" "callbacks c q = Some cb"
    and call: "\<And>c' . freed_bufs c' = freed_bufs c \<Longrightarrow> call cb (CacheData buf sz True) (c', w) = Inr (c', w')"
  shows "\<exists>c'. Cache_put call key buf sz (c, w) = Inr (True, c', w') \<and> find_entry key c' = Some e \<and> cacheMap c' = cacheMap c \<and>
    entries c' = (entries c)(e \<mapsto> \<lparr>ce_name = Some key, ce_data = buf, ce_size = sz, ce_refCount = 2, ce_freeListRef = None,
      ce_isReserved = False, ce_queue = [q]\<rparr>) \<and> cache_kept c c'"
  using assms
  by (simp add: Cache_put_def new_name_def strCpy_eq find_entry_def Let_def update_entry_def invoke_def delete_callback_def
      CacheEntry_reserved_def delete_name_def cache_kept_def numeral_2_eq_2)

section \<open>The header of a page\<close>

text \<open>What the first request for \<open>uri\<close> is answered with.\<close>

definition page_header :: "srv_sys \<Rightarrow> nat \<Rightarrow> string \<Rightarrow> string" where
  "page_header E v uri =
     (if sint (env_open E uri) < 0 then header_404 v
      else (case env_fstat E (env_open E uri) of
              Some (st_size, st_mtime) \<Rightarrow> header_200 v (env_date E (env_time E)) (env_date E st_mtime) st_size
            | None \<Rightarrow> []))"

lemma wio_step:
  assumes p: "sv_pkgs w pk = Some p" and c: "sv_conns w (cpn p) = Some cn" "cst cn = Some st" "\<not> closing st" "cfd cn = Some fd"
    and b: "sv_bufs w b = Some (t @ rest)" and E: "pending E" and v: "v < 2"
    and t: "t = (if ok then header_200 v d l n else header_404 v)"
  shows "\<exists>a A. (\<forall>c. b \<notin> set (freed_bufs c) \<longrightarrow> svr_http_header_wio E pk (CacheData (Some b) sz ic) (c, w) =
      Inr (EHTTP_OK, c, w\<lparr>sv_pkgs := (sv_pkgs w)(pk \<mapsto> p\<lparr>hst := HS_WRITING, wst := Some WS_HEAD, hsn := Some (if ok then N_200 else N_404)\<rparr>), sv_aio := A\<rparr>)) \<and>
    aio_cbs A a = Some \<lparr>cb_func = AioWrite, cb_fildes = fd, cb_buf = Some b, cb_nbytes = sz, cb_offset = 0, cb_sival_ptr = None\<rparr> \<and>
    aio_callbacks A (a - 1) = Some (IOCallback_id (Some (HeaderToBody pk)) (Some (FinalAio pk)) CacheTaskID) \<and>
    aio_queue A = aio_queue (sv_aio w) @ [UnitTask_id (CheckTask a (Some (a - 1))) CacheTaskID]"
proof -
  have s: "strncmp_eq (t @ rest) 9 ''200'' = Inr ok" "\<not> ok \<Longrightarrow> strncmp_eq (t @ rest) 9 ''404'' = Inr True"
    using status_of_reply [OF v, of d l n rest] t by (cases ok; simp del: strncmp_eq.simps)+
  let ?q = "p\<lparr>hst := HS_WRITING, wst := Some WS_HEAD, hsn := Some (if ok then N_200 else N_404)\<rparr>"
  let ?w = "w\<lparr>sv_pkgs := (sv_pkgs w)(pk \<mapsto> ?q)\<rparr>"
  have sn: "and_then (if ok then Inr N_200 else and_then (strncmp_eq (t @ rest) 9 ''404'')
      (\<lambda>missing. Inr (if missing then N_404 else N_UNO))) k = k (if ok then N_200 else N_404)" for k :: "http_sn \<Rightarrow> fault + (err_http \<times> srv_st)"
    using s(2) by (cases ok; simp del: strncmp_eq.simps)
  have r: "svr_http_header_wio E pk (CacheData (Some b) sz ic) (c, w) =
    and_then (srv_aio E AioWrite fd (Some b) sz 0 (HeaderToBody pk) (FinalAio pk) CacheTaskID (c, ?w)) (\<lambda>s. Inr (EHTTP_OK, s))"
    if "b \<notin> set (freed_bufs c)" for c
    using p c b s(1) that
    by (simp add: svr_http_header_wio_def CacheData_def pkg_of_def Let_def store_pkg_def cst_of_def cfd_of_def conn_of_def block_of_def sn
        del: strncmp_eq.simps)
  obtain A where A: "\<And>c. srv_aio E AioWrite fd (Some b) sz 0 (HeaderToBody pk) (FinalAio pk) CacheTaskID (c, ?w) = Inr (c, ?w\<lparr>sv_aio := A\<rparr>)"
    "aio_cbs A (Suc (aio_next (sv_aio w))) = Some \<lparr>cb_func = AioWrite, cb_fildes = fd, cb_buf = Some b, cb_nbytes = sz, cb_offset = 0, cb_sival_ptr = None\<rparr>"
    "aio_callbacks A (aio_next (sv_aio w)) = Some (IOCallback_id (Some (HeaderToBody pk)) (Some (FinalAio pk)) CacheTaskID)"
    "aio_queue A = aio_queue (sv_aio w) @ [UnitTask_id (CheckTask (Suc (aio_next (sv_aio w))) (Some (aio_next (sv_aio w)))) CacheTaskID]"
    unfolding srv_aio_pending [OF E] by (simp add: Let_def)
  show ?thesis
    by (rule exI [of _ "Suc (aio_next (sv_aio w))"], rule exI [of _ A]) (simp add: r A)
qed

lemma header_start:
  assumes p: "sv_pkgs (snd s) pk = Some p" "ch_p (headkey p) = None" "cst_of (cpn p) s = Inr st" "\<not> closing st"
    and u: "ch_p (pk_uri p) = Some ub" "sv_bufs (snd s) ub = Some (uri @ [NUL])" "NUL \<notin> set uri" "ub < sv_next (snd s)"
    and f: "\<forall>b \<in> set (freed_bufs (fst s)). b < sv_next (snd s)" "ub \<notin> set (freed_bufs (fst s))"
  defines "key \<equiv> take 255 uri"
  shows "\<exists>w K q. svr_http_header E call pk s = and_then (get_or_reserve call key (HeaderWio pk) (fst s, w)) (\<lambda>(hit, s).
      if hit then Inr (EHTTP_OK, s) else svr_http_header_rio E call pk s) \<and>
    sv_pkgs w = (sv_pkgs (snd s))(pk \<mapsto> q) \<and> cpn q = cpn p \<and> pk_uri q = pk_uri p \<and> hfd q = hfd p \<and> chead q = chead p \<and> vern q = vern p \<and>
    ch_p (headkey q) = Some (sv_next (snd s)) \<and>
    sv_bufs w = (sv_bufs (snd s))(sv_next (snd s) \<mapsto> K) \<and> c_str K 0 = Inr key \<and> sv_next w = Suc (sv_next (snd s)) \<and>
    sv_conns w = sv_conns (snd s) \<and> sv_aio w = sv_aio (snd s) \<and> sv_fds w = sv_fds (snd s) \<and> sv_out w = sv_out (snd s) \<and>
    (\<exists>n. q = p\<lparr>hst := HS_FETCHING, wst := Some WS_HEAD, headkey := \<lparr>ch_p = Some (sv_next (snd s)), ch_n = n, ch_cached = False\<rparr>\<rparr>)"
proof -
  let ?n = "sv_next (snd s)"
  let ?J = "(map (env_junk E ?n) [0..<MAXKEYS])[MAXKEYS - 1 := NUL]"
  let ?K = "strncpy ?J uri (MAXKEYS - 1)"
  have J: "length ?J = MAXKEYS" "?J ! (MAXKEYS - 1) = NUL" by (simp_all add: MAXKEYS_def)
  have key: "c_str ?K 0 = Inr key" using c_str_strncpy [OF J u(3)] by (simp add: key_def MAXKEYS_def)
  have len: "length ?K = length ?J" by (auto simp: strncpy_def MAXKEYS_def)
  have new: "?n \<notin> set (freed_bufs (fst s))" using f(1) by blast
  have uri: "c_str (uri @ [NUL]) 0 = Inr uri" by (rule c_str_split [of _ _ _ "[]"]) (use u(3) in simp_all)
  let ?q = "p\<lparr>hst := HS_FETCHING, wst := Some WS_HEAD, headkey := (headkey p)\<lparr>ch_p := Some ?n, ch_cached := False, ch_n := of_nat (length key)\<rparr>\<rparr>"
  let ?w = "(snd s)\<lparr>sv_next := Suc ?n, sv_bufs := (sv_bufs (snd s))(?n \<mapsto> ?K), sv_pkgs := (sv_pkgs (snd s))(pk \<mapsto> ?q)\<rparr>"
  let ?s1 = "store_pkg pk (p\<lparr>hst := HS_FETCHING, wst := Some WS_HEAD\<rparr>) s"
  have kbe: "key_block E (headkey p) ?s1 = ((headkey p)\<lparr>ch_p := Some ?n, ch_cached := False\<rparr>, fst s,
      (snd ?s1)\<lparr>sv_bufs := (sv_bufs (snd s))(?n \<mapsto> ?J), sv_next := Suc ?n\<rparr>)"
    using p(2) by (simp add: key_block_def new_block_def store_pkg_def)
  have cl: "closing st = False" using p(4) by simp
  have "svr_http_header E call pk s = and_then (get_or_reserve call key (HeaderWio pk) (fst s, ?w)) (\<lambda>(hit, s).
      if hit then Inr (EHTTP_OK, s) else svr_http_header_rio E call pk s)"
    using p u f new key len uri cl kbe
    by (simp add: svr_http_header_def pkg_of_def cst_of_def conn_of_def Let_def new_block_def str_of_def block_of_def store_block_def store_pkg_def)
  moreover have "\<exists>n. ?q = p\<lparr>hst := HS_FETCHING, wst := Some WS_HEAD, headkey := \<lparr>ch_p = Some ?n, ch_n = n, ch_cached = False\<rparr>\<rparr>"
    by (cases "headkey p") (rule exI [of _ "of_nat (length key)"], simp)
  ultimately show ?thesis
    using key by (intro exI [of _ ?w] exI [of _ ?K] exI [of _ ?q] conjI) (assumption | simp)+
qed

lemma header_rio_new:
  assumes p: "sv_pkgs w pk = Some p" "hfd p = - 1" "chead p = charn_new" "vern p < 2" "ch_p (headkey p) = Some kb"
    and cn: "sv_conns w (cpn p) = Some cn" "cst cn = Some st" "\<not> closing st" "cfd cn = Some fd"
    and u: "ch_p (pk_uri p) = Some ub" "sv_bufs w ub = Some (uri @ [NUL])" "NUL \<notin> set uri"
    and k: "sv_bufs w kb = Some K" "c_str K 0 = Inr key" "kb < sv_next w"
    and f: "\<forall>b \<in> set (freed_bufs c). b < sv_next w" "ub \<notin> set (freed_bufs c)" "kb \<notin> set (freed_bufs c)"
    and e: "find_entry key c = Some e" "entries c e = Some ((CacheEntry_reserved key)\<lparr>ce_queue := [q]\<rparr>)" "callbacks c q = Some (HeaderWio pk)"
    and E: "pending E" "0 \<le> sint (env_open E uri) \<Longrightarrow> env_fstat E (env_open E uri) \<noteq> None"
    and t: "length (page_header E (vern p) uri) < MAXWH - 1"
  defines "tx \<equiv> page_header E (vern p) uri"
  shows "\<exists>c' w' a b r junk. svr_http_header_rio E (srv_call E) pk (c, w) = Inr (EHTTP_OK, c', w') \<and>
    find_entry key c' = Some e \<and>
    entries c' e = Some \<lparr>ce_name = Some key, ce_data = Some b, ce_size = of_nat (length tx), ce_refCount = 2,
      ce_freeListRef = None, ce_isReserved = False, ce_queue = [q]\<rparr> \<and>
    sv_bufs w' b = Some (tx @ NUL # junk) \<and>
    sv_pkgs w' pk = Some r \<and> hsn r = Some (if sint (env_open E uri) < 0 then N_404 else N_200) \<and> hst r = HS_WRITING \<and> wst r = Some WS_HEAD \<and>
    ch_p (chead r) = Some b \<and> ch_cached (chead r) \<and>
    aio_cbs (sv_aio w') a = Some \<lparr>cb_func = AioWrite, cb_fildes = fd, cb_buf = Some b, cb_nbytes = of_nat (length tx), cb_offset = 0, cb_sival_ptr = None\<rparr> \<and>
    aio_callbacks (sv_aio w') (a - 1) = Some (IOCallback_id (Some (HeaderToBody pk)) (Some (FinalAio pk)) CacheTaskID) \<and>
    aio_queue (sv_aio w') = aio_queue (sv_aio w) @ [UnitTask_id (CheckTask a (Some (a - 1))) CacheTaskID] \<and>
    b = sv_next w \<and> sv_bufs w' = (sv_bufs w)(b \<mapsto> tx @ NUL # junk) \<and> sv_next w' = Suc b \<and> sv_conns w' = sv_conns w \<and>
    sv_pkgs w' = (sv_pkgs w)(pk \<mapsto> r) \<and> sv_out w' = sv_out w \<and>
    cacheMap c' = cacheMap c \<and> (\<exists>d. entries c' = (entries c)(e \<mapsto> d)) \<and> cache_kept c c' \<and>
    (\<exists>n i y z. r = p\<lparr>hst := HS_WRITING, wst := Some WS_HEAD, hfd := env_open E uri, hsn := hsn r,
       chead := \<lparr>ch_p = Some b, ch_n = n, ch_cached = True\<rparr>, tr_offset := i, tr_nbytes := y, tr_times := z\<rparr> \<and>
       (0 \<le> sint (env_open E uri) \<longrightarrow> i = 0))"
proof -
  let ?f = "env_open E uri"
  let ?n = "sv_next w"
  have uri: "c_str (uri @ [NUL]) 0 = Inr uri" by (rule c_str_split [of _ _ _ "[]"]) (use u(3) in simp_all)
  have new: "?n \<notin> set (freed_bufs c)" using f(1) by blast
  define ok where "ok \<longleftrightarrow> 0 \<le> sint ?f"
  obtain d l n where tx: "tx = (if ok then header_200 (vern p) d l n else header_404 (vern p))"
    using E(2) by (cases ok; cases "env_fstat E ?f"; fastforce simp: tx_def page_header_def ok_def not_le)
  define m where "m = (if ok then MAXWH else length tx + 1)"
  define j where "j = (if ok then MAXWH - 1 else length tx + 1)"
  obtain w1 where w1: "open_fd ?f (c, w) = (c, w1)" "sv_pkgs w1 = sv_pkgs w" "sv_conns w1 = sv_conns w" "sv_bufs w1 = sv_bufs w"
    "sv_next w1 = sv_next w" "sv_aio w1 = sv_aio w" "sv_out w1 = sv_out w"
    by (cases "sint ?f < 0") (auto simp: open_fd_def)
  have tj: "length tx < j" "j \<le> m" using t by (auto simp: m_def j_def tx_def [symmetric] MAXWH_def)
  obtain junk s' where s': "print_block E m j tx (c, w1) = (\<lparr>ch_p = Some ?n, ch_n = of_nat (length tx), ch_cached = False\<rparr>, s')"
    "sv_bufs (snd s') = (sv_bufs w)(?n \<mapsto> tx @ NUL # junk)" "fst s' = c" "sv_pkgs (snd s') = sv_pkgs w"
    "sv_conns (snd s') = sv_conns w" "sv_aio (snd s') = sv_aio w" "sv_out (snd s') = sv_out w" "sv_next (snd s') = Suc ?n"
    using print_block_text [OF tj, of E "(c, w1)"] w1 by auto
  define w2 where "w2 = snd s'"
  have w2: "print_block E m j tx (c, w1) = (\<lparr>ch_p = Some ?n, ch_n = of_nat (length tx), ch_cached = False\<rparr>, c, w2)"
    "sv_bufs w2 = (sv_bufs w)(?n \<mapsto> tx @ NUL # junk)" "sv_pkgs w2 = sv_pkgs w" "sv_conns w2 = sv_conns w" "sv_aio w2 = sv_aio w"
    "sv_out w2 = sv_out w" "sv_next w2 = Suc ?n"
    using s' by (auto simp: w2_def)
  obtain r where r: "svr_http_header_rio E (srv_call E) pk (c, w) = put_header (srv_call E) pk r (c, w2)"
    "cpn r = cpn p" "headkey r = headkey p" "chead r = \<lparr>ch_p = Some ?n, ch_n = of_nat (length tx), ch_cached = False\<rparr>"
    "\<exists>h i y z. r = p\<lparr>hst := HS_FETCHING, wst := Some WS_HEAD, hfd := ?f, hsn := h,
       chead := \<lparr>ch_p = Some ?n, ch_n = of_nat (length tx), ch_cached = False\<rparr>, tr_offset := i, tr_nbytes := y, tr_times := z\<rparr> \<and> (ok \<longrightarrow> i = 0)"
  proof (cases ok)
    case True
    then obtain sz mt where fs: "env_fstat E ?f = Some (sz, mt)" using E(2) by (auto simp: ok_def)
    have "tx = header_200 (vern p) (env_date E (env_time E)) (env_date E mt) sz" "\<not> sint ?f < 0"
      using True fs by (simp_all add: tx_def page_header_def ok_def)
    then have "svr_http_header_rio E (srv_call E) pk (c, w) = put_header (srv_call E) pk
        (p\<lparr>hst := HS_FETCHING, wst := Some WS_HEAD, hfd := ?f, hsn := Some N_200,
           chead := \<lparr>ch_p = Some ?n, ch_n = of_nat (length tx), ch_cached = False\<rparr>, tr_offset := 0,
           tr_nbytes := sz, tr_times := Some (env_time E, mt)\<rparr>) (c, w2)"
      using p u uri f(2) w1(1) w2(1) fs True
      by (simp add: svr_http_header_rio_def pkg_of_def str_of_def block_of_def Let_def m_def j_def charn_new_def)
    then show ?thesis
    proof (rule that)
      show "\<exists>n i y z. p\<lparr>hst := HS_FETCHING, wst := Some WS_HEAD, hfd := ?f, hsn := Some N_200, chead := h, tr_offset := 0, tr_nbytes := u, tr_times := v\<rparr> =
        p\<lparr>hst := HS_FETCHING, wst := Some WS_HEAD, hfd := ?f, hsn := n, chead := h, tr_offset := i, tr_nbytes := y, tr_times := z\<rparr> \<and>
        (ok \<longrightarrow> i = 0)" for h u v
        by blast
    qed simp_all
  next
    case False
    then have "tx = header_404 (vern p)" "sint ?f < 0" by (simp_all add: tx ok_def)
    then have "svr_http_header_rio E (srv_call E) pk (c, w) = put_header (srv_call E) pk
        (p\<lparr>hst := HS_FETCHING, wst := Some WS_HEAD, hfd := ?f, hsn := Some N_404,
           chead := \<lparr>ch_p = Some ?n, ch_n = of_nat (length tx), ch_cached = False\<rparr>\<rparr>) (c, w2)"
      using p u uri f(2) w1(1) w2(1) False
      by (simp add: svr_http_header_rio_def pkg_of_def str_of_def block_of_def Let_def m_def j_def charn_new_def)
    then show ?thesis
    proof (rule that)
      show "\<exists>n i y z. p\<lparr>hst := HS_FETCHING, wst := Some WS_HEAD, hfd := ?f, hsn := Some N_404, chead := h\<rparr> =
        p\<lparr>hst := HS_FETCHING, wst := Some WS_HEAD, hfd := ?f, hsn := n, chead := h, tr_offset := i, tr_nbytes := y, tr_times := z\<rparr> \<and>
        (ok \<longrightarrow> i = 0)" for h
        by (rule exI [of _ "Some N_404"], rule exI [of _ "tr_offset p"], rule exI [of _ "tr_nbytes p"], rule exI [of _ "tr_times p"])
          (use False in \<open>cases p, simp\<close>)
    qed simp_all
  qed
  let ?w3 = "w2\<lparr>sv_pkgs := (sv_pkgs w)(pk \<mapsto> r)\<rparr>"
  have w3: "sv_pkgs ?w3 pk = Some r" "sv_conns ?w3 (cpn r) = Some cn" "sv_bufs ?w3 ?n = Some (tx @ NUL # junk)"
    using cn(1) r(2) w2 by simp_all
  have v: "vern p < 2" by (rule p(4))
  have tx': "tx = (if ok then header_200 (vern p) d l n else header_404 (vern p))" by (rule tx)
  obtain a A where wio: "\<And>c'. ?n \<notin> set (freed_bufs c') \<Longrightarrow>
      svr_http_header_wio E pk (CacheData (Some ?n) (of_nat (length tx)) True) (c', ?w3) =
      Inr (EHTTP_OK, c', ?w3\<lparr>sv_pkgs := (sv_pkgs ?w3)(pk \<mapsto> r\<lparr>hst := HS_WRITING, wst := Some WS_HEAD, hsn := Some (if ok then N_200 else N_404)\<rparr>), sv_aio := A\<rparr>)"
    and A: "aio_cbs A a = Some \<lparr>cb_func = AioWrite, cb_fildes = fd, cb_buf = Some ?n, cb_nbytes = of_nat (length tx), cb_offset = 0, cb_sival_ptr = None\<rparr>"
    "aio_callbacks A (a - 1) = Some (IOCallback_id (Some (HeaderToBody pk)) (Some (FinalAio pk)) CacheTaskID)"
    "aio_queue A = aio_queue (sv_aio w) @ [UnitTask_id (CheckTask a (Some (a - 1))) CacheTaskID]"
    using wio_step [OF w3(1,2) cn(2-4) w3(3) E(1) v tx', of "of_nat (length tx)" True] w2(5) by auto
  let ?w4 = "?w3\<lparr>sv_pkgs := (sv_pkgs ?w3)(pk \<mapsto> r\<lparr>hst := HS_WRITING, wst := Some WS_HEAD, hsn := Some (if ok then N_200 else N_404)\<rparr>), sv_aio := A\<rparr>"
  have call: "srv_call E (HeaderWio pk) (CacheData (Some ?n) (of_nat (length tx)) True) (c', ?w3) = Inr (c', ?w4)"
    if "freed_bufs c' = freed_bufs c" for c'
    using wio [of c'] that new by (simp add: srv_call_def numeral_2_eq_2 drop_code_def)
  obtain c4 where put: "Cache_put (srv_call E) key (Some ?n) (of_nat (length tx)) (c, ?w3) = Inr (True, c4, ?w4)"
    "find_entry key c4 = Some e" "entries c4 e = Some \<lparr>ce_name = Some key, ce_data = Some ?n, ce_size = of_nat (length tx),
      ce_refCount = 2, ce_freeListRef = None, ce_isReserved = False, ce_queue = [q]\<rparr>"
    "cacheMap c4 = cacheMap c" "entries c4 = (entries c)(e \<mapsto> \<lparr>ce_name = Some key, ce_data = Some ?n, ce_size = of_nat (length tx),
      ce_refCount = 2, ce_freeListRef = None, ce_isReserved = False, ce_queue = [q]\<rparr>)" "cache_kept c c4"
    using header_put_reserved [OF e, of "srv_call E" "Some ?n" "of_nat (length tx)" ?w3 ?w4] call by auto
  have key: "str_of (ch_p (headkey r)) (c, w2) = Inr key"
    using r(3) p(5) k f(3) w2(2) by (simp add: str_of_def block_of_def)
  let ?r = "r\<lparr>hst := HS_WRITING, wst := Some WS_HEAD, hsn := Some (if ok then N_200 else N_404), chead := (chead r)\<lparr>ch_cached := True\<rparr>\<rparr>"
  let ?w5 = "?w4\<lparr>sv_pkgs := (sv_pkgs w)(pk \<mapsto> ?r)\<rparr>"
  have fin: "svr_http_header_rio E (srv_call E) pk (c, w) = Inr (EHTTP_OK, c4, ?w5)"
    unfolding r(1) put_header_def using key put(1) r(4) w2(3) by (simp add: store_pkg_def pkg_of_def)
  obtain h i y z where req: "r = p\<lparr>hst := HS_FETCHING, wst := Some WS_HEAD, hfd := ?f, hsn := h,
     chead := \<lparr>ch_p = Some ?n, ch_n = of_nat (length tx), ch_cached = False\<rparr>, tr_offset := i, tr_nbytes := y, tr_times := z\<rparr>"
    "ok \<longrightarrow> i = 0" using r(5) by blast
  have frame: "\<exists>n i y z. ?r = p\<lparr>hst := HS_WRITING, wst := Some WS_HEAD, hfd := ?f, hsn := hsn ?r,
      chead := \<lparr>ch_p = Some ?n, ch_n = n, ch_cached = True\<rparr>, tr_offset := i, tr_nbytes := y, tr_times := z\<rparr> \<and> (0 \<le> sint ?f \<longrightarrow> i = 0)"
    by (rule exI [of _ "of_nat (length tx)"], rule exI [of _ i], rule exI [of _ y], rule exI [of _ z])
      (use req in \<open>simp add: ok_def\<close>)
  have ent: "\<exists>d. entries c4 = (entries c)(e \<mapsto> d)" using put(5) by blast
  show ?thesis
    by (rule exI [of _ c4], rule exI [of _ ?w5], rule exI [of _ a], rule exI [of _ ?n], rule exI [of _ ?r], rule exI [of _ junk])
       (intro conjI, use fin put(2-4,6) ent frame A w2 r(4) in \<open>(simp add: ok_def not_less; fail)+\<close>)
qed

text \<open>
  C36: The first request for a page: the file is opened and the header (or the 404 reply) is printed
  once and put into the cache under the first 255 characters of the uri; the cached buffer itself,
  at its full length, is what the kernel is asked to write to the client, and reading the reply
  back the server knows whether a body follows.
\<close>

theorem first_request_loads_header:
  assumes p: "sv_pkgs (snd s) pk = Some p" "ch_p (headkey p) = None" "hfd p = - 1" "chead p = charn_new" "vern p < 2"
    and cn: "sv_conns (snd s) (cpn p) = Some cn" "cst cn = Some st" "\<not> closing st" "cfd cn = Some fd"
    and u: "ch_p (pk_uri p) = Some ub" "sv_bufs (snd s) ub = Some (uri @ [NUL])" "NUL \<notin> set uri" "ub < sv_next (snd s)"
    and f: "\<forall>b \<in> set (freed_bufs (fst s)). b < sv_next (snd s)" "ub \<notin> set (freed_bufs (fst s))"
    and miss: "find_entry (take 255 uri) (fst s) = None"
    and E: "pending E" "0 \<le> sint (env_open E uri) \<Longrightarrow> env_fstat E (env_open E uri) \<noteq> None"
      "length (page_header E (vern p) uri) < MAXWH - 1"
  shows "\<exists>c w e q a b r junk. svr_http_header E (srv_call E) pk s = Inr (EHTTP_OK, c, w) \<and>
    find_entry (take 255 uri) c = Some e \<and>
    entries c e = Some \<lparr>ce_name = Some (take 255 uri), ce_data = Some b, ce_size = of_nat (length (page_header E (vern p) uri)),
      ce_refCount = 2, ce_freeListRef = None, ce_isReserved = False, ce_queue = [q]\<rparr> \<and>
    sv_bufs w b = Some (page_header E (vern p) uri @ NUL # junk) \<and>
    sv_pkgs w pk = Some r \<and> hsn r = Some (if sint (env_open E uri) < 0 then N_404 else N_200) \<and> hst r = HS_WRITING \<and>
    wst r = Some WS_HEAD \<and> ch_p (chead r) = Some b \<and> ch_cached (chead r) \<and>
    aio_cbs (sv_aio w) a = Some \<lparr>cb_func = AioWrite, cb_fildes = fd, cb_buf = Some b,
      cb_nbytes = of_nat (length (page_header E (vern p) uri)), cb_offset = 0, cb_sival_ptr = None\<rparr> \<and>
    aio_callbacks (sv_aio w) (a - 1) = Some (IOCallback_id (Some (HeaderToBody pk)) (Some (FinalAio pk)) CacheTaskID) \<and>
    aio_queue (sv_aio w) = aio_queue (sv_aio (snd s)) @ [UnitTask_id (CheckTask a (Some (a - 1))) CacheTaskID]"
proof -
  let ?key = "take 255 uri"
  have st: "cst_of (cpn p) s = Inr st" using cn by (simp add: cst_of_def conn_of_def)
  obtain w K r where w: "svr_http_header E (srv_call E) pk s = and_then (get_or_reserve (srv_call E) ?key (HeaderWio pk) (fst s, w)) (\<lambda>(hit, s).
      if hit then Inr (EHTTP_OK, s) else svr_http_header_rio E (srv_call E) pk s)"
    "sv_pkgs w = (sv_pkgs (snd s))(pk \<mapsto> r)" "cpn r = cpn p" "pk_uri r = pk_uri p" "hfd r = hfd p" "chead r = chead p" "vern r = vern p"
    "ch_p (headkey r) = Some (sv_next (snd s))" "sv_bufs w = (sv_bufs (snd s))(sv_next (snd s) \<mapsto> K)" "c_str K 0 = Inr ?key"
    "sv_next w = Suc (sv_next (snd s))" "sv_conns w = sv_conns (snd s)" "sv_aio w = sv_aio (snd s)"
    using header_start [OF p(1,2) st cn(3) u f] by blast
  obtain c e q where c: "get_or_reserve (srv_call E) ?key (HeaderWio pk) (fst s, w) = Inr (False, c, w)" "find_entry ?key c = Some e"
    "entries c e = Some ((CacheEntry_reserved ?key)\<lparr>ce_queue := [q]\<rparr>)" "callbacks c q = Some (HeaderWio pk)" "freed_bufs c = freed_bufs (fst s)"
    using get_or_reserve_miss [of ?key "(fst s, w)" "srv_call E" "HeaderWio pk"] miss by (auto simp: cache_kept_def)
  have h: "svr_http_header E (srv_call E) pk s = svr_http_header_rio E (srv_call E) pk (c, w)" unfolding w(1) c(1) by simp
  have new: "sv_next (snd s) \<notin> set (freed_bufs c)" using f(1) c(5) by auto
  have R: "sv_pkgs w pk = Some r" "hfd r = - 1" "chead r = charn_new" "vern r < 2" using w p by simp_all
  have C: "sv_conns w (cpn r) = Some cn" using w cn by simp
  have U: "ch_p (pk_uri r) = Some ub" "sv_bufs w ub = Some (uri @ [NUL])" using w u by auto
  have B: "sv_bufs w (sv_next (snd s)) = Some K" "sv_next (snd s) < sv_next w" using w by simp_all
  have F: "\<forall>b \<in> set (freed_bufs c). b < sv_next w" "ub \<notin> set (freed_bufs c)" using f c(5) w(11) by force+
  show ?thesis
    unfolding h
    using header_rio_new [OF R w(8) C cn(2-4) U u(3) B(1) w(10) B(2) F new c(2-4) E(1,2)] E(3) w(7,13)
    by auto
qed

theorem first_request_loads_header_witness: "\<exists>c w e. svr_http_header idle_sys (srv_call idle_sys) 2 (Cache_new MAXCSIZE, sample [2 \<mapsto> page_get] [6 \<mapsto> ''a'' @ [NUL]]) = Inr (EHTTP_OK, c, w) \<and>
    find_entry ''a'' c = Some e"
proof -
  let ?s = "(Cache_new MAXCSIZE :: srv_cb cache, sample [2 \<mapsto> page_get] [6 \<mapsto> ''a'' @ [NUL]])"
  have E: "env_fstat idle_sys x \<noteq> None" "length (page_header idle_sys (vern page_get) ''a'') < MAXWH - 1" for x
    by (simp_all add: idle_sys_def page_header_def header_200_def page_get_def HPKG_def sline_200_def websvrd_def CRLF_def decimal.simps [of 3] MAXWH_def)
  show ?thesis
    using first_request_loads_header [of ?s 2 page_get sample_peer CS_CONNECTED 5 6 "''a''" idle_sys] idle_pending page_get E
    by (auto simp: sample_def sample_peer_def closing_def Cache_new_def find_entry_def NUL_def)
qed

section \<open>The header of a page that is cached\<close>

lemma get_or_reserve_hit:
  assumes e: "find_entry key c = Some e" "entries c e = Some d" "\<not> ce_isReserved d" "ce_freeListRef d = None"
    and call: "\<And>c'. freed_bufs c' = freed_bufs c \<Longrightarrow> call cb (CacheData (ce_data d) (ce_size d) True) (c', w) = Inr (c', w')"
  shows "\<exists>c'. get_or_reserve call key cb (c, w) = Inr (True, c', w') \<and>
    entries c' = (entries c)(e \<mapsto> d\<lparr>ce_refCount := ce_refCount d + 1\<rparr>) \<and> cacheMap c' = cacheMap c \<and> cache_kept c c'"
  using assms
  by (simp add: cache_kept_def get_or_reserve_def new_cache_cb_def new_callback_def Let_def Cache_get_def find_entry_def invoke_def
      update_entry_def delete_callback_def)

text \<open>
  Every later request for the page is served from the cache: no file is opened, the kernel is
  asked to write the same buffer again, and the entry counts one more reference, which nothing
  gives back when the write succeeds. The reply is the one that was cached, whichever version of
  HTTP this client asked with.
\<close>

theorem later_requests_share_header:
  assumes p: "sv_pkgs (snd s) pk = Some p" "ch_p (headkey p) = None"
    and cn: "sv_conns (snd s) (cpn p) = Some cn" "cst cn = Some st" "\<not> closing st" "cfd cn = Some fd"
    and u: "ch_p (pk_uri p) = Some ub" "sv_bufs (snd s) ub = Some (uri @ [NUL])" "NUL \<notin> set uri" "ub < sv_next (snd s)"
    and f: "\<forall>b \<in> set (freed_bufs (fst s)). b < sv_next (snd s)" "ub \<notin> set (freed_bufs (fst s))"
    and e: "find_entry (take 255 uri) (fst s) = Some e" "entries (fst s) e = Some d" "\<not> ce_isReserved d" "ce_freeListRef d = None"
      "ce_data d = Some b" "b < sv_next (snd s)" "b \<notin> set (freed_bufs (fst s))"
      "sv_bufs (snd s) b = Some ((if ok then header_200 v datestr lastmod n else header_404 v) @ rest)" "v < 2"
    and E: "pending E"
  shows "\<exists>c w a r. svr_http_header E (srv_call E) pk s = Inr (EHTTP_OK, c, w) \<and> sv_fds w = sv_fds (snd s) \<and>
    entries c = (entries (fst s))(e \<mapsto> d\<lparr>ce_refCount := ce_refCount d + 1\<rparr>) \<and>
    sv_pkgs w pk = Some r \<and> hsn r = Some (if ok then N_200 else N_404) \<and> hfd r = hfd p \<and> vern r = vern p \<and>
    sv_bufs w b = sv_bufs (snd s) b \<and>
    aio_cbs (sv_aio w) a = Some \<lparr>cb_func = AioWrite, cb_fildes = fd, cb_buf = Some b, cb_nbytes = ce_size d, cb_offset = 0, cb_sival_ptr = None\<rparr>"
proof -
  let ?key = "take 255 uri"
  have st: "cst_of (cpn p) s = Inr st" using cn by (simp add: cst_of_def conn_of_def)
  obtain w K r where w: "svr_http_header E (srv_call E) pk s = and_then (get_or_reserve (srv_call E) ?key (HeaderWio pk) (fst s, w)) (\<lambda>(hit, s).
      if hit then Inr (EHTTP_OK, s) else svr_http_header_rio E (srv_call E) pk s)"
    "sv_pkgs w = (sv_pkgs (snd s))(pk \<mapsto> r)" "cpn r = cpn p" "hfd r = hfd p" "vern r = vern p"
    "sv_bufs w = (sv_bufs (snd s))(sv_next (snd s) \<mapsto> K)" "sv_conns w = sv_conns (snd s)" "sv_fds w = sv_fds (snd s)"
    using header_start [OF p(1,2) st cn(3) u f] by blast
  have R: "sv_pkgs w pk = Some r" "sv_conns w (cpn r) = Some cn"
    "sv_bufs w b = Some ((if ok then header_200 v datestr lastmod n else header_404 v) @ rest)"
    using w cn(1) e(6,8) by simp_all
  obtain a A where wio: "\<forall>c. b \<notin> set (freed_bufs c) \<longrightarrow> svr_http_header_wio E pk (CacheData (Some b) (ce_size d) True) (c, w) =
      Inr (EHTTP_OK, c, w\<lparr>sv_pkgs := (sv_pkgs w)(pk \<mapsto> r\<lparr>hst := HS_WRITING, wst := Some WS_HEAD, hsn := Some (if ok then N_200 else N_404)\<rparr>), sv_aio := A\<rparr>)"
    and A: "aio_cbs A a = Some \<lparr>cb_func = AioWrite, cb_fildes = fd, cb_buf = Some b, cb_nbytes = ce_size d, cb_offset = 0, cb_sival_ptr = None\<rparr>"
    using wio_step [OF R(1,2) cn(2-4) R(3) E e(9) refl, of "ce_size d" True] by blast
  let ?w = "w\<lparr>sv_pkgs := (sv_pkgs w)(pk \<mapsto> r\<lparr>hst := HS_WRITING, wst := Some WS_HEAD, hsn := Some (if ok then N_200 else N_404)\<rparr>), sv_aio := A\<rparr>"
  have call: "srv_call E (HeaderWio pk) (CacheData (ce_data d) (ce_size d) True) (c', w) = Inr (c', ?w)"
    if "freed_bufs c' = freed_bufs (fst s)" for c'
    using wio that e(5,7) by (simp add: srv_call_def numeral_2_eq_2 drop_code_def)
  obtain c where c: "get_or_reserve (srv_call E) ?key (HeaderWio pk) (fst s, w) = Inr (True, c, ?w)"
    "entries c = (entries (fst s))(e \<mapsto> d\<lparr>ce_refCount := ce_refCount d + 1\<rparr>)"
    using get_or_reserve_hit [OF e(1-4), of "srv_call E" "HeaderWio pk" w ?w] call by blast
  show ?thesis
    by (rule exI [of _ c], rule exI [of _ ?w], rule exI [of _ a],
        rule exI [of _ "r\<lparr>hst := HS_WRITING, wst := Some WS_HEAD, hsn := Some (if ok then N_200 else N_404)\<rparr>"])
       (use w c A e(6) in simp)
qed

theorem later_requests_share_header_witness: "\<exists>c w d. svr_http_header idle_sys (srv_call idle_sys) 2
      ((Cache_new MAXCSIZE)\<lparr>cacheMap := [(''a'', 0)], entries := [0 \<mapsto> CacheEntry_new ''a'' (Some 7) 27]\<rparr>,
       sample [2 \<mapsto> page_get] [6 \<mapsto> ''a'' @ [NUL], 7 \<mapsto> header_404 0 @ [NUL]]) = Inr (EHTTP_OK, c, w) \<and>
    sv_fds w = {3, 5} \<and> entries c 0 = Some d \<and> ce_refCount d = 2"
proof -
  let ?c = "(Cache_new MAXCSIZE :: srv_cb cache)\<lparr>cacheMap := [(''a'', 0)], entries := [0 \<mapsto> CacheEntry_new ''a'' (Some 7) 27]\<rparr>"
  let ?s = "(?c, sample [2 \<mapsto> page_get] [6 \<mapsto> ''a'' @ [NUL], 7 \<mapsto> header_404 0 @ [NUL]])"
  show ?thesis
    using later_requests_share_header [of ?s 2 page_get sample_peer CS_CONNECTED 5 6 "''a''" 0 "CacheEntry_new ''a'' (Some 7) 27" 7
        False 0 "[]" "[]" 0 "[NUL]" idle_sys] idle_pending page_get
    by (auto simp: sample_def sample_peer_def closing_def Cache_new_def find_entry_def NUL_def CacheEntry_new_def)
qed

end
