(* ===== verification/HttpFile.thy ===== *)
theory HttpFile
  imports HttpPage
begin

text \<open>
  The body of a page, through the server, its cache and its I/O layer, for a client that is alone:
  the file is sent block by block, each block out of the cache or, when it is not there, read into
  it first. The lengths of the reads and writes are those the kernel likes.
\<close>

section \<open>The job\<close>

text \<open>
  What does not change while a page is sent: the uri, the file and its descriptor, the package with
  the members that stay, its parent and the connection.
\<close>

record job =
  jb_uri :: string
  jb_file :: string
  jb_fd :: c_int
  jb_pk :: addr
  jb_pkg :: hpkg
  jb_parent :: hpkg
  jb_conn :: conn

definition jb_key :: "job \<Rightarrow> nat \<Rightarrow> string" where
  "jb_key J i = body_text (jb_uri J) (of_nat i)"

definition jb_block :: "job \<Rightarrow> addr" where
  "jb_block J = the (ch_p (pk_uri (jb_pkg J)))"

definition jb_peer :: "job \<Rightarrow> c_int" where
  "jb_peer J = the (cfd (jb_conn J))"

definition job_ok :: "job \<Rightarrow> bool" where
  "job_ok J \<longleftrightarrow> NUL \<notin> set (jb_uri J) \<and> length (jb_file J) < 2 ^ 63 \<and>
     (\<forall>i \<le> length (jb_file J). length (jb_key J i) < MAXKEYS) \<and> 0 \<le> sint (jb_fd J) \<and>
     (\<exists>st. cst (jb_conn J) = Some st \<and> \<not> closing st) \<and> cfd (jb_conn J) \<noteq> None \<and>
     ch_p (pk_uri (jb_pkg J)) \<noteq> None \<and> \<not> ch_cached (pk_uri (jb_pkg J)) \<and> ppg (jb_pkg J) \<noteq> None \<and> ppg (jb_pkg J) \<noteq> Some (jb_pk J)"

text \<open>The members that sending a body writes, and a package that is at offset \<open>i\<close>.\<close>

definition rest_of :: "hpkg \<Rightarrow> hpkg" where
  "rest_of p = p\<lparr>hst := HS_UNKNOWN, wst := None, bodykey := charn_new, cbody := charn_new, hfd := - 1, tr_offset := 0\<rparr>"

definition pkg_at :: "job \<Rightarrow> nat \<Rightarrow> hpkg \<Rightarrow> bool" where
  "pkg_at J i p \<longleftrightarrow> rest_of p = rest_of (jb_pkg J) \<and> tr_offset p = of_nat i \<and> hfd p \<in> {- 1, jb_fd J} \<and> \<not> ch_cached (bodykey p)"

lemma rest_of_upd [simp]:
  "rest_of (p\<lparr>hst := h\<rparr>) = rest_of p" "rest_of (p\<lparr>wst := x\<rparr>) = rest_of p" "rest_of (p\<lparr>bodykey := k\<rparr>) = rest_of p"
  "rest_of (p\<lparr>cbody := b\<rparr>) = rest_of p" "rest_of (p\<lparr>hfd := f\<rparr>) = rest_of p" "rest_of (p\<lparr>tr_offset := n\<rparr>) = rest_of p"
  by (simp_all add: rest_of_def)

lemma rest_of_eq:
  assumes "rest_of p = rest_of q"
  shows "cpn p = cpn q" "ppg p = ppg q" "nsg p = nsg q" "pk_uri p = pk_uri q" "pk_ver p = pk_ver q" "pk_met p = pk_met q"
    "pk_host p = pk_host q" "chead p = chead q" "headkey p = headkey q" "hsn p = hsn q"
  using assms unfolding rest_of_def
  by - (drule arg_cong [of _ _ cpn] arg_cong [of _ _ ppg] arg_cong [of _ _ nsg] arg_cong [of _ _ pk_uri] arg_cong [of _ _ pk_ver]
      arg_cong [of _ _ pk_met] arg_cong [of _ _ pk_host] arg_cong [of _ _ chead] arg_cong [of _ _ headkey] arg_cong [of _ _ hsn], simp; fail)+

section \<open>States\<close>

text \<open>\<open>x\<close> starts with \<open>n\<close> bytes of the file from offset \<open>i\<close>, none only at its end.\<close>

definition piece :: "string \<Rightarrow> nat \<Rightarrow> nat \<Rightarrow> string \<Rightarrow> bool" where
  "piece F i n x \<longleftrightarrow> n \<le> length x \<and> i + n \<le> length F \<and> take n x = take n (drop i F) \<and> (n = 0 \<longrightarrow> i = length F)"

definition cache_wf :: "'cb cache \<Rightarrow> bool" where
  "cache_wf c \<longleftrightarrow> (\<forall>k e. find_entry k c = Some e \<longrightarrow> e < next_addr c) \<and>
     (\<forall>k k' e. find_entry k c = Some e \<and> find_entry k' c = Some e \<longrightarrow> k = k') \<and> currentSize c \<le> sizeQuota c"

text \<open>An entry that was loaded and is referenced, with a block that no package owns.\<close>

definition loaded :: "job \<Rightarrow> hpkg \<Rightarrow> nat \<Rightarrow> cache_entry \<Rightarrow> srv_st \<Rightarrow> bool" where
  "loaded J p i d s \<longleftrightarrow> \<not> ce_isReserved d \<and> ce_freeListRef d = None \<and> 0 < ce_refCount d \<and>
     (\<exists>b x. ce_data d = Some b \<and> b \<notin> set (freed_bufs (fst s)) \<and> b \<notin> set (owned p) \<and> sv_bufs (snd s) b = Some x \<and>
        piece (jb_file J) i (unat (ce_size d)) x)"

text \<open>The blocks of the page that are in the cache are blocks of the file, except at the offset \<open>no\<close>.\<close>

definition coherent :: "job \<Rightarrow> nat option \<Rightarrow> hpkg \<Rightarrow> srv_st \<Rightarrow> bool" where
  "coherent J no p s \<longleftrightarrow> (\<forall>i e. i \<le> length (jb_file J) \<and> Some i \<noteq> no \<and> find_entry (jb_key J i) (fst s) = Some e \<longrightarrow>
     (\<exists>d. entries (fst s) e = Some d \<and> loaded J p i d s))"

definition ready :: "job \<Rightarrow> nat \<Rightarrow> hpkg \<Rightarrow> srv_st \<Rightarrow> bool" where
  "ready J i p s \<longleftrightarrow> pkg_at J i p \<and> i \<le> length (jb_file J) \<and> sv_conns (snd s) (cpn (jb_pkg J)) = Some (jb_conn J) \<and>
     sv_pkgs (snd s) (the (ppg (jb_pkg J))) = Some (jb_parent J) \<and>
     sv_bufs (snd s) (jb_block J) = Some (jb_uri J @ [NUL]) \<and>
     (\<forall>kb. ch_p (bodykey p) = Some kb \<longrightarrow> (\<exists>x. sv_bufs (snd s) kb = Some x \<and> length x = MAXKEYS)) \<and>
     (ch_p (cbody p) = None \<or> ch_cached (cbody p)) \<and> owns s p \<and>
     (\<forall>b. sv_bufs (snd s) b \<noteq> None \<longrightarrow> b < sv_next (snd s)) \<and> (\<forall>b \<in> set (freed_bufs (fst s)). b < sv_next (snd s)) \<and>
     cache_wf (fst s)"

text \<open>The key block holds the key of offset \<open>i\<close>.\<close>

definition keyed :: "job \<Rightarrow> nat \<Rightarrow> hpkg \<Rightarrow> srv_st \<Rightarrow> bool" where
  "keyed J i p s \<longleftrightarrow> str_of (ch_p (bodykey p)) s = Inr (jb_key J i)"

lemma off_eq: "job_ok J \<Longrightarrow> i \<le> length (jb_file J) \<Longrightarrow> unat (of_nat i :: 64 word) = i"
  by (auto simp: job_ok_def unat_of_nat)

lemma jb_key_inj:
  assumes "job_ok J" "m \<le> length (jb_file J)" "n \<le> length (jb_file J)"
  shows "jb_key J m = jb_key J n \<longleftrightarrow> m = n"
  using off_eq [OF assms(1,2)] off_eq [OF assms(1,3)] by (auto simp: jb_key_def body_text_def decimal_inj)

lemma owned_eq:
  assumes "job_ok J" "pkg_at J i p" "ch_p (cbody p) = None \<or> ch_cached (cbody p)"
  shows "owned p = (case ch_p (bodykey p) of None \<Rightarrow> [] | Some b \<Rightarrow> [b]) @
    blocks_of [headkey (jb_pkg J), chead (jb_pkg J), pk_host (jb_pkg J), pk_uri (jb_pkg J), pk_met (jb_pkg J), pk_ver (jb_pkg J)]"
    and "jb_block J \<in> set (blocks_of [headkey (jb_pkg J), chead (jb_pkg J), pk_host (jb_pkg J), pk_uri (jb_pkg J), pk_met (jb_pkg J), pk_ver (jb_pkg J)])"
proof -
  have e: "rest_of p = rest_of (jb_pkg J)" "\<not> ch_cached (bodykey p)" using assms(2) by (simp_all add: pkg_at_def)
  show "owned p = (case ch_p (bodykey p) of None \<Rightarrow> [] | Some b \<Rightarrow> [b]) @
    blocks_of [headkey (jb_pkg J), chead (jb_pkg J), pk_host (jb_pkg J), pk_uri (jb_pkg J), pk_met (jb_pkg J), pk_ver (jb_pkg J)]"
    using e(2) assms(3) unfolding owned_def blocks_of_def rest_of_eq [OF e(1)] by (auto split: option.splits)
  show "jb_block J \<in> set (blocks_of [headkey (jb_pkg J), chead (jb_pkg J), pk_host (jb_pkg J), pk_uri (jb_pkg J), pk_met (jb_pkg J), pk_ver (jb_pkg J)])"
    using assms(1) by (auto simp: job_ok_def jb_block_def blocks_of_def)
qed

text \<open>What the states say of the blocks and the members.\<close>

lemma readyD:
  assumes "job_ok J" "ready J i p s"
  shows "pkg_at J i p" "i \<le> length (jb_file J)" "sv_conns (snd s) (cpn p) = Some (jb_conn J)"
    "cst_of (cpn p) s = Inr (the (cst (jb_conn J)))" "\<not> closing (the (cst (jb_conn J)))" "cfd_of (cpn p) s = Inr (jb_peer J)"
    "ch_p (pk_uri p) = Some (jb_block J)" "str_of (ch_p (pk_uri p)) s = Inr (jb_uri J)"
    "owns s p" "jb_block J \<in> set (owned p)" "jb_block J < sv_next (snd s)" "cache_wf (fst s)" "tr_offset p = of_nat i"
proof -
  show r: "pkg_at J i p" "i \<le> length (jb_file J)" "owns s p" "cache_wf (fst s)" "tr_offset p = of_nat i"
    using assms(2) by (simp_all add: ready_def pkg_at_def)
  have e: "rest_of p = rest_of (jb_pkg J)" using r(1) by (simp add: pkg_at_def)
  show c: "sv_conns (snd s) (cpn p) = Some (jb_conn J)" using assms(2) rest_of_eq [OF e] by (simp add: ready_def)
  show "cst_of (cpn p) s = Inr (the (cst (jb_conn J)))" "\<not> closing (the (cst (jb_conn J)))" "cfd_of (cpn p) s = Inr (jb_peer J)"
    using c assms(1) by (auto simp: cst_of_def cfd_of_def conn_of_def job_ok_def jb_peer_def)
  show u: "ch_p (pk_uri p) = Some (jb_block J)" using assms(1) rest_of_eq [OF e] by (auto simp: job_ok_def jb_block_def)
  have o: "ch_p (cbody p) = None \<or> ch_cached (cbody p)" using assms(2) by (simp add: ready_def)
  show b: "jb_block J \<in> set (owned p)" using owned_eq [OF assms(1) r(1) o] by simp
  then have "jb_block J \<notin> set (freed_bufs (fst s))" using r(3) by (auto simp: owns_def)
  moreover have t: "sv_bufs (snd s) (jb_block J) = Some (jb_uri J @ [NUL])" using assms(2) by (simp add: ready_def)
  moreover have "c_str (jb_uri J @ [NUL]) 0 = Inr (jb_uri J)"
    by (rule c_str_split [of _ _ _ "[]"]) (use assms(1) in \<open>simp_all add: job_ok_def\<close>)
  ultimately show "str_of (ch_p (pk_uri p)) s = Inr (jb_uri J)" using u by (simp add: str_of_def block_of_def)
  show "jb_block J < sv_next (snd s)" using assms(2) t by (simp add: ready_def)
qed

lemma key_text: "job_ok J \<Longrightarrow> i \<le> length (jb_file J) \<Longrightarrow> c_str (snprintf old MAXKEYS (jb_key J i)) 0 = Inr (jb_key J i)"
  using c_str_snprintf [OF body_text_chars [of "jb_uri J"], of old MAXKEYS "of_nat i"]
  by (fastforce simp: job_ok_def jb_key_def)

text \<open>
  A state that differs in the blocks, the package and the I/O layer only: the key block was written
  and perhaps made, other blocks are as they were.
\<close>

lemma ready_key:
  assumes J: "job_ok J" and r: "ready J i p s" and c: "coherent J no p s"
    and kb: "kb = (case ch_p (bodykey p) of None \<Rightarrow> sv_next (snd s) | Some b \<Rightarrow> b)"
    and q: "q = p\<lparr>hst := h, wst := x, bodykey := k\<rparr>" "ch_p k = Some kb" "\<not> ch_cached k"
    and w: "sv_bufs w = (sv_bufs (snd s))(kb \<mapsto> K)" "sv_pkgs w = (sv_pkgs (snd s))(jb_pk J \<mapsto> q)" "sv_conns w = sv_conns (snd s)"
    and m: "sv_next (snd s) \<le> sv_next w" "kb < sv_next w" and K: "length K = MAXKEYS"
  shows "ready J i q (fst s, w)" "coherent J no q (fst s, w)"
proof -
  note R = readyD [OF J r]
  have cb: "ch_p (cbody p) = None \<or> ch_cached (cbody p)" using r by (simp add: ready_def)
  have Q: "pkg_at J i q" using R(1) by (simp add: pkg_at_def q)
  let ?rest = "blocks_of [headkey (jb_pkg J), chead (jb_pkg J), pk_host (jb_pkg J), pk_uri (jb_pkg J), pk_met (jb_pkg J), pk_ver (jb_pkg J)]"
  have op: "owned p = (case ch_p (bodykey p) of None \<Rightarrow> [] | Some b \<Rightarrow> [b]) @ ?rest" "jb_block J \<in> set ?rest"
    using owned_eq [OF J R(1) cb] by auto
  have oq: "owned q = kb # ?rest"
    using owned_eq(1) [OF J Q] cb by (simp add: q)
  have old: "b < sv_next (snd s)" if "b \<in> set (owned p) \<or> b \<in> set (freed_bufs (fst s)) \<or> sv_bufs (snd s) b \<noteq> None" for b
    using that R(9) r by (auto simp: ready_def owns_def)
  have kbnew: "kb \<notin> set ?rest" "kb \<notin> set (freed_bufs (fst s))"
    using R(9) old [of kb] op(1) by (auto simp: kb owns_def split: option.splits)
  have own: "owns (fst s, w) q"
    using R(9) kbnew op(1) by (auto simp: owns_def oq w)
  have ne: "jb_block J \<noteq> kb" using kbnew op(2) by auto
  show "ready J i q (fst s, w)"
    unfolding ready_def using r Q own ne K m J old
    by (auto simp: ready_def w q cb job_ok_def intro: less_le_trans)
  show "coherent J no q (fst s, w)"
    unfolding coherent_def
  proof (intro allI impI)
    fix j e assume "j \<le> length (jb_file J) \<and> Some j \<noteq> no \<and> find_entry (jb_key J j) (fst (fst s, w)) = Some e"
    then obtain d where d: "entries (fst s) e = Some d" "loaded J p j d s" using c by (auto simp: coherent_def)
    then obtain b y where b: "ce_data d = Some b" "b \<notin> set (freed_bufs (fst s))" "b \<notin> set (owned p)" "sv_bufs (snd s) b = Some y"
      "piece (jb_file J) j (unat (ce_size d)) y" by (auto simp: loaded_def)
    have "b \<noteq> kb" using b(3,4) old [of b] op(1) by (auto simp: kb split: option.splits)
    then have "loaded J q j d (fst s, w)" using d(2) b op(1) by (auto simp: loaded_def oq w)
    then show "\<exists>d. entries (fst (fst s, w)) e = Some d \<and> loaded J q j d (fst s, w)" using d(1) by auto
  qed
qed

lemma body_start:
  assumes J: "job_ok J" and p: "sv_pkgs (snd s) (jb_pk J) = Some p" and r: "ready J i p s" and c: "coherent J None p s"
  shows "\<exists>q w. svr_http_body E call (jb_pk J) s = and_then (get_or_reserve call (jb_key J i) (BodyWio (jb_pk J)) (fst s, w))
      (\<lambda>(hit, s). if hit then Inr (EHTTP_OK, s) else read_block E (jb_pk J) s) \<and>
    sv_pkgs w (jb_pk J) = Some q \<and> ready J i q (fst s, w) \<and> coherent J None q (fst s, w) \<and> keyed J i q (fst s, w) \<and>
    wst q = Some WS_BODY \<and> sv_aio w = sv_aio (snd s) \<and> sv_out w = sv_out (snd s)"
proof -
  note R = readyD [OF J r]
  let ?t = "body_text (jb_uri J) (of_nat i)"
  define kb where "kb = (case ch_p (bodykey p) of None \<Rightarrow> sv_next (snd s) | Some b \<Rightarrow> b)"
  define old where "old = (case ch_p (bodykey p) of None \<Rightarrow> (map (env_junk E (sv_next (snd s))) [0..<MAXKEYS])[MAXKEYS - 1 := NUL]
    | Some b \<Rightarrow> the (sv_bufs (snd s) b))"
  define k where "k = (case ch_p (bodykey p) of
      None \<Rightarrow> (bodykey p)\<lparr>ch_p := Some (sv_next (snd s)), ch_cached := False, ch_n := of_nat (length ?t)\<rparr>
    | Some b \<Rightarrow> (bodykey p)\<lparr>ch_n := of_nat (length ?t)\<rparr>)"
  define q where "q = p\<lparr>hst := HS_FETCHING, wst := Some WS_BODY, bodykey := k\<rparr>"
  have cb: "\<not> ch_cached (bodykey p)" using R(1) by (simp add: pkg_at_def)
  have k: "ch_p k = Some kb" "\<not> ch_cached k" using cb by (auto simp: k_def kb_def split: option.splits)
  have len: "length old = MAXKEYS" using r by (auto simp: old_def ready_def split: option.splits)
  let ?K = "snprintf old MAXKEYS ?t"
  have K: "length ?K = MAXKEYS" using len by (auto simp: snprintf_def MAXKEYS_def)
  have nf: "sv_next (snd s) \<notin> set (freed_bufs (fst s))" using r by (auto simp: ready_def)
  have kf: "kb \<notin> set (freed_bufs (fst s))" using nf R(9) cb by (auto simp: kb_def owns_def owned_def blocks_of_def split: option.splits)
  have un: "jb_block J \<noteq> sv_next (snd s)" using R(11) by simp
  have ub: "sv_bufs (snd s) (jb_block J) = Some (jb_uri J @ [NUL])" "jb_block J \<notin> set (freed_bufs (fst s))"
    using r R(9,10) by (auto simp: ready_def owns_def)
  have ct: "c_str (jb_uri J @ [NUL]) 0 = Inr (jb_uri J)" by (rule c_str_split [of _ _ _ "[]"]) (use J in \<open>simp_all add: job_ok_def\<close>)
  have key: "c_str ?K 0 = Inr (jb_key J i)" using key_text [OF J R(2)] by (simp add: jb_key_def)
  have cp: "cst_of (cpn p) (fst s, w) = Inr (the (cst (jb_conn J)))" if "sv_conns w = sv_conns (snd s)" for w
    using R(4) that by (simp add: cst_of_def conn_of_def)
  have cl: "closing (the (cst (jb_conn J))) = False" using R(5) by simp
  obtain w where w: "sv_bufs w = (sv_bufs (snd s))(kb \<mapsto> ?K)" "sv_pkgs w = (sv_pkgs (snd s))(jb_pk J \<mapsto> q)" "sv_conns w = sv_conns (snd s)"
    "sv_next (snd s) \<le> sv_next w" "kb < sv_next w" "sv_aio w = sv_aio (snd s)" "sv_out w = sv_out (snd s)"
    "svr_http_body E call (jb_pk J) s = and_then (get_or_reserve call (jb_key J i) (BodyWio (jb_pk J)) (fst s, w))
      (\<lambda>(hit, s). if hit then Inr (EHTTP_OK, s) else read_block E (jb_pk J) s)"
  proof (cases "ch_p (bodykey p)")
    case None
    show ?thesis
      by (rule that [of "(snd s)\<lparr>sv_next := Suc (sv_next (snd s)), sv_bufs := (sv_bufs (snd s))(kb \<mapsto> ?K), sv_pkgs := (sv_pkgs (snd s))(jb_pk J \<mapsto> q)\<rparr>"])
         (use None p R(7,13) kf un ub ct key cp cl len K in \<open>simp_all add: svr_http_body_def pkg_of_def Let_def key_block_def new_block_def
            str_of_def block_of_def store_block_def store_pkg_def kb_def old_def k_def q_def\<close>)
  next
    case (Some b)
    have b: "sv_bufs (snd s) b = Some old" "b < sv_next (snd s)" using r Some by (auto simp: ready_def old_def)
    show ?thesis
      by (rule that [of "(snd s)\<lparr>sv_bufs := (sv_bufs (snd s))(kb \<mapsto> ?K), sv_pkgs := (sv_pkgs (snd s))(jb_pk J \<mapsto> q)\<rparr>"])
         (use Some p R(7,13) kf un ub ct key cp cl len K b cb in \<open>simp_all add: svr_http_body_def pkg_of_def Let_def key_block_def
            str_of_def block_of_def store_block_def store_pkg_def kb_def k_def q_def\<close>)
  qed
  have "ready J i q (fst s, w) \<and> coherent J None q (fst s, w)"
    using ready_key [OF J r c kb_def q_def k w(1-5) K] by blast
  moreover have "keyed J i q (fst s, w)" using kf key w(1) by (simp add: keyed_def str_of_def block_of_def q_def k(1))
  ultimately show ?thesis using w by (intro exI [of _ q] exI [of _ w]) (simp add: q_def)
qed

text \<open>The frame of both: the blocks stay, the cache keeps what it holds.\<close>

lemma ready_frame:
  assumes J: "job_ok J" and r: "ready J i p s" and p': "rest_of p' = rest_of p" "bodykey p' = bodykey p"
    "ch_p (cbody p') = None \<or> ch_cached (cbody p')" "hfd p' \<in> {- 1, jb_fd J}" "tr_offset p' = of_nat i'" "i' \<le> length (jb_file J)"
    and s': "sv_conns (snd s') = sv_conns (snd s)" "\<And>b. b \<in> set (owned p) \<Longrightarrow> sv_bufs (snd s') b = sv_bufs (snd s) b"
    "\<And>b. sv_bufs (snd s') b \<noteq> None \<Longrightarrow> b < sv_next (snd s')" "sv_next (snd s) \<le> sv_next (snd s')"
    "sv_pkgs (snd s') (the (ppg (jb_pkg J))) = sv_pkgs (snd s) (the (ppg (jb_pkg J)))"
    "freed_bufs (fst s') = freed_bufs (fst s)" "cache_wf (fst s')"
  shows "ready J i' p' s'" "owned p' = owned p"
proof -
  note R = readyD [OF J r]
  have cb: "ch_p (cbody p) = None \<or> ch_cached (cbody p)" using r by (simp add: ready_def)
  have P: "pkg_at J i' p'" using R(1) p' by (simp add: pkg_at_def)
  show o: "owned p' = owned p" unfolding owned_eq(1) [OF J P p'(3)] owned_eq(1) [OF J R(1) cb] by (simp add: p'(2))
  have kb: "kb \<in> set (owned p)" if "ch_p (bodykey p) = Some kb" for kb
    using that owned_eq(1) [OF J R(1) cb] by simp
  have "owns s' p'" using R(9) s'(2,6) unfolding owns_def o by (auto simp: domIff)
  then show "ready J i' p' s'"
    using r R(10) P p' s' kb unfolding ready_def by (auto intro: less_le_trans)
qed

lemma coherent_frame:
  assumes c: "coherent J no p s" and o: "set (owned p') \<subseteq> set (owned p) \<union> {b. sv_bufs (snd s) b = None}"
    and s': "\<And>e d b x. entries (fst s) e = Some d \<Longrightarrow> ce_data d = Some b \<Longrightarrow> sv_bufs (snd s) b = Some x \<Longrightarrow> sv_bufs (snd s') b = Some x"
      "freed_bufs (fst s') = freed_bufs (fst s)"
    and e: "\<And>j e. j \<le> length (jb_file J) \<Longrightarrow> Some j \<noteq> no' \<Longrightarrow> find_entry (jb_key J j) (fst s') = Some e \<Longrightarrow>
      Some j \<noteq> no \<and> find_entry (jb_key J j) (fst s) = Some e \<and>
      (\<exists>n > 0. entries (fst s') e = map_option (\<lambda>d. d\<lparr>ce_refCount := n\<rparr>) (entries (fst s) e) \<or> entries (fst s') e = entries (fst s) e)"
  shows "coherent J no' p' s'"
  unfolding coherent_def
proof (intro allI impI)
  fix j e assume "j \<le> length (jb_file J) \<and> Some j \<noteq> no' \<and> find_entry (jb_key J j) (fst s') = Some e"
  then have j: "Some j \<noteq> no" "find_entry (jb_key J j) (fst s) = Some e" "j \<le> length (jb_file J)"
    "\<exists>n > 0. entries (fst s') e = map_option (\<lambda>d. d\<lparr>ce_refCount := n\<rparr>) (entries (fst s) e) \<or> entries (fst s') e = entries (fst s) e"
    using e [of j e] by blast+
  obtain d where d: "entries (fst s) e = Some d" "loaded J p j d s" using c j(1-3) by (auto simp: coherent_def)
  have l: "loaded J p' j d s'" "0 < n \<Longrightarrow> loaded J p' j (d\<lparr>ce_refCount := n\<rparr>) s'" for n
    using d(2) s'(1) [OF d(1)] o by (force simp: loaded_def s'(2))+
  then show "\<exists>d. entries (fst s') e = Some d \<and> loaded J p' j d s'" using j(4) d(1) by auto
qed

lemma keyed_frame:
  "keyed J i p s \<Longrightarrow> bodykey p' = bodykey p \<Longrightarrow> freed_bufs (fst s') = freed_bufs (fst s) \<Longrightarrow>
    (\<And>b. ch_p (bodykey p) = Some b \<Longrightarrow> sv_bufs (snd s') b = sv_bufs (snd s) b) \<Longrightarrow> keyed J i p' s'"
  by (cases "ch_p (bodykey p)") (auto simp: keyed_def str_of_def block_of_def deref_def split: if_splits)

lemma cache_wf_kept: "cache_wf c \<Longrightarrow> cache_kept c c' \<Longrightarrow> cacheMap c' = cacheMap c \<Longrightarrow> cache_wf c'"
  by (auto simp: cache_wf_def cache_kept_def find_entry_def intro: less_le_trans)

lemma ready_parent: "job_ok J \<Longrightarrow> the (ppg (jb_pkg J)) \<noteq> jb_pk J"
  by (auto simp: job_ok_def)

section \<open>Writing a block\<close>

definition body_write :: "job \<Rightarrow> nat \<Rightarrow> hpkg \<Rightarrow> cache_entry \<Rightarrow> srv_st \<Rightarrow> bool" where
  "body_write J i p d s \<longleftrightarrow> sv_pkgs (snd s) (jb_pk J) = Some p \<and> ready J i p s \<and> coherent J None p s \<and> keyed J i p s \<and>
     wst p = Some WS_BODY \<and>
     (\<exists>e. find_entry (jb_key J i) (fst s) = Some e \<and> entries (fst s) e = Some d) \<and> 2 \<le> ce_refCount d"

text \<open>The kernel has the block of \<open>d\<close> to write, and has written \<open>m\<close> bytes of it.\<close>

definition writing :: "job \<Rightarrow> nat \<Rightarrow> srv_st \<Rightarrow> bool" where
  "writing J i s \<longleftrightarrow> (\<exists>p d a q. body_write J i p d s \<and>
     aio_cbs (sv_aio (snd s)) a = Some \<lparr>cb_func = AioWrite, cb_fildes = jb_peer J, cb_buf = ce_data d, cb_nbytes = ce_size d,
       cb_offset = 0, cb_sival_ptr = None\<rparr> \<and>
     aio_callbacks (sv_aio (snd s)) q = Some (IOCallback_id (Some (BodyRio (jb_pk J))) (Some (FinalAio (jb_pk J))) CacheTaskID) \<and>
     aio_queue (sv_aio (snd s)) = [UnitTask_id (CheckTask a (Some q)) CacheTaskID])"

definition written :: "job \<Rightarrow> nat \<Rightarrow> nat \<Rightarrow> srv_st \<Rightarrow> bool" where
  "written J i m s \<longleftrightarrow> (\<exists>p d. body_write J i p d s \<and> i + m \<le> length (jb_file J) \<and>
     aio_queue (sv_aio (snd s)) = [UnitTask_id (OkTask (BodyRio (jb_pk J)) (jb_peer J) (ce_data d) (of_nat m)) CacheTaskID])"

lemma body_wio:
  assumes J: "job_ok J" and p: "sv_pkgs w (jb_pk J) = Some p" and r: "ready J i p' (c0, w)" "cpn p' = cpn p"
    and E: "pending E" and q: "aio_queue (sv_aio w) = []"
  shows "\<exists>a q A. (\<forall>c. svr_http_body_wio E call (jb_pk J) (CacheData (Some b) sz ic) (c, w) =
      Inr (EHTTP_OK, c, w\<lparr>sv_pkgs := (sv_pkgs w)(jb_pk J \<mapsto> p\<lparr>hst := HS_WRITING, wst := Some WS_BODY\<rparr>), sv_aio := A\<rparr>)) \<and>
    aio_cbs A a = Some \<lparr>cb_func = AioWrite, cb_fildes = jb_peer J, cb_buf = Some b, cb_nbytes = sz, cb_offset = 0, cb_sival_ptr = None\<rparr> \<and>
    aio_callbacks A q = Some (IOCallback_id (Some (BodyRio (jb_pk J))) (Some (FinalAio (jb_pk J))) CacheTaskID) \<and>
    aio_queue A = [UnitTask_id (CheckTask a (Some q)) CacheTaskID]"
proof -
  note R = readyD [OF J r(1), unfolded r(2)]
  have s: "cst_of (cpn p) (c, w) = Inr (the (cst (jb_conn J)))" "cfd_of (cpn p) (c, w) = Inr (jb_peer J)" for c
    using R(4,6) by (simp_all add: cst_of_def cfd_of_def conn_of_def)
  have cl: "closing (the (cst (jb_conn J))) = False" using R(5) by simp
  let ?A = "sv_aio w"
  let ?B = "?A\<lparr>aio_cbs := (aio_cbs ?A)(Suc (aio_next ?A) \<mapsto> \<lparr>cb_func = AioWrite, cb_fildes = jb_peer J, cb_buf = Some b, cb_nbytes = sz, cb_offset = 0, cb_sival_ptr = None\<rparr>),
      aio_callbacks := (aio_callbacks ?A)(aio_next ?A \<mapsto> IOCallback_id (Some (BodyRio (jb_pk J))) (Some (FinalAio (jb_pk J))) CacheTaskID),
      aio_next := Suc (Suc (aio_next ?A)), aio_queue := [UnitTask_id (CheckTask (Suc (aio_next ?A)) (Some (aio_next ?A))) CacheTaskID]\<rparr>"
  have "svr_http_body_wio E call (jb_pk J) (CacheData (Some b) sz ic) (c, w) =
      Inr (EHTTP_OK, c, w\<lparr>sv_pkgs := (sv_pkgs w)(jb_pk J \<mapsto> p\<lparr>hst := HS_WRITING, wst := Some WS_BODY\<rparr>), sv_aio := ?B\<rparr>)" for c
    using p s [of c] cl q by (simp add: svr_http_body_wio_def pkg_of_def CacheData_def srv_aio_pending [OF E] Let_def store_pkg_def)
  then show ?thesis
    by (intro exI [of _ "Suc (aio_next ?A)"] exI [of _ "aio_next ?A"] exI [of _ ?B]) simp
qed

text \<open>A block that is in the cache goes to the kernel at once.\<close>

lemma body_hit:
  assumes J: "job_ok J" and p: "sv_pkgs (snd s) (jb_pk J) = Some p" and r: "ready J i p s" and c: "coherent J None p s"
    and e: "find_entry (jb_key J i) (fst s) = Some e" and E: "pending E" and q: "aio_queue (sv_aio (snd s)) = []"
  shows "\<exists>s'. svr_http_body E (srv_call E) (jb_pk J) s = Inr (EHTTP_OK, s') \<and> writing J i s' \<and> sv_out (snd s') = sv_out (snd s)"
proof -
  obtain x w where w: "svr_http_body E (srv_call E) (jb_pk J) s = and_then (get_or_reserve (srv_call E) (jb_key J i) (BodyWio (jb_pk J)) (fst s, w))
      (\<lambda>(hit, s). if hit then Inr (EHTTP_OK, s) else read_block E (jb_pk J) s)"
    "sv_pkgs w (jb_pk J) = Some x" "ready J i x (fst s, w)" "coherent J None x (fst s, w)" "keyed J i x (fst s, w)"
    "wst x = Some WS_BODY" "sv_aio w = sv_aio (snd s)" "sv_out w = sv_out (snd s)"
    using body_start [OF J p r c] by blast
  have i: "i \<le> length (jb_file J)" using readyD(2) [OF J r] .
  obtain d b where d: "entries (fst s) e = Some d" "loaded J x i d (fst s, w)" "ce_data d = Some b"
    "\<not> ce_isReserved d" "ce_freeListRef d = None" "0 < ce_refCount d"
    using w(4) e i by (fastforce simp: coherent_def loaded_def)
  obtain a cq A where wio: "\<And>c. svr_http_body_wio E (run_cb 1 E) (jb_pk J) (CacheData (Some b) (ce_size d) True) (c, w) =
      Inr (EHTTP_OK, c, w\<lparr>sv_pkgs := (sv_pkgs w)(jb_pk J \<mapsto> x\<lparr>hst := HS_WRITING, wst := Some WS_BODY\<rparr>), sv_aio := A\<rparr>)"
    and A: "aio_cbs A a = Some \<lparr>cb_func = AioWrite, cb_fildes = jb_peer J, cb_buf = Some b, cb_nbytes = ce_size d, cb_offset = 0, cb_sival_ptr = None\<rparr>"
    "aio_callbacks A cq = Some (IOCallback_id (Some (BodyRio (jb_pk J))) (Some (FinalAio (jb_pk J))) CacheTaskID)"
    "aio_queue A = [UnitTask_id (CheckTask a (Some cq)) CacheTaskID]"
    using body_wio [OF J w(2,3) refl E, of "run_cb 1 E" b "ce_size d" True] q w(7) by auto
  let ?x = "x\<lparr>hst := HS_WRITING, wst := Some WS_BODY\<rparr>"
  let ?w = "w\<lparr>sv_pkgs := (sv_pkgs w)(jb_pk J \<mapsto> ?x), sv_aio := A\<rparr>"
  have call: "srv_call E (BodyWio (jb_pk J)) (CacheData (ce_data d) (ce_size d) True) (c', w) = Inr (c', ?w)" for c'
    using wio [of c'] d(3) by (simp add: srv_call_def numeral_2_eq_2 drop_code_def)
  obtain c' where c': "get_or_reserve (srv_call E) (jb_key J i) (BodyWio (jb_pk J)) (fst s, w) = Inr (True, c', ?w)"
    "entries c' = (entries (fst s))(e \<mapsto> d\<lparr>ce_refCount := ce_refCount d + 1\<rparr>)" "cacheMap c' = cacheMap (fst s)" "cache_kept (fst s) c'"
    using get_or_reserve_hit [OF e d(1,4,5), of "srv_call E" "BodyWio (jb_pk J)" w ?w] call by blast
  have f: "find_entry k c' = find_entry k (fst s)" for k using c'(3) by (simp add: find_entry_def)
  note wf = cache_wf_kept [OF readyD(12) [OF J r] c'(4,3)]
  have x: "hfd x \<in> {- 1, jb_fd J}" "tr_offset x = of_nat i" using w(3) by (auto simp: ready_def pkg_at_def)
  have "ready J i ?x (c', ?w)"
    by (rule ready_frame [OF J w(3)]) (use w(3) x wf c'(4) ready_parent [OF J] i in \<open>auto simp: cache_kept_def ready_def\<close>)
  moreover have "coherent J None ?x (c', ?w)"
    by (rule coherent_frame [OF w(4)]) (use c' d(1) f in \<open>auto simp: owned_def cache_kept_def\<close>)
  moreover have "keyed J i ?x (c', ?w)"
    by (rule keyed_frame [OF w(5)]) (use c'(4) in \<open>simp_all add: cache_kept_def\<close>)
  ultimately have "body_write J i ?x (d\<lparr>ce_refCount := ce_refCount d + 1\<rparr>) (c', ?w)"
    using e f c'(2) d(6) by (auto simp: body_write_def)
  then have "writing J i (c', ?w)"
    unfolding writing_def using A d(3)
    by (intro exI [of _ ?x] exI [of _ "d\<lparr>ce_refCount := ce_refCount d + 1\<rparr>"] exI [of _ a] exI [of _ cq]) simp
  then show ?thesis unfolding w(1) c'(1) using w(8) by (intro exI [of _ "(c', ?w)"]) simp
qed

section \<open>Reading a block\<close>

text \<open>
  The kernel has a fresh block \<open>b\<close> to fill; its key is reserved and one callback waits. The package
  owns the block as if it were cached already: that is what it says once the read has succeeded.
\<close>

definition as_cached :: "hpkg \<Rightarrow> hpkg" where
  "as_cached p = p\<lparr>cbody := (cbody p)\<lparr>ch_cached := True\<rparr>\<rparr>"

definition body_read :: "job \<Rightarrow> nat \<Rightarrow> addr \<Rightarrow> string \<Rightarrow> srv_st \<Rightarrow> bool" where
  "body_read J i b x s \<longleftrightarrow>
     (\<exists>p. sv_pkgs (snd s) (jb_pk J) = Some p \<and> ready J i (as_cached p) s \<and> coherent J (Some i) (as_cached p) s \<and>
        keyed J i p s \<and> b \<notin> set (owned (as_cached p))) \<and>
     (\<exists>e q. find_entry (jb_key J i) (fst s) = Some e \<and>
        entries (fst s) e = Some ((CacheEntry_reserved (jb_key J i))\<lparr>ce_queue := [q]\<rparr>) \<and>
        callbacks (fst s) q = Some (BodyWio (jb_pk J))) \<and>
     b \<notin> set (freed_bufs (fst s)) \<and> sv_bufs (snd s) b = Some x \<and> length x = MAXWB \<and>
     (\<forall>j e d. j \<le> length (jb_file J) \<and> find_entry (jb_key J j) (fst s) = Some e \<and> entries (fst s) e = Some d \<longrightarrow> ce_data d \<noteq> Some b)"

definition reading :: "job \<Rightarrow> nat \<Rightarrow> srv_st \<Rightarrow> bool" where
  "reading J i s \<longleftrightarrow> (\<exists>b x a q. body_read J i b x s \<and>
     aio_cbs (sv_aio (snd s)) a = Some \<lparr>cb_func = AioRead, cb_fildes = jb_fd J, cb_buf = Some b, cb_nbytes = of_nat MAXWB,
       cb_offset = of_nat i, cb_sival_ptr = None\<rparr> \<and>
     aio_callbacks (sv_aio (snd s)) q = Some (IOCallback_id (Some (BodyPio (jb_pk J))) (Some (FinalAio (jb_pk J))) CacheTaskID) \<and>
     aio_queue (sv_aio (snd s)) = [UnitTask_id (CheckTask a (Some q)) CacheTaskID])"

definition was_read :: "job \<Rightarrow> nat \<Rightarrow> srv_st \<Rightarrow> bool" where
  "was_read J i s \<longleftrightarrow> (\<exists>b x n. body_read J i b x s \<and> piece (jb_file J) i n x \<and>
     aio_queue (sv_aio (snd s)) = [UnitTask_id (OkTask (BodyPio (jb_pk J)) (jb_fd J) (Some b) (of_nat n)) CacheTaskID])"

lemma find_added:
  assumes "cacheMap c' = cacheMap c @ [(k, e)]" "find_entry k c = None"
  shows "find_entry k' c' = (if k' = k then Some e else find_entry k' c)"
  using assms by (auto simp: find_entry_def map_add_def split: option.splits)

lemma cache_wf_added:
  assumes "cache_wf c" "cacheMap c' = cacheMap c @ [(k, e)]" "find_entry k c = None" "next_addr c \<le> e" "e < next_addr c'" "cache_kept c c'"
  shows "cache_wf c'"
proof -
  have lt: "next_addr c < next_addr c'" using assms(4,5) by simp
  show ?thesis
    using assms(1,4-6) unfolding cache_wf_def cache_kept_def find_added [OF assms(2,3)]
    by (auto split: if_splits intro: less_trans [OF _ lt] dest: leD)
qed

text \<open>A block that is not in the cache is reserved, and the kernel is asked to read it.\<close>

lemma body_miss:
  assumes J: "job_ok J" and p: "sv_pkgs (snd s) (jb_pk J) = Some p" and r: "ready J i p s" and c: "coherent J None p s"
    and e: "find_entry (jb_key J i) (fst s) = None" and E: "pending E" "env_open E (jb_uri J) = jb_fd J"
    and q: "aio_queue (sv_aio (snd s)) = []"
  shows "\<exists>s'. svr_http_body E (srv_call E) (jb_pk J) s = Inr (EHTTP_OK, s') \<and> reading J i s' \<and> sv_out (snd s') = sv_out (snd s)"
proof -
  obtain x w where w: "svr_http_body E (srv_call E) (jb_pk J) s = and_then (get_or_reserve (srv_call E) (jb_key J i) (BodyWio (jb_pk J)) (fst s, w))
      (\<lambda>(hit, s). if hit then Inr (EHTTP_OK, s) else read_block E (jb_pk J) s)"
    "sv_pkgs w (jb_pk J) = Some x" "ready J i x (fst s, w)" "coherent J None x (fst s, w)" "keyed J i x (fst s, w)"
    "sv_aio w = sv_aio (snd s)" "sv_out w = sv_out (snd s)"
    using body_start [OF J p r c] by blast
  note R = readyD [OF J w(3)]
  obtain c' e cq where c': "get_or_reserve (srv_call E) (jb_key J i) (BodyWio (jb_pk J)) (fst s, w) = Inr (False, c', w)"
    "find_entry (jb_key J i) c' = Some e" "entries c' = (entries (fst s))(e \<mapsto> (CacheEntry_reserved (jb_key J i))\<lparr>ce_queue := [cq]\<rparr>)"
    "callbacks c' cq = Some (BodyWio (jb_pk J))" "cacheMap c' = cacheMap (fst s) @ [(jb_key J i, e)]" "next_addr (fst s) \<le> e" "e < next_addr c'"
    "cache_kept (fst s) c'"
    using get_or_reserve_miss [of "jb_key J i" "(fst s, w)" "srv_call E" "BodyWio (jb_pk J)"] e by auto
  have fb: "freed_bufs c' = freed_bufs (fst s)" using c'(8) by (simp add: cache_kept_def)
  note f = find_added [OF c'(5) e]
  have wf: "cache_wf (fst s)" using R(12) by simp
  note wf' = cache_wf_added [OF wf c'(5) e c'(6-8)]
  define b where "b = sv_next w"
  define y where "y = x\<lparr>cbody := (cbody x)\<lparr>ch_p := Some b\<rparr>, hfd := jb_fd J\<rparr>"
  define X where "X = map (env_junk E b) [0..<MAXWB]"
  have h: "hfd x = - 1 \<or> hfd x = jb_fd J" "jb_fd J \<noteq> - 1" "tr_offset x = of_nat i"
    using R(1) J by (auto simp: pkg_at_def job_ok_def)
  have str: "str_of (ch_p (pk_uri x)) (c', w\<lparr>sv_bufs := (sv_bufs w)(b \<mapsto> X), sv_next := Suc b\<rparr>) = Inr (jb_uri J)"
    using R(7,8,11) fb by (auto simp: str_of_def block_of_def deref_def b_def split: if_splits)
  let ?A = "sv_aio w"
  let ?B = "?A\<lparr>aio_cbs := (aio_cbs ?A)(Suc (aio_next ?A) \<mapsto> \<lparr>cb_func = AioRead, cb_fildes = jb_fd J, cb_buf = Some b, cb_nbytes = of_nat MAXWB, cb_offset = of_nat i, cb_sival_ptr = None\<rparr>),
      aio_callbacks := (aio_callbacks ?A)(aio_next ?A \<mapsto> IOCallback_id (Some (BodyPio (jb_pk J))) (Some (FinalAio (jb_pk J))) CacheTaskID),
      aio_next := Suc (Suc (aio_next ?A)), aio_queue := [UnitTask_id (CheckTask (Suc (aio_next ?A)) (Some (aio_next ?A))) CacheTaskID]\<rparr>"
  obtain v where v: "read_block E (jb_pk J) (c', w) = Inr (EHTTP_OK, c', v)" "sv_pkgs v = (sv_pkgs w)(jb_pk J \<mapsto> y)" "sv_conns v = sv_conns w"
    "sv_bufs v = (sv_bufs w)(b \<mapsto> X)" "sv_next v = Suc b" "sv_out v = sv_out w" "sv_aio v = ?B"
  proof (cases "hfd x = - 1")
    case True
    show ?thesis
      by (rule that [of "w\<lparr>sv_bufs := (sv_bufs w)(b \<mapsto> X), sv_next := Suc b, sv_fds := insert (jb_fd J) (sv_fds w), sv_pkgs := (sv_pkgs w)(jb_pk J \<mapsto> y), sv_aio := ?B\<rparr>"])
         (use True w(2,6) str h q J E(2) in \<open>simp_all add: read_block_def pkg_of_def Let_def malloc_def new_block_def srv_aio_pending [OF E(1)]
            store_pkg_def b_def [symmetric] X_def [symmetric] y_def open_fd_def job_ok_def not_less\<close>)
  next
    case False
    then have y: "y = x\<lparr>cbody := (cbody x)\<lparr>ch_p := Some b\<rparr>\<rparr>" using h(1) by (cases x) (simp add: y_def)
    show ?thesis
      by (rule that [of "w\<lparr>sv_bufs := (sv_bufs w)(b \<mapsto> X), sv_next := Suc b, sv_pkgs := (sv_pkgs w)(jb_pk J \<mapsto> y), sv_aio := ?B\<rparr>"])
         (use False w(2,6) h q in \<open>simp_all add: read_block_def pkg_of_def Let_def malloc_def new_block_def srv_aio_pending [OF E(1)]
            store_pkg_def b_def [symmetric] X_def [symmetric] y\<close>)
  qed
  let ?y = "as_cached y"
  have below: "a < b" if "sv_bufs w a \<noteq> None \<or> a \<in> set (owned x) \<or> a \<in> set (freed_bufs (fst s))" for a
    using that w(3) R(9) unfolding ready_def owns_def b_def by auto
  have ry: "ready J i ?y (c', v)" "owned ?y = owned x"
    by (rule ready_frame [OF J w(3), of ?y i "(c', v)"];
        use v wf' fb below h R(2) ready_parent [OF J] in \<open>fastforce simp: as_cached_def y_def b_def [symmetric] less_Suc_eq\<close>)+
  have co: "coherent J (Some i) ?y (c', v)"
  proof (rule coherent_frame [OF w(4)])
    show "sv_bufs (snd (c', v)) a = Some z" if "sv_bufs (snd (fst s, w)) a = Some z" for a z
      using that v(4) below [of a] by auto
    show "Some j \<noteq> None \<and> find_entry (jb_key J j) (fst (fst s, w)) = Some ea \<and>
        (\<exists>n>0. entries (fst (c', v)) ea = map_option (\<lambda>d. d\<lparr>ce_refCount := n\<rparr>) (entries (fst (fst s, w)) ea) \<or>
          entries (fst (c', v)) ea = entries (fst (fst s, w)) ea)"
      if j: "j \<le> length (jb_file J)" "Some j \<noteq> Some i" "find_entry (jb_key J j) (fst (c', v)) = Some ea" for j ea
    proof -
      have "jb_key J j \<noteq> jb_key J i" using jb_key_inj [OF J j(1) R(2)] j(2) by simp
      then have "find_entry (jb_key J j) (fst s) = Some ea" using j(3) f by simp
      moreover then have "ea \<noteq> e" using wf c'(6) by (auto simp: cache_wf_def dest: leD)
      ultimately show ?thesis using c'(3) by auto
    qed
  qed (use ry(2) fb in simp_all)
  have ky: "keyed J i y (c', v)"
  proof (rule keyed_frame [OF w(5)])
    fix a assume "ch_p (bodykey x) = Some a"
    then have "a \<in> set (owned x)" using R(1) by (simp add: pkg_at_def owned_def blocks_of_def)
    then show "sv_bufs (snd (c', v)) a = sv_bufs (snd (fst s, w)) a" using v(4) below [of a] by simp
  qed (simp_all add: y_def fb)
  have other: "ce_data d \<noteq> Some b" if d: "j \<le> length (jb_file J)" "find_entry (jb_key J j) c' = Some ea" "entries c' ea = Some d" for j ea d
  proof (cases "j = i")
    case False
    then obtain a z where "ce_data d = Some a" "sv_bufs v a = Some z" "a \<notin> set (owned ?y)" "loaded J ?y j d (c', v)"
      using co d by (fastforce simp: coherent_def loaded_def)
    moreover have "find_entry (jb_key J j) (fst s) = Some ea" using d(2) f jb_key_inj [OF J d(1) R(2)] False by simp
    moreover then have "ea \<noteq> e" using wf c'(6) by (auto simp: cache_wf_def dest: leD)
    ultimately have "\<exists>z. sv_bufs w a = Some z" using w(4) d(1,3) c'(3) by (fastforce simp: coherent_def loaded_def)
    then show ?thesis using \<open>ce_data d = Some a\<close> below [of a] by auto
  qed (use d c'(2,3) in \<open>auto simp: CacheEntry_reserved_def\<close>)
  have "body_read J i b X (c', v)"
    unfolding body_read_def using v(2,4) ry co ky c'(2-4) other below [of b] fb
    by (auto simp: X_def CacheEntry_reserved_def)
  then have "reading J i (c', v)"
    unfolding reading_def
    by (intro exI [of _ b] exI [of _ X] exI [of _ "Suc (aio_next ?A)"] exI [of _ "aio_next ?A"]) (simp add: v(7))
  then show ?thesis unfolding w(1) c'(1) using v(1,6) w(7) by (intro exI [of _ "(c', v)"]) simp
qed

section \<open>Steps\<close>

text \<open>
  A kernel that serves the job: every operation is found complete at its first poll, a read has
  bytes of the file, a write has written something unless there was nothing to write.
\<close>

definition kernel :: "job \<Rightarrow> srv_sys \<Rightarrow> srv_st \<Rightarrow> bool" where
  "kernel J E s \<longleftrightarrow> (case map ut_task (aio_queue (sv_aio (snd s))) of
       CheckTask a q # _ \<Rightarrow> sys_error (env_aio E) a = 0 \<and>
         (\<forall>cb. aio_cbs (sv_aio (snd s)) a = Some cb \<longrightarrow>
            unat (sys_return (env_aio E) a) \<le> unat (cb_nbytes cb) \<and>
            (case cb_func cb of
               AioRead \<Rightarrow> piece (jb_file J) (unat (cb_offset cb)) (unat (sys_return (env_aio E) a)) (env_data E a)
             | AioWrite \<Rightarrow> sys_return (env_aio E) a = 0 \<longrightarrow> cb_nbytes cb = 0))
     | _ \<Rightarrow> pending E \<and> env_open E (jb_uri J) = jb_fd J)"

lemma kernel_check:
  assumes "kernel J E s" "aio_queue (sv_aio (snd s)) = [UnitTask_id (CheckTask a q) i]" "aio_cbs (sv_aio (snd s)) a = Some cb"
  shows "sys_error (env_aio E) a = 0" "unat (sys_return (env_aio E) a) \<le> unat (cb_nbytes cb)"
    "cb_func cb = AioRead \<Longrightarrow> piece (jb_file J) (unat (cb_offset cb)) (unat (sys_return (env_aio E) a)) (env_data E a)"
    "cb_func cb = AioWrite \<Longrightarrow> sys_return (env_aio E) a = 0 \<Longrightarrow> cb_nbytes cb = 0"
  using assms by (auto simp: kernel_def UnitTask_id_def)

lemma kernel_run:
  assumes "kernel J E s" "aio_queue (sv_aio (snd s)) = [UnitTask_id t i]" "\<And>a q. t \<noteq> CheckTask a q"
  shows "pending E" "env_open E (jb_uri J) = jb_fd J"
  using assms by (auto simp: kernel_def UnitTask_id_def split: task.splits)

text \<open>A poll of an operation that is complete, and the task it leaves.\<close>

lemma poll_done:
  assumes q: "aio_queue (sv_aio (snd s)) = [UnitTask_id (CheckTask a (Some cq)) i]" and e: "sys_error (env_aio E) a = 0"
    and cb: "aio_cbs (sv_aio (snd s)) a = Some cb" and ioc: "aio_callbacks (sv_aio (snd s)) cq = Some (IOCallback_id (Some ok) err i)"
    and b: "cb_buf cb = Some b" "b \<notin> set (freed_bufs (fst s))" "sv_bufs (snd s) b = Some x"
  shows "\<exists>A. srv_step E s = Some (Inr (fst s, (case cb_func cb of
        AioRead \<Rightarrow> (snd s)\<lparr>sv_bufs := (sv_bufs (snd s))(b \<mapsto> take (length x) (env_data E a @ drop (length (env_data E a)) x)), sv_aio := A\<rparr>
      | AioWrite \<Rightarrow> (snd s)\<lparr>sv_out := sv_out (snd s) @ [(cb_fildes cb, take (unat (sys_return (env_aio E) a)) x)], sv_aio := A\<rparr>))) \<and>
    aio_queue A = [UnitTask_id (OkTask ok (cb_fildes cb) (cb_buf cb) (sys_return (env_aio E) a)) i]"
  using assms
  by (cases "cb_func cb") (auto simp: srv_step_def run_task_def deliver_def block_of_def store_block_def checkIOProgress_def EINPROGRESS_def
      notify_def IOCallback_id_def Let_def enqueue_task_def delete_io_callback_def delete_aiocb_def)

lemma as_cached_simps [simp]:
  "rest_of (as_cached p) = rest_of p" "bodykey (as_cached p) = bodykey p" "hfd (as_cached p) = hfd p" "tr_offset (as_cached p) = tr_offset p"
  "wst (as_cached p) = wst p" "cpn (as_cached p) = cpn p" "ch_cached (cbody (as_cached p))" "ch_p (cbody (as_cached p)) = ch_p (cbody p)"
  by (simp_all add: as_cached_def)

lemma step_read:
  assumes J: "job_ok J" and r: "reading J i s" and K: "kernel J E s"
  shows "\<exists>s'. srv_step E s = Some (Inr s') \<and> was_read J i s' \<and> sv_out (snd s') = sv_out (snd s)"
proof -
  obtain b x a q where B: "body_read J i b x s"
    and a: "aio_cbs (sv_aio (snd s)) a = Some \<lparr>cb_func = AioRead, cb_fildes = jb_fd J, cb_buf = Some b, cb_nbytes = of_nat MAXWB,
       cb_offset = of_nat i, cb_sival_ptr = None\<rparr>"
      "aio_callbacks (sv_aio (snd s)) q = Some (IOCallback_id (Some (BodyPio (jb_pk J))) (Some (FinalAio (jb_pk J))) CacheTaskID)"
      "aio_queue (sv_aio (snd s)) = [UnitTask_id (CheckTask a (Some q)) CacheTaskID]"
    using r by (auto simp: reading_def)
  obtain p where p: "sv_pkgs (snd s) (jb_pk J) = Some p" "ready J i (as_cached p) s" "coherent J (Some i) (as_cached p) s" "keyed J i p s"
    "b \<notin> set (owned (as_cached p))" using B by (auto simp: body_read_def)
  have b: "b \<notin> set (freed_bufs (fst s))" "sv_bufs (snd s) b = Some x" "length x = MAXWB" using B by (simp_all add: body_read_def)
  note R = readyD [OF J p(2)]
  note k = kernel_check [OF K a(3,1), simplified]
  let ?n = "unat (sys_return (env_aio E) a)"
  let ?x = "take (length x) (env_data E a @ drop (length (env_data E a)) x)"
  obtain A where A: "srv_step E s = Some (Inr (fst s, (snd s)\<lparr>sv_bufs := (sv_bufs (snd s))(b \<mapsto> ?x), sv_aio := A\<rparr>))"
    "aio_queue A = [UnitTask_id (OkTask (BodyPio (jb_pk J)) (jb_fd J) (Some b) (of_nat ?n)) CacheTaskID]"
    using poll_done [OF a(3) k(1) a(1,2) _ b(1,2)] by auto
  let ?s = "(fst s, (snd s)\<lparr>sv_bufs := (sv_bufs (snd s))(b \<mapsto> ?x), sv_aio := A\<rparr>)"
  have n: "?n \<le> MAXWB" using k(2) by (simp add: MAXWB_def)
  have pc: "piece (jb_file J) i ?n (env_data E a)" using k(3) off_eq [OF J R(2)] by simp
  then have pc': "piece (jb_file J) i ?n ?x" using n b(3) by (auto simp: piece_def min_def)
  have nx: "b < sv_next (snd s)" using p(2) b(2) by (simp add: ready_def)
  have ne: "ce_data d \<noteq> Some b" if "j \<le> length (jb_file J)" "find_entry (jb_key J j) (fst s) = Some e" "entries (fst s) e = Some d" for j e d
    using B that by (auto simp: body_read_def)
  have "ready J i (as_cached p) ?s"
    by (rule ready_frame [OF J p(2)]) (use p(2,5) R(1,2,12,13) nx in \<open>auto simp: ready_def pkg_at_def split: if_splits\<close>)
  moreover have "coherent J (Some i) (as_cached p) ?s"
    unfolding coherent_def
  proof (intro allI impI)
    fix j e assume j: "j \<le> length (jb_file J) \<and> Some j \<noteq> Some i \<and> find_entry (jb_key J j) (fst ?s) = Some e"
    then obtain d where d: "entries (fst s) e = Some d" "loaded J (as_cached p) j d s" using p(3) by (auto simp: coherent_def)
    then show "\<exists>d. entries (fst ?s) e = Some d \<and> loaded J (as_cached p) j d ?s" using ne [of j e d] j by (auto simp: loaded_def)
  qed
  moreover have "keyed J i p ?s"
  proof (rule keyed_frame [OF p(4)])
    fix c assume "ch_p (bodykey p) = Some c"
    then have "c \<in> set (owned (as_cached p))" using R(1) by (simp add: pkg_at_def owned_def blocks_of_def)
    then show "sv_bufs (snd ?s) c = sv_bufs (snd s) c" using p(5) by auto
  qed simp_all
  ultimately have "body_read J i b ?x ?s" using B p b(3) by (auto simp: body_read_def min_def)
  then have "was_read J i ?s" unfolding was_read_def using pc' A(2)
    by (intro exI [of _ b] exI [of _ ?x] exI [of _ ?n]) simp
  then show ?thesis using A(1) by (intro exI [of _ ?s]) simp
qed

text \<open>The block goes into the cache, which gives it to the one callback that waits.\<close>

lemma step_put:
  assumes J: "job_ok J" and r: "was_read J i s" and K: "kernel J E s"
  shows "\<exists>s'. srv_step E s = Some (Inr s') \<and> writing J i s' \<and> sv_out (snd s') = sv_out (snd s)"
proof -
  obtain b x n where B: "body_read J i b x s" and n: "piece (jb_file J) i n x"
    and q: "aio_queue (sv_aio (snd s)) = [UnitTask_id (OkTask (BodyPio (jb_pk J)) (jb_fd J) (Some b) (of_nat n)) CacheTaskID]"
    using r by (auto simp: was_read_def)
  obtain p where p: "sv_pkgs (snd s) (jb_pk J) = Some p" "ready J i (as_cached p) s" "coherent J (Some i) (as_cached p) s" "keyed J i p s"
    "b \<notin> set (owned (as_cached p))" using B by (auto simp: body_read_def)
  obtain e cq where e: "find_entry (jb_key J i) (fst s) = Some e"
    "entries (fst s) e = Some ((CacheEntry_reserved (jb_key J i))\<lparr>ce_queue := [cq]\<rparr>)" "callbacks (fst s) cq = Some (BodyWio (jb_pk J))"
    using B by (auto simp: body_read_def)
  have b: "b \<notin> set (freed_bufs (fst s))" "sv_bufs (snd s) b = Some x" "length x = MAXWB" using B by (simp_all add: body_read_def)
  note R = readyD [OF J p(2)]
  have E: "pending E" using kernel_run [OF K q] by blast
  let ?w = "(snd s)\<lparr>sv_aio := (sv_aio (snd s))\<lparr>aio_queue := []\<rparr>\<rparr>"
  let ?n = "of_nat n :: 64 word"
  have un: "unat ?n = n" using n b(3) by (simp add: piece_def MAXWB_def unat_of_nat)
  have rw: "ready J i (as_cached p) (fst s, ?w)"
    by (rule ready_frame [OF J p(2)]) (use p(2) R(1,2,12,13) in \<open>auto simp: ready_def pkg_at_def\<close>)
  obtain a ca A where wio: "\<And>c. svr_http_body_wio E (run_cb 1 E) (jb_pk J) (CacheData (Some b) ?n True) (c, ?w) =
      Inr (EHTTP_OK, c, ?w\<lparr>sv_pkgs := (sv_pkgs ?w)(jb_pk J \<mapsto> p\<lparr>hst := HS_WRITING, wst := Some WS_BODY\<rparr>), sv_aio := A\<rparr>)"
    and A: "aio_cbs A a = Some \<lparr>cb_func = AioWrite, cb_fildes = jb_peer J, cb_buf = Some b, cb_nbytes = ?n, cb_offset = 0, cb_sival_ptr = None\<rparr>"
    "aio_callbacks A ca = Some (IOCallback_id (Some (BodyRio (jb_pk J))) (Some (FinalAio (jb_pk J))) CacheTaskID)"
    "aio_queue A = [UnitTask_id (CheckTask a (Some ca)) CacheTaskID]"
    using body_wio [OF J _ rw _ E, of p "run_cb 1 E" b ?n True] p(1) by auto
  let ?p = "p\<lparr>hst := HS_WRITING, wst := Some WS_BODY\<rparr>"
  let ?v = "?w\<lparr>sv_pkgs := (sv_pkgs ?w)(jb_pk J \<mapsto> ?p), sv_aio := A\<rparr>"
  have call: "srv_call E (BodyWio (jb_pk J)) (CacheData (Some b) ?n True) (c', ?w) = Inr (c', ?v)" for c'
    using wio [of c'] by (simp add: srv_call_def numeral_2_eq_2 drop_code_def)
  define d where "d = \<lparr>ce_name = Some (jb_key J i), ce_data = Some b, ce_size = ?n, ce_refCount = 2, ce_freeListRef = None,
      ce_isReserved = False, ce_queue = [cq]\<rparr>"
  obtain c' where c': "Cache_put (srv_call E) (jb_key J i) (Some b) ?n (fst s, ?w) = Inr (True, c', ?v)" "find_entry (jb_key J i) c' = Some e"
    "cacheMap c' = cacheMap (fst s)" "entries c' = (entries (fst s))(e \<mapsto> d)" "cache_kept (fst s) c'"
    using header_put_reserved [OF e, of "srv_call E" "Some b" ?n ?w ?v] call unfolding d_def by blast
  have f: "find_entry k c' = find_entry k (fst s)" for k using c'(3) by (simp add: find_entry_def)
  have fb: "freed_bufs c' = freed_bufs (fst s)" using c'(5) by (simp add: cache_kept_def)
  let ?y = "as_cached ?p"
  let ?u = "?v\<lparr>sv_pkgs := (sv_pkgs (snd s))(jb_pk J \<mapsto> ?y)\<rparr>"
  have kw: "str_of (ch_p (bodykey p)) (fst s, ?w) = Inr (jb_key J i)"
    using keyed_frame [OF p(4), of p "(fst s, ?w)"] by (simp add: keyed_def)
  have st: "srv_step E s = Some (Inr (c', ?u))"
    using q p(1) kw c'(1)
    by (simp add: srv_step_def run_task_def drop_code_def svr_http_body_pio_def pkg_of_def store_pkg_def as_cached_def)
  have wf: "cache_wf (fst s)" using R(12) .
  have ru: "ready J i ?y (c', ?u)" "owned ?y = owned (as_cached p)"
    by (rule ready_frame [OF J p(2), of ?y i "(c', ?u)"];
        use p(2) R(1,2,13) cache_wf_kept [OF wf c'(5,3)] fb ready_parent [OF J] in \<open>force simp: ready_def pkg_at_def\<close>)+
  have "coherent J None ?y (c', ?u)"
    unfolding coherent_def
  proof (intro allI impI)
    fix j ea assume j: "j \<le> length (jb_file J) \<and> Some j \<noteq> None \<and> find_entry (jb_key J j) (fst (c', ?u)) = Some ea"
    show "\<exists>d. entries (fst (c', ?u)) ea = Some d \<and> loaded J ?y j d (c', ?u)"
    proof (cases "j = i")
      case True
      then have "ea = e" using j e(1) f by simp
      moreover have "loaded J ?y i d (c', ?u)"
        using b n un p(5) fb ru(2) by (simp add: loaded_def d_def)
      ultimately show ?thesis using c'(4) True by simp
    next
      case False
      then have "jb_key J j \<noteq> jb_key J i" using jb_key_inj [OF J _ R(2)] j by simp
      then have ne: "ea \<noteq> e" using j f e(1) wf by (auto simp: cache_wf_def)
      obtain d' where "entries (fst s) ea = Some d'" "loaded J (as_cached p) j d' s"
        using p(3) [unfolded coherent_def, rule_format, of j ea] j False f by auto
      then show ?thesis using c'(4) ne fb ru(2) by (simp add: loaded_def)
    qed
  qed
  moreover have "keyed J i ?y (c', ?u)" by (rule keyed_frame [OF p(4)]) (use fb in simp_all)
  ultimately have "body_write J i ?y d (c', ?u)"
    using ru c'(2,4) by (simp add: body_write_def d_def)
  then have "writing J i (c', ?u)"
    unfolding writing_def using A by (intro exI [of _ ?y] exI [of _ d] exI [of _ a] exI [of _ ca]) (simp add: d_def)
  then show ?thesis using st by (intro exI [of _ "(c', ?u)"]) simp
qed

text \<open>What was written of the block is the next bytes of the file.\<close>

lemma step_write:
  assumes J: "job_ok J" and r: "writing J i s" and K: "kernel J E s"
  shows "\<exists>s' m. srv_step E s = Some (Inr s') \<and> written J i m s' \<and>
    sv_out (snd s') = sv_out (snd s) @ [(jb_peer J, take m (drop i (jb_file J)))] \<and> (m = 0 \<longrightarrow> i = length (jb_file J))"
proof -
  obtain p d a q where B: "body_write J i p d s"
    and a: "aio_cbs (sv_aio (snd s)) a = Some \<lparr>cb_func = AioWrite, cb_fildes = jb_peer J, cb_buf = ce_data d, cb_nbytes = ce_size d,
       cb_offset = 0, cb_sival_ptr = None\<rparr>"
      "aio_callbacks (sv_aio (snd s)) q = Some (IOCallback_id (Some (BodyRio (jb_pk J))) (Some (FinalAio (jb_pk J))) CacheTaskID)"
      "aio_queue (sv_aio (snd s)) = [UnitTask_id (CheckTask a (Some q)) CacheTaskID]"
    using r by (auto simp: writing_def)
  have i: "i \<le> length (jb_file J)" using B by (simp add: body_write_def ready_def)
  obtain b x where b: "ce_data d = Some b" "b \<notin> set (freed_bufs (fst s))" "sv_bufs (snd s) b = Some x"
    "piece (jb_file J) i (unat (ce_size d)) x"
    using B i by (fastforce simp: body_write_def coherent_def loaded_def)
  note k = kernel_check [OF K a(3,1), simplified]
  let ?m = "unat (sys_return (env_aio E) a)"
  obtain A where A: "srv_step E s = Some (Inr (fst s, (snd s)\<lparr>sv_out := sv_out (snd s) @ [(jb_peer J, take ?m x)], sv_aio := A\<rparr>))"
    "aio_queue A = [UnitTask_id (OkTask (BodyRio (jb_pk J)) (jb_peer J) (ce_data d) (of_nat ?m)) CacheTaskID]"
    using poll_done [OF a(3) k(1) a(1,2) _ b(2,3)] b(1) by auto
  let ?s = "(fst s, (snd s)\<lparr>sv_out := sv_out (snd s) @ [(jb_peer J, take ?m x)], sv_aio := A\<rparr>)"
  have m: "take ?m x = take ?m (drop i (jb_file J))" "i + ?m \<le> length (jb_file J)"
    using b(4) k(2) unfolding piece_def by (metis min.absorb1 take_take, linarith)
  have z: "i = length (jb_file J)" if "?m = 0"
  proof -
    have "sys_return (env_aio E) a = 0" using that by (simp add: unat_eq_0)
    then have "ce_size d = 0" using k(4) by simp
    then show ?thesis using b(4) by (simp add: piece_def)
  qed
  have "ready J i p ?s"
    by (rule ready_frame [OF J]) (use B in \<open>auto simp: body_write_def ready_def pkg_at_def\<close>)
  moreover have "coherent J None p ?s" by (rule coherent_frame [of _ _ p s]) (use B in \<open>auto simp: body_write_def intro: exI [of _ 1]\<close>)
  moreover have "keyed J i p ?s" by (rule keyed_frame [of _ _ p s]) (use B in \<open>auto simp: body_write_def\<close>)
  ultimately have "body_write J i p d ?s" using B by (simp add: body_write_def)
  then have "written J i ?m ?s" using A(2) m(2) unfolding written_def by (intro exI [of _ p] exI [of _ d]) simp
  then show ?thesis using A(1) m(1) z by (intro exI [of _ ?s] exI [of _ ?m]) simp
qed

section \<open>The end of a block and of the file\<close>

lemma doneWith_held:
  assumes "find_entry k c = Some e" "entries c e = Some d" "2 \<le> ce_refCount d" "currentSize c \<le> sizeQuota c"
  shows "Cache_doneWith k c = Inr (c\<lparr>entries := (entries c)(e \<mapsto> d\<lparr>ce_refCount := ce_refCount d - 1\<rparr>)\<rparr>)"
  using assms(1-3) leD [OF assms(4)] by (simp add: Cache_doneWith_def update_entry_def)

text \<open>The page is sent: its package is gone, and the next task of the connection is queued.\<close>

definition sent :: "job \<Rightarrow> srv_st \<Rightarrow> bool" where
  "sent J s \<longleftrightarrow> sv_pkgs (snd s) (jb_pk J) = None \<and>
     (\<forall>i \<le> length (jb_file J). \<forall>e d. find_entry (jb_key J i) (fst s) = Some e \<and> entries (fst s) e = Some d \<longrightarrow> 0 < ce_refCount d \<and> ce_freeListRef d = None) \<and>
     aio_queue (sv_aio (snd s)) = [case nsg (jb_pkg J) of
         None \<Rightarrow> UnitTask_id (ClientTask (ReadTask (the (ppg (jb_pkg J))))) ReadTaskID
       | Some g \<Rightarrow> UnitTask_id (ClientTask (FetchTask g)) CacheTaskID]"

lemma step_done:
  assumes J: "job_ok J" and r: "written J i m s" and K: "kernel J E s" and z: "m = 0 \<Longrightarrow> i = length (jb_file J)"
  shows "\<exists>s'. srv_step E s = Some (Inr s') \<and> sv_out (snd s') = sv_out (snd s) \<and>
    (if m = 0 then sent J s' else writing J (i + m) s' \<or> reading J (i + m) s')"
proof -
  obtain p d where B: "body_write J i p d s" and m: "i + m \<le> length (jb_file J)"
    and q: "aio_queue (sv_aio (snd s)) = [UnitTask_id (OkTask (BodyRio (jb_pk J)) (jb_peer J) (ce_data d) (of_nat m)) CacheTaskID]"
    using r by (auto simp: written_def)
  obtain e where e: "find_entry (jb_key J i) (fst s) = Some e" "entries (fst s) e = Some d" "2 \<le> ce_refCount d"
    using B by (auto simp: body_write_def)
  have p: "sv_pkgs (snd s) (jb_pk J) = Some p" "ready J i p s" "coherent J None p s" "keyed J i p s" "wst p = Some WS_BODY"
    using B by (simp_all add: body_write_def)
  note R = readyD [OF J p(2)]
  have E: "pending E" "env_open E (jb_uri J) = jb_fd J" using kernel_run [OF K q] by blast+
  have um: "unat (of_nat m :: 64 word) = m" using off_eq [OF J, of m] m by simp
  let ?w = "(snd s)\<lparr>sv_aio := (sv_aio (snd s))\<lparr>aio_queue := []\<rparr>\<rparr>"
  let ?c = "(fst s)\<lparr>entries := (entries (fst s))(e \<mapsto> d\<lparr>ce_refCount := ce_refCount d - 1\<rparr>)\<rparr>"
  have wf: "cache_wf (fst s)" "currentSize (fst s) \<le> sizeQuota (fst s)" using R(12) by (simp_all add: cache_wf_def)
  have dw: "Cache_doneWith (jb_key J i) (fst s) = Inr ?c" by (rule doneWith_held [OF e wf(2)])
  have wf': "cache_wf ?c" using wf(1) by (simp add: cache_wf_def find_entry_def)
  have f: "find_entry k ?c = find_entry k (fst s)" for k by (simp add: find_entry_def)
  have kw: "str_of (ch_p (bodykey p)) (fst s, ?w) = Inr (jb_key J i)" "ch_p (bodykey p) \<noteq> None"
    using keyed_frame [OF p(4), of p "(fst s, ?w)"] p(4) by (simp add: keyed_def, cases "ch_p (bodykey p)", simp_all add: keyed_def str_of_def block_of_def)
  define y where "y = (if m = 0 then p\<lparr>wst := Some WS_UNO\<rparr> else p\<lparr>tr_offset := tr_offset p + of_nat m\<rparr>)"
  let ?s = "(?c, ?w\<lparr>sv_pkgs := (sv_pkgs (snd s))(jb_pk J \<mapsto> y)\<rparr>)"
  have st: "srv_step E s = Some (drop_code (if m = 0 then svr_http_final E (jb_pk J) ?s else svr_http_body E (srv_call E) (jb_pk J) ?s))"
    using q p(1,5) kw dw um
    by (auto simp: srv_step_def run_task_def svr_http_body_rio_def pkg_of_def store_pkg_def y_def word_less_nat_alt)
  have ry: "ready J (i + m) y ?s" "owned y = owned p"
    by (rule ready_frame [OF J p(2), of y "i + m" ?s];
        use p(2) R(1,13) m wf' ready_parent [OF J] in \<open>auto simp: ready_def pkg_at_def y_def\<close>)+
  have co: "coherent J None y ?s"
  proof (rule coherent_frame [OF p(3)])
    show "Some j \<noteq> None \<and> find_entry (jb_key J j) (fst s) = Some ea \<and>
      (\<exists>n>0. entries (fst ?s) ea = map_option (\<lambda>d. d\<lparr>ce_refCount := n\<rparr>) (entries (fst s) ea) \<or> entries (fst ?s) ea = entries (fst s) ea)"
      if "find_entry (jb_key J j) (fst ?s) = Some ea" for j ea
      using that e f by (auto intro: exI [of _ "ce_refCount d - 1"])
  qed (use ry(2) in simp_all)
  have yp: "sv_pkgs (snd ?s) (jb_pk J) = Some y" "aio_queue (sv_aio (snd ?s)) = []" by simp_all
  show ?thesis
  proof (cases "m = 0")
    case False
    have "\<exists>s'. svr_http_body E (srv_call E) (jb_pk J) ?s = Inr (EHTTP_OK, s') \<and> (writing J (i + m) s' \<or> reading J (i + m) s') \<and> sv_out (snd s') = sv_out (snd ?s)"
    proof (cases "find_entry (jb_key J (i + m)) (fst ?s)")
      case None
      show ?thesis using body_miss [OF J yp(1) ry(1) co None E yp(2)] by blast
    next
      case (Some ea)
      show ?thesis using body_hit [OF J yp(1) ry(1) co Some E(1) yp(2)] by blast
    qed
    then show ?thesis using st False by (auto simp: drop_code_def)
  next
    case True
    have eq: "ppg y = Some (the (ppg (jb_pkg J)))" "nsg y = nsg (jb_pkg J)"
      using rest_of_eq [of y "jb_pkg J"] ry(1) J by (auto simp: ready_def pkg_at_def job_ok_def)
    have pq: "sv_pkgs (snd ?s) (the (ppg (jb_pkg J))) = Some (jb_parent J)" using ry(1) by (simp add: ready_def)
    obtain s' where s': "svr_http_final E (jb_pk J) ?s = Inr (EHTTP_FINAL, s')" "fst s' = fst ?s" "sv_out (snd s') = sv_out (snd s)"
      "sv_pkgs (snd s') = (if nsg y = None then (sv_pkgs (snd ?s))(jb_pk J := None, the (ppg (jb_pkg J)) \<mapsto> (jb_parent J)\<lparr>lcg := None\<rparr>)
        else (sv_pkgs (snd ?s))(jb_pk J := None))"
      "aio_queue (sv_aio (snd s')) = aio_queue (sv_aio (snd ?s)) @
      [case nsg y of None \<Rightarrow> UnitTask_id (ClientTask (ReadTask (the (ppg (jb_pkg J))))) ReadTaskID
       | Some g \<Rightarrow> UnitTask_id (ClientTask (FetchTask g)) CacheTaskID]"
      using final_state [OF yp(1) eq(1) ready_parent [OF J] pq readyD(9) [OF J ry(1)], of E] by auto
    have "sent J s'"
      unfolding sent_def
    proof (intro conjI allI impI)
      fix j ea da assume "j \<le> length (jb_file J)" "find_entry (jb_key J j) (fst s') = Some ea \<and> entries (fst s') ea = Some da"
      then have "loaded J y j da ?s" using co s'(2) by (fastforce simp: coherent_def)
      then show "0 < ce_refCount da" "ce_freeListRef da = None" by (simp_all add: loaded_def)
    qed (use s'(4,5) ready_parent [OF J] eq(2) in \<open>auto split: option.splits\<close>)
    then show ?thesis using st s'(1,3) True by (auto simp: drop_code_def)
  qed
qed

end
