(* ===== verification/HttpRun.thy ===== *)
theory HttpRun
  imports HttpFile
begin

text \<open>
  Runs of the server that send a whole page: from the task that fetches it, over the header, to the
  end of the file and the task that comes next.
\<close>

section \<open>Runs\<close>

text \<open>\<open>n\<close> steps of the dispatcher's thread; \<open>Es k\<close> is the operating system in step \<open>k\<close>.\<close>

fun srv_steps :: "(nat \<Rightarrow> srv_sys) \<Rightarrow> nat \<Rightarrow> srv_st \<Rightarrow> (fault + srv_st) option" where
  "srv_steps Es 0 s = Some (Inr s)"
| "srv_steps Es (Suc n) s =
     (case srv_step (Es 0) s of Some (Inr s') \<Rightarrow> srv_steps (\<lambda>k. Es (Suc k)) n s' | r \<Rightarrow> r)"

text \<open>A kernel that serves the job in every step, for as long as the page has its package.\<close>

definition here :: "job \<Rightarrow> srv_st \<Rightarrow> bool" where
  "here J s \<longleftrightarrow> sv_pkgs (snd s) (jb_pk J) \<noteq> None"

coinductive kernels :: "job \<Rightarrow> (nat \<Rightarrow> srv_sys) \<Rightarrow> srv_st \<Rightarrow> bool" for J where
  over: "\<not> here J s \<Longrightarrow> kernels J Es s"
| more: "kernel J (Es 0) s \<Longrightarrow> (\<And>s'. srv_step (Es 0) s = Some (Inr s') \<Longrightarrow> kernels J (\<lambda>k. Es (Suc k)) s') \<Longrightarrow> kernels J Es s"

inductive_cases kernelsE: "kernels J Es s"

lemma kernels_now: "kernels J Es s \<Longrightarrow> here J s \<Longrightarrow> kernel J (Es 0) s"
  by (erule kernelsE) simp_all

lemma kernels_later: "kernels J Es s \<Longrightarrow> here J s \<Longrightarrow> srv_step (Es 0) s = Some (Inr s') \<Longrightarrow> kernels J (\<lambda>k. Es (Suc k)) s'"
  by (erule kernelsE) simp_all

lemma is_here:
  "writing J i s \<Longrightarrow> here J s" "reading J i s \<Longrightarrow> here J s" "written J i m s \<Longrightarrow> here J s" "was_read J i s \<Longrightarrow> here J s"
  by (auto simp: here_def writing_def reading_def written_def was_read_def body_write_def body_read_def)

text \<open>The run sends exactly these bytes and ends the page.\<close>

definition sends :: "job \<Rightarrow> (nat \<Rightarrow> srv_sys) \<Rightarrow> srv_st \<Rightarrow> string \<Rightarrow> bool" where
  "sends J Es s F \<longleftrightarrow> (\<exists>n s' xs. srv_steps Es n s = Some (Inr s') \<and> sent J s' \<and>
     sv_out (snd s') = sv_out (snd s) @ map (Pair (jb_peer J)) xs \<and> concat xs = F)"

lemma sends_step:
  assumes "srv_step (Es 0) s = Some (Inr s')" "sv_out (snd s') = sv_out (snd s) @ map (Pair (jb_peer J)) ys" "sends J (\<lambda>k. Es (Suc k)) s' F"
  shows "sends J Es s (concat ys @ F)"
proof -
  obtain n t xs where n: "srv_steps (\<lambda>k. Es (Suc k)) n s' = Some (Inr t)" "sent J t"
    "sv_out (snd t) = sv_out (snd s') @ map (Pair (jb_peer J)) xs" "concat xs = F"
    using assms(3) by (auto simp: sends_def)
  then show ?thesis
    unfolding sends_def using assms(1,2) by (intro exI [of _ "Suc n"] exI [of _ t] exI [of _ "ys @ xs"]) simp
qed

lemma sends_quietly:
  "srv_step (Es 0) s = Some (Inr s') \<Longrightarrow> sv_out (snd s') = sv_out (snd s) \<Longrightarrow> sends J (\<lambda>k. Es (Suc k)) s' F \<Longrightarrow> sends J Es s F"
  using sends_step [of Es s s' J "[]" F] by simp

text \<open>From a block that is being written or read, by what is left of the file.\<close>

lemma sends_rest:
  assumes J: "job_ok J"
  shows "writing J i s \<or> reading J i s \<Longrightarrow> kernels J Es s \<Longrightarrow> sends J Es s (drop i (jb_file J))"
proof (induction "length (jb_file J) - i" arbitrary: i s Es rule: less_induct)
  case less
  have W: "sends J Fs t (drop i (jb_file J))" if t: "writing J i t" "kernels J Fs t" for t Fs
  proof -
    obtain u m where u: "srv_step (Fs 0) t = Some (Inr u)" "written J i m u"
      "sv_out (snd u) = sv_out (snd t) @ [(jb_peer J, take m (drop i (jb_file J)))]" "m = 0 \<longrightarrow> i = length (jb_file J)"
      using step_write [OF J t(1) kernels_now [OF t(2) is_here(1) [OF t(1)]]] by blast
    note K = kernels_later [OF t(2) is_here(1) [OF t(1)] u(1)]
    have m: "i + m \<le> length (jb_file J)" using u(2) by (auto simp: written_def)
    obtain v where v: "srv_step (Fs (Suc 0)) u = Some (Inr v)" "sv_out (snd v) = sv_out (snd u)"
      "if m = 0 then sent J v else writing J (i + m) v \<or> reading J (i + m) v"
      using step_done [OF J u(2) kernels_now [of J "\<lambda>k. Fs (Suc k)" u, OF K is_here(3) [OF u(2)]]] u(4) by auto
    have "sends J (\<lambda>k. Fs (Suc (Suc k))) v (drop (i + m) (jb_file J))"
    proof (cases "m = 0")
      case True
      then have "sent J v" "drop (i + m) (jb_file J) = []" using v(3) u(4) by simp_all
      then show ?thesis
        unfolding sends_def by (intro exI [of _ 0] exI [of _ v] exI [of _ "[]"]) simp
    next
      case False
      then show ?thesis using less.hyps [of "i + m" v "\<lambda>k. Fs (Suc (Suc k))"] v(3) m kernels_later [of J "\<lambda>k. Fs (Suc k)" u v, OF K is_here(3) [OF u(2)] v(1)] by auto
    qed
    note rest = sends_quietly [of "\<lambda>k. Fs (Suc k)" u v J, OF v(1,2) this]
    have "sends J Fs t (concat [take m (drop i (jb_file J))] @ drop (i + m) (jb_file J))"
      by (rule sends_step [of Fs t u J "[take m (drop i (jb_file J))]", OF u(1) _ rest]) (simp add: u(3))
    moreover have "take m (drop i (jb_file J)) @ drop (i + m) (jb_file J) = drop i (jb_file J)"
      by (metis add.commute append_take_drop_id drop_drop)
    ultimately show ?thesis by simp
  qed
  show ?case
  proof (cases "writing J i s")
    case True
    then show ?thesis using W less.prems(2) by blast
  next
    case False
    then have "reading J i s" using less.prems(1) by blast
    note h = is_here(2) [OF this]
    from step_read [OF J \<open>reading J i s\<close> kernels_now [OF less.prems(2) h]] obtain t where t: "srv_step (Es 0) s = Some (Inr t)" "was_read J i t"
      "sv_out (snd t) = sv_out (snd s)" by blast
    note K = kernels_later [OF less.prems(2) h t(1)]
    from step_put [OF J t(2) kernels_now [of J "\<lambda>k. Es (Suc k)" t, OF K is_here(4) [OF t(2)]]] obtain u where u: "srv_step (Es (Suc 0)) t = Some (Inr u)" "writing J i u"
      "sv_out (snd u) = sv_out (snd t)" by blast
    note rest = sends_quietly [of "\<lambda>k. Es (Suc k)" t u J "drop i (jb_file J)", OF u(1,3) W [of u "\<lambda>k. Es (Suc (Suc k))"]]
    have "sends J (\<lambda>k. Es (Suc k)) t (drop i (jb_file J))"
      by (rule rest) (use u(2) kernels_later [of J "\<lambda>k. Es (Suc k)" t u, OF K is_here(4) [OF t(2)] u(1)] in simp_all)
    then show ?thesis by (rule sends_quietly [of Es s t J, OF t(1,3)])
  qed
qed

text \<open>The task that the written header leaves.\<close>

definition headed :: "job \<Rightarrow> srv_st \<Rightarrow> bool" where
  "headed J s \<longleftrightarrow> (\<exists>p fd buf n. sv_pkgs (snd s) (jb_pk J) = Some p \<and> hsn p = Some N_200 \<and> ready J 0 p s \<and> coherent J None p s \<and>
     aio_queue (sv_aio (snd s)) = [UnitTask_id (OkTask (HeaderToBody (jb_pk J)) fd buf n) CacheTaskID])"

lemma step_start:
  assumes J: "job_ok J" and h: "headed J s" and K: "kernel J E s"
  shows "\<exists>s'. srv_step E s = Some (Inr s') \<and> (writing J 0 s' \<or> reading J 0 s') \<and> sv_out (snd s') = sv_out (snd s)"
proof -
  obtain p fd buf n where p: "sv_pkgs (snd s) (jb_pk J) = Some p" "hsn p = Some N_200" "ready J 0 p s" "coherent J None p s"
    and q: "aio_queue (sv_aio (snd s)) = [UnitTask_id (OkTask (HeaderToBody (jb_pk J)) fd buf n) CacheTaskID]"
    using h by (auto simp: headed_def)
  note R = readyD [OF J p(3)]
  have E: "pending E" "env_open E (jb_uri J) = jb_fd J" using kernel_run [OF K q] by blast+
  let ?y = "p\<lparr>hst := HS_UNKNOWN, wst := Some WS_HEAD\<rparr>"
  let ?s = "(fst s, (snd s)\<lparr>sv_aio := (sv_aio (snd s))\<lparr>aio_queue := []\<rparr>, sv_pkgs := (sv_pkgs (snd s))(jb_pk J \<mapsto> ?y)\<rparr>)"
  have st: "srv_step E s = Some (drop_code (svr_http_body E (srv_call E) (jb_pk J) ?s))"
    using q p(1,2) by (simp add: srv_step_def run_task_def svr_http_header_to_body_aio_def pkg_of_def store_pkg_def)
  have ry: "ready J 0 ?y ?s" "owned ?y = owned p"
    by (rule ready_frame [OF J p(3), of ?y 0 ?s]; use p(3) R(1,2,12,13) ready_parent [OF J] in \<open>auto simp: ready_def pkg_at_def\<close>)+
  have co: "coherent J None ?y ?s" by (rule coherent_frame [OF p(4)]) (use ry(2) in \<open>auto intro: exI [of _ 1]\<close>)
  have yp: "sv_pkgs (snd ?s) (jb_pk J) = Some ?y" "aio_queue (sv_aio (snd ?s)) = []" by simp_all
  have "\<exists>s'. svr_http_body E (srv_call E) (jb_pk J) ?s = Inr (EHTTP_OK, s') \<and> (writing J 0 s' \<or> reading J 0 s') \<and> sv_out (snd s') = sv_out (snd ?s)"
  proof (cases "find_entry (jb_key J 0) (fst ?s)")
    case None
    show ?thesis using body_miss [OF J yp(1) ry(1) co None E yp(2)] by blast
  next
    case (Some e)
    show ?thesis using body_hit [OF J yp(1) ry(1) co Some E(1) yp(2)] by blast
  qed
  then show ?thesis using st by (auto simp: drop_code_def)
qed

section \<open>The header\<close>

text \<open>The kernel has the header \<open>hdr\<close> to write; the package is ready for its body.\<close>

definition heading :: "job \<Rightarrow> string \<Rightarrow> addr \<Rightarrow> srv_st \<Rightarrow> bool" where
  "heading J hdr a s \<longleftrightarrow> (\<exists>p q b junk. sv_pkgs (snd s) (jb_pk J) = Some p \<and> hsn p = Some N_200 \<and> ready J 0 p s \<and> coherent J None p s \<and>
     aio_cbs (sv_aio (snd s)) a = Some \<lparr>cb_func = AioWrite, cb_fildes = jb_peer J, cb_buf = Some b, cb_nbytes = of_nat (length hdr),
       cb_offset = 0, cb_sival_ptr = None\<rparr> \<and>
     aio_callbacks (sv_aio (snd s)) q = Some (IOCallback_id (Some (HeaderToBody (jb_pk J))) (Some (FinalAio (jb_pk J))) CacheTaskID) \<and>
     aio_queue (sv_aio (snd s)) = [UnitTask_id (CheckTask a (Some q)) CacheTaskID] \<and>
     b \<notin> set (freed_bufs (fst s)) \<and> sv_bufs (snd s) b = Some (hdr @ junk) \<and> length hdr < MAXWH)"

lemma step_heading:
  assumes J: "job_ok J" and h: "heading J hdr a s" and K: "kernel J E s"
  defines "m \<equiv> unat (sys_return (env_aio E) a)"
  shows "m \<le> length hdr" "m = 0 \<Longrightarrow> hdr = []"
    "\<exists>s'. srv_step E s = Some (Inr s') \<and> headed J s' \<and> sv_out (snd s') = sv_out (snd s) @ [(jb_peer J, take m hdr)]"
proof -
  obtain p q b junk where p: "sv_pkgs (snd s) (jb_pk J) = Some p" "hsn p = Some N_200" "ready J 0 p s" "coherent J None p s"
    and a: "aio_cbs (sv_aio (snd s)) a = Some \<lparr>cb_func = AioWrite, cb_fildes = jb_peer J, cb_buf = Some b, cb_nbytes = of_nat (length hdr),
       cb_offset = 0, cb_sival_ptr = None\<rparr>"
    "aio_callbacks (sv_aio (snd s)) q = Some (IOCallback_id (Some (HeaderToBody (jb_pk J))) (Some (FinalAio (jb_pk J))) CacheTaskID)"
    "aio_queue (sv_aio (snd s)) = [UnitTask_id (CheckTask a (Some q)) CacheTaskID]"
    and b: "b \<notin> set (freed_bufs (fst s))" "sv_bufs (snd s) b = Some (hdr @ junk)" "length hdr < MAXWH"
    using h by (auto simp: heading_def)
  note k = kernel_check [OF K a(3,1), simplified]
  have l: "unat (of_nat (length hdr) :: 64 word) = length hdr" using b(3) by (simp add: unat_of_nat MAXWH_def)
  show m: "m \<le> length hdr" using k(2) l by (simp add: m_def)
  show "hdr = []" if "m = 0"
  proof -
    have "of_nat (length hdr) = (0 :: 64 word)" using k(4) that by (simp add: m_def unat_eq_0)
    then show ?thesis using l by auto
  qed
  obtain A where A: "srv_step E s = Some (Inr (fst s, (snd s)\<lparr>sv_out := sv_out (snd s) @ [(jb_peer J, take m hdr)], sv_aio := A\<rparr>))"
    "aio_queue A = [UnitTask_id (OkTask (HeaderToBody (jb_pk J)) (jb_peer J) (Some b) (sys_return (env_aio E) a)) CacheTaskID]"
    using poll_done [OF a(3) k(1) a(1,2) _ b(1,2)] m by (auto simp: m_def)
  let ?s = "(fst s, (snd s)\<lparr>sv_out := sv_out (snd s) @ [(jb_peer J, take m hdr)], sv_aio := A\<rparr>)"
  have r: "ready J 0 p ?s" by (rule ready_frame [OF J p(3)]) (use p(3) in \<open>auto simp: ready_def pkg_at_def\<close>)
  have c: "coherent J None p ?s" by (rule coherent_frame [OF p(4)]) (auto intro: exI [of _ 1])
  have "headed J ?s" unfolding headed_def using r c p(1,2) A(2) by auto
  then show "\<exists>s'. srv_step E s = Some (Inr s') \<and> headed J s' \<and> sv_out (snd s') = sv_out (snd s) @ [(jb_peer J, take m hdr)]"
    using A(1) by (intro exI [of _ ?s]) simp
qed

lemma sends_heading:
  assumes J: "job_ok J" and h: "heading J hdr a s" and K: "kernels J Es s"
  shows "sends J Es s (take (unat (sys_return (env_aio (Es 0)) a)) hdr @ jb_file J)"
proof -
  have hs: "here J s" using h by (auto simp: heading_def here_def)
  let ?m = "unat (sys_return (env_aio (Es 0)) a)"
  obtain u where u: "srv_step (Es 0) s = Some (Inr u)" "headed J u" "sv_out (snd u) = sv_out (snd s) @ [(jb_peer J, take ?m hdr)]"
    using step_heading(3) [OF J h kernels_now [OF K hs]] by blast
  have hu: "here J u" using u(2) by (auto simp: headed_def here_def)
  note K' = kernels_later [OF K hs u(1)]
  obtain v where v: "srv_step (Es (Suc 0)) u = Some (Inr v)" "writing J 0 v \<or> reading J 0 v" "sv_out (snd v) = sv_out (snd u)"
    using step_start [OF J u(2) kernels_now [of J "\<lambda>k. Es (Suc k)" u, OF K' hu]] by blast
  have "sends J (\<lambda>k. Es (Suc (Suc k))) v (jb_file J)"
    using sends_rest [OF J v(2) kernels_later [of J "\<lambda>k. Es (Suc k)" u v, OF K' hu v(1)]] by simp
  note rest = sends_quietly [of "\<lambda>k. Es (Suc k)" u v J, OF v(1,3) this]
  from sends_step [of Es s u J "[take ?m hdr]", OF u(1) _ rest] u(3) show ?thesis by simp
qed

lemma blocks_of_Cons: "blocks_of (c # cs) = blocks_of [c] @ blocks_of cs"
  by (simp add: blocks_of_def)

text \<open>The package gets its header; two fresh blocks and one entry more change nothing of the body.\<close>

lemma header_ready:
  assumes J: "job_ok J" and p: "p = jb_pkg J" "ch_p (headkey p) = None" "ch_p (chead p) = None" and r: "ready J 0 p s" and c: "coherent J None p s"
    and R: "R = p\<lparr>hst := h, wst := x, hsn := m, vern := v, hfd := f, headkey := \<lparr>ch_p = Some (sv_next (snd s)), ch_n = k, ch_cached = False\<rparr>,
      chead := C, tr_offset := 0, tr_nbytes := y, tr_times := z\<rparr>" "f \<in> {- 1, jb_fd J}" "ch_p C = None \<or> ch_cached C"
    and w: "\<And>b. b < sv_next (snd s) \<Longrightarrow> sv_bufs w b = sv_bufs (snd s) b" "sv_bufs w (sv_next (snd s)) \<noteq> None"
      "\<And>b. sv_bufs w b \<noteq> None \<Longrightarrow> b < sv_next w" "sv_next (snd s) \<le> sv_next w" "sv_conns w = sv_conns (snd s)"
      "sv_pkgs w = (sv_pkgs (snd s))(jb_pk J \<mapsto> R)"
    and c': "freed_bufs c' = freed_bufs (fst s)" "cache_wf c'" "find_entry key c' = Some e0" "\<And>j. key \<noteq> jb_key J j"
      "\<And>k. k \<noteq> key \<Longrightarrow> find_entry k c' = find_entry k (fst s)" "\<And>e. e \<noteq> e0 \<Longrightarrow> entries c' e = entries (fst s) e"
  shows "job_ok (J\<lparr>jb_pkg := R\<rparr>)" "ready (J\<lparr>jb_pkg := R\<rparr>) 0 R (c', w)" "coherent (J\<lparr>jb_pkg := R\<rparr>) None R (c', w)"
proof -
  note rd = readyD [OF J r]
  have ne: "the (ppg R) \<noteq> jb_pk J" using ready_parent [OF J] by (simp add: R(1) p(1))
  show "job_ok (J\<lparr>jb_pkg := R\<rparr>)" using J by (simp add: job_ok_def R(1) p(1) jb_key_def)
  let ?n = "sv_next (snd s)"
  have old: "b < ?n" if "b \<in> set (owned p) \<or> b \<in> set (freed_bufs (fst s)) \<or> sv_bufs (snd s) b \<noteq> None" for b
    using that rd(9) r by (auto simp: ready_def owns_def)
  have pr: "ch_p (cbody p) = None \<or> ch_cached (cbody p)" "\<not> ch_cached (bodykey p)" using r by (simp_all add: ready_def pkg_at_def)
  have one: "blocks_of [headkey p] = []" "blocks_of [chead p] = []" "blocks_of [C] = []"
    "blocks_of [\<lparr>ch_p = Some ?n, ch_n = k, ch_cached = False\<rparr>] = [?n]"
    using p(2,3) R(3) by (auto simp: blocks_of_def)
  define T where "T = blocks_of [pk_host p] @ blocks_of [pk_uri p] @ blocks_of [pk_met p] @ blocks_of [pk_ver p]"
  have op: "owned p = blocks_of [bodykey p] @ blocks_of [cbody p] @ T" "owned R = blocks_of [bodykey p] @ blocks_of [cbody p] @ ?n # T"
    unfolding owned_def T_def using one
    by (simp_all add: blocks_of_Cons [of _ "_ # _"] R(1))
  have o: "set (owned R) = insert ?n (set (owned p))" "distinct (owned p) \<Longrightarrow> ?n \<notin> set (owned p) \<Longrightarrow> distinct (owned R)"
    unfolding op by auto
  have "?n \<notin> set (owned p) \<union> set (freed_bufs (fst s))" using old [of ?n] by auto
  moreover have "sv_bufs w b \<noteq> None" if "b \<in> set (owned p)" for b
    using that w(1) [of b] old [of b] rd(9) by (auto simp: owns_def)
  ultimately have own: "owns (c', w) R" using rd(9) o w(2) c'(1) by (auto simp: owns_def domIff)
  have at: "pkg_at (J\<lparr>jb_pkg := R\<rparr>) 0 R" using pr(2) R(2) by (auto simp: pkg_at_def R(1))
  have kb: "kb \<in> set (owned p)" if "ch_p (bodykey p) = Some kb" for kb using that pr by (simp add: owned_def blocks_of_def)
  show "ready (J\<lparr>jb_pkg := R\<rparr>) 0 R (c', w)"
    unfolding ready_def
  proof (intro conjI allI impI ballI)
    show "sv_pkgs (snd (c', w)) (the (ppg (jb_pkg (J\<lparr>jb_pkg := R\<rparr>)))) = Some (jb_parent (J\<lparr>jb_pkg := R\<rparr>))"
      using r ne by (auto simp: ready_def w(6) R(1) p(1))
    show "sv_bufs (snd (c', w)) (jb_block (J\<lparr>jb_pkg := R\<rparr>)) = Some (jb_uri (J\<lparr>jb_pkg := R\<rparr>) @ [NUL])"
      using r rd(11) w(1) [of "jb_block J"] by (simp add: ready_def jb_block_def R(1) p(1))
    show "\<exists>x. sv_bufs (snd (c', w)) kb = Some x \<and> length x = MAXKEYS" if "ch_p (bodykey R) = Some kb" for kb
      using that r old [of kb] kb w(1) by (auto simp: ready_def R(1))
    show "b < sv_next (snd (c', w))" if "b \<in> set (freed_bufs (fst (c', w)))" for b
      using old [of b] that w(4) c'(1) by simp
  qed (use at own r w pr(1) c'(2) in \<open>auto simp: ready_def R(1) p(1)\<close>)
  have "coherent J None R (c', w)"
  proof (rule coherent_frame [OF c])
    show "set (owned R) \<subseteq> set (owned p) \<union> {b. sv_bufs (snd s) b = None}" using o(1) old [of ?n] by auto
    show "sv_bufs (snd (c', w)) b = Some t" if "sv_bufs (snd s) b = Some t" for b t using w(1) [of b] old [of b] that by auto
    fix j e assume "find_entry (jb_key J j) (fst (c', w)) = Some e"
    moreover then have "e \<noteq> e0" using c'(2-4) unfolding cache_wf_def by (metis fst_conv)
    ultimately show "Some j \<noteq> None \<and> find_entry (jb_key J j) (fst s) = Some e \<and>
      (\<exists>n>0. entries (fst (c', w)) e = map_option (\<lambda>d. d\<lparr>ce_refCount := n\<rparr>) (entries (fst s) e) \<or> entries (fst (c', w)) e = entries (fst s) e)"
      using c'(4) [of j] c'(5) [of "jb_key J j"] c'(6) [of e] by auto
  qed (use c'(1) in simp_all)
  then show "coherent (J\<lparr>jb_pkg := R\<rparr>) None R (c', w)" by (simp add: coherent_def loaded_def jb_key_def)
qed

section \<open>The request\<close>

text \<open>A GET of the uri, by a client of version \<open>v\<close>, that the dispatcher has to run.\<close>

definition wanted :: "job \<Rightarrow> nat \<Rightarrow> srv_st \<Rightarrow> bool" where
  "wanted J v s \<longleftrightarrow> sv_pkgs (snd s) (jb_pk J) = Some (jb_pkg J) \<and>
     aio_queue (sv_aio (snd s)) = [UnitTask_id (ClientTask (FetchTask (jb_pk J))) CacheTaskID] \<and>
     ready J 0 (jb_pkg J) s \<and> coherent J None (jb_pkg J) s \<and> hfd (jb_pkg J) = - 1 \<and> chead (jb_pkg J) = charn_new \<and>
     ch_p (headkey (jb_pkg J)) = None \<and> ch_p (pk_met (jb_pkg J)) \<noteq> None \<and> v < 2 \<and>
     str_of (ch_p (pk_ver (jb_pkg J))) s = Inr ([''HTTP/1.0'', ''HTTP/1.1''] ! v)"

text \<open>The header that the request is answered with: the one of the cache, or a new one.\<close>

definition reply_header :: "job \<Rightarrow> srv_sys \<Rightarrow> nat \<Rightarrow> srv_st \<Rightarrow> string \<Rightarrow> bool" where
  "reply_header J E v s hdr \<longleftrightarrow>
     (case find_entry (jb_uri J) (fst s) of
        None \<Rightarrow> (\<exists>mtime. env_fstat E (jb_fd J) = Some (of_nat (length (jb_file J)), mtime) \<and>
          hdr = header_200 v (env_date E (env_time E)) (env_date E mtime) (of_nat (length (jb_file J))) \<and> length hdr < MAXWH - 1)
      | Some e \<Rightarrow> (\<exists>d b rest v' x y n. entries (fst s) e = Some d \<and> \<not> ce_isReserved d \<and> ce_freeListRef d = None \<and> ce_data d = Some b \<and>
          b \<notin> set (freed_bufs (fst s)) \<and> sv_bufs (snd s) b = Some (hdr @ rest) \<and> ce_size d = of_nat (length hdr) \<and>
          hdr = header_200 v' x y n \<and> v' < 2 \<and> length hdr < MAXWH))"

definition start_pkg :: "hpkg \<Rightarrow> nat \<Rightarrow> addr \<Rightarrow> size_t \<Rightarrow> hpkg" where
  "start_pkg p v n k = p\<lparr>hsn := Some N_UNO, vern := v, hst := HS_FETCHING, wst := Some WS_HEAD,
     headkey := \<lparr>ch_p = Some n, ch_n = k, ch_cached = False\<rparr>\<rparr>"

lemma str_of_same:
  "freed_bufs (fst s') = freed_bufs (fst s) \<Longrightarrow> sv_bufs (snd s') = sv_bufs (snd s) \<Longrightarrow> str_of x s' = str_of x s"
  by (cases x) (simp_all add: str_of_def block_of_def)

lemma fetch_header:
  assumes J: "job_ok J" and W: "wanted J v s"
  shows "\<exists>w K k. srv_step E s = Some (drop_code (and_then (get_or_reserve (srv_call E) (jb_uri J) (HeaderWio (jb_pk J)) (fst s, w))
      (\<lambda>(hit, s). if hit then Inr (EHTTP_OK, s) else svr_http_header_rio E (srv_call E) (jb_pk J) s))) \<and>
    sv_pkgs w = (sv_pkgs (snd s))(jb_pk J \<mapsto> start_pkg (jb_pkg J) v (sv_next (snd s)) k) \<and>
    sv_bufs w = (sv_bufs (snd s))(sv_next (snd s) \<mapsto> K) \<and> c_str K 0 = Inr (jb_uri J) \<and> sv_next w = Suc (sv_next (snd s)) \<and>
    sv_conns w = sv_conns (snd s) \<and> aio_queue (sv_aio w) = [] \<and> sv_out w = sv_out (snd s)"
proof -
  define p where "p = jb_pkg J"
  have w: "sv_pkgs (snd s) (jb_pk J) = Some p" "aio_queue (sv_aio (snd s)) = [UnitTask_id (ClientTask (FetchTask (jb_pk J))) CacheTaskID]"
    "ready J 0 p s" "ch_p (headkey p) = None" "ch_p (pk_met p) \<noteq> None" "v < 2" "str_of (ch_p (pk_ver p)) s = Inr ([''HTTP/1.0'', ''HTTP/1.1''] ! v)"
    using W by (simp_all add: wanted_def p_def)
  note R = readyD [OF J w(3)]
  let ?p1 = "p\<lparr>hst := HS_FETCHING, wst := Some WS_HEAD, hsn := Some N_UNO, vern := v\<rparr>"
  let ?S = "(fst s, (snd s)\<lparr>sv_aio := (sv_aio (snd s))\<lparr>aio_queue := []\<rparr>, sv_pkgs := (sv_pkgs (snd s))(jb_pk J \<mapsto> ?p1)\<rparr>)"
  let ?st = "the (cst (jb_conn J))"
  have cl: "closing ?st = False" using R(5) by simp
  have cs: "cst_of (cpn p) (c, u) = Inr ?st" if "sv_conns u = sv_conns (snd s)" for c u
    using R(4) that by (simp add: cst_of_def conn_of_def)
  have ver: "str_of (ch_p (pk_ver p)) (fst s, u) = Inr ([''HTTP/1.0'', ''HTTP/1.1''] ! v)" if "sv_bufs u = sv_bufs (snd s)" for u
    using w(7) str_of_same [of "(fst s, u)" s] that by simp
  have pv: "ch_p (pk_ver p) \<noteq> None" using w(7) by (cases "ch_p (pk_ver p)") (simp_all add: str_of_def block_of_def)
  have v: "v = 0 \<or> v = 1" using w(6) by auto
  have f: "svr_http_fetch E (srv_call E) (jb_pk J) (fst s, (snd s)\<lparr>sv_aio := (sv_aio (snd s))\<lparr>aio_queue := []\<rparr>\<rparr>) =
    svr_http_header E (srv_call E) (jb_pk J) ?S"
    using w(1,5) pv R(7) cl ver v by (auto simp: svr_http_fetch_def pkg_of_def cs Let_def store_pkg_def)
  have ub: "sv_bufs (snd s) (jb_block J) = Some (jb_uri J @ [NUL])" "\<forall>b \<in> set (freed_bufs (fst s)). b < sv_next (snd s)"
    using w(3) by (simp_all add: ready_def)
  have uf: "jb_block J \<notin> set (freed_bufs (fst s))" using R(9,10) by (auto simp: owns_def)
  have un: "NUL \<notin> set (jb_uri J)" "take 255 (jb_uri J) = jb_uri J"
    using J by (auto simp: job_ok_def jb_key_def body_text_def MAXKEYS_def)
  have S: "sv_pkgs (snd ?S) (jb_pk J) = Some ?p1" "ch_p (headkey ?p1) = None" "cst_of (cpn ?p1) ?S = Inr ?st" "\<not> closing ?st"
    "ch_p (pk_uri ?p1) = Some (jb_block J)" "sv_bufs (snd ?S) (jb_block J) = Some (jb_uri J @ [NUL])" "jb_block J < sv_next (snd ?S)"
    "\<forall>b \<in> set (freed_bufs (fst ?S)). b < sv_next (snd ?S)" "jb_block J \<notin> set (freed_bufs (fst ?S))"
    using w(4) cs cl R(7,11) ub uf by simp_all
  obtain u K q where u: "svr_http_header E (srv_call E) (jb_pk J) ?S = and_then (get_or_reserve (srv_call E) (jb_uri J) (HeaderWio (jb_pk J)) (fst ?S, u))
      (\<lambda>(hit, s). if hit then Inr (EHTTP_OK, s) else svr_http_header_rio E (srv_call E) (jb_pk J) s)"
    "sv_pkgs u = (sv_pkgs (snd ?S))(jb_pk J \<mapsto> q)"
    "sv_bufs u = (sv_bufs (snd ?S))(sv_next (snd ?S) \<mapsto> K)" "c_str K 0 = Inr (jb_uri J)" "sv_next u = Suc (sv_next (snd ?S))"
    "sv_conns u = sv_conns (snd ?S)" "sv_aio u = sv_aio (snd ?S)" "sv_out u = sv_out (snd ?S)"
    "\<exists>k. q = ?p1\<lparr>hst := HS_FETCHING, wst := Some WS_HEAD, headkey := \<lparr>ch_p = Some (sv_next (snd ?S)), ch_n = k, ch_cached = False\<rparr>\<rparr>"
    using header_start [OF S(1-6) un(1) S(7-9), of E "srv_call E", unfolded un(2)] by blast
  from u(9) obtain k where q: "q = start_pkg p v (sv_next (snd s)) k" by (simp add: start_pkg_def) blast
  have "srv_step E s = Some (drop_code (svr_http_fetch E (srv_call E) (jb_pk J) (fst s, (snd s)\<lparr>sv_aio := (sv_aio (snd s))\<lparr>aio_queue := []\<rparr>\<rparr>)))"
    using w(2) by (simp add: srv_step_def run_task_def)
  then show ?thesis
    unfolding f u(1) using u(2-8) q
    by (intro exI [of _ u] exI [of _ K] exI [of _ k]) (simp add: p_def)
qed

text \<open>What both answers leave: the task of the package is done, its header is on the way.\<close>

definition answered :: "job \<Rightarrow> srv_sys \<Rightarrow> string \<Rightarrow> srv_st \<Rightarrow> bool" where
  "answered J E hdr s \<longleftrightarrow> (\<exists>s' R a. srv_step E s = Some (Inr s') \<and> sv_out (snd s') = sv_out (snd s) \<and> job_ok (J\<lparr>jb_pkg := R\<rparr>) \<and>
     heading (J\<lparr>jb_pkg := R\<rparr>) hdr a s' \<and> ppg R = ppg (jb_pkg J) \<and> nsg R = nsg (jb_pkg J))"

lemma wantedD:
  assumes J: "job_ok J" and W: "wanted J v s" and q_def: "q = start_pkg (jb_pkg J) v (sv_next (snd s)) k"
  shows "hfd q = - 1" "chead q = charn_new" "vern q = v" "v < 2" "ch_p (headkey q) = Some (sv_next (snd s))" "cpn q = cpn (jb_pkg J)"
    "ch_p (pk_uri q) = Some (jb_block J)" "NUL \<notin> set (jb_uri J)" "jb_uri J \<noteq> jb_key J j"
    "\<forall>b \<in> set (freed_bufs (fst s)). b < sv_next (snd s)" "jb_block J \<notin> set (freed_bufs (fst s))"
    "sv_conns (snd s) (cpn (jb_pkg J)) = Some (jb_conn J)" "cst (jb_conn J) = Some (the (cst (jb_conn J)))" "\<not> closing (the (cst (jb_conn J)))"
    "cfd (jb_conn J) = Some (jb_peer J)" "jb_block J < sv_next (snd s)" "sv_bufs (snd s) (jb_block J) = Some (jb_uri J @ [NUL])"
    "sv_bufs (snd s) b \<noteq> None \<Longrightarrow> b < sv_next (snd s)"
proof -
  have w: "ready J 0 (jb_pkg J) s" using W by (simp add: wanted_def)
  note R = readyD [OF J w]
  show "jb_block J \<notin> set (freed_bufs (fst s))" using R(9,10) by (auto simp: owns_def)
  show "cst (jb_conn J) = Some (the (cst (jb_conn J)))" "cfd (jb_conn J) = Some (jb_peer J)" using J by (auto simp: job_ok_def jb_peer_def)
  show "jb_uri J \<noteq> jb_key J j" by (auto simp: jb_key_def body_text_def)
  show "NUL \<notin> set (jb_uri J)" using J by (simp add: job_ok_def)
  show "\<forall>b \<in> set (freed_bufs (fst s)). b < sv_next (snd s)" "sv_bufs (snd s) (jb_block J) = Some (jb_uri J @ [NUL])"
    "sv_bufs (snd s) b \<noteq> None \<Longrightarrow> b < sv_next (snd s)" using w by (simp_all add: ready_def)
  show "sv_conns (snd s) (cpn (jb_pkg J)) = Some (jb_conn J)" "\<not> closing (the (cst (jb_conn J)))" "jb_block J < sv_next (snd s)"
    using R(3,5,11) by simp_all
  show "ch_p (pk_uri q) = Some (jb_block J)" using R(7) by (simp add: q_def start_pkg_def)
  show "hfd q = - 1" "chead q = charn_new" "v < 2" using W by (simp_all add: wanted_def q_def start_pkg_def)
qed (simp_all add: q_def start_pkg_def)

lemma answered_new:
  assumes J: "job_ok J" and W: "wanted J v s" and E: "pending E" "env_open E (jb_uri J) = jb_fd J"
    and h: "reply_header J E v s hdr" and miss: "find_entry (jb_uri J) (fst s) = None"
  shows "answered J E hdr s"
proof -
  obtain w K k where w: "srv_step E s = Some (drop_code (and_then (get_or_reserve (srv_call E) (jb_uri J) (HeaderWio (jb_pk J)) (fst s, w))
      (\<lambda>(hit, s). if hit then Inr (EHTTP_OK, s) else svr_http_header_rio E (srv_call E) (jb_pk J) s)))"
    "sv_pkgs w = (sv_pkgs (snd s))(jb_pk J \<mapsto> start_pkg (jb_pkg J) v (sv_next (snd s)) k)"
    "sv_bufs w = (sv_bufs (snd s))(sv_next (snd s) \<mapsto> K)" "c_str K 0 = Inr (jb_uri J)" "sv_next w = Suc (sv_next (snd s))"
    "sv_conns w = sv_conns (snd s)" "aio_queue (sv_aio w) = []" "sv_out w = sv_out (snd s)"
    using fetch_header [OF J W, of E] by blast
  let ?n = "sv_next (snd s)"
  define q where "q = start_pkg (jb_pkg J) v ?n k"
  note D = wantedD [OF J W q_def]
  have W': "ready J 0 (jb_pkg J) s" "coherent J None (jb_pkg J) s" "ch_p (headkey (jb_pkg J)) = None" "ch_p (chead (jb_pkg J)) = None"
    using W by (simp_all add: wanted_def charn_new_def)
  obtain c e cq where c: "get_or_reserve (srv_call E) (jb_uri J) (HeaderWio (jb_pk J)) (fst s, w) = Inr (False, c, w)" "find_entry (jb_uri J) c = Some e"
    "entries c = (entries (fst s))(e \<mapsto> (CacheEntry_reserved (jb_uri J))\<lparr>ce_queue := [cq]\<rparr>)" "callbacks c cq = Some (HeaderWio (jb_pk J))"
    "cacheMap c = cacheMap (fst s) @ [(jb_uri J, e)]" "next_addr (fst s) \<le> e" "e < next_addr c" "cache_kept (fst s) c"
    using get_or_reserve_miss [of "jb_uri J" "(fst s, w)" "srv_call E" "HeaderWio (jb_pk J)"] miss by auto
  have fb: "freed_bufs c = freed_bufs (fst s)" using c(8) by (simp add: cache_kept_def)
  have wf: "cache_wf (fst s)" using readyD(12) [OF J W'(1)] .
  note wf' = cache_wf_added [OF wf c(5) miss c(6-8)]
  obtain mt where mt: "env_fstat E (jb_fd J) = Some (of_nat (length (jb_file J)), mt)"
    "hdr = header_200 v (env_date E (env_time E)) (env_date E mt) (of_nat (length (jb_file J)))" "length hdr < MAXWH - 1"
    using h miss by (auto simp: reply_header_def)
  have fd: "0 \<le> sint (jb_fd J)" using J by (simp add: job_ok_def)
  have hdr: "page_header E (vern q) (jb_uri J) = hdr" using mt fd D(3) by (simp add: page_header_def E(2) not_less)
  have p: "sv_pkgs w (jb_pk J) = Some q" "vern q < 2" "sv_conns w (cpn q) = Some (jb_conn J)" "sv_bufs w (jb_block J) = Some (jb_uri J @ [NUL])"
    "sv_bufs w ?n = Some K" "?n < sv_next w" "\<forall>b \<in> set (freed_bufs c). b < sv_next w" "jb_block J \<notin> set (freed_bufs c)" "?n \<notin> set (freed_bufs c)"
    "entries c e = Some ((CacheEntry_reserved (jb_uri J))\<lparr>ce_queue := [cq]\<rparr>)"
    "env_fstat E (env_open E (jb_uri J)) \<noteq> None"
    using w c(3) D fb mt E(2) q_def by fastforce+
  obtain c' w' a b R junk where r: "svr_http_header_rio E (srv_call E) (jb_pk J) (c, w) = Inr (EHTTP_OK, c', w')"
    "find_entry (jb_uri J) c' = Some e" "hsn R = Some (if sint (env_open E (jb_uri J)) < 0 then N_404 else N_200)"
    "aio_cbs (sv_aio w') a = Some \<lparr>cb_func = AioWrite, cb_fildes = jb_peer J, cb_buf = Some b, cb_nbytes = of_nat (length hdr), cb_offset = 0, cb_sival_ptr = None\<rparr>"
    "aio_callbacks (sv_aio w') (a - 1) = Some (IOCallback_id (Some (HeaderToBody (jb_pk J))) (Some (FinalAio (jb_pk J))) CacheTaskID)"
    "aio_queue (sv_aio w') = aio_queue (sv_aio w) @ [UnitTask_id (CheckTask a (Some (a - 1))) CacheTaskID]"
    "b = sv_next w" "sv_bufs w' = (sv_bufs w)(b \<mapsto> hdr @ NUL # junk)" "sv_next w' = Suc b" "sv_conns w' = sv_conns w"
    "sv_pkgs w' = (sv_pkgs w)(jb_pk J \<mapsto> R)" "sv_out w' = sv_out w" "cacheMap c' = cacheMap c" "\<exists>d. entries c' = (entries c)(e \<mapsto> d)" "cache_kept c c'"
    "\<exists>n i y z. R = q\<lparr>hst := HS_WRITING, wst := Some WS_HEAD, hfd := env_open E (jb_uri J), hsn := hsn R,
       chead := \<lparr>ch_p = Some b, ch_n = n, ch_cached = True\<rparr>, tr_offset := i, tr_nbytes := y, tr_times := z\<rparr> \<and>
       (0 \<le> sint (env_open E (jb_uri J)) \<longrightarrow> i = 0)"
    using header_rio_new [OF p(1) D(1,2) p(2) D(5) p(3) D(13-15,7) p(4) D(8) p(5) w(4) p(6-9) c(2) p(10) c(4) E(1) p(11), unfolded hdr, OF mt(3)]
    by blast
  have sn: "hsn R = Some N_200" using r(3) fd E(2) by simp
  obtain j y z where Req: "R = q\<lparr>hst := HS_WRITING, wst := Some WS_HEAD, hfd := jb_fd J, hsn := Some N_200,
       chead := \<lparr>ch_p = Some b, ch_n = j, ch_cached = True\<rparr>, tr_offset := 0, tr_nbytes := y, tr_times := z\<rparr>"
    using r(16) fd E(2) unfolding sn by auto
  have R: "R = (jb_pkg J)\<lparr>hst := HS_WRITING, wst := Some WS_HEAD, hsn := Some N_200, vern := v, hfd := jb_fd J,
      headkey := \<lparr>ch_p = Some ?n, ch_n = k, ch_cached = False\<rparr>, chead := \<lparr>ch_p = Some b, ch_n = j, ch_cached = True\<rparr>,
      tr_offset := 0, tr_nbytes := y, tr_times := z\<rparr>"
    unfolding Req q_def start_pkg_def by (cases "jb_pkg J") simp
  note wf'' = cache_wf_kept [OF wf' r(15,13)]
  have f: "find_entry k c' = (if k = jb_uri J then Some e else find_entry k (fst s))" for k
    using find_added [OF c(5) miss] r(13) by (simp add: find_entry_def)
  have N: "b = Suc ?n" "sv_bufs w' = (sv_bufs (snd s))(?n \<mapsto> K, b \<mapsto> hdr @ NUL # junk)" "sv_next w' = Suc (Suc ?n)" "sv_conns w' = sv_conns (snd s)"
    "sv_pkgs w' = (sv_pkgs (snd s))(jb_pk J \<mapsto> R)"
    using r(7-11) w(2,3,5,6) by simp_all
  have ent: "entries c' e' = entries (fst s) e'" if "e' \<noteq> e" for e' using r(14) c(3) that by auto
  have below: "a < sv_next w'" if "sv_bufs w' a \<noteq> None" for a
    using that N(1-3) wantedD(18) [OF J W q_def, of a] by (auto split: if_splits)
  have P: "jb_fd J \<in> {- 1, jb_fd J}" "ch_p \<lparr>ch_p = Some b, ch_n = j, ch_cached = True\<rparr> = None \<or> ch_cached \<lparr>ch_p = Some b, ch_n = j, ch_cached = True\<rparr>"
    "\<And>a. a < ?n \<Longrightarrow> sv_bufs w' a = sv_bufs (snd s) a" "sv_bufs w' ?n \<noteq> None" "?n \<le> sv_next w'" "freed_bufs c' = freed_bufs (fst s)"
    "\<And>k. k \<noteq> jb_uri J \<Longrightarrow> find_entry k c' = find_entry k (fst s)"
    using N(1-3) f fb r(15) by (simp_all add: cache_kept_def)
  note H = header_ready [OF J refl W'(3,4,1,2) R P(1-4) below P(5) N(4,5) P(6) wf'' r(2) wantedD(9) [OF J W q_def] P(7) ent]
  have "b \<notin> set (freed_bufs c')" using D(10) r(15) fb N(1) by (auto simp: cache_kept_def)
  then have "heading (J\<lparr>jb_pkg := R\<rparr>) hdr a (c', w')"
    unfolding heading_def using H(2,3) r(4-6,8,11) sn w(7) mt(3)
    by (intro exI [of _ R] exI [of _ "a - 1"] exI [of _ b] exI [of _ "NUL # junk"]) (simp add: jb_peer_def)
  moreover have "srv_step E s = Some (Inr (c', w'))" unfolding w(1) c(1) using r(1) by (simp add: drop_code_def)
  moreover have "sv_out w' = sv_out (snd s)" "ppg R = ppg (jb_pkg J)" "nsg R = nsg (jb_pkg J)" using r(12) w(8) R by simp_all
  ultimately show ?thesis unfolding answered_def using H(1) by fastforce
qed

lemma answered_again:
  assumes J: "job_ok J" and W: "wanted J v s" and E: "pending E"
    and h: "reply_header J E v s hdr" and hit: "find_entry (jb_uri J) (fst s) = Some e"
  shows "answered J E hdr s"
proof -
  obtain w K k where w: "srv_step E s = Some (drop_code (and_then (get_or_reserve (srv_call E) (jb_uri J) (HeaderWio (jb_pk J)) (fst s, w))
      (\<lambda>(hit, s). if hit then Inr (EHTTP_OK, s) else svr_http_header_rio E (srv_call E) (jb_pk J) s)))"
    "sv_pkgs w = (sv_pkgs (snd s))(jb_pk J \<mapsto> start_pkg (jb_pkg J) v (sv_next (snd s)) k)"
    "sv_bufs w = (sv_bufs (snd s))(sv_next (snd s) \<mapsto> K)" "c_str K 0 = Inr (jb_uri J)" "sv_next w = Suc (sv_next (snd s))"
    "sv_conns w = sv_conns (snd s)" "aio_queue (sv_aio w) = []" "sv_out w = sv_out (snd s)"
    using fetch_header [OF J W, of E] by blast
  let ?n = "sv_next (snd s)"
  define q where "q = start_pkg (jb_pkg J) v ?n k"
  note D = wantedD [OF J W q_def]
  have W': "ready J 0 (jb_pkg J) s" "coherent J None (jb_pkg J) s" "ch_p (headkey (jb_pkg J)) = None" "chead (jb_pkg J) = charn_new"
    "hfd (jb_pkg J) = - 1"
    using W by (simp_all add: wanted_def)
  have W'': "ch_p (chead (jb_pkg J)) = None" by (simp add: W'(4) charn_new_def)
  obtain d b rest v' x y n where d: "entries (fst s) e = Some d" "\<not> ce_isReserved d" "ce_freeListRef d = None" "ce_data d = Some b"
    "b \<notin> set (freed_bufs (fst s))" "sv_bufs (snd s) b = Some (hdr @ rest)" "ce_size d = of_nat (length hdr)"
    "hdr = header_200 v' x y n" "v' < 2" "length hdr < MAXWH"
    using h hit by (auto simp: reply_header_def)
  have b: "b < ?n" "sv_bufs w b = Some (hdr @ rest)" using wantedD(18) [OF J W q_def, of b] d(6) w(3) by auto
  have p: "sv_pkgs w (jb_pk J) = Some q" "sv_conns w (cpn q) = Some (jb_conn J)" "hdr = (if True then header_200 v' x y n else header_404 v')"
    using w(2,6) D(6,12) d(8) by (simp_all add: q_def [symmetric])
  let ?R = "q\<lparr>hst := HS_WRITING, wst := Some WS_HEAD, hsn := Some N_200\<rparr>"
  obtain a A where wio: "\<forall>c. b \<notin> set (freed_bufs c) \<longrightarrow> svr_http_header_wio E (jb_pk J) (CacheData (Some b) (ce_size d) True) (c, w) =
      Inr (EHTTP_OK, c, w\<lparr>sv_pkgs := (sv_pkgs w)(jb_pk J \<mapsto> q\<lparr>hst := HS_WRITING, wst := Some WS_HEAD, hsn := Some (if True then N_200 else N_404)\<rparr>), sv_aio := A\<rparr>)"
    and A: "aio_cbs A a = Some \<lparr>cb_func = AioWrite, cb_fildes = jb_peer J, cb_buf = Some b, cb_nbytes = ce_size d, cb_offset = 0, cb_sival_ptr = None\<rparr>"
    "aio_callbacks A (a - 1) = Some (IOCallback_id (Some (HeaderToBody (jb_pk J))) (Some (FinalAio (jb_pk J))) CacheTaskID)"
    "aio_queue A = aio_queue (sv_aio w) @ [UnitTask_id (CheckTask a (Some (a - 1))) CacheTaskID]"
    using wio_step [OF p(1,2) D(13-15) b(2) E d(9) p(3), of "ce_size d" True] by blast
  let ?w = "w\<lparr>sv_pkgs := (sv_pkgs w)(jb_pk J \<mapsto> ?R), sv_aio := A\<rparr>"
  have call: "srv_call E (HeaderWio (jb_pk J)) (CacheData (ce_data d) (ce_size d) True) (c', w) = Inr (c', ?w)"
    if "freed_bufs c' = freed_bufs (fst s)" for c'
    using wio that d(4,5) by (simp add: srv_call_def numeral_2_eq_2 drop_code_def)
  obtain c where c: "get_or_reserve (srv_call E) (jb_uri J) (HeaderWio (jb_pk J)) (fst s, w) = Inr (True, c, ?w)"
    "entries c = (entries (fst s))(e \<mapsto> d\<lparr>ce_refCount := ce_refCount d + 1\<rparr>)" "cacheMap c = cacheMap (fst s)" "cache_kept (fst s) c"
    using get_or_reserve_hit [OF hit d(1-3), of "srv_call E" "HeaderWio (jb_pk J)" w ?w] call by blast
  note wf = cache_wf_kept [OF readyD(12) [OF J W'(1)] c(4,3)]
  have f: "find_entry k c = find_entry k (fst s)" for k using c(3) by (simp add: find_entry_def)
  have tr: "tr_offset (jb_pkg J) = 0" using W'(1) by (simp add: ready_def pkg_at_def)
  have R: "?R = (jb_pkg J)\<lparr>hst := HS_WRITING, wst := Some WS_HEAD, hsn := Some N_200, vern := v, hfd := - 1,
      headkey := \<lparr>ch_p = Some ?n, ch_n = k, ch_cached = False\<rparr>, chead := charn_new,
      tr_offset := 0, tr_nbytes := tr_nbytes (jb_pkg J), tr_times := tr_times (jb_pkg J)\<rparr>"
    unfolding q_def start_pkg_def using W'(4,5) tr by (cases "jb_pkg J") simp
  have below: "a < sv_next ?w" if "sv_bufs ?w a \<noteq> None" for a
    using that w(3,5) wantedD(18) [OF J W q_def, of a] by (auto split: if_splits)
  have P: "- 1 \<in> {- 1, jb_fd J}" "ch_p charn_new = None \<or> ch_cached charn_new" "\<And>a. a < ?n \<Longrightarrow> sv_bufs ?w a = sv_bufs (snd s) a" "sv_bufs ?w ?n \<noteq> None"
    "?n \<le> sv_next ?w" "sv_conns ?w = sv_conns (snd s)" "sv_pkgs ?w = (sv_pkgs (snd s))(jb_pk J \<mapsto> ?R)"
    "freed_bufs c = freed_bufs (fst s)" "find_entry (jb_uri J) c = Some e" "\<And>k. k \<noteq> jb_uri J \<Longrightarrow> find_entry k c = find_entry k (fst s)"
    "\<And>e'. e' \<noteq> e \<Longrightarrow> entries c e' = entries (fst s) e'"
    using w(2,3,5,6) c(2,4) f hit by (simp_all add: charn_new_def cache_kept_def)
  note H = header_ready [OF J refl W'(3) W'' W'(1,2) R P(1-4) below P(5-8) wf P(9) wantedD(9) [OF J W q_def] P(10,11)]
  have "heading (J\<lparr>jb_pkg := ?R\<rparr>) hdr a (c, ?w)"
    unfolding heading_def using H(2,3) A d(5,7,10) w(7) b(2) P(8)
    by (intro exI [of _ ?R] exI [of _ "a - 1"] exI [of _ b] exI [of _ rest]) (simp add: jb_peer_def)
  moreover have "srv_step E s = Some (Inr (c, ?w))" unfolding w(1) c(1) by (simp add: drop_code_def)
  moreover have "sv_out ?w = sv_out (snd s)" "ppg ?R = ppg (jb_pkg J)" "nsg ?R = nsg (jb_pkg J)" using w(8) R by simp_all
  ultimately show ?thesis unfolding answered_def using H(1) by fastforce
qed

section \<open>Every request has a kernel\<close>

text \<open>The states of a page that is being sent, and a kernel that does as much as it is asked to.\<close>

definition serving :: "job \<Rightarrow> srv_st \<Rightarrow> bool" where
  "serving J s \<longleftrightarrow> headed J s \<or> (\<exists>hdr a. heading J hdr a s) \<or> (\<exists>i. writing J i s) \<or> (\<exists>i. reading J i s) \<or> (\<exists>i. was_read J i s) \<or>
     (\<exists>i m. written J i m s \<and> (m = 0 \<longrightarrow> i = length (jb_file J)))"

lemma headed_here: "headed J s \<Longrightarrow> here J s" by (auto simp: headed_def here_def)

lemma heading_here: "heading J hdr a s \<Longrightarrow> here J s" by (auto simp: heading_def here_def)

lemma serving_here: "serving J s \<Longrightarrow> here J s"
  using is_here headed_here heading_here unfolding serving_def by blast

lemma serving_heading: "heading J hdr a s \<Longrightarrow> serving J s" by (auto simp: serving_def)

lemma serving_step:
  assumes J: "job_ok J" and s: "serving J s" and K: "kernel J E s"
  shows "\<exists>s'. srv_step E s = Some (Inr s') \<and> (serving J s' \<or> sent J s')"
  using s [unfolded serving_def]
proof (elim disjE exE conjE)
  assume "headed J s" from step_start [OF J this K] show ?thesis unfolding serving_def by blast
next
  fix hdr a assume "heading J hdr a s" from step_heading(3) [OF J this K] show ?thesis unfolding serving_def by blast
next
  fix i assume "writing J i s" from step_write [OF J this K] show ?thesis unfolding serving_def by blast
next
  fix i assume "reading J i s" from step_read [OF J this K] show ?thesis unfolding serving_def by blast
next
  fix i assume "was_read J i s" from step_put [OF J this K] show ?thesis unfolding serving_def by blast
next
  fix i m assume w: "written J i m s" "m = 0 \<longrightarrow> i = length (jb_file J)"
  from step_done [OF J w(1) K] w(2) obtain s' where "srv_step E s = Some (Inr s')"
    "if m = 0 then sent J s' else writing J (i + m) s' \<or> reading J (i + m) s'" by blast
  then show ?thesis unfolding serving_def by (cases "m = 0") auto
qed

definition serve_sys :: "string \<Rightarrow> srv_sys \<Rightarrow> srv_st \<Rightarrow> srv_sys" where
  "serve_sys F B s =
     (case map ut_task (aio_queue (sv_aio (snd s))) of
        CheckTask a q # _ \<Rightarrow>
          (case aio_cbs (sv_aio (snd s)) a of
             None \<Rightarrow> B
           | Some cb \<Rightarrow>
               let d = take (unat (cb_nbytes cb)) (drop (unat (cb_offset cb)) F)
               in B\<lparr>env_data := \<lambda>_. d, env_aio := (env_aio B)\<lparr>sys_error := \<lambda>_. 0,
                    sys_return := \<lambda>_. case cb_func cb of AioRead \<Rightarrow> of_nat (length d) | AioWrite \<Rightarrow> cb_nbytes cb\<rparr>\<rparr>)
      | _ \<Rightarrow> B)"

fun serve_run :: "string \<Rightarrow> srv_sys \<Rightarrow> srv_st \<Rightarrow> nat \<Rightarrow> srv_sys" where
  "serve_run F B s 0 = serve_sys F B s"
| "serve_run F B s (Suc n) = serve_run F B (case srv_step (serve_sys F B s) s of Some (Inr s') \<Rightarrow> s' | _ \<Rightarrow> s) n"

lemma serve_check:
  assumes q: "aio_queue (sv_aio (snd s)) = [UnitTask_id (CheckTask a x) i]" "aio_cbs (sv_aio (snd s)) a = Some cb"
    and r: "cb_func cb = AioRead \<Longrightarrow> unat (cb_offset cb) \<le> length (jb_file J) \<and> cb_nbytes cb \<noteq> 0"
  shows "kernel J (serve_sys (jb_file J) B s) s"
proof -
  let ?d = "take (unat (cb_nbytes cb)) (drop (unat (cb_offset cb)) (jb_file J))"
  have "length ?d \<le> unat (cb_nbytes cb)" by simp
  moreover have "unat (cb_nbytes cb) < 2 ^ 64" using unsigned_less [of "cb_nbytes cb"] by simp
  ultimately have l: "unat (of_nat (length ?d) :: 64 word) = length ?d" "length ?d \<le> unat (cb_nbytes cb)"
    by (simp_all add: unat_of_nat del: length_take length_drop)
  have "piece (jb_file J) (unat (cb_offset cb)) (length ?d) ?d" if "cb_func cb = AioRead"
    using r [OF that] by (auto simp: piece_def min_def unat_eq_0 split: if_splits)
  then show ?thesis
    using q l by (cases "cb_func cb") (simp_all add: kernel_def serve_sys_def UnitTask_id_def Let_def del: length_take length_drop)
qed

lemma serve_run_task:
  assumes "aio_queue (sv_aio (snd s)) = [UnitTask_id t i]" "\<And>a q. t \<noteq> CheckTask a q"
  shows "serve_sys F B s = B" "pending B \<Longrightarrow> env_open B (jb_uri J) = jb_fd J \<Longrightarrow> kernel J B s"
  using assms by (auto simp: serve_sys_def kernel_def UnitTask_id_def split: task.splits)

lemma serving_kernel:
  assumes J: "job_ok J" and s: "serving J s" and B: "pending B" "env_open B (jb_uri J) = jb_fd J"
  shows "kernel J (serve_sys (jb_file J) B s) s"
  using s unfolding serving_def
proof (elim disjE exE conjE)
  assume "headed J s"
  then show ?thesis by (auto simp: headed_def serve_run_task [of s "OkTask a b c d" for a b c d] B)
next
  fix hdr a assume "heading J hdr a s"
  then show ?thesis by (auto simp: heading_def intro!: serve_check)
next
  fix i assume "writing J i s"
  then show ?thesis by (auto simp: writing_def intro!: serve_check)
next
  fix i assume r: "reading J i s"
  then have "i \<le> length (jb_file J)" by (auto simp: reading_def body_read_def ready_def)
  then show ?thesis using r off_eq [OF J, of i] by (auto simp: reading_def MAXWB_def intro!: serve_check)
next
  fix i assume "was_read J i s"
  then show ?thesis by (auto simp: was_read_def serve_run_task [of s "OkTask a b c d" for a b c d] B)
next
  fix i m assume "written J i m s"
  then show ?thesis by (auto simp: written_def serve_run_task [of s "OkTask a b c d" for a b c d] B)
qed

lemma kernels_run:
  assumes J: "job_ok J" and B: "pending B" "env_open B (jb_uri J) = jb_fd J" and s: "serving J s"
  shows "kernels J (serve_run (jb_file J) B s) s"
proof -
  have "Es = serve_run (jb_file J) B t \<and> (serving J t \<or> \<not> here J t) \<Longrightarrow> kernels J Es t" for Es t
  proof (coinduction arbitrary: Es t)
    case kernels
    show ?case
    proof (cases "here J t")
      case True
      then have t: "serving J t" "Es = serve_run (jb_file J) B t" using kernels by blast+
      have k: "kernel J (Es 0) t" using serving_kernel [OF J t(1) B] by (simp add: t(2))
      have "(\<lambda>k. Es (Suc k)) = serve_run (jb_file J) B u \<and> (serving J u \<or> \<not> here J u)" if "srv_step (Es 0) t = Some (Inr u)" for u
        using serving_step [OF J t(1) k] that by (auto simp: sent_def here_def t(2))
      then show ?thesis using k by blast
    qed simp
  qed
  then show ?thesis using s by blast
qed

lemma kernels_same:
  assumes "jb_file J' = jb_file J" "jb_uri J' = jb_uri J" "jb_fd J' = jb_fd J" "jb_pk J' = jb_pk J" "kernels J Es s"
  shows "kernels J' Es s"
proof -
  have k: "kernel J' = kernel J" by (intro ext) (unfold kernel_def assms(1-3), rule refl)
  have h: "here J' = here J" by (intro ext) (simp add: here_def assms(4))
  show ?thesis using assms(5)
  proof (coinduction arbitrary: Es s)
    case kernels
    then show ?case unfolding k h by (cases rule: kernelsE) auto
  qed
qed

text \<open>The task of a request, and what it leaves for a kernel that may answer as it likes.\<close>

lemma wanted_step:
  assumes J: "job_ok J" and W: "wanted J v s" and h: "reply_header J E v s hdr" and K: "kernel J E s"
  shows "\<exists>t R a. srv_step E s = Some (Inr t) \<and> sv_out (snd t) = sv_out (snd s) \<and> job_ok (J\<lparr>jb_pkg := R\<rparr>) \<and>
    heading (J\<lparr>jb_pkg := R\<rparr>) hdr a t \<and> ppg R = ppg (jb_pkg J) \<and> nsg R = nsg (jb_pkg J)"
proof -
  have q: "aio_queue (sv_aio (snd s)) = [UnitTask_id (ClientTask (FetchTask (jb_pk J))) CacheTaskID]" using W by (simp add: wanted_def)
  have E: "pending E" "env_open E (jb_uri J) = jb_fd J" using kernel_run [OF K q] by blast+
  have "answered J E hdr s"
    using answered_new [OF J W E h] answered_again [OF J W E(1) h] by (cases "find_entry (jb_uri J) (fst s)") blast+
  then show ?thesis by (simp add: answered_def)
qed

lemma wanted_kernels:
  assumes J: "job_ok J" and W: "wanted J v s" and h: "reply_header J B v s hdr" and B: "pending B" "env_open B (jb_uri J) = jb_fd J"
  shows "kernels J (serve_run (jb_file J) B s) s" "serve_run (jb_file J) B s 0 = B"
proof -
  have q: "aio_queue (sv_aio (snd s)) = [UnitTask_id (ClientTask (FetchTask (jb_pk J))) CacheTaskID]" using W by (simp add: wanted_def)
  have k: "serve_sys F B s = B" "kernel J B s" for F using serve_run_task [OF q] B by blast+
  show "serve_run (jb_file J) B s 0 = B" using k by simp
  show "kernels J (serve_run (jb_file J) B s) s"
  proof (rule kernels.more)
    fix t assume t: "srv_step (serve_run (jb_file J) B s 0) s = Some (Inr t)"
    obtain R a where R: "job_ok (J\<lparr>jb_pkg := R\<rparr>)" "heading (J\<lparr>jb_pkg := R\<rparr>) hdr a t" using wanted_step [OF J W h k(2)] t k by auto
    have "kernels (J\<lparr>jb_pkg := R\<rparr>) (serve_run (jb_file J) B t) t"
      using kernels_run [OF R(1), of B t] B serving_heading [OF R(2)] by simp
    then have "kernels J (serve_run (jb_file J) B t) t" by (rule kernels_same [rotated 4]) simp_all
    then show "kernels J (\<lambda>n. serve_run (jb_file J) B s (Suc n)) t" using t k(1) by simp
  qed (use k in simp)
qed

section \<open>A page\<close>

text \<open>
  C34: A GET of a file by a client that is alone: whatever lengths the kernel reads and writes, the
  server runs without a fault to the state \<open>sent\<close>, and what it has written to the peer is the
  header, as far as the kernel took it, and then the whole file. The header states the length of
  the file when it is new. Blocks come from the cache or are put there; at the end every block of
  the file that the cache holds is still referenced and on no free list, so it is never evicted.
\<close>

theorem page_is_sent:
  assumes J: "job_ok J" and W: "wanted J v s" and h: "reply_header J (Es 0) v s hdr" and K: "kernels J Es s"
  shows "\<exists>a m. m = unat (sys_return (env_aio (Es 1)) a) \<and> 0 < m \<and> m \<le> length hdr \<and> sends J Es s (take m hdr @ jb_file J)"
proof -
  have hs: "here J s" using W by (simp add: wanted_def here_def)
  obtain t R a where t: "srv_step (Es 0) s = Some (Inr t)" "sv_out (snd t) = sv_out (snd s)" "job_ok (J\<lparr>jb_pkg := R\<rparr>)"
    "heading (J\<lparr>jb_pkg := R\<rparr>) hdr a t" "ppg R = ppg (jb_pkg J)" "nsg R = nsg (jb_pkg J)"
    using wanted_step [OF J W h kernels_now [OF K hs]] by blast
  have K': "kernels (J\<lparr>jb_pkg := R\<rparr>) (\<lambda>k. Es (Suc k)) t" by (rule kernels_same [OF _ _ _ _ kernels_later [OF K hs t(1)]]) simp_all
  have ht: "here (J\<lparr>jb_pkg := R\<rparr>) t" using t(4) by (auto simp: heading_def here_def)
  let ?m = "unat (sys_return (env_aio (Es 1)) a)"
  have "hdr \<noteq> []" using h by (auto simp: reply_header_def header_200_def CRLF_def split: option.splits)
  then have m: "0 < ?m" "?m \<le> length hdr"
    using step_heading(1,2) [OF t(3,4) kernels_now [of "J\<lparr>jb_pkg := R\<rparr>" "\<lambda>k. Es (Suc k)" t, OF K' ht]] by auto
  note rest = sends_heading [OF t(3,4) K']
  have new: "ppg (jb_pkg (J\<lparr>jb_pkg := R\<rparr>)) = ppg (jb_pkg J)" "nsg (jb_pkg (J\<lparr>jb_pkg := R\<rparr>)) = nsg (jb_pkg J)"
    "jb_pk (J\<lparr>jb_pkg := R\<rparr>) = jb_pk J" "jb_conn (J\<lparr>jb_pkg := R\<rparr>) = jb_conn J" "jb_file (J\<lparr>jb_pkg := R\<rparr>) = jb_file J"
    "jb_uri (J\<lparr>jb_pkg := R\<rparr>) = jb_uri J" using t(5,6) by simp_all
  have "sends J (\<lambda>k. Es (Suc k)) t (take ?m hdr @ jb_file J)"
    using rest unfolding sends_def sent_def jb_peer_def jb_key_def new One_nat_def .
  then show ?thesis using sends_quietly [of Es s t J, OF t(1,2)] m by blast
qed

definition abc_pkg :: hpkg where
  "abc_pkg = (HPKG 1)\<lparr>pk_uri := \<lparr>ch_p = Some 6, ch_n = 1, ch_cached = False\<rparr>, pk_met := \<lparr>ch_p = Some 7, ch_n = 3, ch_cached = False\<rparr>,
     pk_ver := \<lparr>ch_p = Some 8, ch_n = 8, ch_cached = False\<rparr>, ppg := Some 3\<rparr>"

definition abc_job :: job where
  "abc_job = \<lparr>jb_uri = ''a'', jb_file = ''abc'', jb_fd = 9, jb_pk = 2, jb_pkg = abc_pkg, jb_parent = HPKG 1, jb_conn = sample_peer\<rparr>"

definition abc_state :: srv_st where
  "abc_state = (Cache_new MAXCSIZE,
     (sample [2 \<mapsto> abc_pkg, 3 \<mapsto> HPKG 1] [6 \<mapsto> ''a'' @ [NUL], 7 \<mapsto> ''GET'' @ [NUL], 8 \<mapsto> ''HTTP/1.1'' @ [NUL]])
       \<lparr>sv_aio := aio_new\<lparr>aio_queue := [UnitTask_id (ClientTask (FetchTask 2)) CacheTaskID]\<rparr>\<rparr>)"

lemma abc_ok: "job_ok abc_job"
proof -
  have "length (jb_key abc_job i) < MAXKEYS" if "i \<le> 3" for i
  proof -
    have "i = 0 \<or> i = 1 \<or> i = 2 \<or> i = 3" using that by auto
    then show ?thesis by (auto simp: jb_key_def abc_job_def body_text_def decimal.simps [of 0] decimal.simps [of 1] decimal.simps [of "Suc 0"] decimal.simps [of 2] decimal.simps [of 3] MAXKEYS_def)
  qed
  then show ?thesis
    by (auto simp: job_ok_def abc_job_def sample_peer_def closing_def abc_pkg_def HPKG_def NUL_def)
qed

lemma abc_wanted: "wanted abc_job 1 abc_state"
  using c_str_split [of 0 "''HTTP/1.1'' @ [NUL]" "''HTTP/1.1''" "[]"]
  by (auto simp: wanted_def ready_def coherent_def pkg_at_def abc_job_def abc_state_def abc_pkg_def HPKG_def sample_def Cache_new_def find_entry_def
      cache_wf_def owns_def owned_def blocks_of_def charn_new_def jb_block_def str_of_def block_of_def NUL_def MAXCSIZE_def)

theorem page_is_sent_witness: "\<exists>a m. m = unat (sys_return (env_aio (serve_run ''abc'' idle_sys abc_state 1)) a) \<and> 0 < m \<and>
    m \<le> length (header_200 1 ''day'' ''day'' 3) \<and>
    sends abc_job (serve_run ''abc'' idle_sys abc_state) abc_state (take m (header_200 1 ''day'' ''day'' 3) @ ''abc'')"
proof -
  let ?Es = "serve_run ''abc'' idle_sys abc_state"
  have E: "pending idle_sys" "env_open idle_sys (jb_uri abc_job) = jb_fd abc_job" using idle_pending by (simp_all add: idle_sys_def abc_job_def)
  have h: "reply_header abc_job idle_sys 1 abc_state (header_200 1 ''day'' ''day'' 3)"
    by (simp add: reply_header_def abc_state_def abc_job_def Cache_new_def find_entry_def idle_sys_def header_200_def sline_200_def websvrd_def
        CRLF_def decimal.simps [of 3] MAXWH_def)
  have F: "jb_file abc_job = ''abc''" by (simp add: abc_job_def)
  note K = wanted_kernels [OF abc_ok abc_wanted h E, unfolded F]
  show ?thesis
    using page_is_sent [OF abc_ok abc_wanted, of ?Es "header_200 1 ''day'' ''day'' 3", unfolded K(2) F, OF h K(1)] by simp
qed

end
