(* ===== verification/EventDisp.thy ===== *)
theory EventDisp
  imports UnitTask
begin

text \<open>
  \<open>EventDispatcher\<close> of \<open>lib/inc/event_dispatcher.h\<close> and \<open>lib/event_dispatcher.cc\<close> as a
  transition system of threads that interleave at every lock, unlock, condition-variable
  operation and access of shared state. \<open>ed_loop\<close> is the program counter of \<open>eventLoop\<close> on its
  own thread; \<open>ed_calls t\<close> is where thread \<open>t\<close> is inside a member function. A task that runs on
  the loop's thread may call the dispatcher again, so that thread has both.

  Mutexes have an owner; \<open>timedWait\<close> releases the mutex and may end at any time (its timeout,
  a spurious wakeup) or by \<open>signal\<close>. A step that is blocked is \<open>None\<close>; a step that uses a dead
  task or the front of an empty queue is a fault. The fields after \<open>ed_heap\<close> are the history of
  the run and are read by no step.
\<close>

type_synonym tid = nat

section \<open>Mutexes\<close>

text \<open>The three mutexes in the order in which the comment in the source says to lock them.\<close>

datatype mutex = QueueMutex | TaskCountMutex | StoppedMutex

fun mutex_rank :: "mutex \<Rightarrow> nat" where
  "mutex_rank QueueMutex = 0"
| "mutex_rank TaskCountMutex = 1"
| "mutex_rank StoppedMutex = 2"

lemma mutex_rank_inj: "mutex_rank m = mutex_rank m' \<Longrightarrow> m = m'"
  by (cases m; cases m') simp_all

instantiation mutex :: linorder
begin

definition less_eq_mutex :: "mutex \<Rightarrow> mutex \<Rightarrow> bool" where
  "less_eq_mutex m m' \<longleftrightarrow> mutex_rank m \<le> mutex_rank m'"

definition less_mutex :: "mutex \<Rightarrow> mutex \<Rightarrow> bool" where
  "less_mutex m m' \<longleftrightarrow> mutex_rank m < mutex_rank m'"

instance
  by standard (auto simp: less_eq_mutex_def less_mutex_def dest: mutex_rank_inj)

end

section \<open>State\<close>

text \<open>Where the event loop is; the argument is \<open>nextTask\<close>.\<close>

datatype loop_pc =
    L_Lock | L_While | L_Wait | L_Relock | L_If | L_Leave | L_Front
  | L_Unlock addr | L_RunTest addr | L_Exec addr
  | L_Lock2 addr | L_Pop addr | L_LockC addr | L_Dec addr | L_UnlockC addr | L_Unlock2 addr
  | L_Delete addr | L_Returned

text \<open>
  Where a thread is inside a member function: \<open>E\<close> enqueueTask, \<open>S\<close> stop, \<open>R\<close> resume, \<open>B\<close> busy,
  \<open>P\<close> pendingTasks, \<open>D\<close> the destructor.
\<close>

datatype call_pc =
    Idle
  | E_Lock "addr option" | E_Test "addr option" | E_Push addr | E_LockC addr | E_Inc addr
  | E_UnlockC | E_Signal | E_Discard addr | E_Unlock
  | S_Lock | S_Set | S_Unlock
  | R_Lock | R_Test | R_Unlock
  | B_Lock | B_Read | B_Unlock bool
  | P_Lock | P_Read | P_Unlock size_t
  | D_Lock | D_SetStopped | D_SetDying | D_Unlock | D_Join

datatype ret = RVoid | RBool bool | RSize size_t

record 'a ed =
  ed_thread :: tid
  ed_queue :: "addr list"
  ed_isExecuting :: bool
  ed_taskCount :: task_count_map
  ed_isStopped :: bool
  ed_isDying :: bool
  ed_owner :: "mutex \<Rightarrow> tid option"
  ed_loop :: loop_pc
  ed_calls :: "tid \<Rightarrow> call_pc"
  ed_ret :: "tid \<Rightarrow> ret option"
  ed_heap :: "addr \<rightharpoonup> 'a unit_task"
  ed_next :: addr
  ed_dtor :: bool
  ed_accepted :: "addr list"
  ed_popped :: "addr list"
  ed_ran :: "addr list"
  ed_deleted :: "addr list"
  ed_tasks :: "addr \<rightharpoonup> 'a unit_task"

text \<open>The constructor: \<open>eventLoopThread_\<close> is the new thread \<open>t\<close>, at the start of its loop.\<close>

definition ed_new :: "tid \<Rightarrow> 'a ed" where
  "ed_new t =
     \<lparr>ed_thread = t, ed_queue = [], ed_isExecuting = False, ed_taskCount = [],
      ed_isStopped = False, ed_isDying = False, ed_owner = (\<lambda>_. None), ed_loop = L_Lock,
      ed_calls = (\<lambda>_. Idle), ed_ret = (\<lambda>_. None), ed_heap = Map.empty, ed_next = 0,
      ed_dtor = False, ed_accepted = [], ed_popped = [], ed_ran = [], ed_deleted = [],
      ed_tasks = Map.empty\<rparr>"

section \<open>Primitives\<close>

type_synonym 'a outcome = "(fault + 'a ed) option"

definition blocked :: "'a outcome" where "blocked = None"
definition ok_step :: "'a ed \<Rightarrow> 'a outcome" where "ok_step s = Some (Inr s)"
definition bad_step :: "fault \<Rightarrow> 'a outcome" where "bad_step f = Some (Inl f)"

definition acquire :: "mutex \<Rightarrow> tid \<Rightarrow> 'a ed \<Rightarrow> 'a outcome" where
  "acquire m t s =
     (if ed_owner s m = None then ok_step (s\<lparr>ed_owner := (ed_owner s)(m := Some t)\<rparr>) else blocked)"

definition release :: "mutex \<Rightarrow> 'a ed \<Rightarrow> 'a ed" where
  "release m s = s\<lparr>ed_owner := (ed_owner s)(m := None)\<rparr>"

definition goto :: "tid \<Rightarrow> call_pc \<Rightarrow> 'a ed \<Rightarrow> 'a ed" where
  "goto t pc s = s\<lparr>ed_calls := (ed_calls s)(t := pc)\<rparr>"

definition return :: "tid \<Rightarrow> ret \<Rightarrow> 'a ed \<Rightarrow> 'a ed" where
  "return t r s = s\<lparr>ed_calls := (ed_calls s)(t := Idle), ed_ret := (ed_ret s)(t := Some r)\<rparr>"

definition loop_to :: "loop_pc \<Rightarrow> 'a ed \<Rightarrow> 'a ed" where
  "loop_to pc s = s\<lparr>ed_loop := pc\<rparr>"

text \<open>\<open>delete task\<close>, and \<open>taskCount_[task->id]\<close> changed by \<open>f\<close>.\<close>

definition delete_task :: "addr \<Rightarrow> 'a ed \<Rightarrow> 'a outcome" where
  "delete_task p s =
     (case ed_heap s p of
        None \<Rightarrow> bad_step DoubleFree
      | Some _ \<Rightarrow> ok_step (s\<lparr>ed_heap := (ed_heap s)(p := None), ed_deleted := ed_deleted s @ [p]\<rparr>))"

definition count_task :: "(size_t \<Rightarrow> size_t) \<Rightarrow> addr \<Rightarrow> 'a ed \<Rightarrow> 'a outcome" where
  "count_task f p s =
     (case ed_heap s p of
        None \<Rightarrow> bad_step UseAfterFree
      | Some ut \<Rightarrow> ok_step (s\<lparr>ed_taskCount := tc_update (ut_id ut) f (ed_taskCount s)\<rparr>))"

definition after :: "'a outcome \<Rightarrow> ('a ed \<Rightarrow> 'a ed) \<Rightarrow> 'a outcome" where
  "after x k = (case x of None \<Rightarrow> None | Some (Inl f) \<Rightarrow> Some (Inl f) | Some (Inr s) \<Rightarrow> Some (Inr (k s)))"

section \<open>The event loop\<close>

definition loop_step :: "'a ed \<Rightarrow> 'a outcome" where
  "loop_step s =
     (case ed_loop s of
        L_Lock \<Rightarrow> after (acquire QueueMutex (ed_thread s) s) (loop_to L_While)
      | L_While \<Rightarrow>
          if ed_queue s = [] \<and> \<not> ed_isDying s
          then ok_step (loop_to L_Wait (release QueueMutex s))
          else ok_step (loop_to L_If s)
      | L_Wait \<Rightarrow> ok_step (loop_to L_Relock s)
      | L_Relock \<Rightarrow> after (acquire QueueMutex (ed_thread s) s) (loop_to L_While)
      | L_If \<Rightarrow> ok_step (loop_to (if ed_isDying s \<and> ed_queue s = [] then L_Leave else L_Front) s)
      | L_Leave \<Rightarrow> ok_step (loop_to L_Returned (release QueueMutex s))
      | L_Front \<Rightarrow>
          (case ed_queue s of
             [] \<Rightarrow> bad_step OutOfRange
           | nextTask # _ \<Rightarrow> ok_step (loop_to (L_Unlock nextTask) (s\<lparr>ed_isExecuting := True\<rparr>)))
      | L_Unlock nextTask \<Rightarrow> ok_step (loop_to (L_RunTest nextTask) (release QueueMutex s))
      | L_RunTest nextTask \<Rightarrow>
          if \<not> ed_isDying s then
            (case ed_heap s nextTask of
               None \<Rightarrow> bad_step UseAfterFree
             | Some _ \<Rightarrow> ok_step (loop_to (L_Exec nextTask) (s\<lparr>ed_ran := ed_ran s @ [nextTask]\<rparr>)))
          else ok_step (loop_to (L_Lock2 nextTask) s)
      | L_Exec nextTask \<Rightarrow>
          if ed_calls s (ed_thread s) = Idle then ok_step (loop_to (L_Lock2 nextTask) s) else blocked
      | L_Lock2 nextTask \<Rightarrow> after (acquire QueueMutex (ed_thread s) s) (loop_to (L_Pop nextTask))
      | L_Pop nextTask \<Rightarrow>
          (case ed_queue s of
             [] \<Rightarrow> bad_step OutOfRange
           | p # queue \<Rightarrow> ok_step (loop_to (L_LockC nextTask)
               (s\<lparr>ed_queue := queue, ed_isExecuting := False, ed_popped := ed_popped s @ [p]\<rparr>)))
      | L_LockC nextTask \<Rightarrow> after (acquire TaskCountMutex (ed_thread s) s) (loop_to (L_Dec nextTask))
      | L_Dec nextTask \<Rightarrow> after (count_task (\<lambda>n. n - 1) nextTask s) (loop_to (L_UnlockC nextTask))
      | L_UnlockC nextTask \<Rightarrow> ok_step (loop_to (L_Unlock2 nextTask) (release TaskCountMutex s))
      | L_Unlock2 nextTask \<Rightarrow> ok_step (loop_to (L_Delete nextTask) (release QueueMutex s))
      | L_Delete nextTask \<Rightarrow> after (delete_task nextTask s) (loop_to L_Lock)
      | L_Returned \<Rightarrow> blocked)"

section \<open>Member functions\<close>

definition enqueue_step :: "tid \<Rightarrow> 'a ed \<Rightarrow> 'a outcome" where
  "enqueue_step t s =
     (case ed_calls s t of
        E_Lock newTask \<Rightarrow> after (acquire QueueMutex t s) (goto t (E_Test newTask))
      | E_Test newTask \<Rightarrow>
          ok_step (goto t (case newTask of
                             None \<Rightarrow> E_Unlock
                           | Some p \<Rightarrow> if \<not> ed_isStopped s then E_Push p else E_Discard p) s)
      | E_Push p \<Rightarrow> ok_step (goto t (E_LockC p) (s\<lparr>ed_queue := ed_queue s @ [p], ed_accepted := ed_accepted s @ [p]\<rparr>))
      | E_LockC p \<Rightarrow> after (acquire TaskCountMutex t s) (goto t (E_Inc p))
      | E_Inc p \<Rightarrow> after (count_task (\<lambda>n. n + 1) p s) (goto t E_UnlockC)
      | E_UnlockC \<Rightarrow> ok_step (goto t E_Signal (release TaskCountMutex s))
      | E_Signal \<Rightarrow> ok_step (goto t E_Unlock (if ed_loop s = L_Wait then loop_to L_Relock s else s))
      | E_Discard p \<Rightarrow> after (delete_task p s) (goto t E_Unlock)
      | E_Unlock \<Rightarrow> ok_step (return t (RBool True) (release QueueMutex s))
      | _ \<Rightarrow> blocked)"

definition stop_step :: "tid \<Rightarrow> 'a ed \<Rightarrow> 'a outcome" where
  "stop_step t s =
     (case ed_calls s t of
        S_Lock \<Rightarrow> after (acquire StoppedMutex t s) (goto t S_Set)
      | S_Set \<Rightarrow> ok_step (goto t S_Unlock (s\<lparr>ed_isStopped := True\<rparr>))
      | S_Unlock \<Rightarrow> ok_step (return t RVoid (release StoppedMutex s))
      | _ \<Rightarrow> blocked)"

definition resume_step :: "tid \<Rightarrow> 'a ed \<Rightarrow> 'a outcome" where
  "resume_step t s =
     (case ed_calls s t of
        R_Lock \<Rightarrow> after (acquire StoppedMutex t s) (goto t R_Test)
      | R_Test \<Rightarrow> ok_step (goto t R_Unlock (if \<not> ed_isDying s then s\<lparr>ed_isStopped := False\<rparr> else s))
      | R_Unlock \<Rightarrow> ok_step (return t RVoid (release StoppedMutex s))
      | _ \<Rightarrow> blocked)"

definition busy_step :: "tid \<Rightarrow> 'a ed \<Rightarrow> 'a outcome" where
  "busy_step t s =
     (case ed_calls s t of
        B_Lock \<Rightarrow> after (acquire QueueMutex t s) (goto t B_Read)
      | B_Read \<Rightarrow> ok_step (goto t (B_Unlock (ed_queue s \<noteq> [])) s)
      | B_Unlock b \<Rightarrow> ok_step (return t (RBool b) (release QueueMutex s))
      | _ \<Rightarrow> blocked)"

text \<open>\<open>pendingTasks\<close>, and \<open>getSize\<close>, which returns it for every id.\<close>

definition pending_step :: "tid \<Rightarrow> 'a ed \<Rightarrow> 'a outcome" where
  "pending_step t s =
     (case ed_calls s t of
        P_Lock \<Rightarrow> after (acquire TaskCountMutex t s) (goto t P_Read)
      | P_Read \<Rightarrow> ok_step (goto t (P_Unlock (tc_sum (ed_taskCount s))) s)
      | P_Unlock n \<Rightarrow> ok_step (return t (RSize n) (release TaskCountMutex s))
      | _ \<Rightarrow> blocked)"

text \<open>
  The destructor; \<open>pthread_join\<close> waits for the loop to return. What ends here is the body of
  \<open>~EventDispatcher\<close>. That nobody uses the object and its mutexes afterwards is up to its owner
  (of this code, \<open>MPEventDispatcher\<close>, whose destructor does not see to it: \<open>MPEventDisp\<close> has
  the deletion of the memory and the faults of later uses).
\<close>

definition dtor_step :: "tid \<Rightarrow> 'a ed \<Rightarrow> 'a outcome" where
  "dtor_step t s =
     (case ed_calls s t of
        D_Lock \<Rightarrow> after (acquire StoppedMutex t s) (goto t D_SetStopped)
      | D_SetStopped \<Rightarrow> ok_step (goto t D_SetDying (s\<lparr>ed_isStopped := True\<rparr>))
      | D_SetDying \<Rightarrow> ok_step (goto t D_Unlock (s\<lparr>ed_isDying := True\<rparr>))
      | D_Unlock \<Rightarrow> ok_step (goto t D_Join (release StoppedMutex s))
      | D_Join \<Rightarrow> if ed_loop s = L_Returned then ok_step (return t RVoid s) else blocked
      | _ \<Rightarrow> blocked)"

definition call_step :: "tid \<Rightarrow> 'a ed \<Rightarrow> 'a outcome" where
  "call_step t s =
     (case ed_calls s t of
        Idle \<Rightarrow> blocked
      | S_Lock \<Rightarrow> stop_step t s | S_Set \<Rightarrow> stop_step t s | S_Unlock \<Rightarrow> stop_step t s
      | R_Lock \<Rightarrow> resume_step t s | R_Test \<Rightarrow> resume_step t s | R_Unlock \<Rightarrow> resume_step t s
      | B_Lock \<Rightarrow> busy_step t s | B_Read \<Rightarrow> busy_step t s | B_Unlock b \<Rightarrow> busy_step t s
      | P_Lock \<Rightarrow> pending_step t s | P_Read \<Rightarrow> pending_step t s | P_Unlock n \<Rightarrow> pending_step t s
      | D_Lock \<Rightarrow> dtor_step t s | D_SetStopped \<Rightarrow> dtor_step t s | D_SetDying \<Rightarrow> dtor_step t s
      | D_Unlock \<Rightarrow> dtor_step t s | D_Join \<Rightarrow> dtor_step t s
      | _ \<Rightarrow> enqueue_step t s)"

section \<open>Clients\<close>

text \<open>
  A call of a member function. \<open>Enqueue (Some ut)\<close> passes a task that the caller just
  allocated, whose ownership goes to the dispatcher; \<open>Enqueue None\<close> passes a null pointer. The
  loop's own thread calls only from inside a task, and not the destructor; the destructor is
  called once.
\<close>

datatype 'a ed_call = Enqueue "'a unit_task option" | Stop | Resume | Busy | Pending | Destroy

definition start_call :: "tid \<Rightarrow> 'a ed_call \<Rightarrow> 'a ed \<Rightarrow> 'a ed option" where
  "start_call t c s =
     (if ed_calls s t = Idle \<and> (t = ed_thread s \<longrightarrow> (\<exists>p. ed_loop s = L_Exec p) \<and> c \<noteq> Destroy)
         \<and> (c = Destroy \<longrightarrow> \<not> ed_dtor s)
      then Some (case c of
          Enqueue None \<Rightarrow> goto t (E_Lock None) s
        | Enqueue (Some ut) \<Rightarrow>
            goto t (E_Lock (Some (ed_next s)))
              (s\<lparr>ed_heap := (ed_heap s)(ed_next s \<mapsto> ut), ed_next := Suc (ed_next s),
                 ed_tasks := (ed_tasks s)(ed_next s \<mapsto> ut)\<rparr>)
        | Stop \<Rightarrow> goto t S_Lock s
        | Resume \<Rightarrow> goto t R_Lock s
        | Busy \<Rightarrow> goto t B_Lock s
        | Pending \<Rightarrow> goto t P_Lock s
        | Destroy \<Rightarrow> goto t D_Lock (s\<lparr>ed_dtor := True\<rparr>))
      else None)"

inductive ed_step :: "'a ed \<Rightarrow> fault + 'a ed \<Rightarrow> bool" where
  Start: "start_call t c s = Some s' \<Longrightarrow> ed_step s (Inr s')"
| Call: "call_step t s = Some r \<Longrightarrow> ed_step s r"
| Loop: "loop_step s = Some r \<Longrightarrow> ed_step s r"

inductive_cases ed_stepE: "ed_step s r"

inductive ed_reach :: "tid \<Rightarrow> 'a ed \<Rightarrow> bool" for t0 where
  init: "ed_reach t0 (ed_new t0)"
| step: "ed_reach t0 s \<Longrightarrow> ed_step s (Inr s') \<Longrightarrow> ed_reach t0 s'"

end
