(* ===== verification/Semaphore.thy ===== *)
theory Semaphore
  imports Prelude
begin

text \<open>
  \<open>base::Semaphore\<close> of \<open>lib/inc/lock.h\<close>, whose initial value may be negative, over the mutex and
  the condition variable it is built from: any number of threads, interleaved at every lock,
  unlock, wait and signal. \<open>val_\<close> is a signed \<open>int\<close>: its value is an integer, and an increment
  beyond \<open>INT_MAX\<close> is a fault (undefined behaviour, which the comment in the source warns of).
\<close>

section \<open>State\<close>

text \<open>Where a thread is in \<open>up\<close> (\<open>U\<close>) or \<open>down\<close> (\<open>W\<close>); \<open>W_Sleep\<close> is inside \<open>cond_.wait\<close>.\<close>

datatype sem_pc = SIdle | U_Lock | U_Inc | U_Test | U_Unlock | W_Lock | W_While | W_Sleep | W_Relock | W_Dec | W_Unlock

record sem =
  sem_val :: int
  sem_owner :: "nat option"
  sem_pcs :: "nat \<Rightarrow> sem_pc"
  sem_ups :: nat
  sem_downs :: nat

definition INT_MAX :: int where "INT_MAX = 2147483647"

definition Semaphore_new :: "int \<Rightarrow> sem" where
  "Semaphore_new initVal = \<lparr>sem_val = initVal, sem_owner = None, sem_pcs = (\<lambda>_. SIdle), sem_ups = 0, sem_downs = 0\<rparr>"

definition sem_goto :: "nat \<Rightarrow> sem_pc \<Rightarrow> sem \<Rightarrow> sem" where
  "sem_goto t pc s = s\<lparr>sem_pcs := (sem_pcs s)(t := pc)\<rparr>"

definition sem_acquire :: "nat \<Rightarrow> sem_pc \<Rightarrow> sem \<Rightarrow> (fault + sem) option" where
  "sem_acquire t pc s = (if sem_owner s = None then Some (Inr (sem_goto t pc (s\<lparr>sem_owner := Some t\<rparr>))) else None)"

section \<open>Operations\<close>

text \<open>
  \<open>cond_.signal()\<close> wakes one of the threads that sleep, if there is any; \<open>w\<close> is the scheduler's
  choice and is read only there.
\<close>

definition sem_signal :: "nat \<Rightarrow> sem \<Rightarrow> sem option" where
  "sem_signal w s =
     (if sem_pcs s w = W_Sleep then Some (sem_goto w W_Relock s)
      else if \<forall>t. sem_pcs s t \<noteq> W_Sleep then Some s else None)"

definition up_step :: "nat \<Rightarrow> nat \<Rightarrow> sem \<Rightarrow> (fault + sem) option" where
  "up_step w t s =
     (case sem_pcs s t of
        U_Lock \<Rightarrow> sem_acquire t U_Inc s
      | U_Inc \<Rightarrow>
          Some (if sem_val s = INT_MAX then Inl SignedOverflow
                else Inr (sem_goto t U_Test (s\<lparr>sem_val := sem_val s + 1, sem_ups := sem_ups s + 1\<rparr>)))
      | U_Test \<Rightarrow>
          if 0 < sem_val s then map_option (\<lambda>s. Inr (sem_goto t U_Unlock s)) (sem_signal w s)
          else Some (Inr (sem_goto t U_Unlock s))
      | U_Unlock \<Rightarrow> Some (Inr (sem_goto t SIdle (s\<lparr>sem_owner := None\<rparr>)))
      | _ \<Rightarrow> None)"

text \<open>A sleeping thread may also wake up by itself.\<close>

definition down_step :: "nat \<Rightarrow> sem \<Rightarrow> (fault + sem) option" where
  "down_step t s =
     (case sem_pcs s t of
        W_Lock \<Rightarrow> sem_acquire t W_While s
      | W_While \<Rightarrow>
          Some (Inr (if sem_val s \<le> 0 then sem_goto t W_Sleep (s\<lparr>sem_owner := None\<rparr>) else sem_goto t W_Dec s))
      | W_Sleep \<Rightarrow> Some (Inr (sem_goto t W_Relock s))
      | W_Relock \<Rightarrow> sem_acquire t W_While s
      | W_Dec \<Rightarrow> Some (Inr (sem_goto t W_Unlock (s\<lparr>sem_val := sem_val s - 1, sem_downs := sem_downs s + 1\<rparr>)))
      | W_Unlock \<Rightarrow> Some (Inr (sem_goto t SIdle (s\<lparr>sem_owner := None\<rparr>)))
      | _ \<Rightarrow> None)"

inductive sem_step :: "sem \<Rightarrow> fault + sem \<Rightarrow> bool" where
  start_up: "sem_pcs s t = SIdle \<Longrightarrow> sem_step s (Inr (sem_goto t U_Lock s))"
| start_down: "sem_pcs s t = SIdle \<Longrightarrow> sem_step s (Inr (sem_goto t W_Lock s))"
| up: "up_step w t s = Some r \<Longrightarrow> sem_step s r"
| down: "down_step t s = Some r \<Longrightarrow> sem_step s r"

inductive sem_reach :: "int \<Rightarrow> sem \<Rightarrow> bool" for v where
  new: "sem_reach v (Semaphore_new v)"
| step: "sem_reach v s \<Longrightarrow> sem_step s (Inr s') \<Longrightarrow> sem_reach v s'"

section \<open>Invariants\<close>

definition sem_holds :: "sem_pc \<Rightarrow> bool" where
  "sem_holds pc \<longleftrightarrow> pc \<in> {U_Inc, U_Test, U_Unlock, W_While, W_Dec, W_Unlock}"

definition lock_ok :: "nat option \<Rightarrow> (nat \<Rightarrow> sem_pc) \<Rightarrow> bool" where
  "lock_ok ow pcs \<longleftrightarrow> (\<forall>t. ow = Some t \<longleftrightarrow> sem_holds (pcs t))"

definition sem_count_inv :: "int \<Rightarrow> sem \<Rightarrow> bool" where
  "sem_count_inv v s \<longleftrightarrow> sem_val s = v + int (sem_ups s) - int (sem_downs s) \<and> (min v 0 \<le> sem_val s) \<and>
     (\<forall>t. sem_pcs s t = W_Dec \<longrightarrow> 0 < sem_val s)"

text \<open>Threads that will look at the value before they sleep, and a signal that is due.\<close>

definition awake :: "sem \<Rightarrow> nat set" where
  "awake s = {t. sem_pcs s t \<in> {W_Relock, W_While, W_Dec, U_Test}}"

definition sem_wake_inv :: "sem \<Rightarrow> bool" where
  "sem_wake_inv s \<longleftrightarrow> finite {t. sem_pcs s t \<noteq> SIdle} \<and>
     ((\<exists>t. sem_pcs s t = W_Sleep) \<longrightarrow> sem_val s \<le> int (card (awake s)))"

lemmas sem_defs = sem_goto_def sem_acquire_def sem_signal_def

lemma lock_ok_stay: "lock_ok ow pcs \<Longrightarrow> sem_holds pc \<longleftrightarrow> sem_holds (pcs t) \<Longrightarrow> lock_ok ow (pcs(t := pc))"
  by (simp add: lock_ok_def)

lemma lock_ok_take: "lock_ok None pcs \<Longrightarrow> sem_holds pc \<Longrightarrow> lock_ok (Some t) (pcs(t := pc))"
  by (auto simp: lock_ok_def)

lemma lock_ok_drop: "lock_ok ow pcs \<Longrightarrow> sem_holds (pcs t) \<Longrightarrow> \<not> sem_holds pc \<Longrightarrow> lock_ok None (pcs(t := pc))"
  unfolding lock_ok_def by (metis fun_upd_apply option.inject option.distinct(1))

lemma lock_ok_one: "lock_ok ow pcs \<Longrightarrow> sem_holds (pcs t) \<Longrightarrow> sem_holds (pcs t') \<Longrightarrow> t = t'"
  unfolding lock_ok_def by (metis option.inject)

text \<open>What one step of a thread does, in the four kinds there are.\<close>

lemma sem_step_cases:
  assumes "sem_step s (Inr s')"
  shows "(\<exists>t pc. sem_pcs s' = (sem_pcs s)(t := pc) \<and>
      (sem_owner s' = sem_owner s \<and> (sem_holds pc \<longleftrightarrow> sem_holds (sem_pcs s t)) \<or>
       sem_owner s = None \<and> sem_owner s' = Some t \<and> sem_holds pc \<or>
       sem_holds (sem_pcs s t) \<and> \<not> sem_holds pc \<and> sem_owner s' = None)) \<or>
    (\<exists>w t. sem_pcs s t = U_Test \<and> sem_pcs s w = W_Sleep \<and> sem_owner s' = sem_owner s \<and>
       sem_pcs s' = (sem_pcs s)(w := W_Relock, t := U_Unlock))"
  using assms
proof (cases rule: sem_step.cases)
  case (start_up t)
  then show ?thesis by (intro disjI1 exI [of _ t] exI [of _ U_Lock]) (simp add: sem_goto_def sem_holds_def)
next
  case (start_down t)
  then show ?thesis by (intro disjI1 exI [of _ t] exI [of _ W_Lock]) (simp add: sem_goto_def sem_holds_def)
next
  case (up w t)
  show ?thesis
  proof (cases "sem_pcs s t = U_Test \<and> 0 < sem_val s \<and> sem_pcs s w = W_Sleep")
    case True
    have e: "s' = sem_goto t U_Unlock (sem_goto w W_Relock s)" using True up by (auto simp: up_step_def sem_defs)
    show ?thesis by (rule disjI2, rule exI [of _ w], rule exI [of _ t]) (use True in \<open>simp add: e sem_goto_def\<close>)
  next
    case False
    then show ?thesis using up
      by (intro disjI1 exI [of _ t] exI [of _ "sem_pcs s' t"], cases "sem_pcs s t")
         (auto simp: up_step_def sem_defs sem_holds_def split: if_splits)
  qed
next
  case (down t)
  then show ?thesis
    by (intro disjI1 exI [of _ t] exI [of _ "sem_pcs s' t"], cases "sem_pcs s t")
       (auto simp: down_step_def sem_defs sem_holds_def split: if_splits)
qed

lemma sem_lock_step:
  assumes "sem_step s (Inr s')" and l: "lock_ok (sem_owner s) (sem_pcs s)"
  shows "lock_ok (sem_owner s') (sem_pcs s')"
  using sem_step_cases [OF assms(1)]
proof (elim disjE exE conjE)
  fix t pc assume "sem_pcs s' = (sem_pcs s)(t := pc)" "sem_owner s' = sem_owner s" "sem_holds pc \<longleftrightarrow> sem_holds (sem_pcs s t)"
  then show ?thesis using lock_ok_stay [OF l] by simp
next
  fix t pc assume "sem_pcs s' = (sem_pcs s)(t := pc)" "sem_owner s = None" "sem_owner s' = Some t" "sem_holds pc"
  then show ?thesis using lock_ok_take [of "sem_pcs s" pc t] l by simp
next
  fix t pc assume "sem_pcs s' = (sem_pcs s)(t := pc)" "sem_holds (sem_pcs s t)" "\<not> sem_holds pc" "sem_owner s' = None"
  then show ?thesis using lock_ok_drop [OF l] by simp
next
  fix w t assume u: "sem_pcs s t = U_Test" "sem_pcs s w = W_Sleep" "sem_owner s' = sem_owner s"
    "sem_pcs s' = (sem_pcs s)(w := W_Relock, t := U_Unlock)"
  then have "t \<noteq> w" by auto
  have "lock_ok (sem_owner s) ((sem_pcs s)(w := W_Relock))" by (rule lock_ok_stay [OF l]) (simp add: u(2) sem_holds_def)
  then have "lock_ok (sem_owner s) ((sem_pcs s)(w := W_Relock, t := U_Unlock))"
    by (rule lock_ok_stay) (use u(1) \<open>t \<noteq> w\<close> in \<open>simp add: sem_holds_def\<close>)
  then show ?thesis using u by simp
qed

text \<open>The value and the histories move only in \<open>U_Inc\<close> and \<open>W_Dec\<close>.\<close>

lemma sem_val_step:
  assumes "sem_step s (Inr s')"
  shows "(sem_val s' = sem_val s \<and> sem_ups s' = sem_ups s \<and> sem_downs s' = sem_downs s \<and>
      (\<forall>t. sem_pcs s' t = W_Dec \<longrightarrow> sem_pcs s t = W_Dec \<or> 0 < sem_val s) \<and>
      (\<forall>t. sem_pcs s t = U_Inc \<or> sem_pcs s t = W_Dec \<longrightarrow> sem_pcs s' t = sem_pcs s t)) \<or>
    (\<exists>t. sem_pcs s t = U_Inc \<and> sem_pcs s' = (sem_pcs s)(t := U_Test) \<and> sem_val s' = sem_val s + 1 \<and>
      sem_ups s' = sem_ups s + 1 \<and> sem_downs s' = sem_downs s) \<or>
    (\<exists>t. sem_pcs s t = W_Dec \<and> sem_pcs s' = (sem_pcs s)(t := W_Unlock) \<and> sem_val s' = sem_val s - 1 \<and>
      sem_ups s' = sem_ups s \<and> sem_downs s' = sem_downs s + 1)"
  using assms
proof (cases rule: sem_step.cases)
  case (up w t)
  then show ?thesis
    by (cases "sem_pcs s t") (auto simp: up_step_def sem_defs split: if_splits)
next
  case (down t)
  then show ?thesis
    by (cases "sem_pcs s t") (auto simp: down_step_def sem_defs split: if_splits)
qed (auto simp: sem_goto_def)

lemma sem_count_step:
  assumes st: "sem_step s (Inr s')" and c: "sem_count_inv v s" and l: "lock_ok (sem_owner s) (sem_pcs s)"
  shows "sem_count_inv v s'"
  using sem_val_step [OF st]
proof (elim disjE exE conjE)
  fix t assume t: "sem_pcs s t = W_Dec" "sem_pcs s' = (sem_pcs s)(t := W_Unlock)" "sem_val s' = sem_val s - 1"
      "sem_ups s' = sem_ups s" "sem_downs s' = sem_downs s + 1"
  have "sem_pcs s u \<noteq> W_Dec" if "u \<noteq> t" for u
    using lock_ok_one [OF l, of u t] that t(1) by (auto simp: sem_holds_def)
  moreover have "0 < sem_val s" using c t(1) by (auto simp: sem_count_inv_def)
  ultimately show ?thesis using c t by (auto simp: sem_count_inv_def)
qed (use c in \<open>auto simp: sem_count_inv_def split: if_splits\<close>)

text \<open>
  Threads fall asleep only at a value that is not positive; an increment to a positive value is
  followed by a signal by the same thread, and the thread it wakes counts as awake from then on.
\<close>

lemma card_le:
  assumes "finite B" and "A - {t} \<subseteq> B"
  shows "card A \<le> card B + 1"
proof -
  have "A \<subseteq> insert t B" using assms(2) by blast
  then have "card A \<le> card (insert t B)" by (intro card_mono) (use assms(1) in simp_all)
  then show ?thesis using assms(1) by (simp add: card_insert_if split: if_splits)
qed

lemma awake_finite: "sem_wake_inv s \<Longrightarrow> finite (awake s)"
  unfolding sem_wake_inv_def awake_def by (auto elim: rev_finite_subset)

lemma busy_finite:
  assumes "sem_step s (Inr s')" and "finite {t. sem_pcs s t \<noteq> SIdle}"
  shows "finite {t. sem_pcs s' t \<noteq> SIdle}"
proof -
  have "\<exists>T. finite T \<and> (\<forall>x. x \<notin> T \<longrightarrow> sem_pcs s' x = sem_pcs s x)"
    using sem_step_cases [OF assms(1)]
  proof (elim disjE exE conjE)
    fix w t assume "sem_pcs s' = (sem_pcs s)(w := W_Relock, t := U_Unlock)"
    then show ?thesis by (intro exI [of _ "{w, t}"]) simp
  next
    fix t pc assume "sem_pcs s' = (sem_pcs s)(t := pc)"
    then show ?thesis by (intro exI [of _ "{t}"]) simp
  next
    fix t pc assume "sem_pcs s' = (sem_pcs s)(t := pc)"
    then show ?thesis by (intro exI [of _ "{t}"]) simp
  next
    fix t pc assume "sem_pcs s' = (sem_pcs s)(t := pc)"
    then show ?thesis by (intro exI [of _ "{t}"]) simp
  qed
  then obtain T where T: "finite T" "\<forall>x. x \<notin> T \<longrightarrow> sem_pcs s' x = sem_pcs s x" by blast
  have "{x. sem_pcs s' x \<noteq> SIdle} \<subseteq> T \<union> {x. sem_pcs s x \<noteq> SIdle}" using T(2) by auto
  then show ?thesis using assms(2) T(1) by (meson finite_UnI finite_subset)
qed

lemma sem_wake_step:
  assumes st: "sem_step s (Inr s')" and w: "sem_wake_inv s" and l: "lock_ok (sem_owner s) (sem_pcs s)"
  shows "sem_wake_inv s'"
  unfolding sem_wake_inv_def
proof (intro conjI impI)
  show f': "finite {t. sem_pcs s' t \<noteq> SIdle}" using busy_finite [OF st] w by (simp add: sem_wake_inv_def)
  have F: "finite (awake s)" "finite (awake s')"
    using awake_finite [OF w] f' unfolding awake_def by (auto elim: rev_finite_subset)
  have W: "sem_val s \<le> int (card (awake s))" if "\<exists>t. sem_pcs s t = W_Sleep" using w that by (simp add: sem_wake_inv_def)
  let ?goal = "sem_val s' \<le> int (card (awake s'))"
  assume sl: "\<exists>t. sem_pcs s' t = W_Sleep"
  have stay: ?goal if "sem_pcs s' = (sem_pcs s)(t := pc)" "sem_val s' = sem_val s"
      "sem_pcs s t \<in> {U_Lock, U_Unlock, W_Unlock}" "pc \<in> {U_Inc, SIdle}" for t pc
  proof -
    have "awake s' = awake s" "\<exists>t. sem_pcs s t = W_Sleep" using that sl by (auto simp: awake_def split: if_splits)
    then show ?goal using W that(2) by simp
  qed
  from st show ?goal
  proof (cases rule: sem_step.cases)
    case (start_up t)
    then have "awake s' = awake s" "\<exists>t. sem_pcs s t = W_Sleep" "sem_val s' = sem_val s"
      using sl by (auto simp: awake_def sem_goto_def split: if_splits)
    then show ?thesis using W by simp
  next
    case (start_down t)
    then have "awake s' = awake s" "\<exists>t. sem_pcs s t = W_Sleep" "sem_val s' = sem_val s"
      using sl by (auto simp: awake_def sem_goto_def split: if_splits)
    then show ?thesis using W by simp
  next
    case (up w t)
    show ?thesis
    proof (cases "sem_pcs s t")
      case U_Inc
      then have "awake s' = insert t (awake s)" "t \<notin> awake s" "sem_val s' = sem_val s + 1" "\<exists>t. sem_pcs s t = W_Sleep"
        using up sl by (auto simp: up_step_def sem_defs awake_def split: if_splits)
      then show ?thesis using W F by simp
    next
      case U_Test
      show ?thesis
      proof (cases "0 < sem_val s")
        case True
        then obtain w where "sem_pcs s w = W_Sleep" "sem_pcs s' = (sem_pcs s)(w := W_Relock, t := U_Unlock)" "sem_val s' = sem_val s"
          using up sl U_Test by (auto simp: up_step_def sem_defs split: if_splits)
        moreover then have "awake s' = insert w (awake s - {t})" "w \<notin> awake s" "t \<in> awake s" "w \<noteq> t"
          using U_Test by (auto simp: awake_def)
        moreover then have "card (awake s') = card (awake s)"
          using F(1) card_Suc_Diff1 [OF F(1) \<open>t \<in> awake s\<close>] by simp
        ultimately have "card (awake s') = card (awake s)" "sem_val s' = sem_val s" "\<exists>t. sem_pcs s t = W_Sleep" by auto
        then show ?thesis using W by simp
      next
        case False
        then show ?thesis using up U_Test by (auto simp: up_step_def sem_defs)
      qed
    next
      case U_Lock
      then have "sem_pcs s' = (sem_pcs s)(t := U_Inc)" "sem_val s' = sem_val s"
        using up by (auto simp: up_step_def sem_defs split: if_splits)
      then show ?thesis using stay U_Lock by simp
    next
      case U_Unlock
      then have "sem_pcs s' = (sem_pcs s)(t := SIdle)" "sem_val s' = sem_val s"
        using up by (auto simp: up_step_def sem_defs split: if_splits)
      then show ?thesis using stay U_Unlock by simp
    qed (use up in \<open>auto simp: up_step_def\<close>)
  next
    case (down t)
    show ?thesis
    proof (cases "sem_pcs s t")
      case W_While
      show ?thesis
      proof (cases "sem_val s \<le> 0")
        case True
        then have "sem_val s' \<le> 0" using down W_While by (auto simp: down_step_def sem_defs)
        then show ?thesis by linarith
      next
        case False
        then have "sem_pcs s' = (sem_pcs s)(t := W_Dec)" "sem_val s' = sem_val s"
          using down W_While by (auto simp: down_step_def sem_defs)
        then have "awake s' = awake s" "\<exists>t. sem_pcs s t = W_Sleep"
          using W_While sl by (auto simp: awake_def split: if_splits)
        then show ?thesis using W \<open>sem_val s' = sem_val s\<close> by simp
      qed
    next
      case W_Relock
      then have p: "sem_pcs s' = (sem_pcs s)(t := W_While)" "sem_val s' = sem_val s"
        using down by (auto simp: down_step_def sem_defs split: if_splits)
      then have "awake s' = awake s" "\<exists>t. sem_pcs s t = W_Sleep"
        using W_Relock sl by (auto simp: awake_def split: if_splits)
      then show ?thesis using W p by simp
    next
      case W_Lock
      then have p: "sem_pcs s' = (sem_pcs s)(t := W_While)" "sem_val s' = sem_val s"
        using down by (auto simp: down_step_def sem_defs split: if_splits)
      then have "awake s' = insert t (awake s)" "\<exists>t. sem_pcs s t = W_Sleep"
        using sl by (auto simp: awake_def split: if_splits)
      then show ?thesis using W p F card_insert_le [of "awake s" t] by simp
    next
      case W_Unlock
      then have "sem_pcs s' = (sem_pcs s)(t := SIdle)" "sem_val s' = sem_val s"
        using down by (auto simp: down_step_def sem_defs split: if_splits)
      then show ?thesis using stay W_Unlock by simp
    next
      case W_Dec
      then have "awake s - {t} \<subseteq> awake s'" "sem_val s' = sem_val s - 1" "\<exists>t. sem_pcs s t = W_Sleep"
        using down sl by (auto simp: down_step_def sem_defs awake_def split: if_splits)
      then show ?thesis using W card_le [OF F(2), of "awake s" t] by simp
    next
      case W_Sleep
      then have "awake s' = insert t (awake s)" "sem_val s' = sem_val s" "\<exists>t. sem_pcs s t = W_Sleep"
        using down sl by (auto simp: down_step_def sem_defs awake_def split: if_splits)
      then show ?thesis using W F card_insert_le [of "awake s" t] by simp
    qed (use down in \<open>auto simp: down_step_def\<close>)
  qed
qed

lemma sem_inv: "sem_reach v s \<Longrightarrow> lock_ok (sem_owner s) (sem_pcs s) \<and> sem_count_inv v s \<and> sem_wake_inv s"
proof (induction rule: sem_reach.induct)
  case new
  show ?case by (simp add: Semaphore_new_def lock_ok_def sem_holds_def sem_count_inv_def sem_wake_inv_def)
next
  case (step s s')
  then show ?case using sem_lock_step sem_count_step sem_wake_step by blast
qed

text \<open>A thread that is inside and not asleep can move, unless it waits for the mutex.\<close>

lemma sem_moves:
  assumes l: "lock_ok (sem_owner s) (sem_pcs s)" and t: "sem_pcs s t \<notin> {SIdle, W_Sleep}"
  shows "\<exists>w u r. sem_pcs s u \<notin> {SIdle, W_Sleep} \<and> (up_step w u s = Some r \<or> down_step u s = Some r)"
proof -
  have holder: "\<exists>w r. up_step w u s = Some r \<or> down_step u s = Some r" if "sem_holds (sem_pcs s u)" for u
  proof (cases "sem_pcs s u = U_Test")
    case True
    then show ?thesis
      by (cases "\<exists>w. sem_pcs s w = W_Sleep") (auto simp: up_step_def sem_signal_def)
  next
    case False
    then show ?thesis using that by (cases "sem_pcs s u") (auto simp: up_step_def down_step_def sem_holds_def)
  qed
  show ?thesis
  proof (cases "sem_owner s")
    case None
    then have "\<exists>w r. up_step w t s = Some r \<or> down_step t s = Some r"
      using t l by (cases "sem_pcs s t") (auto simp: up_step_def down_step_def sem_acquire_def lock_ok_def sem_holds_def)
    then show ?thesis using t by blast
  next
    case (Some u)
    then have h: "sem_holds (sem_pcs s u)" using l unfolding lock_ok_def by blast
    then have "sem_pcs s u \<notin> {SIdle, W_Sleep}" by (auto simp: sem_holds_def)
    then show ?thesis using holder [OF h] by blast
  qed
qed

text \<open>
  C25: The semaphore counts and wakes: whatever the interleaving, its value is the initial value
  plus the calls of \<open>up\<close> minus the calls of \<open>down\<close> that got through, and those are at most the
  positive part of the initial value plus the \<open>up\<close>s; if the value is positive while a thread
  sleeps in \<open>down\<close>, some thread inside that is awake, or about to signal, can make a step.
\<close>

theorem semaphore_counts_and_wakes:
  assumes "sem_reach v s"
  shows "sem_val s = v + int (sem_ups s) - int (sem_downs s) \<and> int (sem_downs s) \<le> max v 0 + int (sem_ups s) \<and>
    (0 < sem_val s \<and> (\<exists>t. sem_pcs s t = W_Sleep) \<longrightarrow>
      (\<exists>t. sem_pcs s t \<in> {W_Relock, W_While, W_Dec, U_Test}) \<and>
      (\<exists>w u r. sem_pcs s u \<notin> {SIdle, W_Sleep} \<and> (up_step w u s = Some r \<or> down_step u s = Some r)))"
proof -
  note I = sem_inv [OF assms]
  have c: "sem_val s = v + int (sem_ups s) - int (sem_downs s)" "min v 0 \<le> sem_val s"
    using I by (simp_all add: sem_count_inv_def)
  have A: "\<exists>t. sem_pcs s t \<in> {W_Relock, W_While, W_Dec, U_Test}" if "0 < sem_val s" "\<exists>t. sem_pcs s t = W_Sleep"
  proof -
    have "0 < card (awake s)" using I that by (simp add: sem_wake_inv_def)
    then have "awake s \<noteq> {}" by auto
    then show ?thesis unfolding awake_def by blast
  qed
  have B: "\<exists>w u r. sem_pcs s u \<notin> {SIdle, W_Sleep} \<and> (up_step w u s = Some r \<or> down_step u s = Some r)"
    if z: "0 < sem_val s" "\<exists>t. sem_pcs s t = W_Sleep"
  proof -
    obtain t where "sem_pcs s t \<in> {W_Relock, W_While, W_Dec, U_Test}" using A [OF z] by blast
    then have "sem_pcs s t \<notin> {SIdle, W_Sleep}" by auto
    then show ?thesis using sem_moves I by blast
  qed
  have d: "int (sem_downs s) \<le> max v 0 + int (sem_ups s)" using c by linarith
  show ?thesis using c(1) d A B by blast
qed

theorem semaphore_counts_and_wakes_witness:
  "\<exists>s :: sem. sem_val s = 0 \<and> sem_ups s = 1 \<and> sem_pcs s 2 = W_Sleep \<and> int (sem_downs s) \<le> max (- 1) 0 + 1"
proof -
  let ?s0 = "Semaphore_new (- 1)"
  have r1: "sem_reach (- 1) (sem_goto 2 W_Lock ?s0)"
    by (rule sem_reach.step [OF sem_reach.new sem_step.start_down]) (simp add: Semaphore_new_def)
  obtain s2 s3 where 2: "down_step 2 (sem_goto 2 W_Lock ?s0) = Some (Inr s2)" "down_step 2 s2 = Some (Inr s3)"
      "sem_pcs s3 = (\<lambda>_. SIdle)(2 := W_Sleep)" "sem_val s3 = - 1" "sem_owner s3 = None" "sem_ups s3 = 0" "sem_downs s3 = 0"
    by (simp add: down_step_def sem_defs Semaphore_new_def)
  have r3: "sem_reach (- 1) s3" by (rule sem_reach.step [OF sem_reach.step [OF r1 sem_step.down [OF 2(1)]] sem_step.down [OF 2(2)]])
  have r4: "sem_reach (- 1) (sem_goto 5 U_Lock s3)" by (rule sem_reach.step [OF r3 sem_step.start_up]) (simp add: 2(3))
  obtain s5 s6 where 5: "up_step 0 5 (sem_goto 5 U_Lock s3) = Some (Inr s5)" "up_step 0 5 s5 = Some (Inr s6)"
      "sem_val s6 = 0" "sem_ups s6 = 1" "sem_pcs s6 2 = W_Sleep" "sem_downs s6 = 0"
    using 2 by (simp add: up_step_def sem_defs INT_MAX_def)
  have r6: "sem_reach (- 1) s6" by (rule sem_reach.step [OF sem_reach.step [OF r4 sem_step.up [OF 5(1)]] sem_step.up [OF 5(2)]])
  have "int (sem_downs s6) \<le> max (- 1) 0 + int (sem_ups s6)" using semaphore_counts_and_wakes [OF r6] by blast
  then have "int (sem_downs s6) \<le> max (- 1) 0 + 1" unfolding 5(4) by simp
  show ?thesis by (intro exI [of _ s6] conjI) (fact | use 5 in simp)+
qed

end
