(* ===== verification/Locks.thy ===== *)
theory Locks
  imports EventDisp Semaphore
begin

text \<open>
  \<open>lib/inc/lock.h\<close>: the wrappers of the pthread locks. The pthread functions are modelled by what
  their manual promises: locking a mutex that another thread holds blocks (\<open>None\<close>), and so does
  locking a \<open>NormalMutex\<close> that the thread holds itself. What the other models assume of their
  mutexes is the locale \<open>exclusive\<close>; the wrapper and the models of the dispatcher and the
  semaphore are interpretations of it.
\<close>

section \<open>Mutex\<close>

datatype mutex_kind = NormalMutex | RecursiveMutex

text \<open>\<open>pm_hold\<close>: the thread that holds the mutex, and how often it has locked it beyond once.\<close>

record pmutex =
  pm_kind :: mutex_kind
  pm_hold :: "(nat \<times> nat) option"

text \<open>
  The constructor asks for a recursive mutex through an attribute object that it has not
  initialised, so the kind that comes out is a parameter.
\<close>

definition Mutex :: "mutex_kind \<Rightarrow> pmutex" where
  "Mutex kind = \<lparr>pm_kind = kind, pm_hold = None\<rparr>"

definition Mutex_lock :: "nat \<Rightarrow> pmutex \<Rightarrow> pmutex option" where
  "Mutex_lock t m =
     (case pm_hold m of
        None \<Rightarrow> Some (m\<lparr>pm_hold := Some (t, 0)\<rparr>)
      | Some (u, n) \<Rightarrow> if u = t \<and> pm_kind m = RecursiveMutex then Some (m\<lparr>pm_hold := Some (t, Suc n)\<rparr>) else None)"

text \<open>Unlocking by a thread that does not hold the mutex is left undefined, \<open>None\<close>.\<close>

definition Mutex_unlock :: "nat \<Rightarrow> pmutex \<Rightarrow> pmutex option" where
  "Mutex_unlock t m =
     (case pm_hold m of
        None \<Rightarrow> None
      | Some (u, n) \<Rightarrow> if u = t then Some (m\<lparr>pm_hold := (case n of 0 \<Rightarrow> None | Suc k \<Rightarrow> Some (t, k))\<rparr>) else None)"

section \<open>ScopedLock\<close>

definition ScopedLock :: "nat \<Rightarrow> pmutex \<Rightarrow> pmutex option" where
  "ScopedLock t m = Mutex_lock t m"

definition ScopedLock_delete :: "nat \<Rightarrow> pmutex \<Rightarrow> pmutex option" where
  "ScopedLock_delete t m = Mutex_unlock t m"

text \<open>\<open>n\<close> nested scopes are entered, and left again.\<close>

fun enter_scopes :: "nat \<Rightarrow> nat \<Rightarrow> pmutex \<Rightarrow> pmutex option" where
  "enter_scopes 0 t m = Some m"
| "enter_scopes (Suc n) t m = (case ScopedLock t m of None \<Rightarrow> None | Some m \<Rightarrow> enter_scopes n t m)"

fun leave_scopes :: "nat \<Rightarrow> nat \<Rightarrow> pmutex \<Rightarrow> pmutex option" where
  "leave_scopes 0 t m = Some m"
| "leave_scopes (Suc n) t m = (case ScopedLock_delete t m of None \<Rightarrow> None | Some m \<Rightarrow> leave_scopes n t m)"

lemmas scope_defs = ScopedLock_def ScopedLock_delete_def Mutex_lock_def Mutex_unlock_def

lemma enter_scopes_again:
  "pm_kind m = RecursiveMutex \<Longrightarrow> pm_hold m = Some (t, k) \<Longrightarrow> enter_scopes n t m = Some (m\<lparr>pm_hold := Some (t, k + n)\<rparr>)"
  by (induction n arbitrary: m k) (auto simp: scope_defs)

lemma leave_scopes_all: "pm_hold m = Some (t, n) \<Longrightarrow> leave_scopes (Suc n) t m = Some (m\<lparr>pm_hold := None\<rparr>)"
proof (induction n arbitrary: m)
  case (Suc n)
  have "leave_scopes (Suc (Suc n)) t m = leave_scopes (Suc n) t (m\<lparr>pm_hold := Some (t, n)\<rparr>)"
    using Suc.prems by (simp add: scope_defs del: leave_scopes.simps add: leave_scopes.simps(2) [of "Suc n"])
  then show ?case using Suc.IH [of "m\<lparr>pm_hold := Some (t, n)\<rparr>"] by simp
qed (simp add: scope_defs)

text \<open>
  The scopes of a recursive mutex nest: as many destructors as constructors leave it as it was, and
  in between no other thread comes in.
\<close>

theorem scopes_nest:
  assumes "pm_hold m = None" and "pm_kind m = RecursiveMutex"
  shows "\<exists>m'. enter_scopes (Suc n) t m = Some m' \<and> leave_scopes (Suc n) t m' = Some m \<and> (\<forall>u. u \<noteq> t \<longrightarrow> ScopedLock u m' = None)"
proof -
  let ?m = "m\<lparr>pm_hold := Some (t, n)\<rparr>"
  have "enter_scopes (Suc n) t m = Some ?m"
    using enter_scopes_again [of "m\<lparr>pm_hold := Some (t, 0)\<rparr>" t 0 n] assms by (simp add: scope_defs)
  moreover have "leave_scopes (Suc n) t ?m = Some m" using leave_scopes_all [of ?m t n] assms(1) by (cases m) simp
  ultimately show ?thesis by (intro exI [of _ ?m]) (simp add: scope_defs)
qed

text \<open>A normal mutex: the second scope never starts, and nobody else can end the first.\<close>

theorem normal_scopes_deadlock:
  assumes "ScopedLock t m = Some m'" and "pm_kind m = NormalMutex"
  shows "ScopedLock t m' = None \<and> (\<forall>u. u \<noteq> t \<longrightarrow> ScopedLock u m' = None \<and> ScopedLock_delete u m' = None)"
  using assms by (auto simp: scope_defs split: option.splits if_splits)

section \<open>What the models assume of a mutex\<close>

locale exclusive =
  fixes owner :: "'s \<Rightarrow> nat option" and lock :: "nat \<Rightarrow> 's \<Rightarrow> 's option" and unlock :: "nat \<Rightarrow> 's \<Rightarrow> 's"
  assumes lock_owner: "lock t s = Some s' \<Longrightarrow> owner s' = Some t"
    and lock_busy: "owner s = Some u \<Longrightarrow> u \<noteq> t \<Longrightarrow> lock t s = None"
    and lock_free: "owner s = None \<Longrightarrow> lock t s \<noteq> None"
    and unlock_owner: "owner s = None \<Longrightarrow> lock t s = Some s' \<Longrightarrow> owner (unlock t s') = None"
begin

lemma one_inside: "lock t s = Some s' \<Longrightarrow> lock u s' = Some s'' \<Longrightarrow> u = t"
  using lock_owner [of t s s'] lock_busy [of s' t u] by auto

lemma handed_over: "owner s = None \<Longrightarrow> lock t s = Some s' \<Longrightarrow> \<exists>s''. lock u (unlock t s') = Some s'' \<and> owner s'' = Some u"
  using unlock_owner [of s t s'] lock_free [of "unlock t s'" u] lock_owner by auto

end

definition pm_owner :: "pmutex \<Rightarrow> nat option" where
  "pm_owner m = map_option fst (pm_hold m)"

definition taken :: "(fault + 's) option \<Rightarrow> 's option" where
  "taken r = (case r of Some (Inr s) \<Rightarrow> Some s | _ \<Rightarrow> None)"

interpretation scoped: exclusive pm_owner ScopedLock "\<lambda>t m. case ScopedLock_delete t m of Some m' \<Rightarrow> m' | None \<Rightarrow> m"
  by unfold_locales (auto simp: pm_owner_def scope_defs split: option.splits if_splits)

interpretation dispatcher: exclusive "\<lambda>s. ed_owner s m" "\<lambda>t s. taken (acquire m t s)" "\<lambda>t s. release m s" for m
  by unfold_locales (auto simp: taken_def acquire_def release_def ok_step_def blocked_def split: if_splits)

interpretation semaphore: exclusive sem_owner "\<lambda>t s. taken (sem_acquire t pc s)" "\<lambda>t s. s\<lparr>sem_owner := None\<rparr>" for pc
  by unfold_locales (auto simp: taken_def sem_acquire_def sem_goto_def split: if_splits)

text \<open>
  The dispatcher takes its mutexes as \<open>ScopedLock\<close> does, whichever kind the constructor has made, for
  it never locks one that the thread holds.
\<close>

definition queue_mutex :: "mutex_kind \<Rightarrow> mutex \<Rightarrow> 'a ed \<Rightarrow> pmutex" where
  "queue_mutex kind m s = \<lparr>pm_kind = kind, pm_hold = map_option (\<lambda>t. (t, 0)) (ed_owner s m)\<rparr>"

theorem acquire_is_scoped:
  assumes "ed_owner s m \<noteq> Some t"
  shows "map_option (queue_mutex kind m) (taken (acquire m t s)) = ScopedLock t (queue_mutex kind m s)"
  using assms by (cases "ed_owner s m") (auto simp: taken_def acquire_def ok_step_def blocked_def queue_mutex_def scope_defs)

section \<open>ConditionVar\<close>

text \<open>\<open>gettimeofday\<close> and the moment at which the wait ends at the latest; \<open>long\<close> has 64 bits.\<close>

record timeval =
  tv_sec :: "64 word"
  tv_usec :: "64 word"

record timespec =
  ts_sec :: "64 word"
  ts_nsec :: "64 word"

definition timedWait_until :: "timeval \<Rightarrow> 64 word \<Rightarrow> timespec" where
  "timedWait_until now timeout = \<lparr>ts_sec = tv_sec now + timeout, ts_nsec = 0\<rparr>"

definition ns_of :: "timespec \<Rightarrow> int" where "ns_of t = sint (ts_sec t) * 10 ^ 9 + sint (ts_nsec t)"
definition ns_now :: "timeval \<Rightarrow> int" where "ns_now t = sint (tv_sec t) * 10 ^ 9 + sint (tv_usec t) * 10 ^ 3"

text \<open>
  The microseconds of the present are dropped, so the wait may end up to a second before the
  timeout is over, and never after it.
\<close>

theorem timed_wait_is_early:
  assumes "0 \<le> sint (tv_usec now)" "sint (tv_usec now) < 10 ^ 6"
    and "- (2 ^ 63) \<le> sint (tv_sec now) + sint timeout" "sint (tv_sec now) + sint timeout < 2 ^ 63"
  shows "ns_of (timedWait_until now timeout) - ns_now now = sint timeout * 10 ^ 9 - sint (tv_usec now) * 10 ^ 3"
    and "(sint timeout - 1) * 10 ^ 9 < ns_of (timedWait_until now timeout) - ns_now now"
    and "ns_of (timedWait_until now timeout) - ns_now now \<le> sint timeout * 10 ^ 9"
proof -
  have s: "sint (tv_sec now + timeout) = sint (tv_sec now) + sint timeout"
    using assms(3,4) by (simp add: sint_word_ariths signed_take_bit_int_eq_self)
  show d: "ns_of (timedWait_until now timeout) - ns_now now = sint timeout * 10 ^ 9 - sint (tv_usec now) * 10 ^ 3"
    by (simp add: ns_of_def ns_now_def timedWait_until_def s)
  show "(sint timeout - 1) * 10 ^ 9 < ns_of (timedWait_until now timeout) - ns_now now"
    "ns_of (timedWait_until now timeout) - ns_now now \<le> sint timeout * 10 ^ 9"
    unfolding d using assms(1,2) by simp_all
qed

section \<open>RWMutex\<close>

text \<open>The threads that hold it to read, with repetitions, and the one that holds it to write.\<close>

record rwmutex =
  rw_readers :: "nat list"
  rw_writer :: "nat option"

definition RWMutex :: rwmutex where "RWMutex = \<lparr>rw_readers = [], rw_writer = None\<rparr>"

definition rLock :: "nat \<Rightarrow> rwmutex \<Rightarrow> rwmutex option" where
  "rLock t m = (if rw_writer m = None then Some (m\<lparr>rw_readers := t # rw_readers m\<rparr>) else None)"

definition wLock :: "nat \<Rightarrow> rwmutex \<Rightarrow> rwmutex option" where
  "wLock t m = (if rw_writer m = None \<and> rw_readers m = [] then Some (m\<lparr>rw_writer := Some t\<rparr>) else None)"

definition rw_unlock :: "nat \<Rightarrow> rwmutex \<Rightarrow> rwmutex option" where
  "rw_unlock t m =
     (if rw_writer m = Some t then Some (m\<lparr>rw_writer := None\<rparr>)
      else if t \<in> set (rw_readers m) then Some (m\<lparr>rw_readers := remove1 t (rw_readers m)\<rparr>) else None)"

inductive rw_reach :: "rwmutex \<Rightarrow> bool" where
  new: "rw_reach RWMutex"
| reading: "rw_reach m \<Longrightarrow> rLock t m = Some m' \<Longrightarrow> rw_reach m'"
| writing: "rw_reach m \<Longrightarrow> wLock t m = Some m' \<Longrightarrow> rw_reach m'"
| leaving: "rw_reach m \<Longrightarrow> rw_unlock t m = Some m' \<Longrightarrow> rw_reach m'"

theorem writer_is_alone:
  assumes "rw_reach m"
  shows "rw_writer m = Some t \<Longrightarrow> rw_readers m = [] \<and> (\<forall>u. rLock u m = None \<and> wLock u m = None \<and> (u \<noteq> t \<longrightarrow> rw_unlock u m = None))"
    and "t \<in> set (rw_readers m) \<Longrightarrow> rw_writer m = None \<and> (\<forall>u. wLock u m = None \<and> rLock u m \<noteq> None)"
proof -
  have I: "rw_writer m = None \<or> rw_readers m = []"
    using assms by induction (auto simp: RWMutex_def rLock_def wLock_def rw_unlock_def split: if_splits)
  show "rw_writer m = Some t \<Longrightarrow> rw_readers m = [] \<and> (\<forall>u. rLock u m = None \<and> wLock u m = None \<and> (u \<noteq> t \<longrightarrow> rw_unlock u m = None))"
    using I by (auto simp: rLock_def wLock_def rw_unlock_def)
  show "t \<in> set (rw_readers m) \<Longrightarrow> rw_writer m = None \<and> (\<forall>u. wLock u m = None \<and> rLock u m \<noteq> None)"
    using I by (auto simp: rLock_def wLock_def)
qed

end
