(* ===== verification/Threads.thy ===== *)
theory Threads
  imports Prelude
begin

text \<open>
  \<open>lib/inc/thread.h\<close> and \<open>lib/thread.cc\<close>: \<open>makeThread\<close> hands a copy of the body, on the heap, to the
  thread that it creates. \<open>'f\<close> is \<open>ThreadBody\<close>, any function object; whether \<open>pthread_create\<close>
  succeeds is a parameter of each call. Running a body is recorded in \<open>th_runs\<close>.
\<close>

section \<open>State\<close>

datatype thread_pc = T_Call | T_Delete | T_Returned

record 'f threads =
  th_copies :: "addr \<rightharpoonup> 'f"
  th_next :: addr
  th_pcs :: "nat \<rightharpoonup> thread_pc \<times> addr"
  th_count :: nat
  th_made :: "'f list"
  th_runs :: "(nat \<times> 'f) list"
  th_exit :: "nat option"

definition threads_new :: "'f threads" where
  "threads_new = \<lparr>th_copies = Map.empty, th_next = 0, th_pcs = Map.empty, th_count = 0, th_made = [], th_runs = [], th_exit = None\<rparr>"

section \<open>Operations\<close>

text \<open>\<open>delete\<close> of a copy.\<close>

definition delete_copy :: "addr \<Rightarrow> 'f threads \<Rightarrow> fault + 'f threads" where
  "delete_copy p s = (case th_copies s p of None \<Rightarrow> Inl DoubleFree | Some _ \<Rightarrow> Inr (s\<lparr>th_copies := (th_copies s)(p := None)\<rparr>))"

text \<open>The new thread is \<open>th_count\<close>; \<open>th_made\<close> are the bodies of the threads, in that order.\<close>

definition makeThread :: "bool \<Rightarrow> 'f \<Rightarrow> 'f threads \<Rightarrow> fault + (nat option \<times> 'f threads)" where
  "makeThread created body s =
     (let copy = th_next s; s = s\<lparr>th_copies := (th_copies s)(copy \<mapsto> body), th_next := Suc copy\<rparr> in
      if created then
        Inr (Some (th_count s), s\<lparr>th_pcs := (th_pcs s)(th_count s \<mapsto> (T_Call, copy)), th_count := Suc (th_count s), th_made := th_made s @ [body]\<rparr>)
      else and_then (delete_copy copy s) (\<lambda>s. Inr (None, s\<lparr>th_exit := Some 1\<rparr>)))"

definition threadFunction_step :: "nat \<Rightarrow> 'f threads \<Rightarrow> (fault + 'f threads) option" where
  "threadFunction_step t s =
     (case th_pcs s t of
        Some (T_Call, c) \<Rightarrow>
          Some (and_then (deref (th_copies s) c) (\<lambda>body.
            Inr (s\<lparr>th_runs := th_runs s @ [(t, body)], th_pcs := (th_pcs s)(t \<mapsto> (T_Delete, c))\<rparr>)))
      | Some (T_Delete, c) \<Rightarrow>
          Some (and_then (delete_copy c s) (\<lambda>s. Inr (s\<lparr>th_pcs := (th_pcs s)(t \<mapsto> (T_Returned, c))\<rparr>)))
      | _ \<Rightarrow> None)"

inductive threads_step :: "'f threads \<Rightarrow> fault + 'f threads \<Rightarrow> bool" where
  make: "th_exit s = None \<Longrightarrow> threads_step s (and_then (makeThread created body s) (\<lambda>(t, s). Inr s))"
| run: "th_exit s = None \<Longrightarrow> threadFunction_step t s = Some r \<Longrightarrow> threads_step s r"

inductive threads_reach :: "'f threads \<Rightarrow> bool" where
  new: "threads_reach threads_new"
| step: "threads_reach s \<Longrightarrow> threads_step s (Inr s') \<Longrightarrow> threads_reach s'"

section \<open>Every body runs once\<close>

text \<open>The body of thread \<open>t\<close> is \<open>th_made s ! t\<close>; a copy belongs to the one thread that has not deleted it.\<close>

definition threads_inv :: "'f threads \<Rightarrow> bool" where
  "threads_inv s \<longleftrightarrow> length (th_made s) = th_count s \<and> distinct (map fst (th_runs s)) \<and>
     (\<forall>t. th_pcs s t \<noteq> None \<longleftrightarrow> t < th_count s) \<and> (\<forall>c. th_copies s c \<noteq> None \<longrightarrow> c < th_next s) \<and>
     (\<forall>t pc c. th_pcs s t = Some (pc, c) \<longrightarrow> c < th_next s \<and> (pc \<noteq> T_Returned \<longrightarrow> th_copies s c = Some (th_made s ! t))) \<and>
     (\<forall>t u c pc pc'. th_pcs s t = Some (pc, c) \<and> th_pcs s u = Some (pc', c) \<longrightarrow> t = u) \<and>
     (\<forall>c. th_copies s c \<noteq> None \<longrightarrow> (\<exists>t pc. th_pcs s t = Some (pc, c) \<and> pc \<noteq> T_Returned)) \<and>
     (\<forall>t b. (t, b) \<in> set (th_runs s) \<longleftrightarrow> (\<exists>pc c. th_pcs s t = Some (pc, c) \<and> pc \<noteq> T_Call) \<and> b = th_made s ! t)"

lemma threads_invD:
  assumes "threads_inv s"
  shows "length (th_made s) = th_count s" "distinct (map fst (th_runs s))" "th_pcs s t \<noteq> None \<longleftrightarrow> t < th_count s"
    "th_copies s c \<noteq> None \<Longrightarrow> c < th_next s" "th_pcs s t = Some (pc, c) \<Longrightarrow> c < th_next s"
    "th_pcs s t = Some (pc, c) \<Longrightarrow> pc \<noteq> T_Returned \<Longrightarrow> th_copies s c = Some (th_made s ! t)"
    "th_pcs s t = Some (pc, c) \<Longrightarrow> th_pcs s u = Some (pc', c) \<Longrightarrow> t = u"
    "th_copies s c \<noteq> None \<Longrightarrow> \<exists>t pc. th_pcs s t = Some (pc, c) \<and> pc \<noteq> T_Returned"
    "(t, b) \<in> set (th_runs s) \<longleftrightarrow> (\<exists>pc c. th_pcs s t = Some (pc, c) \<and> pc \<noteq> T_Call) \<and> b = th_made s ! t"
  using assms unfolding threads_inv_def by blast+

lemma threads_invI:
  assumes "length (th_made s) = th_count s" "distinct (map fst (th_runs s))" "\<And>t. th_pcs s t \<noteq> None \<longleftrightarrow> t < th_count s"
    "\<And>c. th_copies s c \<noteq> None \<Longrightarrow> c < th_next s" "\<And>t pc c. th_pcs s t = Some (pc, c) \<Longrightarrow> c < th_next s"
    "\<And>t pc c. th_pcs s t = Some (pc, c) \<Longrightarrow> pc \<noteq> T_Returned \<Longrightarrow> th_copies s c = Some (th_made s ! t)"
    "\<And>t u c pc pc'. th_pcs s t = Some (pc, c) \<Longrightarrow> th_pcs s u = Some (pc', c) \<Longrightarrow> t = u"
    "\<And>c. th_copies s c \<noteq> None \<Longrightarrow> \<exists>t pc. th_pcs s t = Some (pc, c) \<and> pc \<noteq> T_Returned"
    "\<And>t b. (t, b) \<in> set (th_runs s) \<longleftrightarrow> (\<exists>pc c. th_pcs s t = Some (pc, c) \<and> pc \<noteq> T_Call) \<and> b = th_made s ! t"
  shows "threads_inv s"
  using assms unfolding threads_inv_def by blast

lemma not_made:
  assumes I: "threads_inv s"
  shows "makeThread False body s = Inr (None, s\<lparr>th_next := Suc (th_next s), th_exit := Some 1\<rparr>)"
proof -
  have "th_copies s (th_next s) = None" using threads_invD(4) [OF I, of "th_next s"] by blast
  then have "(th_copies s)(th_next s := None) = th_copies s" by auto
  then show ?thesis by (simp add: makeThread_def delete_copy_def Let_def)
qed

lemma not_made_inv: "threads_inv s \<Longrightarrow> threads_inv (s\<lparr>th_next := Suc (th_next s), th_exit := Some 1\<rparr>)"
  unfolding threads_inv_def by (simp add: less_Suc_eq)

lemma made_inv:
  assumes I: "threads_inv s"
  shows "threads_inv (s\<lparr>th_copies := (th_copies s)(th_next s \<mapsto> body), th_next := Suc (th_next s),
    th_pcs := (th_pcs s)(th_count s \<mapsto> (T_Call, th_next s)), th_count := Suc (th_count s), th_made := th_made s @ [body]\<rparr>)" (is "threads_inv ?s")
proof -
  note D = threads_invD [OF I]
  have n: "th_pcs s (th_count s) = None" using D(3) by blast
  have lt: "t < th_count s" "th_made ?s ! t = th_made s ! t" if "th_pcs s t = Some x" for t x
  proof -
    show "t < th_count s" using D(3) [of t] that by simp
    then show "th_made ?s ! t = th_made s ! t" using D(1) by (simp add: nth_append)
  qed
  have fresh: "c \<noteq> th_next s" if "th_pcs s t = Some (pc, c)" for t pc c using D(5) [OF that] by simp
  have last: "th_made ?s ! th_count s = body" using D(1) by (simp add: nth_append)
  have pcs: "th_pcs ?s t = Some (pc, c) \<longleftrightarrow> (t = th_count s \<and> pc = T_Call \<and> c = th_next s) \<or> th_pcs s t = Some (pc, c)" for t pc c
    using n by auto
  show ?thesis
  proof (rule threads_invI)
    show "th_pcs ?s t \<noteq> None \<longleftrightarrow> t < th_count ?s" for t using D(3) [of t] by auto
    show "c < th_next ?s" if "th_copies ?s c \<noteq> None" for c using that D(4) [of c] by (auto split: if_splits)
    show "c < th_next ?s" if "th_pcs ?s t = Some (pc, c)" for t pc c using that D(5) unfolding pcs by fastforce
    show "th_copies ?s c = Some (th_made ?s ! t)" if "th_pcs ?s t = Some (pc, c)" "pc \<noteq> T_Returned" for t pc c
      using that(1) unfolding pcs
    proof
      assume "t = th_count s \<and> pc = T_Call \<and> c = th_next s"
      then show ?thesis using last by simp
    next
      assume o: "th_pcs s t = Some (pc, c)"
      show ?thesis using D(6) [OF o that(2)] fresh [OF o] lt(2) [OF o] by simp
    qed
    show "t = u" if "th_pcs ?s t = Some (pc, c)" "th_pcs ?s u = Some (pc', c)" for t u c pc pc'
      using that D(7) fresh unfolding pcs by blast
    show "\<exists>t pc. th_pcs ?s t = Some (pc, c) \<and> pc \<noteq> T_Returned" if "th_copies ?s c \<noteq> None" for c
      using that D(8) [of c] unfolding pcs by (cases "c = th_next s") auto
    show "(t, b) \<in> set (th_runs ?s) \<longleftrightarrow> (\<exists>pc c. th_pcs ?s t = Some (pc, c) \<and> pc \<noteq> T_Call) \<and> b = th_made ?s ! t" for t b
      using D(9) [of t b] lt(2) [of t] n unfolding pcs by (cases "t = th_count s") auto
  qed (use D(1,2) in simp_all)
qed

lemma run_ok:
  assumes I: "threads_inv s" and r: "threadFunction_step t s = Some r"
  shows "\<exists>s'. r = Inr s' \<and> threads_inv s'"
proof -
  note D = threads_invD [OF I]
  obtain pc c where t: "th_pcs s t = Some (pc, c)" "pc = T_Call \<or> pc = T_Delete"
    using r by (auto simp: threadFunction_step_def split: option.splits thread_pc.splits)
  then have c: "th_copies s c = Some (th_made s ! t)" using D(6) [OF t(1)] by auto
  have tc: "t < th_count s" using D(3) [of t] t(1) by simp
  have own: "u = t" if "th_pcs s u = Some (q, c)" for u q using D(7) [OF that t(1)] .
  show ?thesis
    using t(2)
  proof
    assume pc: "pc = T_Call"
    let ?s = "s\<lparr>th_runs := th_runs s @ [(t, th_made s ! t)], th_pcs := (th_pcs s)(t \<mapsto> (T_Delete, c))\<rparr>"
    have new: "(t, b) \<notin> set (th_runs s)" for b using D(9) t(1) pc by simp
    have pcs: "th_pcs ?s u = Some (q, x) \<longleftrightarrow> (if u = t then q = T_Delete \<and> x = c else th_pcs s u = Some (q, x))" for u q x by auto
    have "threads_inv ?s"
    proof (rule threads_invI)
      show "distinct (map fst (th_runs ?s))" using D(2) new by force
      show "th_pcs ?s u \<noteq> None \<longleftrightarrow> u < th_count ?s" for u using D(3) [of u] tc by simp
      show "x < th_next ?s" if "th_pcs ?s u = Some (q, x)" for u q x using that D(5) t(1) unfolding pcs by (auto split: if_splits)
      show "th_copies ?s x = Some (th_made ?s ! u)" if "th_pcs ?s u = Some (q, x)" "q \<noteq> T_Returned" for u q x
        using that D(6) c unfolding pcs by (auto split: if_splits)
      show "u = v" if "th_pcs ?s u = Some (q, x)" "th_pcs ?s v = Some (q', x)" for u v x q q'
      proof -
        have "\<exists>q. th_pcs s u = Some (q, x)" "\<exists>q. th_pcs s v = Some (q, x)" using that t(1) unfolding pcs by (auto split: if_splits)
        then show ?thesis using D(7) by blast
      qed
      show "\<exists>u q. th_pcs ?s u = Some (q, x) \<and> q \<noteq> T_Returned" if "th_copies ?s x \<noteq> None" for x
      proof -
        have "th_copies s x \<noteq> None" using that by simp
        then obtain u q where u: "th_pcs s u = Some (q, x)" "q \<noteq> T_Returned" using D(8) [of x] by blast
        show ?thesis
        proof (cases "u = t")
          case True
          then have "th_pcs ?s t = Some (T_Delete, x)" using u(1) t(1) unfolding pcs by simp
          then show ?thesis by blast
        next
          case False
          then have "th_pcs ?s u = Some (q, x)" using u(1) unfolding pcs by simp
          then show ?thesis using u(2) by blast
        qed
      qed
      show "(u, b) \<in> set (th_runs ?s) \<longleftrightarrow> (\<exists>q x. th_pcs ?s u = Some (q, x) \<and> q \<noteq> T_Call) \<and> b = th_made ?s ! u" for u b
        using D(9) [of u b] new unfolding pcs by (cases "u = t") auto
    qed (use D(1,4) in simp_all)
    then show ?thesis using r t(1) c pc by (auto simp: threadFunction_step_def)
  next
    assume pc: "pc = T_Delete"
    let ?s = "s\<lparr>th_copies := (th_copies s)(c := None), th_pcs := (th_pcs s)(t \<mapsto> (T_Returned, c))\<rparr>"
    have pcs: "th_pcs ?s u = Some (q, x) \<longleftrightarrow> (if u = t then q = T_Returned \<and> x = c else th_pcs s u = Some (q, x))" for u q x by auto
    have "threads_inv ?s"
    proof (rule threads_invI)
      show "th_pcs ?s u \<noteq> None \<longleftrightarrow> u < th_count ?s" for u using D(3) [of u] tc by simp
      show "x < th_next ?s" if "th_copies ?s x \<noteq> None" for x using that D(4) [of x] by (auto split: if_splits)
      show "x < th_next ?s" if "th_pcs ?s u = Some (q, x)" for u q x using that D(5) t(1) unfolding pcs by (auto split: if_splits)
      show "th_copies ?s x = Some (th_made ?s ! u)" if "th_pcs ?s u = Some (q, x)" "q \<noteq> T_Returned" for u q x
        using that D(6) own unfolding pcs by (auto split: if_splits)
      show "u = v" if "th_pcs ?s u = Some (q, x)" "th_pcs ?s v = Some (q', x)" for u v x q q'
      proof -
        have "\<exists>q. th_pcs s u = Some (q, x)" "\<exists>q. th_pcs s v = Some (q, x)" using that t(1) unfolding pcs by (auto split: if_splits)
        then show ?thesis using D(7) by blast
      qed
      show "\<exists>u q. th_pcs ?s u = Some (q, x) \<and> q \<noteq> T_Returned" if "th_copies ?s x \<noteq> None" for x
      proof -
        have x: "th_copies s x \<noteq> None" "x \<noteq> c" using that by (auto split: if_splits)
        then obtain u q where u: "th_pcs s u = Some (q, x)" "q \<noteq> T_Returned" using D(8) [of x] by blast
        then have "u \<noteq> t" using t(1) x(2) by auto
        then have "th_pcs ?s u = Some (q, x)" using u(1) unfolding pcs by simp
        then show ?thesis using u(2) by blast
      qed
      show "(u, b) \<in> set (th_runs ?s) \<longleftrightarrow> (\<exists>q x. th_pcs ?s u = Some (q, x) \<and> q \<noteq> T_Call) \<and> b = th_made ?s ! u" for u b
        using D(9) [of u b] t(1) pc unfolding pcs by (cases "u = t") auto
    qed (use D(1,2) in simp_all)
    then show ?thesis using r t(1) c pc by (auto simp: threadFunction_step_def delete_copy_def)
  qed
qed

lemma step_ok: "threads_inv s \<Longrightarrow> threads_step s r \<Longrightarrow> \<exists>s'. r = Inr s' \<and> threads_inv s'"
proof (erule threads_step.cases)
  fix u body and created :: bool
  assume "threads_inv s" "s = u" "r = and_then (makeThread created body u) (\<lambda>(t, s). Inr s)"
  then show ?thesis
    using not_made [of s body] not_made_inv [of s] made_inv [of s body] by (cases created) (auto simp: makeThread_def Let_def)
qed (use run_ok in blast)

lemma reach_inv: "threads_reach s \<Longrightarrow> threads_inv s"
proof (induction rule: threads_reach.induct)
  case new
  show ?case by (simp add: threads_new_def threads_inv_def)
next
  case (step s s')
  then show ?case using step_ok by blast
qed

text \<open>
  In every interleaving no copy is used after its end or deleted twice; a body runs at most once,
  by the thread that was made for it; a thread that has returned has run its body, and when all
  have returned no copy is left.
\<close>

theorem bodies_run_once:
  assumes "threads_reach s"
  shows "\<not> threads_step s (Inl f) \<and> distinct (map fst (th_runs s)) \<and> (\<forall>(t, b) \<in> set (th_runs s). t < th_count s \<and> b = th_made s ! t) \<and>
    (\<forall>t c. th_pcs s t = Some (T_Returned, c) \<longrightarrow> (t, th_made s ! t) \<in> set (th_runs s)) \<and>
    ((\<forall>t < th_count s. \<exists>c. th_pcs s t = Some (T_Returned, c)) \<longrightarrow> th_copies s = Map.empty)"
proof -
  note I = reach_inv [OF assms]
  note D = threads_invD [OF I]
  have "t < th_count s \<and> b = th_made s ! t" if "(t, b) \<in> set (th_runs s)" for t b using that D(9) [of t b] D(3) [of t] by auto
  moreover have "th_copies s c = None" if "\<forall>t < th_count s. \<exists>c. th_pcs s t = Some (T_Returned, c)" for c
  proof (rule ccontr)
    assume "th_copies s c \<noteq> None"
    then obtain t pc where "th_pcs s t = Some (pc, c)" "pc \<noteq> T_Returned" using D(8) by blast
    then show False using that D(3) [of t] by auto
  qed
  ultimately show ?thesis using D(2,9) step_ok [OF I] by fastforce
qed

text \<open>A thread that could not be created: the copy is deleted and the process exits with code 1.\<close>

theorem failed_thread_exits:
  assumes "threads_reach s"
  shows "\<exists>s'. makeThread False body s = Inr (None, s') \<and> th_copies s' = th_copies s \<and> th_runs s' = th_runs s \<and> th_exit s' = Some 1"
  using not_made [OF reach_inv [OF assms]] by simp

end
