(* ===== verification/EventInv.thy ===== *)
theory EventInv
  imports EventDisp "HOL-Library.Sublist"
begin

text \<open>
  The invariants of the dispatcher, each preserved by every step of every thread: who owns
  which mutex, who owns which task, the counters, the flags, the history, and the wakeups.
\<close>

lemmas step_defs = ok_step_def bad_step_def blocked_def acquire_def release_def goto_def return_def
  loop_to_def delete_task_def count_task_def after_def

lemmas call_defs = call_step_def enqueue_step_def stop_step_def resume_step_def busy_step_def
  pending_step_def dtor_step_def

section \<open>Mutexes\<close>

fun loop_holds :: "loop_pc \<Rightarrow> mutex set" where
  "loop_holds L_While = {QueueMutex}"
| "loop_holds L_If = {QueueMutex}"
| "loop_holds L_Leave = {QueueMutex}"
| "loop_holds L_Front = {QueueMutex}"
| "loop_holds (L_Unlock p) = {QueueMutex}"
| "loop_holds (L_Pop p) = {QueueMutex}"
| "loop_holds (L_LockC p) = {QueueMutex}"
| "loop_holds (L_Dec p) = {QueueMutex, TaskCountMutex}"
| "loop_holds (L_UnlockC p) = {QueueMutex, TaskCountMutex}"
| "loop_holds (L_Unlock2 p) = {QueueMutex}"
| "loop_holds _ = {}"

fun call_holds :: "call_pc \<Rightarrow> mutex set" where
  "call_holds (E_Test p) = {QueueMutex}"
| "call_holds (E_Push p) = {QueueMutex}"
| "call_holds (E_LockC p) = {QueueMutex}"
| "call_holds (E_Inc p) = {QueueMutex, TaskCountMutex}"
| "call_holds E_UnlockC = {QueueMutex, TaskCountMutex}"
| "call_holds E_Signal = {QueueMutex}"
| "call_holds (E_Discard p) = {QueueMutex}"
| "call_holds E_Unlock = {QueueMutex}"
| "call_holds S_Set = {StoppedMutex}"
| "call_holds S_Unlock = {StoppedMutex}"
| "call_holds R_Test = {StoppedMutex}"
| "call_holds R_Unlock = {StoppedMutex}"
| "call_holds B_Read = {QueueMutex}"
| "call_holds (B_Unlock b) = {QueueMutex}"
| "call_holds P_Read = {TaskCountMutex}"
| "call_holds (P_Unlock n) = {TaskCountMutex}"
| "call_holds D_SetStopped = {StoppedMutex}"
| "call_holds D_SetDying = {StoppedMutex}"
| "call_holds D_Unlock = {StoppedMutex}"
| "call_holds _ = {}"

definition holds :: "'a ed \<Rightarrow> tid \<Rightarrow> mutex set" where
  "holds s t = call_holds (ed_calls s t) \<union> (if t = ed_thread s then loop_holds (ed_loop s) else {})"

text \<open>The owner of a mutex is the one thread whose program counter says so.\<close>

definition lock_inv :: "'a ed \<Rightarrow> bool" where
  "lock_inv s \<longleftrightarrow> (\<forall>m t. ed_owner s m = Some t \<longleftrightarrow> m \<in> holds s t)"

definition reentry_inv :: "'a ed \<Rightarrow> bool" where
  "reentry_inv s \<longleftrightarrow> (ed_calls s (ed_thread s) \<noteq> Idle \<longrightarrow> (\<exists>p. ed_loop s = L_Exec p))"

text \<open>Two threads never hold the same mutex.\<close>

lemma holds_unique: "lock_inv s \<Longrightarrow> m \<in> holds s t \<Longrightarrow> m \<in> holds s t' \<Longrightarrow> t = t'"
  unfolding lock_inv_def by (metis option.inject)

lemma lock_inv_new: "lock_inv (ed_new t)" "reentry_inv (ed_new t)"
  by (auto simp: lock_inv_def holds_def reentry_inv_def ed_new_def)

text \<open>Every step of a thread locks one mutex, unlocks one, or changes none.\<close>

definition lock_effect :: "tid \<Rightarrow> mutex set \<Rightarrow> mutex set \<Rightarrow> (mutex \<Rightarrow> tid option) \<Rightarrow> (mutex \<Rightarrow> tid option) \<Rightarrow> bool" where
  "lock_effect t H H' ow ow' \<longleftrightarrow>
     (H' = H \<and> ow' = ow) \<or>
     (\<exists>m. ow m = None \<and> m \<notin> H \<and> (\<forall>m' \<in> H. m' < m) \<and> H' = insert m H \<and> ow' = ow(m := Some t)) \<or>
     (\<exists>m \<in> H. H' = H - {m} \<and> ow' = ow(m := None))"

lemma lock_effect_simps [simp]:
  "lock_effect t H H ow ow"
  "ow m = None \<Longrightarrow> lock_effect t {} {m} ow (ow(m := Some t))"
  "ow TaskCountMutex = None \<Longrightarrow>
     lock_effect t {QueueMutex} {QueueMutex, TaskCountMutex} ow (ow(TaskCountMutex := Some t))"
  "lock_effect t {m} {} ow (ow(m := None))"
  "lock_effect t {QueueMutex, TaskCountMutex} {QueueMutex} ow (ow(TaskCountMutex := None))"
  unfolding lock_effect_def by (auto simp: less_mutex_def)

lemma loop_step_lock:
  assumes "loop_step s = Some (Inr s')"
  shows "ed_calls s' = ed_calls s \<and> ed_thread s' = ed_thread s \<and>
    lock_effect (ed_thread s) (loop_holds (ed_loop s)) (loop_holds (ed_loop s')) (ed_owner s) (ed_owner s')"
  using assms
  by (cases "ed_loop s")
    (auto simp: loop_step_def step_defs split: if_splits list.splits option.splits)

lemma call_step_lock:
  assumes "call_step t s = Some (Inr s')"
  shows "(\<forall>t'. t' \<noteq> t \<longrightarrow> ed_calls s' t' = ed_calls s t') \<and> ed_thread s' = ed_thread s \<and>
    loop_holds (ed_loop s') = loop_holds (ed_loop s) \<and> ed_calls s t \<noteq> Idle \<and>
    lock_effect t (call_holds (ed_calls s t)) (call_holds (ed_calls s' t)) (ed_owner s) (ed_owner s')"
  using assms
  by (cases "ed_calls s t")
    (simp_all add: call_defs step_defs split: if_splits option.splits, auto simp: step_defs)

lemma lock_inv_effect:
  assumes inv: "lock_inv s" and eff: "lock_effect t (holds s t) (holds s' t) (ed_owner s) (ed_owner s')"
    and same: "\<forall>t'. t' \<noteq> t \<longrightarrow> holds s' t' = holds s t'"
  shows "lock_inv s'"
proof -
  have own: "ed_owner s m' = Some t' \<longleftrightarrow> m' \<in> holds s t'" for m' t'
    using inv unfolding lock_inv_def by blast
  have free: "m \<notin> holds s t'" if "ed_owner s m = None" for m t'
    using own [of m t'] that by simp
  have other: "m \<notin> holds s t'" if "m \<in> holds s t" "t' \<noteq> t" for m t'
    using own [of m t] own [of m t'] that by simp
  have "ed_owner s' m' = Some t' \<longleftrightarrow> m' \<in> holds s' t'" for m' t'
  proof -
    have h: "t' \<noteq> t \<Longrightarrow> holds s' t' = holds s t'" using same by blast
    from eff consider "holds s' t = holds s t" "ed_owner s' = ed_owner s"
      | m where "ed_owner s m = None" "holds s' t = insert m (holds s t)" "ed_owner s' = (ed_owner s)(m := Some t)"
      | m where "m \<in> holds s t" "holds s' t = holds s t - {m}" "ed_owner s' = (ed_owner s)(m := None)"
      unfolding lock_effect_def by blast
    then show ?thesis
    proof cases
      case 1
      then show ?thesis using h own [of m' t'] by (cases "t' = t") simp_all
    next
      case (2 m)
      then show ?thesis using h own [of m' t'] free [OF 2(1), of t'] by (cases "t' = t"; cases "m' = m") auto
    next
      case (3 m)
      then show ?thesis using h own [of m' t'] other [OF 3(1), of t'] by (cases "t' = t"; cases "m' = m") auto
    qed
  qed
  then show ?thesis unfolding lock_inv_def by blast
qed

lemma lock_inv_start:
  assumes "lock_inv s" "reentry_inv s" "start_call t c s = Some s'"
  shows "lock_inv s'" "reentry_inv s'"
proof -
  have t: "ed_calls s t = Idle" "t = ed_thread s \<longrightarrow> (\<exists>p. ed_loop s = L_Exec p)"
    using assms(3) by (auto simp: start_call_def split: if_splits)
  have s': "ed_owner s' = ed_owner s" "ed_loop s' = ed_loop s" "ed_thread s' = ed_thread s"
    using assms(3) by (auto simp: start_call_def goto_def split: if_splits ed_call.splits option.splits)
  obtain pc where pc: "ed_calls s' = (ed_calls s)(t := pc)" "call_holds pc = {}"
    using assms(3) by (auto simp: start_call_def goto_def split: if_splits ed_call.splits option.splits)
  have "holds s' t' = holds s t'" for t' using s' pc t by (auto simp: holds_def)
  then show "lock_inv s'" using assms(1) s'(1) unfolding lock_inv_def by simp
  show "reentry_inv s'" using assms(2) t pc s' by (auto simp: reentry_inv_def)
qed

lemma idle_loop_step:
  assumes "reentry_inv s" "loop_step s = Some r" shows "ed_calls s (ed_thread s) = Idle"
  using assms by (auto simp: reentry_inv_def loop_step_def blocked_def split: if_splits)

lemma lock_inv_loop:
  assumes "lock_inv s" "reentry_inv s" "loop_step s = Some (Inr s')"
  shows "lock_inv s'" "reentry_inv s'"
proof -
  note L = loop_step_lock [OF assms(3)]
  have idle: "ed_calls s (ed_thread s) = Idle" by (rule idle_loop_step [OF assms(2,3)])
  then show "reentry_inv s'" using L by (simp add: reentry_inv_def)
  show "lock_inv s'"
    by (rule lock_inv_effect [OF assms(1), of "ed_thread s"]) (use L idle in \<open>simp_all add: holds_def\<close>)
qed

lemma call_step_loop:
  assumes "call_step t s = Some (Inr s')"
  shows "ed_loop s' = (if ed_calls s t = E_Signal \<and> ed_loop s = L_Wait then L_Relock else ed_loop s)"
  using assms
  by (cases "ed_calls s t"; simp add: call_defs step_defs split: if_splits option.splits; auto simp: step_defs)

lemma lock_inv_call:
  assumes "lock_inv s" "reentry_inv s" "call_step t s = Some (Inr s')"
  shows "lock_inv s'" "reentry_inv s'"
proof -
  note L = call_step_lock [OF assms(3)]
  have calls: "t' \<noteq> t \<Longrightarrow> ed_calls s' t' = ed_calls s t'" for t'
    using L by blast
  show "reentry_inv s'"
    using assms(2) L call_step_loop [OF assms(3)] calls [of "ed_thread s"]
    by (cases "ed_thread s = t") (auto simp: reentry_inv_def split: if_splits)
  have e: "loop_holds (ed_loop s) = {}" if "t = ed_thread s"
    using assms(2) L that by (auto simp: reentry_inv_def)
  show "lock_inv s'"
  proof (rule lock_inv_effect [OF assms(1), of t])
    show "lock_effect t (holds s t) (holds s' t) (ed_owner s) (ed_owner s')"
      using L e by (cases "t = ed_thread s") (simp_all add: holds_def)
    show "\<forall>t'. t' \<noteq> t \<longrightarrow> holds s' t' = holds s t'"
      using L by (simp add: holds_def)
  qed
qed

section \<open>Tasks\<close>

text \<open>
  Who owns a task that is not in the queue: a call that has not pushed or discarded it yet, or
  the loop after it popped it. The slots are the threads, and \<open>None\<close> for the loop.
\<close>

fun carried :: "call_pc \<Rightarrow> addr option" where
  "carried (E_Lock p) = p"
| "carried (E_Test p) = p"
| "carried (E_Push p) = Some p"
| "carried (E_Discard p) = Some p"
| "carried _ = None"

fun loop_done :: "loop_pc \<Rightarrow> addr option" where
  "loop_done (L_LockC p) = Some p"
| "loop_done (L_Dec p) = Some p"
| "loop_done (L_UnlockC p) = Some p"
| "loop_done (L_Unlock2 p) = Some p"
| "loop_done (L_Delete p) = Some p"
| "loop_done _ = None"

definition slot :: "'a ed \<Rightarrow> tid option \<Rightarrow> addr option" where
  "slot s k = (case k of None \<Rightarrow> loop_done (ed_loop s) | Some t \<Rightarrow> carried (ed_calls s t))"

definition own_inv :: "(tid option \<Rightarrow> addr option) \<Rightarrow> addr list \<Rightarrow> addr set \<Rightarrow> addr \<Rightarrow> addr list \<Rightarrow> bool" where
  "own_inv sl q D n del \<longleftrightarrow>
     distinct q \<and> distinct del \<and> inj_on sl (dom sl) \<and> ran sl \<inter> set q = {} \<and>
     D = set q \<union> ran sl \<and> D \<inter> set del = {} \<and> D \<union> set del = {..<n}"

lemma own_invD:
  assumes "own_inv sl q D n del"
  shows "distinct q" "distinct del" "inj_on sl (dom sl)" "ran sl \<inter> set q = {}"
    "D = set q \<union> ran sl" "D \<inter> set del = {}" "D \<union> set del = {..<n}"
  using assms unfolding own_inv_def by blast+

lemma ran_clear:
  assumes "inj_on sl (dom sl)" "sl k = Some p"
  shows "ran (sl(k := None)) = ran sl - {p}" "inj_on (sl(k := None)) (dom (sl(k := None)))"
proof -
  have u: "k' = k" if "sl k' = Some p" for k'
    using assms that unfolding inj_on_def by (metis domI)
  show "ran (sl(k := None)) = ran sl - {p}"
  proof (intro equalityI subsetI)
    fix x assume "x \<in> ran (sl(k := None))"
    then obtain k' where k': "k' \<noteq> k" "sl k' = Some x" by (auto simp: ran_def split: if_splits)
    then have "x \<noteq> p" using u by blast
    then show "x \<in> ran sl - {p}" using ranI [of sl, OF k'(2)] by blast
  next
    fix x assume x: "x \<in> ran sl - {p}"
    then obtain k' where k': "sl k' = Some x" by (auto simp: ran_def)
    then have "k' \<noteq> k" using assms(2) x by auto
    then show "x \<in> ran (sl(k := None))" using k' by (intro ranI [of _ k']) simp
  qed
  show "inj_on (sl(k := None)) (dom (sl(k := None)))"
    using assms(1) by (simp add: inj_on_def)
qed

lemma ran_fill:
  assumes "inj_on sl (dom sl)" "sl k = None" "p \<notin> ran sl"
  shows "ran (sl(k := Some p)) = insert p (ran sl)" "inj_on (sl(k := Some p)) (dom (sl(k := Some p)))"
proof -
  show "ran (sl(k := Some p)) = insert p (ran sl)" using ran_map_upd [of sl k p] assms(2) by simp
  have ne: "sl k' \<noteq> Some p" for k' using assms(3) by (auto simp: ran_def)
  show "inj_on (sl(k := Some p)) (dom (sl(k := Some p)))"
  proof (rule inj_onI)
    fix x y
    assume x: "x \<in> dom (sl(k := Some p))" "y \<in> dom (sl(k := Some p))"
      and eq: "(sl(k := Some p)) x = (sl(k := Some p)) y"
    consider "x = k" "y = k" | "x \<noteq> k" "y \<noteq> k" | "x = k" "y \<noteq> k" | "x \<noteq> k" "y = k" by blast
    then show "x = y"
    proof cases
      case 2
      then have "x \<in> dom sl" "y \<in> dom sl" "sl x = sl y" using x eq by auto
      then show ?thesis using assms(1) by (simp add: inj_on_def)
    next
      case 3
      then show ?thesis using eq ne [of y] by simp
    next
      case 4
      then show ?thesis using eq ne [of x] by simp
    qed simp
  qed
qed

lemma own_alloc:
  assumes "own_inv sl q D n del" "sl k = None"
  shows "own_inv (sl(k := Some n)) q (insert n D) (Suc n) del"
proof -
  note I = own_invD [OF assms(1)]
  have n: "n \<notin> D" "n \<notin> set del" using I(7) by blast+
  then have "n \<notin> ran sl" "n \<notin> set q" using I(5) by blast+
  moreover note F = ran_fill [OF I(3) assms(2) this(1)]
  moreover have "insert n D \<union> set del = {..<Suc n}" using I(7) unfolding lessThan_Suc by blast
  moreover have "insert n D = set q \<union> insert n (ran sl)" "insert n D \<inter> set del = {}"
    "insert n (ran sl) \<inter> set q = {}"
    using I n \<open>n \<notin> set q\<close> by blast+
  ultimately show ?thesis unfolding own_inv_def F(1) using I(1,2) by blast
qed

lemma own_push:
  assumes "own_inv sl q D n del" "sl k = Some p"
  shows "own_inv (sl(k := None)) (q @ [p]) D n del"
proof -
  note I = own_invD [OF assms(1)]
  have p: "p \<in> ran sl" using assms(2) by (rule ranI)
  show ?thesis
    unfolding own_inv_def ran_clear(1) [OF I(3) assms(2)]
    using I p ran_clear(2) [OF I(3) assms(2)] by auto
qed

lemma own_pop:
  assumes "own_inv sl (p # q) D n del" "sl k = None"
  shows "own_inv (sl(k := Some p)) q D n del"
proof -
  note I = own_invD [OF assms(1)]
  have p: "p \<notin> ran sl" using I(4) by auto
  show ?thesis
    unfolding own_inv_def ran_fill(1) [OF I(3) assms(2) p]
    using I ran_fill(2) [OF I(3) assms(2) p] by auto
qed

lemma own_delete:
  assumes "own_inv sl q D n del" "sl k = Some p"
  shows "own_inv (sl(k := None)) q (D - {p}) n (del @ [p])"
proof -
  note I = own_invD [OF assms(1)]
  have p: "p \<in> ran sl" using assms(2) by (rule ranI)
  then have "p \<notin> set q" "p \<notin> set del" "p \<in> D" using I by blast+
  moreover have "(D - {p}) \<union> set (del @ [p]) = D \<union> set del" using \<open>p \<in> D\<close> by auto
  moreover have "D - {p} = set q \<union> (ran sl - {p})" using I(5) \<open>p \<notin> set q\<close> by blast
  ultimately show ?thesis
    unfolding own_inv_def ran_clear(1) [OF I(3) assms(2)]
    using I ran_clear(2) [OF I(3) assms(2)] by auto
qed

definition task_inv :: "'a ed \<Rightarrow> bool" where
  "task_inv s \<longleftrightarrow> own_inv (slot s) (ed_queue s) (dom (ed_heap s)) (ed_next s) (ed_deleted s)"

lemma slot_goto: "slot (goto t pc s) = (slot s)(Some t := carried pc)"
  by (auto simp: slot_def goto_def fun_eq_iff split: option.split)

lemma slot_return: "slot (return t r s) = (slot s)(Some t := None)"
  by (auto simp: slot_def return_def fun_eq_iff split: option.split)

lemma slot_loop_to: "slot (loop_to pc s) = (slot s)(None := loop_done pc)"
  by (auto simp: slot_def loop_to_def fun_eq_iff split: option.split)

lemma slot_other [simp]:
  "slot (s\<lparr>ed_queue := q\<rparr>) = slot s" "slot (s\<lparr>ed_accepted := q\<rparr>) = slot s"
  "slot (s\<lparr>ed_popped := q\<rparr>) = slot s" "slot (s\<lparr>ed_ran := q\<rparr>) = slot s"
  "slot (s\<lparr>ed_deleted := q\<rparr>) = slot s" "slot (s\<lparr>ed_heap := h\<rparr>) = slot s"
  "slot (s\<lparr>ed_next := n\<rparr>) = slot s" "slot (s\<lparr>ed_owner := ow\<rparr>) = slot s"
  "slot (s\<lparr>ed_taskCount := tc\<rparr>) = slot s" "slot (s\<lparr>ed_isStopped := b\<rparr>) = slot s"
  "slot (s\<lparr>ed_isDying := b\<rparr>) = slot s" "slot (s\<lparr>ed_isExecuting := b\<rparr>) = slot s"
  "slot (s\<lparr>ed_dtor := b\<rparr>) = slot s" "slot (s\<lparr>ed_tasks := ts\<rparr>) = slot s"
  by (simp_all add: slot_def fun_eq_iff split: option.split)

lemmas slot_upd = slot_goto slot_return slot_loop_to

lemma other_goto [simp]:
  "ed_queue (goto t pc s) = ed_queue s" "ed_heap (goto t pc s) = ed_heap s" "ed_next (goto t pc s) = ed_next s"
  "ed_deleted (goto t pc s) = ed_deleted s"
  "ed_queue (return t r s) = ed_queue s" "ed_heap (return t r s) = ed_heap s" "ed_next (return t r s) = ed_next s"
  "ed_deleted (return t r s) = ed_deleted s"
  "ed_queue (loop_to lp s) = ed_queue s" "ed_heap (loop_to lp s) = ed_heap s" "ed_next (loop_to lp s) = ed_next s"
  "ed_deleted (loop_to lp s) = ed_deleted s"
  by (simp_all add: goto_def return_def loop_to_def)

lemma slot_fun_upd_idem: "slot s k = c \<Longrightarrow> (slot s)(k := c) = slot s"
  by auto

lemma dom_del: "dom (h(p := None)) = dom h - {p}" by auto

lemmas out_defs = ok_step_def bad_step_def blocked_def acquire_def release_def delete_task_def count_task_def after_def

lemma task_inv_new: "task_inv (ed_new t)"
  by (auto simp: task_inv_def own_inv_def ed_new_def slot_def ran_def inj_on_def split: option.splits)

lemma task_inv_call:
  assumes "task_inv s" "call_step t s = Some (Inr s')"
  shows "task_inv s'"
proof -
  have sl: "slot s (Some t) = carried (ed_calls s t)" by (simp add: slot_def)
  have wait: "(slot s)(None := None) = slot s" if "ed_loop s = L_Wait"
    using that by (auto simp: slot_def)
  show ?thesis
    using assms sl own_push [of "slot s" "ed_queue s" "dom (ed_heap s)" "ed_next s" "ed_deleted s" "Some t"]
      own_delete [of "slot s" "ed_queue s" "dom (ed_heap s)" "ed_next s" "ed_deleted s" "Some t"]
    by (cases "ed_calls s t"; simp add: call_defs out_defs task_inv_def split: if_splits option.splits;
        auto simp: slot_upd slot_fun_upd_idem dom_del wait)
qed

lemma task_inv_start:
  assumes "task_inv s" "start_call t c s = Some s'"
  shows "task_inv s'"
proof -
  have t: "ed_calls s t = Idle" using assms(2) by (auto simp: start_call_def split: if_splits)
  then have sl: "slot s (Some t) = None" by (simp add: slot_def)
  show ?thesis
  proof (cases "\<exists>ut. c = Enqueue (Some ut)")
    case True
    then show ?thesis
      using assms own_alloc [of "slot s" "ed_queue s" "dom (ed_heap s)" "ed_next s" "ed_deleted s" "Some t"] sl
      by (auto simp: start_call_def task_inv_def slot_goto split: if_splits)
  next
    case False
    then show ?thesis
      using assms sl
      by (cases c) (auto simp: start_call_def task_inv_def slot_goto slot_fun_upd_idem split: if_splits option.splits)
  qed
qed

text \<open>The task the loop works on is the front of the queue until it is popped.\<close>

fun loop_cur :: "loop_pc \<Rightarrow> addr option" where
  "loop_cur (L_Unlock p) = Some p"
| "loop_cur (L_RunTest p) = Some p"
| "loop_cur (L_Exec p) = Some p"
| "loop_cur (L_Lock2 p) = Some p"
| "loop_cur (L_Pop p) = Some p"
| "loop_cur _ = None"

definition cur_inv :: "'a ed \<Rightarrow> bool" where
  "cur_inv s \<longleftrightarrow>
     (\<forall>p. loop_cur (ed_loop s) = Some p \<longrightarrow> (\<exists>q. ed_queue s = p # q)) \<and>
     (ed_loop s = L_Front \<longrightarrow> ed_queue s \<noteq> []) \<and>
     (ed_loop s = L_If \<longrightarrow> ed_queue s \<noteq> [] \<or> ed_isDying s) \<and>
     (ed_isExecuting s \<longleftrightarrow> loop_cur (ed_loop s) \<noteq> None)"

lemma cur_inv_new: "cur_inv (ed_new t)"
  by (simp add: cur_inv_def ed_new_def)

text \<open>Starting a call changes the caller's position, and allocates the task it passes.\<close>

lemma start_call_same:
  assumes "start_call t c s = Some s'"
  shows "ed_queue s' = ed_queue s" "ed_loop s' = ed_loop s" "ed_isDying s' = ed_isDying s"
    "ed_isStopped s' = ed_isStopped s" "ed_isExecuting s' = ed_isExecuting s" "ed_thread s' = ed_thread s"
    "ed_taskCount s' = ed_taskCount s" "ed_owner s' = ed_owner s" "ed_accepted s' = ed_accepted s"
    "ed_popped s' = ed_popped s" "ed_ran s' = ed_ran s" "ed_deleted s' = ed_deleted s"
  using assms
  by (cases c; auto simp: start_call_def goto_def split: if_splits option.splits)+

lemma cur_inv_start: "cur_inv s \<Longrightarrow> start_call t c s = Some s' \<Longrightarrow> cur_inv s'"
  by (simp add: cur_inv_def start_call_same)

text \<open>What a call can change of the queue and of the flag that ends the loop.\<close>

lemma call_step_queue:
  assumes "call_step t s = Some (Inr s')"
  shows "(\<exists>ps. ed_queue s' = ed_queue s @ ps) \<and> (ed_isDying s \<longrightarrow> ed_isDying s') \<and> ed_isExecuting s' = ed_isExecuting s"
  using assms
  by (cases "ed_calls s t"; simp add: call_defs out_defs split: if_splits option.splits;
      auto simp: goto_def return_def loop_to_def)

lemma cur_inv_call:
  assumes "cur_inv s" "call_step t s = Some (Inr s')"
  shows "cur_inv s'"
proof -
  obtain ps where q: "ed_queue s' = ed_queue s @ ps" "ed_isDying s \<longrightarrow> ed_isDying s'" "ed_isExecuting s' = ed_isExecuting s"
    using call_step_queue [OF assms(2)] by blast
  consider "ed_loop s' = ed_loop s" | "ed_loop s = L_Wait" "ed_loop s' = L_Relock"
    using call_step_loop [OF assms(2)] by (auto split: if_splits)
  then show ?thesis
    using assms(1) q by cases (auto simp: cur_inv_def)
qed

lemma cur_inv_loop:
  assumes "cur_inv s" "loop_step s = Some (Inr s')"
  shows "cur_inv s'"
  using assms
  by (cases "ed_loop s"; simp add: loop_step_def out_defs cur_inv_def split: if_splits option.splits list.splits;
      auto simp: loop_to_def)

lemma task_inv_loop:
  assumes "task_inv s" "cur_inv s" "loop_step s = Some (Inr s')"
  shows "task_inv s'"
proof -
  have sl: "slot s None = loop_done (ed_loop s)" by (simp add: slot_def)
  show ?thesis
    using assms sl own_pop [of "slot s" _ _ "dom (ed_heap s)" "ed_next s" "ed_deleted s" None]
      own_delete [of "slot s" "ed_queue s" "dom (ed_heap s)" "ed_next s" "ed_deleted s" None]
    by (cases "ed_loop s"; simp add: loop_step_def out_defs task_inv_def cur_inv_def split: if_splits option.splits list.splits;
        auto simp: slot_upd slot_fun_upd_idem dom_del)
qed

section \<open>Mutual exclusion\<close>

lemma excl_calls:
  assumes "lock_inv s" "m \<in> call_holds (ed_calls s t)" "m \<in> call_holds (ed_calls s t')"
  shows "t = t'"
  using holds_unique [OF assms(1), of m t t'] assms(2,3) by (simp add: holds_def)

lemma excl_loop:
  assumes "lock_inv s" "reentry_inv s" "m \<in> loop_holds (ed_loop s)"
  shows "m \<notin> call_holds (ed_calls s t)"
proof
  assume t: "m \<in> call_holds (ed_calls s t)"
  then have "t = ed_thread s"
    using holds_unique [OF assms(1), of m t "ed_thread s"] assms(3) by (simp add: holds_def)
  moreover have "ed_calls s t \<noteq> Idle" using t by auto
  ultimately show False using assms(2,3) by (auto simp: reentry_inv_def)
qed

section \<open>Flags\<close>

fun in_dtor :: "call_pc \<Rightarrow> bool" where
  "in_dtor D_Lock = True" | "in_dtor D_SetStopped = True" | "in_dtor D_SetDying = True"
| "in_dtor D_Unlock = True" | "in_dtor D_Join = True" | "in_dtor _ = False"

definition flags_inv :: "'a ed \<Rightarrow> bool" where
  "flags_inv s \<longleftrightarrow>
     (ed_isDying s \<longrightarrow> ed_isStopped s \<and> ed_dtor s) \<and>
     (\<forall>t. ed_calls s t = D_SetDying \<longrightarrow> ed_isStopped s) \<and>
     (\<forall>t. in_dtor (ed_calls s t) \<longrightarrow> ed_dtor s) \<and>
     (ed_loop s = L_Leave \<or> ed_loop s = L_Returned \<longrightarrow>
        ed_isDying s \<and> ed_queue s = [] \<and> (\<forall>t p. ed_calls s t \<noteq> E_Push p))"

lemma flags_inv_new: "flags_inv (ed_new t)"
  by (simp add: flags_inv_def ed_new_def)

text \<open>The program counters a call starts with.\<close>

fun first_pc :: "call_pc \<Rightarrow> bool" where
  "first_pc (E_Lock p) = True" | "first_pc S_Lock = True" | "first_pc R_Lock = True"
| "first_pc B_Lock = True" | "first_pc P_Lock = True" | "first_pc D_Lock = True" | "first_pc _ = False"

lemma start_call_pc:
  assumes "start_call t c s = Some s'"
  shows "\<exists>pc. ed_calls s' = (ed_calls s)(t := pc) \<and> first_pc pc \<and> ed_calls s t = Idle \<and>
    ed_dtor s' = (ed_dtor s \<or> in_dtor pc)"
  using assms by (cases c; auto simp: start_call_def goto_def split: if_splits option.splits)

lemma flags_inv_start:
  assumes "flags_inv s" "start_call t c s = Some s'"
  shows "flags_inv s'"
proof -
  obtain pc where pc: "ed_calls s' = (ed_calls s)(t := pc)" "first_pc pc" "ed_dtor s' = (ed_dtor s \<or> in_dtor pc)"
    using start_call_pc [OF assms(2)] by blast
  have ne: "pc \<noteq> D_SetDying" "pc \<noteq> E_Push p" for p using pc(2) by auto
  show ?thesis
    using assms(1) ne unfolding flags_inv_def start_call_same [OF assms(2)] pc(1,3) by auto
qed

lemma loop_step_flags:
  assumes "loop_step s = Some (Inr s')"
  shows "ed_calls s' = ed_calls s" "ed_isDying s' = ed_isDying s" "ed_isStopped s' = ed_isStopped s"
    "ed_dtor s' = ed_dtor s"
    and "ed_loop s' = L_Leave \<or> ed_loop s' = L_Returned \<Longrightarrow>
      ed_queue s' = ed_queue s \<and> (ed_loop s = L_If \<and> ed_isDying s \<and> ed_queue s = [] \<or> ed_loop s = L_Leave)"
  using assms
  by (cases "ed_loop s"; simp add: loop_step_def out_defs split: if_splits option.splits list.splits;
      auto simp: loop_to_def)+

lemma flags_inv_loop:
  assumes "flags_inv s" "lock_inv s" "reentry_inv s" "loop_step s = Some (Inr s')"
  shows "flags_inv s'"
proof -
  have "ed_calls s t \<noteq> E_Push p" if "QueueMutex \<in> loop_holds (ed_loop s)" for t p
    using excl_loop [OF assms(2,3) that, of t] by (cases "ed_calls s t") auto
  then have x: "QueueMutex \<in> loop_holds (ed_loop s) \<longrightarrow> (\<forall>t p. ed_calls s t \<noteq> E_Push p)" by blast
  note F = loop_step_flags [OF assms(4)]
  have "ed_isDying s' \<and> ed_queue s' = [] \<and> (\<forall>t p. ed_calls s' t \<noteq> E_Push p)"
    if l: "ed_loop s' = L_Leave \<or> ed_loop s' = L_Returned"
  proof -
    from F(5) [OF l] have q: "ed_queue s' = ed_queue s" and
      l': "ed_loop s = L_If \<and> ed_isDying s \<and> ed_queue s = [] \<or> ed_loop s = L_Leave" by blast+
    from l' have "QueueMutex \<in> loop_holds (ed_loop s)" by auto
    then show ?thesis using x l' q assms(1) unfolding F flags_inv_def by auto
  qed
  then show ?thesis using assms(1) unfolding flags_inv_def F(1-4) by blast
qed

text \<open>A step of a call, by what it does to the flags and to the caller.\<close>

lemma call_step_flags:
  assumes "call_step t s = Some (Inr s')"
  shows "ed_dtor s' = ed_dtor s"
    and "ed_isDying s' = (ed_isDying s \<or> ed_calls s t = D_SetDying)"
    and "ed_isStopped s' = (if ed_calls s t = S_Set \<or> ed_calls s t = D_SetStopped then True
           else if ed_calls s t = R_Test \<and> \<not> ed_isDying s then False else ed_isStopped s)"
    and "in_dtor (ed_calls s' t) \<Longrightarrow> in_dtor (ed_calls s t)"
    and "ed_calls s' t = D_SetDying \<Longrightarrow> ed_calls s t = D_SetStopped"
    and "ed_calls s' t = E_Push p \<Longrightarrow> ed_calls s t = E_Test (Some p) \<and> \<not> ed_isStopped s"
  using assms
  by (cases "ed_calls s t"; simp add: call_defs out_defs split: if_splits option.splits;
      auto simp: goto_def return_def loop_to_def split: if_splits option.splits)+

lemma call_step_calls:
  assumes "call_step t s = Some (Inr s')" "t' \<noteq> t"
  shows "ed_calls s' t' = ed_calls s t'"
  using call_step_lock [OF assms(1)] assms(2) by blast

lemma flags_inv_call:
  assumes "flags_inv s" "lock_inv s" "call_step t s = Some (Inr s')"
  shows "flags_inv s'"
proof -
  note F = call_step_flags [OF assms(3)] and C = call_step_calls [OF assms(3)]
  note I = assms(1) [unfolded flags_inv_def]
  have stop: "ed_isStopped s'" if "ed_isStopped s" "ed_calls s t \<noteq> R_Test \<or> ed_isDying s"
    using F(3) that by auto
  have dying: "ed_isDying s' \<longrightarrow> ed_isStopped s' \<and> ed_dtor s'"
  proof (cases "ed_calls s t = D_SetDying")
    case True
    then have "in_dtor (ed_calls s t)" by simp
    then have "ed_dtor s" using I by blast
    then show ?thesis using True F(1,2,3) I by auto
  next
    case False
    then show ?thesis using F(1,2,3) I by auto
  qed
  have set: "ed_isStopped s'" if t': "ed_calls s' t' = D_SetDying" for t'
  proof (cases "t' = t")
    case True
    then have "ed_calls s t = D_SetStopped" using F(5) t' by blast
    then show ?thesis using F(3) by simp
  next
    case False
    then have c: "ed_calls s t' = D_SetDying" using C t' by metis
    moreover have "ed_calls s t \<noteq> R_Test"
      using excl_calls [OF assms(2), of StoppedMutex t' t] c False by auto
    ultimately show ?thesis using stop I by blast
  qed
  have dtor: "ed_dtor s'" if "in_dtor (ed_calls s' t')" for t'
    using F(1,4) C I that by (metis (no_types))
  have gone: "ed_isDying s' \<and> ed_queue s' = [] \<and> (\<forall>t p. ed_calls s' t \<noteq> E_Push p)"
    if l: "ed_loop s' = L_Leave \<or> ed_loop s' = L_Returned"
  proof -
    have l': "ed_loop s = L_Leave \<or> ed_loop s = L_Returned"
      using l call_step_loop [OF assms(3)] by (auto split: if_splits)
    then have J: "ed_isDying s" "ed_isStopped s" "ed_queue s = []" "\<forall>t p. ed_calls s t \<noteq> E_Push p"
      using I by blast+
    have "ed_queue s' = []"
      using assms(3) J(3,4)
      by (cases "ed_calls s t"; simp add: call_defs out_defs split: if_splits option.splits;
          auto simp: goto_def return_def loop_to_def)
    moreover have "ed_calls s' t' \<noteq> E_Push p" for t' p
      using J(2,4) C F(6) by (metis (no_types))
    ultimately show ?thesis using J(1) F(2) by blast
  qed
  show ?thesis unfolding flags_inv_def using dying set dtor gone by blast
qed

section \<open>Counters\<close>

text \<open>
  The tasks that are counted: those in the queue, without the one that a call has pushed but
  not counted yet, and with the one that the loop has popped but still counts.
\<close>

fun entering :: "call_pc \<Rightarrow> addr option" where
  "entering (E_LockC p) = Some p"
| "entering (E_Inc p) = Some p"
| "entering _ = None"

fun leaving :: "loop_pc \<Rightarrow> addr set" where
  "leaving (L_LockC p) = {p}"
| "leaving (L_Dec p) = {p}"
| "leaving _ = {}"

definition counted :: "'a ed \<Rightarrow> addr set" where
  "counted s = (set (ed_queue s) - {p. \<exists>t. entering (ed_calls s t) = Some p}) \<union> leaving (ed_loop s)"

definition task_id :: "'a ed \<Rightarrow> addr \<Rightarrow> task_group_id" where
  "task_id s p = (case ed_heap s p of None \<Rightarrow> 0 | Some ut \<Rightarrow> ut_id ut)"

definition counts :: "task_count_map \<Rightarrow> (addr \<Rightarrow> task_group_id) \<Rightarrow> addr set \<Rightarrow> bool" where
  "counts m f C \<longleftrightarrow> finite C \<and> (\<forall>i. tc_get m i = of_nat (card {p \<in> C. f p = i})) \<and> tc_sum m = of_nat (card C)"

lemma counts_add:
  assumes "counts m f C" "p \<notin> C"
  shows "counts (tc_update (f p) (\<lambda>n. n + 1) m) f (insert p C)"
proof -
  have "card {q \<in> insert p C. f q = i} = (if i = f p then Suc (card {q \<in> C. f q = i}) else card {q \<in> C. f q = i})" for i
  proof (cases "i = f p")
    case True
    then have "{q \<in> insert p C. f q = i} = insert p {q \<in> C. f q = i}" by auto
    then show ?thesis using True assms by (simp add: counts_def)
  next
    case False
    then have "{q \<in> insert p C. f q = i} = {q \<in> C. f q = i}" by auto
    then show ?thesis using False by simp
  qed
  then show ?thesis using assms by (simp add: counts_def tc_get_update tc_sum_update)
qed

lemma counts_remove:
  assumes "counts m f C" "p \<in> C"
  shows "counts (tc_update (f p) (\<lambda>n. n - 1) m) f (C - {p})"
proof -
  have fin: "finite C" using assms(1) by (simp add: counts_def)
  have c: "(of_nat (card (C - {p})) :: size_t) = of_nat (card C) - 1"
    by (simp only: card_Suc_Diff1 [OF fin assms(2), symmetric] of_nat_Suc) simp
  have g: "of_nat (card {q \<in> C - {p}. f q = i}) = (of_nat (card {q \<in> C. f q = i}) :: size_t) - (if i = f p then 1 else 0)" for i
  proof (cases "i = f p")
    case True
    have e: "{q \<in> C - {p}. f q = i} = {q \<in> C. f q = i} - {p}" by auto
    have "card {q \<in> C. f q = i} = Suc (card ({q \<in> C. f q = i} - {p}))"
      using card_Suc_Diff1 [of "{q \<in> C. f q = i}" p] fin assms(2) True by simp
    then show ?thesis unfolding e using True by simp
  next
    case False
    then have "{q \<in> C - {p}. f q = i} = {q \<in> C. f q = i}" by auto
    then show ?thesis using False by simp
  qed
  have "tc_sum (tc_update (f p) (\<lambda>n. n - 1) m) = of_nat (card (C - {p}))"
    unfolding c using assms(1) by (simp add: counts_def tc_sum_update)
  moreover have "tc_get (tc_update (f p) (\<lambda>n. n - 1) m) i = of_nat (card {q \<in> C - {p}. f q = i})" for i
    unfolding g using assms(1) by (simp add: counts_def tc_get_update)
  ultimately show ?thesis unfolding counts_def using fin by blast
qed

lemma counts_cong:
  assumes fg: "\<forall>p \<in> C. f p = g p"
  shows "counts m f C = counts m g C"
proof -
  have e: "{p \<in> C. f p = i} = {p \<in> C. g p = i}" for i
  proof (rule Collect_cong)
    fix p show "(p \<in> C \<and> f p = i) = (p \<in> C \<and> g p = i)" using bspec [OF fg, of p] by (cases "p \<in> C") auto
  qed
  show ?thesis unfolding counts_def e ..
qed

definition entered :: "'a ed \<Rightarrow> addr set" where
  "entered s = {p. \<exists>t. entering (ed_calls s t) = Some p}"

definition count_inv :: "'a ed \<Rightarrow> bool" where
  "count_inv s \<longleftrightarrow> counts (ed_taskCount s) (task_id s) (counted s) \<and> entered s \<subseteq> set (ed_queue s)"

lemma counted_eq: "counted s = (set (ed_queue s) - entered s) \<union> leaving (ed_loop s)"
  by (simp add: counted_def entered_def)

lemma count_inv_new: "count_inv (ed_new t)"
  by (simp add: count_inv_def entered_def counted_def counts_def ed_new_def tc_get_def tc_sum_def)

lemma entered_call:
  assumes "lock_inv s" "QueueMutex \<in> call_holds (ed_calls s t)"
  shows "entered s = set_option (entering (ed_calls s t))"
proof -
  have "t' = t" if "entering (ed_calls s t') = Some p" for t' p
    using excl_calls [OF assms(1) _ assms(2), of t'] that by (cases "ed_calls s t'") auto
  then have "(\<exists>t'. entering (ed_calls s t') = Some p) \<longleftrightarrow> entering (ed_calls s t) = Some p" for p by metis
  then show ?thesis unfolding entered_def by (auto simp: elem_set)
qed

lemma entered_loop:
  assumes "lock_inv s" "reentry_inv s" "QueueMutex \<in> loop_holds (ed_loop s)"
  shows "entered s = {}"
proof -
  have "entering (ed_calls s t) = None" for t
    using excl_loop [OF assms, of t] by (cases "ed_calls s t") auto
  then show ?thesis by (simp add: entered_def)
qed

text \<open>A counted task is live, is not owned by a call, and is owned by the loop only while it leaves.\<close>

lemma counted_live:
  assumes "task_inv s" "count_inv s" "p \<in> counted s"
  shows "p \<in> dom (ed_heap s)" "slot s (Some t) \<noteq> Some p" "slot s None = Some p \<Longrightarrow> p \<in> leaving (ed_loop s)"
proof -
  note I = own_invD [OF assms(1) [unfolded task_inv_def]]
  have l: "slot s None = Some p" if "p \<in> leaving (ed_loop s)"
    using that by (cases "ed_loop s") (auto simp: slot_def)
  have r: "slot s k = Some p \<Longrightarrow> p \<in> ran (slot s)" for k by (rule ranI)
  have c: "p \<in> set (ed_queue s) \<or> p \<in> leaving (ed_loop s)" using assms(3) by (auto simp: counted_eq)
  then show "p \<in> dom (ed_heap s)" using I(5) l r by blast
  show "slot s (Some t) \<noteq> Some p"
  proof
    assume t: "slot s (Some t) = Some p"
    then have "p \<notin> set (ed_queue s)" using I(4) r by blast
    then have "slot s None = Some p" using c l by blast
    moreover have "inj_on (slot s) (dom (slot s))" by (rule I(3))
    ultimately have "None = Some t" using t by (metis domI inj_onD)
    then show False by simp
  qed
  show "slot s None = Some p \<Longrightarrow> p \<in> leaving (ed_loop s)" using c I(4) r by blast
qed

lemma count_inv_same:
  assumes "task_inv s" "count_inv s" "ed_taskCount s' = ed_taskCount s" "set (ed_queue s') = set (ed_queue s)"
    and "entered s' = entered s" "leaving (ed_loop s') = leaving (ed_loop s)"
    and "\<forall>p \<in> counted s. ed_heap s' p = ed_heap s p"
  shows "count_inv s'"
proof -
  have "counted s' = counted s" by (simp add: counted_eq assms)
  moreover have "counts (ed_taskCount s) (task_id s') (counted s) = counts (ed_taskCount s) (task_id s) (counted s)"
    by (rule counts_cong) (use assms(7) in \<open>simp add: task_id_def\<close>)
  ultimately show ?thesis using assms by (simp add: count_inv_def)
qed

lemma entered_upd:
  assumes "entering (ed_calls s t) = entering pc"
  shows "{p. \<exists>t'. entering (((ed_calls s)(t := pc)) t') = Some p} = entered s"
  using assms unfolding entered_def by (auto split: if_splits) metis+

lemma count_inv_start:
  assumes "task_inv s" "count_inv s" "start_call t c s = Some s'"
  shows "count_inv s'"
proof -
  obtain pc where pc: "ed_calls s' = (ed_calls s)(t := pc)" "first_pc pc" "ed_calls s t = Idle"
    using start_call_pc [OF assms(3)] by blast
  have e: "entered s' = entered s"
    using entered_upd [of s t pc] pc by (cases pc) (simp_all add: entered_def)
  have fresh: "ed_next s \<notin> counted s"
  proof
    assume "ed_next s \<in> counted s"
    from counted_live(1) [OF assms(1,2) this] show False
      using own_invD(7) [OF assms(1) [unfolded task_inv_def]] by blast
  qed
  have "ed_heap s' p = ed_heap s p" if "p \<noteq> ed_next s" for p
    using assms(3) that by (cases c) (auto simp: start_call_def goto_def split: if_splits option.splits)
  then have "\<forall>p \<in> counted s. ed_heap s' p = ed_heap s p" using fresh by metis
  then show ?thesis
    by (intro count_inv_same [OF assms(1,2)] e) (simp_all add: start_call_same [OF assms(3)])
qed

text \<open>The steps of the loop that touch the counters or the tasks.\<close>

lemma count_inv_loop:
  assumes inv: "task_inv s" "count_inv s" "cur_inv s" "lock_inv s" "reentry_inv s"
    and step: "loop_step s = Some (Inr s')"
  shows "count_inv s'"
proof -
  have calls: "entered s' = entered s" using loop_step_flags(1) [OF step] by (simp add: entered_def)
  note I = own_invD [OF inv(1) [unfolded task_inv_def]]
  have none: "slot s None = loop_done (ed_loop s)" by (simp add: slot_def)
  consider p where "ed_loop s = L_Pop p" | p where "ed_loop s = L_Dec p" | p where "ed_loop s = L_Delete p"
    | "\<forall>p. ed_loop s \<noteq> L_Pop p \<and> ed_loop s \<noteq> L_Dec p \<and> ed_loop s \<noteq> L_Delete p" by blast
  then show ?thesis
  proof cases
    case (1 p)
    obtain q where q: "ed_queue s = p # q" using inv(3) 1 by (auto simp: cur_inv_def)
    have e: "entered s = {}" by (rule entered_loop [OF inv(4,5)]) (simp add: 1)
    have s': "s' = loop_to (L_LockC p) (s\<lparr>ed_queue := q, ed_isExecuting := False, ed_popped := ed_popped s @ [p]\<rparr>)"
      using step by (simp add: loop_step_def 1 q out_defs)
    have "counted s' = counted s"
      unfolding counted_eq calls e using 1 q by (simp add: s' loop_to_def)
    moreover have "ed_taskCount s' = ed_taskCount s" "task_id s' = task_id s"
      by (simp_all add: s' loop_to_def task_id_def fun_eq_iff)
    ultimately show ?thesis using inv(2) calls e by (simp add: count_inv_def)
  next
    case (2 p)
    have e: "entered s = {}" by (rule entered_loop [OF inv(4,5)]) (simp add: 2)
    have pq: "p \<notin> set (ed_queue s)" using I(4) ranI [of "slot s" None p] none 2 by auto
    obtain ut where ut: "ed_heap s p = Some ut" using step by (auto simp: loop_step_def 2 out_defs split: option.splits)
    have s': "s' = loop_to (L_UnlockC p) (s\<lparr>ed_taskCount := tc_update (ut_id ut) (\<lambda>n. n - 1) (ed_taskCount s)\<rparr>)"
      using step by (simp add: loop_step_def 2 out_defs ut)
    have "counted s' = counted s - {p}"
      unfolding counted_eq calls e using 2 pq by (simp add: s' loop_to_def)
    moreover have "task_id s' = task_id s" "ut_id ut = task_id s p"
      using ut by (simp_all add: s' loop_to_def task_id_def fun_eq_iff)
    moreover have "p \<in> counted s" using 2 by (simp add: counted_eq)
    ultimately show ?thesis
      using inv(2) calls e counts_remove [of "ed_taskCount s" "task_id s" "counted s" p]
      by (simp add: count_inv_def) (simp add: s' loop_to_def)
  next
    case (3 p)
    have "p \<notin> counted s" using counted_live(3) [OF inv(1,2), of p] none 3 by auto
    moreover have "ed_heap s' q = ed_heap s q" if "q \<noteq> p" for q
      using step that by (auto simp: loop_step_def 3 out_defs loop_to_def split: option.splits)
    ultimately have h: "\<forall>q \<in> counted s. ed_heap s' q = ed_heap s q" by metis
    have "ed_taskCount s' = ed_taskCount s" "ed_queue s' = ed_queue s" "leaving (ed_loop s') = {}"
      using step by (auto simp: loop_step_def 3 out_defs loop_to_def split: option.splits)
    then show ?thesis using 3 by (intro count_inv_same [OF inv(1,2) _ _ calls _ h]) simp_all
  next
    case 4
    have "ed_taskCount s' = ed_taskCount s \<and> ed_queue s' = ed_queue s \<and> leaving (ed_loop s') = leaving (ed_loop s) \<and> ed_heap s' = ed_heap s"
      using 4 step
      by (cases "ed_loop s"; simp add: loop_step_def out_defs split: if_splits option.splits list.splits;
          auto simp: loop_to_def)
    then show ?thesis by (intro count_inv_same [OF inv(1,2) _ _ calls]) simp_all
  qed
qed

lemma count_inv_call:
  assumes inv: "task_inv s" "count_inv s" "lock_inv s" and step: "call_step t s = Some (Inr s')"
  shows "count_inv s'"
proof -
  note I = own_invD [OF inv(1) [unfolded task_inv_def]]
  have slt: "slot s (Some t) = carried (ed_calls s t)" by (simp add: slot_def)
  have leave: "leaving (ed_loop s') = leaving (ed_loop s)" using call_step_loop [OF step] by simp
  have upd: "ed_calls s' = (ed_calls s)(t := ed_calls s' t)"
    using call_step_calls [OF step] by (auto simp: fun_eq_iff)
  consider p where "ed_calls s t = E_Push p" | p where "ed_calls s t = E_Inc p" | p where "ed_calls s t = E_Discard p"
    | "\<forall>p. ed_calls s t \<noteq> E_Push p \<and> ed_calls s t \<noteq> E_Inc p \<and> ed_calls s t \<noteq> E_Discard p" by blast
  then show ?thesis
  proof cases
    case (1 p)
    have s': "s' = goto t (E_LockC p) (s\<lparr>ed_queue := ed_queue s @ [p], ed_accepted := ed_accepted s @ [p]\<rparr>)"
      using step by (simp add: call_step_def enqueue_step_def 1 out_defs)
    have e: "entered s = {}" using entered_call [OF inv(3), of t] 1 by simp
    then have "\<forall>t' q. entering (ed_calls s t') \<noteq> Some q" by (auto simp: entered_def)
    then have e': "entered s' = {p}" unfolding entered_def by (auto simp: s' goto_def split: if_splits)
    have "p \<notin> counted s" using counted_live(2) [OF inv(1,2), of p t] slt 1 by auto
    then have "counted s' = counted s"
      unfolding counted_eq e e' leave by (auto simp: s')
    moreover have "ed_taskCount s' = ed_taskCount s" "task_id s' = task_id s"
      by (simp_all add: s' goto_def task_id_def fun_eq_iff)
    ultimately show ?thesis using inv(2) e' by (simp add: count_inv_def s')
  next
    case (2 p)
    obtain ut where ut: "ed_heap s p = Some ut"
      using step by (auto simp: call_step_def enqueue_step_def 2 out_defs split: option.splits)
    have s': "s' = goto t E_UnlockC (s\<lparr>ed_taskCount := tc_update (ut_id ut) (\<lambda>n. n + 1) (ed_taskCount s)\<rparr>)"
      using step by (simp add: call_step_def enqueue_step_def 2 out_defs ut)
    have e: "entered s = {p}" using entered_call [OF inv(3), of t] 2 by simp
    have "t' = t" if "entering (ed_calls s t') = Some q" for t' q
      using excl_calls [OF inv(3), of QueueMutex t' t] that 2 by (cases "ed_calls s t'") auto
    then have "\<forall>t' q. t' \<noteq> t \<longrightarrow> entering (ed_calls s t') \<noteq> Some q" by blast
    then have e': "entered s' = {}" unfolding entered_def by (auto simp: s' goto_def split: if_splits)
    have p: "p \<in> set (ed_queue s)" using inv(2) e by (simp add: count_inv_def)
    have l: "p \<notin> leaving (ed_loop s)"
    proof
      assume "p \<in> leaving (ed_loop s)"
      then have "slot s None = Some p" by (cases "ed_loop s") (auto simp: slot_def)
      then show False using I(4) p ranI [of "slot s" None p] by blast
    qed
    have "counted s' = insert p (counted s)" "p \<notin> counted s"
      unfolding counted_eq e e' leave using p l by (auto simp: s')
    moreover have "task_id s' = task_id s" "ut_id ut = task_id s p"
      using ut by (simp_all add: s' goto_def task_id_def fun_eq_iff)
    ultimately show ?thesis
      using inv(2) e' counts_add [of "ed_taskCount s" "task_id s" "counted s" p]
      by (simp add: count_inv_def) (simp add: s' goto_def)
  next
    case (3 p)
    have pc: "ed_calls s' t = E_Unlock" using step
      by (auto simp: call_step_def enqueue_step_def 3 out_defs goto_def split: option.splits)
    have ent: "entered s' = entered s"
      using entered_upd [of s t "ed_calls s' t"] 3 pc unfolding entered_def by (subst upd) simp
    have "p \<notin> counted s" using counted_live(2) [OF inv(1,2), of p t] slt 3 by auto
    moreover have "ed_heap s' q = ed_heap s q" if "q \<noteq> p" for q
      using step that by (auto simp: call_step_def enqueue_step_def 3 out_defs goto_def split: option.splits)
    ultimately have h: "\<forall>q \<in> counted s. ed_heap s' q = ed_heap s q" by metis
    have "ed_taskCount s' = ed_taskCount s" "ed_queue s' = ed_queue s"
      using step by (auto simp: call_step_def enqueue_step_def 3 out_defs goto_def split: option.splits)
    then show ?thesis by (intro count_inv_same [OF inv(1,2) _ _ ent leave h]) simp_all
  next
    case 4
    have "ed_taskCount s' = ed_taskCount s \<and> ed_queue s' = ed_queue s \<and> ed_heap s' = ed_heap s \<and>
        entering (ed_calls s' t) = entering (ed_calls s t)"
      using 4 step
      by (cases "ed_calls s t"; simp add: call_defs out_defs split: if_splits option.splits;
          auto simp: goto_def return_def loop_to_def split: option.splits)
    moreover from this have ent: "entered s' = entered s"
      using entered_upd [of s t "ed_calls s' t"] unfolding entered_def by (subst upd) simp
    ultimately show ?thesis by (intro count_inv_same [OF inv(1,2) _ _ ent leave]) simp_all
  qed
qed

section \<open>History and wakeups\<close>

fun cur_ran :: "loop_pc \<Rightarrow> addr list" where
  "cur_ran (L_Exec p) = [p]"
| "cur_ran (L_Lock2 p) = [p]"
| "cur_ran (L_Pop p) = [p]"
| "cur_ran _ = []"

definition hist_inv :: "'a ed \<Rightarrow> bool" where
  "hist_inv s \<longleftrightarrow>
     ed_accepted s = ed_popped s @ ed_queue s \<and>
     subseq (ed_ran s) (ed_popped s @ cur_ran (ed_loop s)) \<and>
     (\<not> ed_isDying s \<longrightarrow> ed_ran s = ed_popped s @ cur_ran (ed_loop s))"

lemma hist_inv_new: "hist_inv (ed_new t)"
  by (simp add: hist_inv_def ed_new_def)

lemma hist_inv_start: "hist_inv s \<Longrightarrow> start_call t c s = Some s' \<Longrightarrow> hist_inv s'"
  by (simp add: hist_inv_def start_call_same)

lemma call_step_hist:
  assumes "call_step t s = Some (Inr s')"
  shows "\<exists>ps. ed_queue s' = ed_queue s @ ps \<and> ed_accepted s' = ed_accepted s @ ps"
    "ed_popped s' = ed_popped s" "ed_ran s' = ed_ran s" "cur_ran (ed_loop s') = cur_ran (ed_loop s)"
  using assms
  by (cases "ed_calls s t"; simp add: call_defs out_defs split: if_splits option.splits;
      auto simp: goto_def return_def loop_to_def)+

lemma hist_inv_call:
  assumes "hist_inv s" "call_step t s = Some (Inr s')"
  shows "hist_inv s'"
proof -
  obtain ps where "ed_queue s' = ed_queue s @ ps" "ed_accepted s' = ed_accepted s @ ps"
    using call_step_hist(1) [OF assms(2)] by blast
  then show ?thesis
    using assms(1) call_step_hist(2-4) [OF assms(2)] call_step_queue [OF assms(2)]
    by (simp add: hist_inv_def) blast
qed

lemma hist_inv_loop:
  assumes "hist_inv s" "cur_inv s" "loop_step s = Some (Inr s')"
  shows "hist_inv s'"
  using assms
  by (cases "ed_loop s"; simp add: loop_step_def out_defs hist_inv_def cur_inv_def split: if_splits option.splits list.splits;
      auto simp: loop_to_def intro: subseq_append' list_emb_append2 subseq_rev_drop_many)

text \<open>What was popped is deleted, or is about to be; the tasks of the run keep their contents.\<close>

definition past_inv :: "'a ed \<Rightarrow> bool" where
  "past_inv s \<longleftrightarrow>
     distinct (ed_popped s) \<and> set (ed_popped s) \<subseteq> set (ed_deleted s) \<union> set_option (loop_done (ed_loop s)) \<and>
     (\<forall>p ut. ed_heap s p = Some ut \<longrightarrow> ed_tasks s p = Some ut)"

lemma past_inv_new: "past_inv (ed_new t)"
  by (simp add: past_inv_def ed_new_def)

lemma past_inv_start:
  assumes "past_inv s" "start_call t c s = Some s'"
  shows "past_inv s'"
proof -
  have "\<forall>p ut. ed_heap s' p = Some ut \<longrightarrow> ed_tasks s' p = Some ut"
    using assms by (cases c) (auto simp: past_inv_def start_call_def goto_def split: if_splits option.splits)
  then show ?thesis using assms(1) by (simp add: past_inv_def start_call_same [OF assms(2)])
qed

lemma call_step_past:
  assumes "call_step t s = Some (Inr s')"
  shows "set (ed_deleted s) \<subseteq> set (ed_deleted s')" "ed_tasks s' = ed_tasks s"
    "ed_heap s' p = None \<or> ed_heap s' p = ed_heap s p" "loop_done (ed_loop s') = loop_done (ed_loop s)"
  using assms
  by (cases "ed_calls s t"; simp add: call_defs out_defs split: if_splits option.splits;
      auto simp: goto_def return_def loop_to_def)+

lemma past_inv_call:
  assumes "past_inv s" "call_step t s = Some (Inr s')"
  shows "past_inv s'"
proof -
  have "\<forall>p ut. ed_heap s' p = Some ut \<longrightarrow> ed_tasks s' p = Some ut"
    using assms(1) call_step_past(2,3) [OF assms(2)] unfolding past_inv_def by (metis option.distinct(1))
  then show ?thesis
    using assms(1) call_step_past(1,4) [OF assms(2)] call_step_hist(2) [OF assms(2)]
    unfolding past_inv_def by auto
qed

lemma loop_step_past:
  assumes "loop_step s = Some (Inr s')"
  shows "ed_tasks s' = ed_tasks s" "ed_heap s' p = None \<or> ed_heap s' p = ed_heap s p"
    and "\<forall>p. ed_loop s \<noteq> L_Pop p \<Longrightarrow> ed_popped s' = ed_popped s \<and>
      set (ed_deleted s) \<union> set_option (loop_done (ed_loop s)) \<subseteq> set (ed_deleted s') \<union> set_option (loop_done (ed_loop s'))"
  using assms
  by (cases "ed_loop s"; simp add: loop_step_def out_defs split: if_splits option.splits list.splits;
      auto simp: loop_to_def)+

lemma past_inv_loop:
  assumes "past_inv s" "task_inv s" "cur_inv s" "loop_step s = Some (Inr s')"
  shows "past_inv s'"
proof (cases "\<exists>p. ed_loop s = L_Pop p")
  case True
  then obtain p q where p: "ed_loop s = L_Pop p" "ed_queue s = p # q" using assms(3) by (auto simp: cur_inv_def)
  have "p \<notin> set (ed_deleted s)"
    using own_invD(5,6) [OF assms(2) [unfolded task_inv_def]] p(2) by auto
  then have "p \<notin> set (ed_popped s)" using assms(1) p(1) by (auto simp: past_inv_def)
  then show ?thesis
    using assms(1,4) p by (auto simp: past_inv_def loop_step_def out_defs loop_to_def)
next
  case False
  have "\<forall>p ut. ed_heap s' p = Some ut \<longrightarrow> ed_tasks s' p = Some ut"
    using assms(1) loop_step_past(1,2) [OF assms(4)] unfolding past_inv_def by (metis option.distinct(1))
  then show ?thesis
    using assms(1) loop_step_past(3) [OF assms(4)] False unfolding past_inv_def by auto
qed

text \<open>When the loop sleeps on a non-empty queue, the call that filled it is about to signal.\<close>

fun signalling :: "call_pc \<Rightarrow> bool" where
  "signalling (E_LockC p) = True" | "signalling (E_Inc p) = True" | "signalling E_UnlockC = True"
| "signalling E_Signal = True" | "signalling _ = False"

definition wait_inv :: "'a ed \<Rightarrow> bool" where
  "wait_inv s \<longleftrightarrow> (ed_loop s = L_Wait \<and> ed_queue s \<noteq> [] \<longrightarrow> (\<exists>t. signalling (ed_calls s t)))"

lemma wait_inv_new: "wait_inv (ed_new t)"
  by (simp add: wait_inv_def ed_new_def)

lemma wait_inv_start:
  assumes "wait_inv s" "start_call t c s = Some s'"
  shows "wait_inv s'"
proof -
  obtain pc where pc: "ed_calls s' = (ed_calls s)(t := pc)" "ed_calls s t = Idle"
    using start_call_pc [OF assms(2)] by blast
  have "signalling (ed_calls s t') \<Longrightarrow> signalling (ed_calls s' t')" for t'
    using pc by (cases "t' = t") auto
  then show ?thesis using assms(1) start_call_same(1,2) [OF assms(2)] unfolding wait_inv_def by metis
qed

lemma wait_inv_loop:
  assumes "loop_step s = Some (Inr s')"
  shows "wait_inv s'"
  using assms
  by (cases "ed_loop s"; simp add: loop_step_def out_defs wait_inv_def split: if_splits option.splits list.splits;
      auto simp: loop_to_def)

lemma call_step_wait:
  assumes "call_step t s = Some (Inr s')"
  shows "signalling (ed_calls s t) \<Longrightarrow> signalling (ed_calls s' t) \<or> ed_calls s t = E_Signal"
    and "ed_queue s' = ed_queue s \<or> signalling (ed_calls s' t)"
  using assms
  by (cases "ed_calls s t"; simp add: call_defs out_defs split: if_splits option.splits;
      auto simp: goto_def return_def loop_to_def)+

lemma wait_inv_call:
  assumes "wait_inv s" "call_step t s = Some (Inr s')"
  shows "wait_inv s'"
  unfolding wait_inv_def
proof (intro impI)
  assume w: "ed_loop s' = L_Wait \<and> ed_queue s' \<noteq> []"
  have l: "ed_loop s = L_Wait" "ed_calls s t \<noteq> E_Signal"
    using w call_step_loop [OF assms(2)] by (auto split: if_splits)
  show "\<exists>t. signalling (ed_calls s' t)"
  proof (cases "ed_queue s' = ed_queue s")
    case True
    then obtain t' where t': "signalling (ed_calls s t')" using assms(1) w l unfolding wait_inv_def by metis
    show ?thesis
    proof (cases "t' = t")
      case True
      then show ?thesis using call_step_wait(1) [OF assms(2)] t' l by blast
    next
      case False
      then show ?thesis using call_step_calls [OF assms(2) False] t' by metis
    qed
  next
    case False
    then show ?thesis using call_step_wait(2) [OF assms(2)] by blast
  qed
qed

section \<open>All invariants in every reachable state\<close>

definition ed_inv :: "'a ed \<Rightarrow> bool" where
  "ed_inv s \<longleftrightarrow> lock_inv s \<and> reentry_inv s \<and> task_inv s \<and> cur_inv s \<and> flags_inv s \<and> count_inv s \<and>
     hist_inv s \<and> wait_inv s \<and> past_inv s"

lemma ed_invD:
  assumes "ed_inv s"
  shows "lock_inv s" "reentry_inv s" "task_inv s" "cur_inv s" "flags_inv s" "count_inv s" "hist_inv s" "wait_inv s"
    "past_inv s"
  using assms by (simp_all add: ed_inv_def)

lemma ed_inv_step:
  assumes inv: "ed_inv s" and step: "ed_step s (Inr s')"
  shows "ed_inv s'"
proof -
  note I = ed_invD [OF inv]
  consider (Start) t c where "start_call t c s = Some s'" | (Call) t where "call_step t s = Some (Inr s')"
    | (Loop) "loop_step s = Some (Inr s')"
    using step by (auto elim: ed_stepE)
  then show ?thesis
  proof cases
    case (Start t c)
    then show ?thesis unfolding ed_inv_def
      using lock_inv_start [OF I(1,2) Start] task_inv_start [OF I(3) Start] cur_inv_start [OF I(4) Start]
        flags_inv_start [OF I(5) Start] count_inv_start [OF I(3,6) Start] hist_inv_start [OF I(7) Start]
        wait_inv_start [OF I(8) Start] past_inv_start [OF I(9) Start]
      by simp
  next
    case (Call t)
    then show ?thesis unfolding ed_inv_def
      using lock_inv_call [OF I(1,2) Call] task_inv_call [OF I(3) Call] cur_inv_call [OF I(4) Call]
        flags_inv_call [OF I(5,1) Call] count_inv_call [OF I(3,6,1) Call] hist_inv_call [OF I(7) Call]
        wait_inv_call [OF I(8) Call] past_inv_call [OF I(9) Call]
      by simp
  next
    case Loop
    then show ?thesis unfolding ed_inv_def
      using lock_inv_loop [OF I(1,2) Loop] task_inv_loop [OF I(3,4) Loop] cur_inv_loop [OF I(4) Loop]
        flags_inv_loop [OF I(5,1,2) Loop] count_inv_loop [OF I(3,6,4,1,2) Loop] hist_inv_loop [OF I(7,4) Loop]
        wait_inv_loop [OF Loop] past_inv_loop [OF I(9,3,4) Loop]
      by simp
  qed
qed

lemma ed_inv_reach: "ed_reach t0 s \<Longrightarrow> ed_inv s"
proof (induction rule: ed_reach.induct)
  case init
  show ?case unfolding ed_inv_def
    by (simp add: lock_inv_new task_inv_new cur_inv_new flags_inv_new count_inv_new hist_inv_new wait_inv_new
        past_inv_new)
next
  case (step s s')
  then show ?case using ed_inv_step by blast
qed

end
