(* ===== verification/EventProps.thy ===== *)
theory EventProps
  imports EventInv
begin

text \<open>
  The properties of the event dispatcher, for every interleaving of its loop with any number of
  threads that call it: no fault, tasks run once and in the order in which they were accepted,
  no task leaks, the counters are exact, locks are taken in the documented order and never
  deadlock, no wakeup is lost, and the loop gets through its queue.
\<close>

section \<open>Safety of every step\<close>

lemma queued_live: "ed_inv s \<Longrightarrow> p \<in> set (ed_queue s) \<Longrightarrow> p \<in> dom (ed_heap s)"
  using own_invD(5) [OF ed_invD(3) [unfolded task_inv_def]] by blast

lemma slot_live: "ed_inv s \<Longrightarrow> slot s k = Some p \<Longrightarrow> p \<in> dom (ed_heap s)"
  using own_invD(5) [OF ed_invD(3) [unfolded task_inv_def]] ranI by fast

lemma loop_no_fault:
  assumes inv: "ed_inv s" shows "loop_step s \<noteq> Some (Inl f)"
proof
  assume f: "loop_step s = Some (Inl f)"
  have sl: "slot s None = loop_done (ed_loop s)" by (simp add: slot_def)
  have cur: "loop_cur (ed_loop s) = Some p \<Longrightarrow> p \<in> dom (ed_heap s) \<and> ed_queue s \<noteq> []" for p
    using ed_invD(4) [OF inv] queued_live [OF inv] unfolding cur_inv_def by (metis list.distinct(1) list.set_intros(1))
  have front: "ed_loop s = L_Front \<Longrightarrow> ed_queue s \<noteq> []"
    using ed_invD(4) [OF inv] unfolding cur_inv_def by blast
  have past: "loop_done (ed_loop s) = Some p \<Longrightarrow> p \<in> dom (ed_heap s)" for p
    using slot_live [OF inv, of None p] sl by simp
  from f show False
    using cur front past
    by (cases "ed_loop s"; simp add: loop_step_def out_defs split: if_splits option.splits list.splits; auto)
qed

lemma call_no_fault:
  assumes inv: "ed_inv s" shows "call_step t s \<noteq> Some (Inl f)"
proof
  assume f: "call_step t s = Some (Inl f)"
  have sl: "slot s (Some t) = carried (ed_calls s t)" by (simp add: slot_def)
  have own: "carried (ed_calls s t) = Some p \<Longrightarrow> p \<in> dom (ed_heap s)" for p
    using slot_live [OF inv, of "Some t" p] sl by simp
  have ent: "entering (ed_calls s t) = Some p \<Longrightarrow> p \<in> dom (ed_heap s)" for p
    using ed_invD(6) [OF inv] queued_live [OF inv] unfolding count_inv_def entered_def by blast
  from f show False
    using own ent
    by (cases "ed_calls s t"; simp add: call_defs out_defs split: if_splits option.splits; auto)
qed

text \<open>
  C11: No reachable step of any thread faults: the loop never looks at the front of an empty
  queue, no task is used after it was deleted, and none is deleted twice.
\<close>

theorem dispatcher_never_faults:
  assumes "ed_reach t0 s" shows "\<not> ed_step s (Inl f)"
  using loop_no_fault [OF ed_inv_reach [OF assms]] call_no_fault [OF ed_inv_reach [OF assms]]
  by (auto elim!: ed_stepE)

theorem dispatcher_never_faults_witness:
  "\<exists>s :: nat ed. ed_calls s 1 = E_Lock (Some 0) \<and> (\<forall>f. \<not> ed_step s (Inl f))"
proof -
  let ?s = "goto 1 (E_Lock (Some 0)) ((ed_new 0 :: nat ed)
      \<lparr>ed_heap := [0 \<mapsto> UnitTask 5], ed_next := 1, ed_tasks := [0 \<mapsto> UnitTask 5]\<rparr>)"
  have "start_call 1 (Enqueue (Some (UnitTask 5))) (ed_new 0) = Some ?s"
    by (simp add: start_call_def ed_new_def)
  then have "ed_reach 0 ?s" by (rule ed_reach.step [OF ed_reach.init ed_step.Start])
  from dispatcher_never_faults [OF this] show ?thesis by (intro exI [of _ ?s]) (simp add: goto_def)
qed

section \<open>Order\<close>

lemma subseq_distinct: "subseq xs ys \<Longrightarrow> distinct ys \<Longrightarrow> distinct xs"
proof (induction rule: list_emb.induct)
  case (list_emb_Cons2 x y xs ys)
  then show ?case using list_emb_set [of "(=)" xs ys x] by auto
qed auto

lemma accepted_distinct:
  assumes inv: "ed_inv s" shows "distinct (ed_accepted s)"
proof -
  note I = own_invD [OF ed_invD(3) [OF inv, unfolded task_inv_def]]
  have "slot s None = loop_done (ed_loop s)" by (simp add: slot_def)
  then have "set_option (loop_done (ed_loop s)) \<inter> set (ed_queue s) = {}"
    using I(4) ranI [of "slot s" None] by (auto simp: elem_set)
  then have "set (ed_popped s) \<inter> set (ed_queue s) = {}"
    using ed_invD(9) [OF inv] I(5,6) unfolding past_inv_def by blast
  moreover have "distinct (ed_popped s)" using ed_invD(9) [OF inv] unfolding past_inv_def by blast
  moreover have "ed_accepted s = ed_popped s @ ed_queue s" using ed_invD(7) [OF inv] unfolding hist_inv_def by blast
  ultimately show ?thesis using I(1) by simp
qed

lemma cur_ran_prefix:
  assumes "cur_inv s" shows "\<exists>q. ed_queue s = cur_ran (ed_loop s) @ q"
  using assms by (cases "ed_loop s") (auto simp: cur_inv_def)

text \<open>
  C12: Tasks run in the order in which they were accepted, each at most once and one at a time:
  the tasks run so far are a subsequence of the accepted ones, without repetition. While the
  dispatcher is not being destroyed none is skipped: what ran is a prefix of what was accepted,
  and what has not run is in the queue.
\<close>

theorem tasks_run_in_order:
  assumes "ed_reach t0 s"
  shows "subseq (ed_ran s) (ed_accepted s) \<and> distinct (ed_ran s) \<and>
    (\<not> ed_isDying s \<longrightarrow> (\<exists>rest. ed_accepted s = ed_ran s @ rest \<and> set rest \<subseteq> set (ed_queue s)))"
proof -
  note inv = ed_inv_reach [OF assms]
  note H = ed_invD(7) [OF inv, unfolded hist_inv_def]
  obtain q where q: "ed_queue s = cur_ran (ed_loop s) @ q" using cur_ran_prefix [OF ed_invD(4) [OF inv]] ..
  have a: "ed_accepted s = (ed_popped s @ cur_ran (ed_loop s)) @ q" using H q by simp
  have sub: "subseq (ed_ran s) (ed_accepted s)" unfolding a using H subseq_rev_drop_many by blast
  moreover have "distinct (ed_ran s)" using subseq_distinct [OF sub accepted_distinct [OF inv]] .
  moreover have "\<exists>rest. ed_accepted s = ed_ran s @ rest \<and> set rest \<subseteq> set (ed_queue s)" if "\<not> ed_isDying s"
  proof -
    have "ed_ran s = ed_popped s @ cur_ran (ed_loop s)" using H that by blast
    then show ?thesis using a q by auto
  qed
  ultimately show ?thesis by blast
qed

text \<open>A concrete run, for the instances: steps of the loop and of one caller, by fuel.\<close>

fun loop_run :: "nat \<Rightarrow> 'a ed \<Rightarrow> 'a outcome" where
  "loop_run 0 s = ok_step s"
| "loop_run (Suc k) s = (case loop_step s of Some (Inr s') \<Rightarrow> loop_run k s' | x \<Rightarrow> x)"

fun call_run :: "tid \<Rightarrow> nat \<Rightarrow> 'a ed \<Rightarrow> 'a outcome" where
  "call_run t 0 s = ok_step s"
| "call_run t (Suc k) s = (case call_step t s of Some (Inr s') \<Rightarrow> call_run t k s' | x \<Rightarrow> x)"

lemma loop_run_reach: "ed_reach t0 s \<Longrightarrow> loop_run k s = Some (Inr s') \<Longrightarrow> ed_reach t0 s'"
proof (induction k arbitrary: s)
  case (Suc k)
  obtain s1 where s1: "loop_step s = Some (Inr s1)" "loop_run k s1 = Some (Inr s')"
    using Suc.prems(2) by (auto split: option.splits sum.splits)
  show ?case by (rule Suc.IH [OF ed_reach.step [OF Suc.prems(1) ed_step.Loop [OF s1(1)]] s1(2)])
qed (simp add: ok_step_def)

lemma call_run_reach: "ed_reach t0 s \<Longrightarrow> call_run t k s = Some (Inr s') \<Longrightarrow> ed_reach t0 s'"
proof (induction k arbitrary: s)
  case (Suc k)
  obtain s1 where s1: "call_step t s = Some (Inr s1)" "call_run t k s1 = Some (Inr s')"
    using Suc.prems(2) by (auto split: option.splits sum.splits)
  show ?case by (rule Suc.IH [OF ed_reach.step [OF Suc.prems(1) ed_step.Call [OF s1(1)]] s1(2)])
qed (simp add: ok_step_def)

lemma start_reach: "ed_reach t0 s \<Longrightarrow> start_call t c s = Some s' \<Longrightarrow> ed_reach t0 s'"
  by (rule ed_reach.step [OF _ ed_step.Start])

text \<open>A whole call of \<open>enqueueTask\<close> by a thread that meets no contention.\<close>

lemma enqueue_alone:
  assumes "ed_calls s t = Idle" "t = ed_thread s \<longrightarrow> (\<exists>p. ed_loop s = L_Exec p)" "\<forall>m. ed_owner s m = None"
    and "\<not> ed_isStopped s"
  shows "\<exists>s1 s'. start_call t (Enqueue (Some ut)) s = Some s1 \<and> call_run t 8 s1 = Some (Inr s') \<and>
    ed_queue s' = ed_queue s @ [ed_next s] \<and> ed_accepted s' = ed_accepted s @ [ed_next s] \<and>
    ed_heap s' = (ed_heap s)(ed_next s \<mapsto> ut) \<and> ed_next s' = Suc (ed_next s) \<and>
    ed_calls s' = ed_calls s \<and> (\<forall>m. ed_owner s' m = None) \<and> ed_ret s' t = Some (RBool True) \<and>
    ed_isStopped s' = ed_isStopped s \<and> ed_isDying s' = ed_isDying s \<and> ed_thread s' = ed_thread s \<and>
    ed_ran s' = ed_ran s \<and> ed_dtor s' = ed_dtor s \<and> ed_loop s' = (if ed_loop s = L_Wait then L_Relock else ed_loop s)"
proof -
  have o: "ed_owner s m = None" for m using assms(3) by simp
  have c: "(ed_calls s)(t := Idle) = ed_calls s" using assms(1) by auto
  show ?thesis
    using assms(1,2,4)
    by (simp add: start_call_def eval_nat_numeral call_step_def enqueue_step_def step_defs o c)
qed

text \<open>A reachable state with two accepted tasks, and no thread inside a call.\<close>

lemma reach_two:
  obtains s :: "nat ed" where "ed_reach 0 s" "ed_queue s = [0, 1]" "ed_accepted s = [0, 1]" "ed_ran s = []"
    "\<forall>t. ed_calls s t = Idle" "\<forall>m. ed_owner s m = None" "ed_loop s = L_Lock" "\<not> ed_isDying s" "\<not> ed_isStopped s"
    "ed_thread s = 0" "\<not> ed_dtor s"
proof -
  let ?n = "ed_new 0 :: nat ed"
  have n: "ed_calls ?n t = Idle" "ed_owner ?n m = None" "\<not> ed_isStopped ?n" "ed_thread ?n = 0" "ed_queue ?n = []"
      "ed_accepted ?n = []" "ed_ran ?n = []" "ed_next ?n = 0" "ed_loop ?n = L_Lock" "\<not> ed_isDying ?n" "\<not> ed_dtor ?n" for t m
    by (simp_all add: ed_new_def)
  obtain s1 s2 where 1: "start_call 1 (Enqueue (Some (UnitTask 10))) ?n = Some s1" "call_run 1 8 s1 = Some (Inr s2)"
      "ed_queue s2 = [0]" "ed_accepted s2 = [0]" "ed_next s2 = 1" "ed_calls s2 = ed_calls ?n" "\<forall>m. ed_owner s2 m = None"
      "\<not> ed_isStopped s2" "\<not> ed_isDying s2" "ed_thread s2 = 0" "ed_ran s2 = []" "ed_loop s2 = L_Lock" "\<not> ed_dtor s2"
    using enqueue_alone [of ?n 1 "UnitTask 10"] n by auto
  obtain s3 s4 where 2: "start_call 1 (Enqueue (Some (UnitTask 20))) s2 = Some s3" "call_run 1 8 s3 = Some (Inr s4)"
      "ed_queue s4 = [0, 1]" "ed_accepted s4 = [0, 1]" "ed_calls s4 = ed_calls ?n" "\<forall>m. ed_owner s4 m = None"
      "\<not> ed_isStopped s4" "\<not> ed_isDying s4" "ed_thread s4 = 0" "ed_ran s4 = []" "ed_loop s4 = L_Lock" "\<not> ed_dtor s4"
    using enqueue_alone [of s2 1 "UnitTask 20"] 1 n by auto
  have "ed_reach 0 s4"
    using call_run_reach [OF start_reach [OF call_run_reach [OF start_reach [OF ed_reach.init 1(1)] 1(2)] 2(1)] 2(2)] .
  then show ?thesis using that 2 n by simp
qed

theorem tasks_run_in_order_witness:
  "\<exists>s :: nat ed. ed_accepted s = [0, 1] \<and> subseq (ed_ran s) [0, 1] \<and>
     (\<exists>rest. ed_accepted s = ed_ran s @ rest \<and> set rest \<subseteq> set (ed_queue s))"
proof -
  obtain s :: "nat ed" where s: "ed_reach 0 s" "ed_accepted s = [0, 1]" "\<not> ed_isDying s" by (rule reach_two)
  from tasks_run_in_order [OF s(1)] s show ?thesis by (intro exI [of _ s]) simp
qed

section \<open>Progress of the loop\<close>

lemma loop_run_add:
  "loop_run j s = Some (Inr s1) \<Longrightarrow> loop_run k s1 = r \<Longrightarrow> loop_run (j + k) s = r"
  by (induction j arbitrary: s) (auto simp: ok_step_def split: option.splits sum.splits)

text \<open>One round of the loop: the front task is run, or skipped when the dispatcher is dying.\<close>

lemma loop_round:
  assumes "ed_loop s = L_Lock" "ed_queue s = p # q" "\<forall>m. ed_owner s m = None"
    and "ed_calls s (ed_thread s) = Idle" "ed_heap s p = Some ut"
  shows "\<exists>k s'. loop_run k s = Some (Inr s') \<and> ed_loop s' = L_Lock \<and> ed_queue s' = q \<and>
    (\<forall>m. ed_owner s' m = None) \<and> ed_calls s' = ed_calls s \<and> ed_thread s' = ed_thread s \<and>
    ed_heap s' = (ed_heap s)(p := None) \<and> ed_isDying s' = ed_isDying s \<and>
    ed_ran s' = (if ed_isDying s then ed_ran s else ed_ran s @ [p])"
proof -
  have o: "ed_owner s m = None" for m using assms(3) by simp
  show ?thesis
  proof (cases "ed_isDying s")
    case True
    then show ?thesis using assms
      by (intro exI [of _ 13]) (simp add: eval_nat_numeral loop_step_def step_defs o)
  next
    case False
    then show ?thesis using assms
      by (intro exI [of _ 14]) (simp add: eval_nat_numeral loop_step_def step_defs o)
  qed
qed

lemma loop_drains:
  "ed_loop s = L_Lock \<Longrightarrow> \<forall>m. ed_owner s m = None \<Longrightarrow> ed_calls s (ed_thread s) = Idle \<Longrightarrow>
   set (ed_queue s) \<subseteq> dom (ed_heap s) \<Longrightarrow> distinct (ed_queue s) \<Longrightarrow>
     \<exists>k s'. loop_run k s = Some (Inr s') \<and> ed_loop s' = L_Lock \<and> ed_queue s' = [] \<and>
       (\<forall>m. ed_owner s' m = None) \<and> ed_calls s' = ed_calls s \<and>
       ed_isDying s' = ed_isDying s \<and> ed_heap s' = ed_heap s |` (- set (ed_queue s)) \<and>
       ed_ran s' = (if ed_isDying s then ed_ran s else ed_ran s @ ed_queue s)"
proof (induction "ed_queue s" arbitrary: s)
  case Nil
  have "ed_heap s |` (- {}) = ed_heap s" by (auto simp: restrict_map_def)
  then show ?case using Nil by (intro exI [of _ 0] exI [of _ s]) (simp add: ok_step_def)
next
  case (Cons p q)
  obtain ut where ut: "ed_heap s p = Some ut" using Cons.prems(4) Cons.hyps(2) [symmetric] by auto
  obtain j s1 where 1: "loop_run j s = Some (Inr s1)" "ed_loop s1 = L_Lock" "ed_queue s1 = q"
      "\<forall>m. ed_owner s1 m = None" "ed_calls s1 = ed_calls s" "ed_thread s1 = ed_thread s"
      "ed_heap s1 = (ed_heap s)(p := None)" "ed_isDying s1 = ed_isDying s"
      "ed_ran s1 = (if ed_isDying s then ed_ran s else ed_ran s @ [p])"
    using loop_round [OF Cons.prems(1) Cons.hyps(2) [symmetric] Cons.prems(2,3) ut] by blast
  have "set (ed_queue s1) \<subseteq> dom (ed_heap s1)" "distinct (ed_queue s1)"
    using Cons.prems(4,5) Cons.hyps(2) [symmetric] 1(3,7) by auto
  then obtain k s' where 2: "loop_run k s1 = Some (Inr s')" "ed_loop s' = L_Lock" "ed_queue s' = []"
       "\<forall>m. ed_owner s' m = None" "ed_calls s' = ed_calls s1"
       "ed_isDying s' = ed_isDying s1" "ed_heap s' = ed_heap s1 |` (- set (ed_queue s1))"
       "ed_ran s' = (if ed_isDying s1 then ed_ran s1 else ed_ran s1 @ ed_queue s1)"
    using Cons.hyps(1) [of s1] 1 Cons.prems(3) by auto
  have "ed_heap s' = ed_heap s |` (- set (ed_queue s))"
    unfolding 2(7) 1(3,7) Cons.hyps(2) [symmetric] by (auto simp: restrict_map_def fun_eq_iff)
  then show ?case
    using loop_run_add [OF 1(1) 2(1)] 1 2 Cons.hyps(2) [symmetric] by (intro exI [of _ "j + k"] exI [of _ s']) simp
qed

text \<open>No call holds a mutex or owns a task: each thread is outside, or waits in the join.\<close>

definition quiescent :: "'a ed \<Rightarrow> bool" where
  "quiescent s \<longleftrightarrow> (\<forall>t. ed_calls s t = Idle \<or> t \<noteq> ed_thread s \<and> ed_calls s t = D_Join)"

lemma quiescent_free:
  assumes inv: "ed_inv s" and q: "quiescent s" and l: "loop_holds (ed_loop s) = {}"
  shows "ed_owner s m = None" "ed_calls s (ed_thread s) = Idle" "slot s (Some t) = None"
proof -
  have pc: "ed_calls s t = Idle \<or> ed_calls s t = D_Join" for t using q unfolding quiescent_def by blast
  have "holds s t = {}" for t using pc [of t] l by (auto simp: holds_def)
  then show "ed_owner s m = None" using ed_invD(1) [OF inv] unfolding lock_inv_def by (cases "ed_owner s m") auto
  show "ed_calls s (ed_thread s) = Idle" using q unfolding quiescent_def by blast
  show "slot s (Some t) = None" using pc [of t] by (auto simp: slot_def)
qed

text \<open>
  C13: The loop gets through its queue: from the top of the loop or from its sleep, with no call in
  progress, it runs all queued tasks in their order (those that call back into the dispatcher
  aside), deletes each, and comes back to its wait, where it sleeps on an empty queue and holds no
  mutex.
\<close>

theorem loop_runs_all_queued:
  assumes "ed_reach t0 s" and "quiescent s" and "ed_loop s \<in> {L_Lock, L_Wait, L_Relock}" and "\<not> ed_isDying s"
  shows "\<exists>k s'. loop_run k s = Some (Inr s') \<and> ed_loop s' = L_Wait \<and> ed_queue s' = [] \<and> (\<forall>m. ed_owner s' m = None) \<and>
    ed_ran s' = ed_ran s @ ed_queue s \<and> ed_heap s' = Map.empty"
proof -
  note inv = ed_inv_reach [OF assms(1)]
  note I = own_invD [OF ed_invD(3) [OF inv, unfolded task_inv_def]]
  have l: "loop_holds (ed_loop s) = {}" "loop_done (ed_loop s) = None" using assms(3) by auto
  note Q = quiescent_free [OF inv assms(2) l(1)]
  have "slot s k = None" for k using Q(3) l(2) by (cases k) (simp_all add: slot_def)
  then have "ran (slot s) = {}" by (simp add: ran_def)
  then have D: "dom (ed_heap s) = set (ed_queue s)" using I(5) by simp
  then have e: "ed_heap s |` (- set (ed_queue s)) = Map.empty" by (auto simp: restrict_map_def fun_eq_iff)
  let ?s = "loop_to L_Lock s"
  have "ed_calls ?s (ed_thread ?s) = Idle" "set (ed_queue ?s) \<subseteq> dom (ed_heap ?s)" "distinct (ed_queue ?s)" "ed_loop ?s = L_Lock"
    "\<forall>m. ed_owner ?s m = None"
    using Q D I(1) by (simp_all add: loop_to_def)
  then obtain k s1 where 1: "loop_run k ?s = Some (Inr s1)" "ed_loop s1 = L_Lock" "ed_queue s1 = []" "\<forall>m. ed_owner s1 m = None"
      "\<not> ed_isDying s1" "ed_heap s1 = Map.empty" "ed_ran s1 = ed_ran s @ ed_queue s"
    using loop_drains [of ?s] e assms(4) by (auto simp: loop_to_def)
  have o: "ed_owner s1 m = None" for m using 1(4) by simp
  obtain s' where s': "loop_run 2 s1 = Some (Inr s')" "ed_loop s' = L_Wait" "ed_queue s' = []" "\<forall>m. ed_owner s' m = None"
      "ed_ran s' = ed_ran s1" "ed_heap s' = Map.empty"
    using 1 by (simp add: eval_nat_numeral loop_step_def step_defs o)
  have run: "loop_run (k + 2) ?s = Some (Inr s')" by (rule loop_run_add [OF 1(1) s'(1)])
  have top: "loop_step ?s = loop_step (loop_to L_Relock s)" by (simp add: loop_step_def loop_to_def acquire_def after_def ok_step_def blocked_def)
  then have relock: "loop_run (k + 2) (loop_to L_Relock s) = Some (Inr s')" using run by (simp add: numeral_2_eq_2)
  have "\<exists>j. loop_run j s = Some (Inr s')"
    using assms(3)
  proof (elim insertE emptyE)
    assume "ed_loop s = L_Lock"
    then have "?s = s" by (cases s) (simp add: loop_to_def)
    then have "loop_run (k + 2) s = Some (Inr s')" using run by (simp only:)
    then show ?thesis by blast
  next
    assume "ed_loop s = L_Relock"
    then have "loop_to L_Relock s = s" by (cases s) (simp add: loop_to_def)
    then have "loop_run (k + 2) s = Some (Inr s')" using relock by (simp only:)
    then show ?thesis by blast
  next
    assume "ed_loop s = L_Wait"
    then have "loop_run (Suc (k + 2)) s = Some (Inr s')" using relock by (simp add: loop_step_def ok_step_def)
    then show ?thesis by blast
  qed
  then show ?thesis using s' 1(7) by auto
qed

theorem loop_runs_all_queued_witness:
  "\<exists>(s :: nat ed) k s'. ed_queue s = [0, 1] \<and> loop_run k s = Some (Inr s') \<and> ed_ran s' = [0, 1] \<and> ed_queue s' = []"
proof -
  obtain s :: "nat ed" where s: "ed_reach 0 s" "ed_queue s = [0, 1]" "ed_ran s = []" "\<forall>t. ed_calls s t = Idle"
    "ed_loop s = L_Lock" "\<not> ed_isDying s" by (rule reach_two)
  from loop_runs_all_queued [OF s(1) _ _ s(6)] s show ?thesis by (auto simp: quiescent_def)
qed

text \<open>How far a dying loop is from its return; each of its steps brings it closer.\<close>

fun loop_rank :: "loop_pc \<Rightarrow> nat" where
  "loop_rank L_Returned = 0" | "loop_rank (L_Pop p) = 0" | "loop_rank (L_Lock2 p) = 1" | "loop_rank (L_Exec p) = 2"
| "loop_rank (L_RunTest p) = 3" | "loop_rank (L_Unlock p) = 4" | "loop_rank L_Front = 5" | "loop_rank L_Leave = 5"
| "loop_rank L_If = 6" | "loop_rank L_While = 7" | "loop_rank L_Lock = 8" | "loop_rank L_Relock = 8" | "loop_rank L_Wait = 9"
| "loop_rank (L_Delete p) = 9" | "loop_rank (L_Unlock2 p) = 10" | "loop_rank (L_UnlockC p) = 11" | "loop_rank (L_Dec p) = 12"
| "loop_rank (L_LockC p) = 13"

definition distance :: "'a ed \<Rightarrow> nat" where
  "distance s = 20 * length (ed_queue s) + loop_rank (ed_loop s)"

lemma quiescent_owner:
  assumes inv: "ed_inv s" and q: "quiescent s" and m: "m \<notin> loop_holds (ed_loop s)"
  shows "ed_owner s m = None"
proof (cases "ed_owner s m")
  case (Some t)
  have "ed_calls s t = Idle \<or> ed_calls s t = D_Join" using q unfolding quiescent_def by blast
  then have "m \<notin> holds s t" using m by (auto simp: holds_def)
  then show ?thesis using ed_invD(1) [OF inv] Some unfolding lock_inv_def by blast
qed

lemma dying_step:
  assumes r: "ed_reach t0 s" and q: "quiescent s" and d: "ed_isDying s" and l: "ed_loop s \<noteq> L_Returned"
  shows "\<exists>s'. loop_step s = Some (Inr s') \<and> quiescent s' \<and> ed_isDying s' \<and> ed_calls s' = ed_calls s \<and> ed_ran s' = ed_ran s \<and>
    distance s' < distance s"
proof -
  note inv = ed_inv_reach [OF r]
  note o = quiescent_owner [OF inv q]
  note I = own_invD [OF ed_invD(3) [OF inv, unfolded task_inv_def]]
  have idle: "ed_calls s (ed_thread s) = Idle" using q unfolding quiescent_def by blast
  have cur: "\<exists>x. ed_queue s = p # x" if "loop_cur (ed_loop s) = Some p" for p
    using ed_invD(4) [OF inv] that unfolding cur_inv_def by blast
  have front: "ed_queue s \<noteq> []" if "ed_loop s = L_Front" using ed_invD(4) [OF inv] that unfolding cur_inv_def by blast
  have heap: "\<exists>ut. ed_heap s p = Some ut" if "loop_done (ed_loop s) = Some p" for p
  proof -
    have "p \<in> ran (slot s)" using that by (auto simp: ran_def slot_def intro: exI [of _ None])
    then show ?thesis using I(5) by auto
  qed
  show ?thesis
    using q d l
    by (cases "ed_loop s"; insert idle cur front heap o)
      (auto simp: loop_step_def step_defs distance_def quiescent_def neq_Nil_conv split: if_splits)
qed

lemma dying_run:
  "ed_reach t0 s \<Longrightarrow> quiescent s \<Longrightarrow> ed_isDying s \<Longrightarrow>
    \<exists>k s'. loop_run k s = Some (Inr s') \<and> ed_loop s' = L_Returned \<and> quiescent s' \<and> ed_calls s' = ed_calls s \<and> ed_ran s' = ed_ran s"
proof (induction "distance s" arbitrary: s rule: less_induct)
  case less
  show ?case
  proof (cases "ed_loop s = L_Returned")
    case True
    then show ?thesis using less.prems(2) by (intro exI [of _ 0] exI [of _ s]) (simp add: ok_step_def)
  next
    case False
    obtain s1 where 1: "loop_step s = Some (Inr s1)" "quiescent s1" "ed_isDying s1" "ed_calls s1 = ed_calls s" "ed_ran s1 = ed_ran s"
      "distance s1 < distance s"
      using dying_step [OF less.prems False] by blast
    obtain k s' where "loop_run k s1 = Some (Inr s')" "ed_loop s' = L_Returned" "quiescent s'" "ed_calls s' = ed_calls s1" "ed_ran s' = ed_ran s1"
      using less.hyps [OF 1(6) ed_reach.step [OF less.prems(1) ed_step.Loop [OF 1(1)]] 1(2,3)] by blast
    then show ?thesis using 1 by (intro exI [of _ "Suc k"] exI [of _ s']) simp
  qed
qed

text \<open>
  C14: The destructor ends: once \<open>isDying_\<close> is set, the loop returns after finitely many of its
  own steps, wherever it is, asleep in \<open>timedWait\<close> or in the middle of a task; it does not start
  another task, every task that was in the queue is deleted, and the join becomes possible.
\<close>

theorem dying_loop_returns:
  assumes "ed_reach t0 s" and "quiescent s" and "ed_isDying s"
  shows "\<exists>k s'. loop_run k s = Some (Inr s') \<and> ed_loop s' = L_Returned \<and> ed_queue s' = [] \<and>
    ed_ran s' = ed_ran s \<and> ed_heap s' = Map.empty \<and>
    (\<forall>t. ed_calls s t = D_Join \<longrightarrow> (\<exists>s''. call_step t s' = Some (Inr s'') \<and> ed_calls s'' t = Idle))"
proof -
  obtain k s' where s': "loop_run k s = Some (Inr s')" "ed_loop s' = L_Returned" "quiescent s'" "ed_calls s' = ed_calls s" "ed_ran s' = ed_ran s"
    using dying_run [OF assms] by blast
  note inv = ed_inv_reach [OF loop_run_reach [OF assms(1) s'(1)]]
  note I = own_invD [OF ed_invD(3) [OF inv, unfolded task_inv_def]]
  have q: "ed_queue s' = []" using ed_invD(5) [OF inv] s'(2) unfolding flags_inv_def by blast
  have l: "loop_holds (ed_loop s') = {}" using s'(2) by simp
  have "slot s' j = None" for j using quiescent_free(3) [OF inv s'(3) l] s'(2) by (cases j) (simp_all add: slot_def)
  then have "ran (slot s') = {}" by (simp add: ran_def)
  then have "ed_heap s' = Map.empty" using I(5) q by simp
  moreover have "\<exists>s''. call_step t s' = Some (Inr s'') \<and> ed_calls s'' t = Idle" if "ed_calls s t = D_Join" for t
    using that s'(2,4) by (simp add: call_step_def dtor_step_def step_defs)
  ultimately show ?thesis using s' q by blast
qed

lemma dying_reach:
  obtains s :: "nat ed" where "ed_reach 0 s" "quiescent s" "ed_loop s = L_Lock" "ed_isDying s" "ed_queue s = [0, 1]"
    "ed_calls s 1 = D_Join" "ed_ran s = []"
proof -
  obtain s :: "nat ed" where s: "ed_reach 0 s" "ed_queue s = [0, 1]" "ed_ran s = []" "\<forall>t. ed_calls s t = Idle"
    "\<forall>m. ed_owner s m = None" "ed_loop s = L_Lock" "ed_thread s = 0" "\<not> ed_dtor s" by (rule reach_two)
  show ?thesis
  proof -
    have o: "ed_owner s m = None" for m using s(5) by simp
    obtain s1 s2 where 1: "start_call 1 Destroy s = Some s1" "call_run 1 4 s1 = Some (Inr s2)"
      "ed_loop s2 = L_Lock" "ed_isDying s2" "ed_queue s2 = [0, 1]" "ed_calls s2 = (ed_calls s)(1 := D_Join)"
      "ed_ran s2 = []" "ed_thread s2 = 0"
      using s by (simp add: start_call_def eval_nat_numeral call_step_def dtor_step_def step_defs o)
    have "ed_reach 0 s2" by (rule call_run_reach [OF start_reach [OF s(1) 1(1)] 1(2)])
    moreover have "quiescent s2" using 1 s by (simp add: quiescent_def)
    ultimately show ?thesis using that 1 by simp
  qed
qed

text \<open>A dispatcher that sleeps, and that its owner destroys.\<close>

lemma dying_asleep:
  obtains s :: "nat ed" where "ed_reach 0 s" "quiescent s" "ed_loop s = L_Wait" "ed_isDying s" "ed_calls s 1 = D_Join" "ed_ran s = []"
proof -
  let ?n = "ed_new 0 :: nat ed"
  obtain s0 where 0: "loop_run 2 ?n = Some (Inr s0)" "ed_loop s0 = L_Wait" "ed_calls s0 = (\<lambda>_. Idle)" "\<forall>m. ed_owner s0 m = None"
    "ed_ran s0 = []" "\<not> ed_dtor s0" "ed_thread s0 = 0"
    by (simp add: ed_new_def eval_nat_numeral loop_step_def step_defs)
  have o: "ed_owner s0 m = None" for m using 0(4) by simp
  obtain s1 s2 where 1: "start_call 1 Destroy s0 = Some s1" "call_run 1 4 s1 = Some (Inr s2)"
    "ed_loop s2 = L_Wait" "ed_isDying s2" "ed_calls s2 = (\<lambda>_. Idle)(1 := D_Join)" "ed_ran s2 = []" "ed_thread s2 = 0"
    using 0 by (simp add: start_call_def eval_nat_numeral call_step_def dtor_step_def step_defs o)
  have "ed_reach 0 s2" by (rule call_run_reach [OF start_reach [OF loop_run_reach [OF ed_reach.init 0(1)] 1(1)] 1(2)])
  moreover have "quiescent s2" using 1 by (simp add: quiescent_def)
  ultimately show ?thesis using that 1 by simp
qed

theorem dying_loop_returns_witness:
  "\<exists>(s :: nat ed) k s'. ed_loop s = L_Wait \<and> ed_calls s 1 = D_Join \<and> loop_run k s = Some (Inr s') \<and>
     ed_loop s' = L_Returned \<and> ed_ran s' = [] \<and> ed_heap s' = Map.empty"
proof -
  obtain s :: "nat ed" where s: "ed_reach 0 s" "quiescent s" "ed_loop s = L_Wait" "ed_isDying s" "ed_calls s 1 = D_Join" "ed_ran s = []"
    by (rule dying_asleep)
  from dying_loop_returns [OF s(1,2,4)] s show ?thesis by auto
qed

text \<open>
  C15: After the loop has returned, nothing is accepted and nothing runs any more, whatever calls
  follow (\<open>resume\<close> included); and when no call is in progress every task that was ever passed to
  the dispatcher has been deleted exactly once.
\<close>

theorem after_return:
  assumes "ed_reach t0 s" and "ed_loop s = L_Returned"
  shows "(\<forall>s'. ed_step s (Inr s') \<longrightarrow>
      ed_loop s' = L_Returned \<and> ed_accepted s' = ed_accepted s \<and> ed_ran s' = ed_ran s) \<and>
    ((\<forall>t. ed_calls s t = Idle) \<longrightarrow>
      ed_heap s = Map.empty \<and> distinct (ed_deleted s) \<and> set (ed_deleted s) = {..<ed_next s})"
proof (intro conjI allI impI)
  note inv = ed_inv_reach [OF assms(1)]
  note F = ed_invD(5) [OF inv, unfolded flags_inv_def]
  fix s' assume "ed_step s (Inr s')"
  then consider (Start) t c where "start_call t c s = Some s'" | (Call) t where "call_step t s = Some (Inr s')"
    | (Loop) "loop_step s = Some (Inr s')"
    by (auto elim: ed_stepE)
  then have "ed_loop s' = L_Returned \<and> ed_accepted s' = ed_accepted s \<and> ed_ran s' = ed_ran s"
  proof cases
    case (Start t c)
    then show ?thesis using assms(2) by (simp add: start_call_same [OF Start])
  next
    case (Call t)
    have "flags_inv s'" using ed_inv_step [OF inv ed_step.Call [OF Call]] ed_invD(5) by blast
    moreover have l: "ed_loop s' = L_Returned" using call_step_loop [OF Call] assms(2) by simp
    ultimately have "ed_queue s' = []" "ed_queue s = []" using F assms(2) unfolding flags_inv_def by blast+
    then show ?thesis using call_step_hist(1,3) [OF Call] l by auto
  next
    case Loop
    then show ?thesis using assms(2) by (simp add: loop_step_def blocked_def)
  qed
  then show "ed_loop s' = L_Returned" "ed_accepted s' = ed_accepted s" "ed_ran s' = ed_ran s" by blast+
next
  note inv = ed_inv_reach [OF assms(1)]
  note I = own_invD [OF ed_invD(3) [OF inv, unfolded task_inv_def]]
  assume idle: "\<forall>t. ed_calls s t = Idle"
  have "ed_queue s = []" using ed_invD(5) [OF inv] assms(2) unfolding flags_inv_def by blast
  moreover have "slot s k = None" for k using idle assms(2) by (cases k) (simp_all add: slot_def)
  then have "ran (slot s) = {}" by (simp add: ran_def)
  ultimately have "dom (ed_heap s) = {}" using I(5) by simp
  then show "ed_heap s = Map.empty" "distinct (ed_deleted s)" "set (ed_deleted s) = {..<ed_next s}"
    using I(2,7) by auto
qed

theorem after_return_witness:
  "\<exists>s :: nat ed. ed_loop s = L_Returned \<and> (\<forall>s'. ed_step s (Inr s') \<longrightarrow> ed_loop s' = L_Returned)"
proof -
  obtain s :: "nat ed" where s: "ed_reach 0 s" "quiescent s" "ed_loop s = L_Lock" "ed_isDying s" "ed_queue s = [0, 1]"
    "ed_calls s 1 = D_Join" "ed_ran s = []" by (rule dying_reach)
  note inv = ed_inv_reach [OF s(1)]
  note I = own_invD [OF ed_invD(3) [OF inv, unfolded task_inv_def]]
  have l: "loop_holds (ed_loop s) = {}" using s(3) by simp
  note Q = quiescent_free [OF inv s(2) l]
  obtain k s1 where 1: "loop_run k s = Some (Inr s1)" "ed_loop s1 = L_Lock" "ed_queue s1 = []"
      "\<forall>m. ed_owner s1 m = None" "ed_isDying s1"
    using loop_drains [OF s(3) _ Q(2) _ I(1)] Q(1) I(5) s(4) by auto
  have o: "ed_owner s1 m = None" for m using 1(4) by simp
  obtain s' where s': "loop_run 4 s1 = Some (Inr s')" "ed_loop s' = L_Returned"
    using 1 by (simp add: eval_nat_numeral loop_step_def step_defs o)
  have "ed_reach 0 s'" by (rule loop_run_reach [OF loop_run_reach [OF s(1) 1(1)] s'(1)])
  from after_return [OF this s'(2)] s' show ?thesis by blast
qed

section \<open>Counters\<close>

text \<open>
  C16: Whenever nobody holds \<open>queueMutex_\<close>, the counters are exact: for every id the counter is
  the number of queued tasks with this id, and \<open>pendingTasks\<close> (and so \<open>getSize\<close>) called then
  returns the length of the queue.
\<close>

theorem counters_are_exact:
  assumes "ed_reach t0 s" and "ed_owner s QueueMutex = None"
  shows "(\<forall>i. tc_get (ed_taskCount s) i = of_nat (length (filter (\<lambda>p. task_id s p = i) (ed_queue s)))) \<and>
    (\<forall>t. ed_calls s t = P_Read \<longrightarrow>
       (\<exists>s'. call_run t 2 s = Some (Inr s') \<and> ed_ret s' t = Some (RSize (of_nat (length (ed_queue s))))))"
proof -
  note inv = ed_inv_reach [OF assms(1)]
  have h: "QueueMutex \<notin> holds s t" for t
    using assms(2) ed_invD(1) [OF inv] unfolding lock_inv_def by (metis option.distinct(1))
  have "entering (ed_calls s t) = None" for t using h [of t] by (cases "ed_calls s t") (auto simp: holds_def)
  then have e: "entered s = {}" by (simp add: entered_def)
  have "leaving (ed_loop s) = {}" using h [of "ed_thread s"] by (cases "ed_loop s") (auto simp: holds_def)
  then have c: "counted s = set (ed_queue s)" by (simp add: counted_eq e)
  have d: "distinct (ed_queue s)" by (rule own_invD(1) [OF ed_invD(3) [OF inv, unfolded task_inv_def]])
  have "card {p \<in> set (ed_queue s). task_id s p = i} = length (filter (\<lambda>p. task_id s p = i) (ed_queue s))" for i
    using distinct_card [OF distinct_filter [OF d], of "\<lambda>p. task_id s p = i"] by simp
  then have 1: "tc_get (ed_taskCount s) i = of_nat (length (filter (\<lambda>p. task_id s p = i) (ed_queue s)))" for i
    using ed_invD(6) [OF inv] unfolding count_inv_def counts_def c by simp
  have 2: "tc_sum (ed_taskCount s) = of_nat (length (ed_queue s))"
    using ed_invD(6) [OF inv] distinct_card [OF d] unfolding count_inv_def counts_def c by simp
  have "\<exists>s'. call_run t 2 s = Some (Inr s') \<and> ed_ret s' t = Some (RSize (of_nat (length (ed_queue s))))"
    if "ed_calls s t = P_Read" for t
    using that 2 by (simp add: eval_nat_numeral call_step_def pending_step_def step_defs)
  then show ?thesis using 1 by blast
qed

theorem counters_are_exact_witness:
  "\<exists>s :: nat ed. ed_queue s = [0, 1] \<and>
     tc_get (ed_taskCount s) 0 = of_nat (length (filter (\<lambda>p. task_id s p = 0) [0, 1]))"
proof -
  obtain s :: "nat ed" where s: "ed_reach 0 s" "ed_queue s = [0, 1]" "\<forall>m. ed_owner s m = None" by (rule reach_two)
  from counters_are_exact [OF s(1)] s show ?thesis by auto
qed

section \<open>Locks\<close>

lemma holds_call:
  assumes "reentry_inv s" "ed_calls s t \<noteq> Idle" shows "holds s t = call_holds (ed_calls s t)"
  using assms by (auto simp: holds_def reentry_inv_def)

text \<open>
  Every thread takes the mutexes in the documented order \<open>queueMutex_\<close>, \<open>taskCountMutex_\<close>,
  \<open>stoppedMutex_\<close>: when a step makes a thread the owner of a mutex, all mutexes it already owned
  come before it in this order (so no thread locks a mutex that it owns).
\<close>

theorem locks_follow_order:
  assumes "ed_reach t0 s" and "ed_step s (Inr s')"
    and "ed_owner s m \<noteq> Some t" and "ed_owner s' m = Some t" and "ed_owner s m' = Some t"
  shows "m' < m"
proof -
  note inv = ed_inv_reach [OF assms(1)]
  have eff: "m' < m" if "lock_effect u (holds s u) H (ed_owner s) (ed_owner s')" for u H
  proof -
    from that consider "ed_owner s' = ed_owner s"
      | n where "\<forall>m' \<in> holds s u. m' < n" "ed_owner s' = (ed_owner s)(n := Some u)"
      | n where "ed_owner s' = (ed_owner s)(n := None)"
      unfolding lock_effect_def by blast
    then show ?thesis
    proof cases
      case (2 n)
      then have "n = m" "u = t" using assms(3,4) by (auto split: if_splits)
      moreover have "m' \<in> holds s t" using assms(5) ed_invD(1) [OF inv] unfolding lock_inv_def by blast
      ultimately show ?thesis using 2(1) by blast
    qed (use assms(3,4) in \<open>auto split: if_splits\<close>)
  qed
  consider (Start) u c where "start_call u c s = Some s'" | (Call) u where "call_step u s = Some (Inr s')"
    | (Loop) "loop_step s = Some (Inr s')"
    using assms(2) by (auto elim: ed_stepE)
  then show ?thesis
  proof cases
    case (Start u c)
    then show ?thesis using assms(3,4) by (simp add: start_call_same [OF Start])
  next
    case (Call u)
    note L = call_step_lock [OF Call]
    then have "lock_effect u (holds s u) (call_holds (ed_calls s' u)) (ed_owner s) (ed_owner s')"
      using holds_call [OF ed_invD(2) [OF inv], of u] by simp
    then show ?thesis by (rule eff)
  next
    case Loop
    have "ed_calls s (ed_thread s) = Idle" by (rule idle_loop_step [OF ed_invD(2) [OF inv] Loop])
    then have "holds s (ed_thread s) = loop_holds (ed_loop s)" by (simp add: holds_def)
    then have "lock_effect (ed_thread s) (holds s (ed_thread s)) (loop_holds (ed_loop s')) (ed_owner s) (ed_owner s')"
      using loop_step_lock [OF Loop] by simp
    then show ?thesis by (rule eff)
  qed
qed

theorem locks_follow_order_witness:
  "QueueMutex < TaskCountMutex \<and> TaskCountMutex < StoppedMutex \<and>
   (\<exists>s s' :: nat ed. ed_owner s QueueMutex = Some 1 \<and> ed_owner s' TaskCountMutex = Some 1 \<and> ed_step s (Inr s'))"
proof -
  let ?n = "ed_new 0 :: nat ed"
  obtain s1 where 1: "start_call 1 (Enqueue (Some (UnitTask 10))) ?n = Some s1"
    by (simp add: start_call_def ed_new_def)
  then obtain s2 where 2: "call_run 1 3 s1 = Some (Inr s2)" "ed_owner s2 QueueMutex = Some 1"
      "ed_owner s2 TaskCountMutex = None" "ed_calls s2 1 = E_LockC 0"
    by (auto simp: start_call_def ed_new_def eval_nat_numeral call_step_def enqueue_step_def step_defs)
  then obtain s3 where 3: "call_step 1 s2 = Some (Inr s3)" "ed_owner s3 TaskCountMutex = Some 1"
    by (simp add: call_step_def enqueue_step_def step_defs)
  have "ed_reach 0 s2" by (rule call_run_reach [OF start_reach [OF ed_reach.init 1] 2(1)])
  then have "QueueMutex < TaskCountMutex"
    by (rule locks_follow_order [OF _ ed_step.Call [OF 3(1)], of _ TaskCountMutex 1]) (use 2 3 in simp_all)
  then show ?thesis using 2 3 ed_step.Call [OF 3(1)] by (auto simp: less_mutex_def)
qed

text \<open>What a thread that cannot move waits for.\<close>

fun wants :: "call_pc \<Rightarrow> mutex option" where
  "wants (E_Lock p) = Some QueueMutex" | "wants (E_LockC p) = Some TaskCountMutex"
| "wants S_Lock = Some StoppedMutex" | "wants R_Lock = Some StoppedMutex" | "wants D_Lock = Some StoppedMutex"
| "wants B_Lock = Some QueueMutex" | "wants P_Lock = Some TaskCountMutex" | "wants _ = None"

fun loop_wants :: "loop_pc \<Rightarrow> mutex option" where
  "loop_wants L_Lock = Some QueueMutex" | "loop_wants L_Relock = Some QueueMutex"
| "loop_wants (L_Lock2 p) = Some QueueMutex" | "loop_wants (L_LockC p) = Some TaskCountMutex"
| "loop_wants _ = None"

lemma call_blocked:
  "call_step t s = None \<Longrightarrow> ed_calls s t = Idle \<or> ed_calls s t = D_Join \<and> ed_loop s \<noteq> L_Returned \<or>
     (\<exists>m. wants (ed_calls s t) = Some m \<and> ed_owner s m \<noteq> None)"
  by (cases "ed_calls s t") (auto simp: call_defs out_defs split: if_splits option.splits)

lemma loop_blocked:
  "loop_step s = None \<Longrightarrow> ed_loop s = L_Returned \<or> (\<exists>p. ed_loop s = L_Exec p) \<and> ed_calls s (ed_thread s) \<noteq> Idle \<or>
     (\<exists>m. loop_wants (ed_loop s) = Some m \<and> ed_owner s m \<noteq> None)"
  by (cases "ed_loop s") (auto simp: loop_step_def out_defs split: if_splits option.splits list.splits)

lemma holder_wants:
  "m \<in> call_holds pc \<Longrightarrow> wants pc = Some m' \<Longrightarrow> m = QueueMutex \<and> m' = TaskCountMutex"
  "m \<in> loop_holds lp \<Longrightarrow> loop_wants lp = Some m' \<Longrightarrow> m = QueueMutex \<and> m' = TaskCountMutex"
  by (cases pc; simp) (cases lp; simp)

text \<open>The thread of the loop is never inside the destructor.\<close>

lemma loop_thread_no_dtor:
  "ed_reach t0 s \<Longrightarrow> \<not> in_dtor (ed_calls s (ed_thread s))"
proof (induction rule: ed_reach.induct)
  case init
  then show ?case by (simp add: ed_new_def)
next
  case (step s s')
  consider (Start) u c where "start_call u c s = Some s'" | (Call) u where "call_step u s = Some (Inr s')"
    | (Loop) "loop_step s = Some (Inr s')"
    using step.hyps(2) by (auto elim: ed_stepE)
  then show ?case
  proof cases
    case (Start u c)
    then show ?thesis using step.IH
      by (cases c) (auto simp: start_call_def goto_def split: if_splits option.splits)
  next
    case (Call u)
    have th: "ed_thread s' = ed_thread s" using call_step_lock [OF Call] by blast
    show ?thesis
      using step.IH call_step_flags(4) [OF Call] call_step_calls [OF Call, of "ed_thread s"] unfolding th
      by (cases "ed_thread s = u") auto
  next
    case Loop
    then show ?thesis using step.IH loop_step_flags(1) [OF Loop] loop_step_lock [OF Loop] by simp
  qed
qed

text \<open>An owner of \<open>m\<close> can move unless it waits for a mutex that comes after \<open>m\<close>.\<close>

lemma owner_moves:
  assumes "ed_inv s" "ed_owner s m = Some t"
  shows "(\<exists>t r. call_step t s = Some r) \<or> (\<exists>r. loop_step s = Some r) \<or>
    (m = QueueMutex \<and> ed_owner s TaskCountMutex \<noteq> None)"
proof -
  have h: "m \<in> holds s t" using assms ed_invD(1) unfolding lock_inv_def by blast
  then consider "m \<in> call_holds (ed_calls s t)" | "m \<in> loop_holds (ed_loop s)"
    unfolding holds_def by (auto split: if_splits)
  then show ?thesis
  proof cases
    case 1
    have "ed_calls s t \<noteq> Idle" "ed_calls s t \<noteq> D_Join" using 1 by auto
    then show ?thesis using call_blocked [of t s] holder_wants(1) [OF 1] by (cases "call_step t s") auto
  next
    case 2
    have "ed_loop s \<noteq> L_Returned" "\<not> (\<exists>p. ed_loop s = L_Exec p)" using 2 by auto
    then show ?thesis using loop_blocked [of s] holder_wants(2) [OF 2] by (cases "loop_step s") auto
  qed
qed

text \<open>
  C17: The dispatcher cannot deadlock: as long as the loop has not returned or some thread is
  inside a call, a step of a thread that is already inside is possible, whatever the
  interleaving so far (the destructor's join included).
\<close>

theorem dispatcher_deadlock_free:
  assumes "ed_reach t0 s" and "ed_loop s \<noteq> L_Returned \<or> (\<exists>t. ed_calls s t \<noteq> Idle)"
  shows "(\<exists>t r. call_step t s = Some r) \<or> (\<exists>r. loop_step s = Some r)"
proof -
  note inv = ed_inv_reach [OF assms(1)]
  note own = owner_moves [OF inv]
  show ?thesis
  proof (cases "ed_owner s TaskCountMutex")
    case (Some t)
    then show ?thesis using own by blast
  next
    case None
    show ?thesis
    proof (cases "\<exists>m. ed_owner s m \<noteq> None")
      case True
      then show ?thesis using own None by blast
    next
      case False
      then have free: "ed_owner s m = None" for m by blast
      have call: "\<exists>r. call_step t s = Some r" if "ed_calls s t \<noteq> Idle" "ed_calls s t \<noteq> D_Join \<or> ed_loop s = L_Returned" for t
        using call_blocked [of t s] that free by (cases "call_step t s") auto
      show ?thesis
      proof (cases "ed_loop s = L_Returned")
        case True
        then show ?thesis using assms(2) call by blast
      next
        case False
        have "ed_calls s (ed_thread s) \<noteq> D_Join"
          using loop_thread_no_dtor [OF assms(1)] by auto
        then show ?thesis
          using loop_blocked [of s] False free call [of "ed_thread s"] by (cases "loop_step s") auto
      qed
    qed
  qed
qed

theorem dispatcher_deadlock_free_witness:
  "\<exists>s :: nat ed. ed_calls s 1 = D_Join \<and> ed_loop s = L_Lock \<and>
     ((\<exists>t r. call_step t s = Some r) \<or> (\<exists>r. loop_step s = Some r))"
proof -
  obtain s :: "nat ed" where s: "ed_reach 0 s" "quiescent s" "ed_loop s = L_Lock" "ed_isDying s" "ed_queue s = [0, 1]"
    "ed_calls s 1 = D_Join" "ed_ran s = []" by (rule dying_reach)
  from dispatcher_deadlock_free [OF s(1)] s show ?thesis by (intro exI [of _ s]) simp
qed

text \<open>
  C18: No wakeup is lost: if the loop sleeps on its condition variable while the queue is not
  empty, some call has pushed and still has to signal; so once nobody is inside a call, a
  sleeping loop has an empty queue.
\<close>

theorem no_lost_wakeup:
  assumes "ed_reach t0 s" and "ed_loop s = L_Wait" and "ed_queue s \<noteq> []"
  shows "\<exists>t. signalling (ed_calls s t) \<and> QueueMutex \<in> call_holds (ed_calls s t)"
proof -
  obtain t where t: "signalling (ed_calls s t)"
    using ed_invD(8) [OF ed_inv_reach [OF assms(1)]] assms(2,3) unfolding wait_inv_def by blast
  then show ?thesis by (intro exI [of _ t]) (cases "ed_calls s t"; simp)
qed

theorem no_lost_wakeup_witness:
  "\<exists>s :: nat ed. ed_loop s = L_Wait \<and> ed_queue s = [0] \<and> (\<exists>t. signalling (ed_calls s t))"
proof -
  let ?n = "ed_new 0 :: nat ed"
  obtain s0 where 0: "loop_run 2 ?n = Some (Inr s0)" "ed_loop s0 = L_Wait" "ed_queue s0 = []" "ed_calls s0 = (\<lambda>_. Idle)"
      "ed_owner s0 = (\<lambda>_. None)" "ed_thread s0 = 0" "ed_next s0 = 0" "\<not> ed_isStopped s0"
    by (simp add: ed_new_def eval_nat_numeral loop_step_def step_defs fun_eq_iff)
  then obtain s1 where 1: "start_call 1 (Enqueue (Some (UnitTask 10))) s0 = Some s1" by (simp add: start_call_def)
  then obtain s2 where 2: "call_run 1 3 s1 = Some (Inr s2)" "ed_queue s2 = [0]" "ed_loop s2 = L_Wait"
    using 0 by (auto simp: start_call_def eval_nat_numeral call_step_def enqueue_step_def step_defs)
  have "ed_reach 0 s2"
    by (rule call_run_reach [OF start_reach [OF loop_run_reach [OF ed_reach.init 0(1)] 1] 2(1)])
  from no_lost_wakeup [OF this] 2 show ?thesis by auto
qed

text \<open>
  \<open>enqueueTask\<close> returns true also when the dispatcher is stopped and the task is discarded:
  from its test on, the call deletes the task, accepts nothing, and returns true.
\<close>

theorem discarded_task_reports_success:
  assumes "ed_reach t0 s" and "ed_calls s t = E_Test (Some p)" and "ed_isStopped s"
  shows "\<exists>s'. call_run t 3 s = Some (Inr s') \<and> ed_ret s' t = Some (RBool True) \<and> ed_heap s' p = None \<and>
    p \<in> set (ed_deleted s') \<and> ed_accepted s' = ed_accepted s \<and> ed_queue s' = ed_queue s"
proof -
  have "slot s (Some t) = Some p" using assms(2) by (simp add: slot_def)
  then obtain ut where "ed_heap s p = Some ut" using slot_live [OF ed_inv_reach [OF assms(1)]] by blast
  then show ?thesis
    using assms(2,3) by (simp add: eval_nat_numeral call_step_def enqueue_step_def step_defs)
qed

theorem discarded_task_reports_success_witness:
  "\<exists>s s' :: nat ed. ed_isStopped s \<and> call_run 1 3 s = Some (Inr s') \<and> ed_ret s' 1 = Some (RBool True) \<and> ed_heap s' 0 = None"
proof -
  let ?n = "ed_new 0 :: nat ed"
  obtain s0 s1 where 0: "start_call 1 Stop ?n = Some s0" "call_run 1 3 s0 = Some (Inr s1)" "ed_isStopped s1"
      "ed_calls s1 = (\<lambda>_. Idle)" "ed_owner s1 = (\<lambda>_. None)" "ed_thread s1 = 0" "ed_next s1 = 0"
    by (simp add: start_call_def ed_new_def eval_nat_numeral call_step_def stop_step_def step_defs fun_eq_iff)
  then obtain s2 where 1: "start_call 1 (Enqueue (Some (UnitTask 10))) s1 = Some s2" by (simp add: start_call_def)
  then obtain s3 where 2: "call_run 1 1 s2 = Some (Inr s3)" "ed_calls s3 1 = E_Test (Some 0)" "ed_isStopped s3"
    using 0 by (auto simp: start_call_def eval_nat_numeral call_step_def enqueue_step_def step_defs)
  have "ed_reach 0 s3"
    by (rule call_run_reach [OF start_reach [OF call_run_reach [OF start_reach [OF ed_reach.init 0(1)] 0(2)] 1] 2(1)])
  from discarded_task_reports_success [OF this 2(2,3)] 2(3) show ?thesis by blast
qed

end
