(* ===== verification/DispatcherInterface.thy ===== *)
theory DispatcherInterface
  imports EventProps
begin

text \<open>
  \<open>EventDispatcherInterface\<close> of \<open>lib/inc/event_dispatcher_interface.h\<close> as a locale: what a
  client that tags its tasks with a \<open>TaskGroupID\<close> relies on, for any dispatcher behind it.
  \<open>accepted\<close> and \<open>ran\<close> are the tasks of one id that a dispatcher took over and started so far.
\<close>

lemma subseq_Cons_drop: "subseq (x # xs) ys \<Longrightarrow> \<exists>us vs. ys = us @ x # vs \<and> subseq xs vs"
  using list_emb_ConsD by fast

lemma subseq_set: "subseq xs ys \<Longrightarrow> x \<in> set xs \<Longrightarrow> x \<in> set ys"
  by (erule (1) list_emb_set) simp

lemma subseq_order:
  assumes "subseq rs (as @ x # bs)" and "distinct (as @ x # bs)" and "x \<in> set rs" and "y \<in> set rs" and "y \<in> set bs"
  shows "\<exists>us vs ws. rs = us @ x # vs @ y # ws"
proof -
  obtain us zs where rs: "rs = us @ x # zs" using split_list [OF assms(3)] by blast
  have "y \<noteq> x" using assms(2,5) by auto
  have d: "distinct rs" by (rule subseq_distinct [OF assms(1,2)])
  have "y \<notin> set us"
  proof
    assume "y \<in> set us"
    then obtain u1 u2 where us: "us = u1 @ y # u2" using split_list by fast
    have "subseq (y # u2 @ x # zs) (as @ x # bs)"
      using assms(1) unfolding rs us by (metis append.assoc append_Cons list_emb_appendD list_emb_append2)
    then obtain c1 c2 where c: "as @ x # bs = c1 @ y # c2" "subseq (u2 @ x # zs) c2"
      using subseq_Cons_drop by metis
    have "x \<in> set c2" using list_emb_set [OF c(2), of x] by auto
    moreover obtain b1 b2 where "bs = b1 @ y # b2" using assms(5) split_list by fast
    moreover have "distinct (c1 @ y # c2)" using assms(2) c(1) by simp
    ultimately show False using c(1) assms(2) by (auto simp: append_eq_append_conv2 append_eq_Cons_conv Cons_eq_append_conv)
  qed
  then have "y \<in> set zs" using assms(4) \<open>y \<noteq> x\<close> rs by auto
  then show ?thesis using rs split_list by fast
qed

locale dispatcher_interface =
  fixes reach :: "'s \<Rightarrow> bool"
    and accepted :: "'s \<Rightarrow> task_group_id \<Rightarrow> 'p list"
    and ran :: "'s \<Rightarrow> task_group_id \<Rightarrow> 'p list"
  assumes ran_subseq: "reach s \<Longrightarrow> subseq (ran s i) (accepted s i)"
    and accepted_once: "reach s \<Longrightarrow> distinct (accepted s i)"
begin

lemma ran_once: "reach s \<Longrightarrow> distinct (ran s i)"
  by (rule subseq_distinct [OF ran_subseq accepted_once])

lemma ran_accepted: "reach s \<Longrightarrow> set (ran s i) \<subseteq> set (accepted s i)"
  using list_emb_set [OF ran_subseq] by (metis subsetI)

lemma group_order:
  assumes "reach s" and "accepted s i = as @ x # bs" and "y \<in> set bs"
    and "x \<in> set (ran s i)" and "y \<in> set (ran s i)"
  shows "\<exists>us vs ws. ran s i = us @ x # vs @ y # ws"
  using subseq_order [of "ran s i" as x bs y] ran_subseq [OF assms(1), of i] accepted_once [OF assms(1), of i] assms
  by simp

end

section \<open>The single dispatcher\<close>

text \<open>The id a task was created with; tasks keep it in the history after their deletion.\<close>

definition id_of :: "'a ed \<Rightarrow> addr \<Rightarrow> task_group_id option" where
  "id_of s p = map_option ut_id (ed_tasks s p)"

definition of_group :: "'a ed \<Rightarrow> task_group_id \<Rightarrow> addr list \<Rightarrow> addr list" where
  "of_group s i ps = filter (\<lambda>p. id_of s p = Some i) ps"

definition ed_accepted_of :: "'a ed \<Rightarrow> task_group_id \<Rightarrow> addr list" where
  "ed_accepted_of s i = of_group s i (ed_accepted s)"

definition ed_ran_of :: "'a ed \<Rightarrow> task_group_id \<Rightarrow> addr list" where
  "ed_ran_of s i = of_group s i (ed_ran s)"

lemma loop_step_accepted:
  assumes "loop_step s = Some (Inr s')"
  shows "ed_accepted s' = ed_accepted s"
  using assms
  by (cases "ed_loop s"; simp add: loop_step_def out_defs split: if_splits option.splits list.splits;
      auto simp: loop_to_def)

lemma push_carried:
  assumes "call_step t s = Some (Inr s')"
  shows "set (ed_accepted s') \<subseteq> set (ed_accepted s) \<union> set_option (carried (ed_calls s t))"
  using assms
  by (cases "ed_calls s t"; simp add: call_defs out_defs split: if_splits option.splits;
      auto simp: goto_def return_def loop_to_def)

lemma start_call_tasks:
  "start_call t c s = Some s' \<Longrightarrow> ed_tasks s' p = Some ut \<Longrightarrow> ed_tasks s p = Some ut \<or> c = Enqueue (Some ut)"
  by (cases c) (auto simp: start_call_def goto_def split: if_splits option.splits)

lemma start_call_dom: "start_call t c s = Some s' \<Longrightarrow> dom (ed_tasks s) \<subseteq> dom (ed_tasks s')"
  by (cases c) (auto simp: start_call_def goto_def split: if_splits option.splits)

lemma accepted_known: "ed_reach t0 s \<Longrightarrow> set (ed_accepted s) \<subseteq> dom (ed_tasks s)"
proof (induction rule: ed_reach.induct)
  case init
  then show ?case by (simp add: ed_new_def)
next
  case (step s s')
  consider (Start) t c where "start_call t c s = Some s'" | (Call) t where "call_step t s = Some (Inr s')"
    | (Loop) "loop_step s = Some (Inr s')"
    using step.hyps(2) by (auto elim: ed_stepE)
  then show ?case
  proof cases
    case (Start t c)
    then show ?thesis using step.IH start_call_same(9) [OF Start] start_call_dom [OF Start] by auto
  next
    case (Call t)
    have "slot s (Some t) = carried (ed_calls s t)" by (simp add: slot_def)
    then have "set_option (carried (ed_calls s t)) \<subseteq> dom (ed_heap s)"
      using slot_live [OF ed_inv_reach [OF step.hyps(1)], of "Some t"] by (auto simp: elem_set domIff)
    also have "\<dots> \<subseteq> dom (ed_tasks s)"
      using ed_invD(9) [OF ed_inv_reach [OF step.hyps(1)]] unfolding past_inv_def by blast
    finally show ?thesis using step.IH push_carried [OF Call] call_step_past(2) [OF Call] by auto
  next
    case Loop
    then show ?thesis using step.IH loop_step_flags [OF Loop] loop_step_past(1) [OF Loop] loop_step_accepted [OF Loop] by simp
  qed
qed

lemma ed_ran_subseq:
  assumes "ed_inv s" shows "subseq (ed_ran s) (ed_accepted s)"
proof -
  note H = ed_invD(7) [OF assms, unfolded hist_inv_def]
  obtain q where q: "ed_queue s = cur_ran (ed_loop s) @ q" using cur_ran_prefix [OF ed_invD(4) [OF assms]] ..
  have "ed_accepted s = (ed_popped s @ cur_ran (ed_loop s)) @ q" using H q by simp
  then show ?thesis using H subseq_rev_drop_many by metis
qed

interpretation ed: dispatcher_interface "ed_reach t0" ed_accepted_of ed_ran_of for t0
proof unfold_locales
  fix s :: "'a ed" and i assume r: "ed_reach t0 s"
  show "subseq (ed_ran_of s i) (ed_accepted_of s i)"
    unfolding ed_ran_of_def ed_accepted_of_def of_group_def
    using ed_ran_subseq [OF ed_inv_reach [OF r]] by simp
  show "distinct (ed_accepted_of s i)"
    unfolding ed_accepted_of_def of_group_def using accepted_distinct [OF ed_inv_reach [OF r]] by simp
qed

end
