(* ===== verification/MPEventDisp.thy ===== *)
theory MPEventDisp
  imports DispatcherInterface
begin

text \<open>
  \<open>MPEventDispatcher\<close> of \<open>lib/inc/mp_event_dispatcher.h\<close> and \<open>lib/mp_event_dispatcher.cc\<close>:
  several \<open>EventDispatcher\<close>s, and a route from a task's id to one of them. The threads that call
  it interleave with each other and with the loops of all the dispatchers; \<open>mp_calls t\<close> is where
  thread \<open>t\<close> is in a member function, and while it is inside a dispatcher that dispatcher's own
  \<open>ed_calls t\<close> says where.

  Both builds are modelled: \<open>Some hasher\<close> is a build with \<open>USE_HASHING\<close> (the one of the library's
  makefile) whose \<open>hasher_\<close>, the \<open>std::tr1::hash<int>\<close> of the compiler's library, is any function;
  \<open>None\<close> is the round-robin build.
\<close>

section \<open>State\<close>

datatype mp_mutex = TokenMutex | TaskTableMutex

text \<open>
  \<open>ME\<close> enqueueTask, \<open>MB\<close> busy, \<open>MG\<close> getSize, \<open>MD\<close> the destructor. The index is that of the
  dispatcher that the call uses. \<open>mp_deleted\<close> are the dispatchers that the destructor has
  deleted so far: any use of one of them is a use after free.
\<close>

datatype 'a mp_pc =
    MIdle
  | ME_Start "'a unit_task option" | ME_LockTable "'a unit_task option" | ME_Insert "'a unit_task option"
  | ME_UnlockTable "'a unit_task" size_t | ME_UnlockToken "'a unit_task" size_t
  | ME_Enqueue "'a unit_task" size_t | ME_Inside size_t
  | MB_Next nat | MB_Inside nat
  | MG_Start task_group_id | MG_Inside size_t
  | MD_Next nat | MD_Inside nat

type_synonym hasher = "c_int \<Rightarrow> size_t"

record 'a mp =
  mp_dispatchers :: "'a ed list"
  mp_concurrentTaskCount :: size_t
  mp_taskIDTable :: "(task_group_id \<times> size_t) list"
  mp_roundRobinToken :: size_t
  mp_owner :: "mp_mutex \<Rightarrow> tid option"
  mp_calls :: "tid \<Rightarrow> 'a mp_pc"
  mp_ret :: "tid \<Rightarrow> ret option"
  mp_dtor :: bool
  mp_deleted :: "nat set"
  mp_accepted :: "(nat \<times> addr) list"
  mp_ran :: "(nat \<times> addr) list"

text \<open>The constructor; the loops of the new dispatchers are the threads from \<open>t0\<close> on.\<close>

definition mp_new :: "tid \<Rightarrow> size_t \<Rightarrow> 'a mp" where
  "mp_new t0 n =
     \<lparr>mp_dispatchers = map (\<lambda>x. ed_new (t0 + x)) [0..<unat n], mp_concurrentTaskCount = n,
      mp_taskIDTable = [], mp_roundRobinToken = 0, mp_owner = (\<lambda>_. None), mp_calls = (\<lambda>_. MIdle),
      mp_ret = (\<lambda>_. None), mp_dtor = False, mp_deleted = {}, mp_accepted = [], mp_ran = []\<rparr>"

section \<open>Primitives\<close>

type_synonym 'a mp_outcome = "(fault + 'a mp) option"

definition mp_goto :: "tid \<Rightarrow> 'a mp_pc \<Rightarrow> 'a mp \<Rightarrow> 'a mp" where
  "mp_goto t pc m = m\<lparr>mp_calls := (mp_calls m)(t := pc)\<rparr>"

definition mp_return :: "tid \<Rightarrow> ret \<Rightarrow> 'a mp \<Rightarrow> 'a mp" where
  "mp_return t r m = m\<lparr>mp_calls := (mp_calls m)(t := MIdle), mp_ret := (mp_ret m)(t := Some r)\<rparr>"

definition mp_acquire :: "mp_mutex \<Rightarrow> tid \<Rightarrow> 'a mp_pc \<Rightarrow> 'a mp \<Rightarrow> 'a mp_outcome" where
  "mp_acquire x t pc m =
     (if mp_owner m x = None then Some (Inr (mp_goto t pc (m\<lparr>mp_owner := (mp_owner m)(x := Some t)\<rparr>))) else None)"

definition mp_release :: "mp_mutex \<Rightarrow> 'a mp \<Rightarrow> 'a mp" where
  "mp_release x m = m\<lparr>mp_owner := (mp_owner m)(x := None)\<rparr>"

text \<open>Dispatcher \<open>d\<close> moves to \<open>s'\<close>; what it newly accepted and started joins the history.\<close>

definition on_dispatcher :: "nat \<Rightarrow> 'a ed \<Rightarrow> 'a mp \<Rightarrow> 'a mp" where
  "on_dispatcher d s' m =
     (let s = mp_dispatchers m ! d in
      m\<lparr>mp_dispatchers := (mp_dispatchers m)[d := s'],
        mp_accepted := mp_accepted m @ map (Pair d) (drop (length (ed_accepted s)) (ed_accepted s')),
        mp_ran := mp_ran m @ map (Pair d) (drop (length (ed_ran s)) (ed_ran s'))\<rparr>)"

definition lift_dispatcher :: "nat \<Rightarrow> fault + 'a ed \<Rightarrow> 'a mp \<Rightarrow> fault + 'a mp" where
  "lift_dispatcher d r m = (case r of Inl f \<Rightarrow> Inl f | Inr s' \<Rightarrow> Inr (on_dispatcher d s' m))"

text \<open>
  \<open>dispatchers_[d]->c\<close>, entered by thread \<open>t\<close>, which goes on at \<open>pc\<close> when the call returns.
  The pointer to a deleted dispatcher is still in \<open>dispatchers_\<close>.
\<close>

definition mp_enter :: "nat \<Rightarrow> tid \<Rightarrow> 'a ed_call \<Rightarrow> 'a mp_pc \<Rightarrow> 'a mp \<Rightarrow> 'a mp_outcome" where
  "mp_enter d t c pc m =
     (if d < length (mp_dispatchers m)
      then if d \<in> mp_deleted m then Some (Inl UseAfterFree)
           else (case start_call t c (mp_dispatchers m ! d) of
                   None \<Rightarrow> None
                 | Some s' \<Rightarrow> Some (Inr (mp_goto t pc (on_dispatcher d s' m))))
      else Some (Inl OutOfRange))"

section \<open>Member functions\<close>

text \<open>\<open>hasher_(id) % concurrentTaskCount_\<close>; the id is converted to the hasher's \<open>int\<close>.\<close>

definition hash_destination :: "hasher \<Rightarrow> 'a mp \<Rightarrow> task_group_id \<Rightarrow> size_t" where
  "hash_destination hasher m i = hasher (ucast i) mod mp_concurrentTaskCount m"

definition mp_enqueue_step :: "hasher option \<Rightarrow> tid \<Rightarrow> 'a mp \<Rightarrow> 'a mp_outcome" where
  "mp_enqueue_step cfg t m =
     (case mp_calls m t of
        ME_Start newTask \<Rightarrow>
          (case cfg of
             Some hasher \<Rightarrow>
               (case newTask of
                  None \<Rightarrow> Some (Inl NullDeref)
                | Some ut \<Rightarrow>
                    if mp_concurrentTaskCount m = 0 then Some (Inl DivByZero)
                    else Some (Inr (mp_goto t (ME_Enqueue ut (hash_destination hasher m (ut_id ut))) m)))
           | None \<Rightarrow> mp_acquire TokenMutex t (ME_LockTable newTask) m)
      | ME_LockTable newTask \<Rightarrow> mp_acquire TaskTableMutex t (ME_Insert newTask) m
      | ME_Insert newTask \<Rightarrow>
          (case newTask of
             None \<Rightarrow> Some (Inl NullDeref)
           | Some ut \<Rightarrow>
               (case map_of (mp_taskIDTable m) (ut_id ut) of
                  Some taskDestination \<Rightarrow> Some (Inr (mp_goto t (ME_UnlockTable ut taskDestination) m))
                | None \<Rightarrow>
                    let taskDestination = mp_roundRobinToken m; token = taskDestination + 1 in
                    Some (Inr (mp_goto t (ME_UnlockTable ut taskDestination)
                      (m\<lparr>mp_taskIDTable := (ut_id ut, taskDestination) # mp_taskIDTable m,
                         mp_roundRobinToken := (if mp_concurrentTaskCount m \<le> token then 0 else token)\<rparr>)))))
      | ME_UnlockTable ut d \<Rightarrow> Some (Inr (mp_goto t (ME_UnlockToken ut d) (mp_release TaskTableMutex m)))
      | ME_UnlockToken ut d \<Rightarrow> Some (Inr (mp_goto t (ME_Enqueue ut d) (mp_release TokenMutex m)))
      | ME_Enqueue ut d \<Rightarrow> mp_enter (unat d) t (Enqueue (Some ut)) (ME_Inside d) m
      | ME_Inside d \<Rightarrow>
          if ed_calls (mp_dispatchers m ! unat d) t = Idle then Some (Inr (mp_return t (RBool True) m)) else None
      | _ \<Rightarrow> None)"

text \<open>\<open>busy\<close>: the dispatchers are asked one after the other, up to the first that is busy.\<close>

definition mp_busy_step :: "tid \<Rightarrow> 'a mp \<Rightarrow> 'a mp_outcome" where
  "mp_busy_step t m =
     (case mp_calls m t of
        MB_Next d \<Rightarrow>
          if d < length (mp_dispatchers m) then mp_enter d t Busy (MB_Inside d) m
          else Some (Inr (mp_return t (RBool False) m))
      | MB_Inside d \<Rightarrow>
          if ed_calls (mp_dispatchers m ! d) t = Idle then
            Some (Inr (if ed_ret (mp_dispatchers m ! d) t = Some (RBool True)
                       then mp_return t (RBool True) m else mp_goto t (MB_Next (Suc d)) m))
          else None
      | _ \<Rightarrow> None)"

definition mp_getSize_step :: "hasher option \<Rightarrow> tid \<Rightarrow> 'a mp \<Rightarrow> 'a mp_outcome" where
  "mp_getSize_step cfg t m =
     (case mp_calls m t of
        MG_Start i \<Rightarrow>
          (case cfg of
             Some hasher \<Rightarrow>
               if mp_concurrentTaskCount m = 0 then Some (Inl DivByZero)
               else let destination = hash_destination hasher m i
                    in mp_enter (unat destination) t Pending (MG_Inside destination) m
           | None \<Rightarrow> Some (Inr (mp_return t (RSize 0) m)))
      | MG_Inside d \<Rightarrow>
          if ed_calls (mp_dispatchers m ! unat d) t = Idle
          then Some (Inr (mp_return t (the (ed_ret (mp_dispatchers m ! unat d) t)) m)) else None
      | _ \<Rightarrow> None)"

text \<open>
  The destructor deletes the dispatchers one after the other: \<open>~EventDispatcher\<close> of one runs to
  its end, which waits for its loop, then its memory is gone, then the next one is deleted.
\<close>

definition mp_dtor_step :: "tid \<Rightarrow> 'a mp \<Rightarrow> 'a mp_outcome" where
  "mp_dtor_step t m =
     (case mp_calls m t of
        MD_Next d \<Rightarrow>
          if d < length (mp_dispatchers m) then mp_enter d t Destroy (MD_Inside d) m
          else Some (Inr (mp_return t RVoid m))
      | MD_Inside d \<Rightarrow>
          if ed_calls (mp_dispatchers m ! d) t = Idle
          then Some (Inr (mp_goto t (MD_Next (Suc d)) (m\<lparr>mp_deleted := insert d (mp_deleted m)\<rparr>))) else None
      | _ \<Rightarrow> None)"

definition mp_call_step :: "hasher option \<Rightarrow> tid \<Rightarrow> 'a mp \<Rightarrow> 'a mp_outcome" where
  "mp_call_step cfg t m =
     (case mp_calls m t of
        MIdle \<Rightarrow> None
      | MB_Next d \<Rightarrow> mp_busy_step t m | MB_Inside d \<Rightarrow> mp_busy_step t m
      | MG_Start i \<Rightarrow> mp_getSize_step cfg t m | MG_Inside d \<Rightarrow> mp_getSize_step cfg t m
      | MD_Next d \<Rightarrow> mp_dtor_step t m | MD_Inside d \<Rightarrow> mp_dtor_step t m
      | _ \<Rightarrow> mp_enqueue_step cfg t m)"

section \<open>Clients\<close>

datatype 'a mp_call = MPEnqueue "'a unit_task option" | MPStop | MPResume | MPBusy | MPGetSize task_group_id | MPDestroy

text \<open>
  \<open>stop\<close> and \<open>resume\<close> have empty bodies. The thread of a loop calls only from inside a task of that
  loop, and never the destructor; the destructor is called once.
\<close>

definition mp_start_call :: "tid \<Rightarrow> 'a mp_call \<Rightarrow> 'a mp \<Rightarrow> 'a mp option" where
  "mp_start_call t c m =
     (if mp_calls m t = MIdle \<and> (c = MPDestroy \<longrightarrow> \<not> mp_dtor m) \<and>
         (\<forall>s \<in> set (mp_dispatchers m). t = ed_thread s \<longrightarrow> (\<exists>p. ed_loop s = L_Exec p) \<and> c \<noteq> MPDestroy)
      then Some (case c of
          MPEnqueue newTask \<Rightarrow> mp_goto t (ME_Start newTask) m
        | MPStop \<Rightarrow> mp_return t RVoid m
        | MPResume \<Rightarrow> mp_return t RVoid m
        | MPBusy \<Rightarrow> mp_goto t (MB_Next 0) m
        | MPGetSize i \<Rightarrow> mp_goto t (MG_Start i) m
        | MPDestroy \<Rightarrow> mp_goto t (MD_Next 0) (m\<lparr>mp_dtor := True\<rparr>))
      else None)"

text \<open>
  A thread that is still inside a deleted dispatcher goes on in freed memory (\<open>Dead\<close>). The task
  that a loop is executing has not ended while its thread is inside a
  call (\<open>loop_free\<close>).
\<close>

definition loop_free :: "'a mp \<Rightarrow> 'a ed \<Rightarrow> bool" where
  "loop_free m s \<longleftrightarrow> (case ed_loop s of L_Exec p \<Rightarrow> mp_calls m (ed_thread s) = MIdle | _ \<Rightarrow> True)"

inductive mp_step :: "hasher option \<Rightarrow> 'a mp \<Rightarrow> fault + 'a mp \<Rightarrow> bool" for cfg where
  Start: "mp_start_call t c m = Some m' \<Longrightarrow> mp_step cfg m (Inr m')"
| Call: "mp_call_step cfg t m = Some r \<Longrightarrow> mp_step cfg m r"
| Inner: "d < length (mp_dispatchers m) \<Longrightarrow> call_step t (mp_dispatchers m ! d) = Some r \<Longrightarrow>
    d \<notin> mp_deleted m \<Longrightarrow> mp_step cfg m (lift_dispatcher d r m)"
| Dead: "d \<in> mp_deleted m \<Longrightarrow> ed_calls (mp_dispatchers m ! d) t \<noteq> Idle \<Longrightarrow> mp_step cfg m (Inl UseAfterFree)"
| Loop: "d < length (mp_dispatchers m) \<Longrightarrow> loop_step (mp_dispatchers m ! d) = Some r \<Longrightarrow>
    loop_free m (mp_dispatchers m ! d) \<Longrightarrow> mp_step cfg m (lift_dispatcher d r m)"

inductive_cases mp_stepE: "mp_step cfg m r"

inductive mp_reach :: "hasher option \<Rightarrow> tid \<Rightarrow> size_t \<Rightarrow> 'a mp \<Rightarrow> bool" for cfg t0 n where
  init: "mp_reach cfg t0 n (mp_new t0 n)"
| step: "mp_reach cfg t0 n m \<Longrightarrow> mp_step cfg m (Inr m') \<Longrightarrow> mp_reach cfg t0 n m'"

end
