(* ===== verification/MPEventProps.thy ===== *)
theory MPEventProps
  imports MPEventDisp
begin

text \<open>
  The properties of the multi-loop dispatcher, over every interleaving of its callers and loops:
  each dispatcher behind it runs as a single one does, a task id is bound to one dispatcher for
  good, and so the tasks of one id run one at a time and in the order in which they were accepted.
\<close>

lemmas mp_prim_defs = mp_goto_def mp_return_def mp_release_def mp_acquire_def

lemmas mp_call_defs = mp_call_step_def mp_enqueue_step_def mp_busy_step_def mp_getSize_step_def mp_dtor_step_def

section \<open>What one step does to the dispatchers\<close>

definition same_dispatchers :: "'a mp \<Rightarrow> 'a mp \<Rightarrow> bool" where
  "same_dispatchers m m' \<longleftrightarrow> mp_dispatchers m' = mp_dispatchers m \<and> mp_accepted m' = mp_accepted m \<and>
     mp_ran m' = mp_ran m \<and> mp_concurrentTaskCount m' = mp_concurrentTaskCount m"

definition moved :: "nat \<Rightarrow> 'a ed \<Rightarrow> 'a mp \<Rightarrow> 'a mp \<Rightarrow> bool" where
  "moved d s' m m' \<longleftrightarrow> d < length (mp_dispatchers m) \<and> ed_step (mp_dispatchers m ! d) (Inr s') \<and>
     same_dispatchers (on_dispatcher d s' m) m' \<and> mp_concurrentTaskCount m' = mp_concurrentTaskCount m \<and>
     mp_taskIDTable m' = mp_taskIDTable m \<and> mp_roundRobinToken m' = mp_roundRobinToken m"

lemma on_dispatcher_simps [simp]:
  "mp_calls (on_dispatcher d s' m) = mp_calls m"
  "mp_taskIDTable (on_dispatcher d s' m) = mp_taskIDTable m"
  "mp_roundRobinToken (on_dispatcher d s' m) = mp_roundRobinToken m"
  "mp_concurrentTaskCount (on_dispatcher d s' m) = mp_concurrentTaskCount m"
  "mp_owner (on_dispatcher d s' m) = mp_owner m"
  "mp_dispatchers (on_dispatcher d s' m) = (mp_dispatchers m)[d := s']"
  "mp_dtor (on_dispatcher d s' m) = mp_dtor m" "mp_deleted (on_dispatcher d s' m) = mp_deleted m"
  by (simp_all add: on_dispatcher_def Let_def)

lemma enter_moved:
  "mp_enter d t c pc m = Some (Inr m') \<Longrightarrow>
     \<exists>s'. start_call t c (mp_dispatchers m ! d) = Some s' \<and> moved d s' m m' \<and> mp_calls m' = (mp_calls m)(t := pc)"
  by (auto simp: mp_enter_def moved_def same_dispatchers_def mp_goto_def intro: ed_step.Start
      split: if_splits option.splits)

lemma lift_moved:
  "d < length (mp_dispatchers m) \<Longrightarrow> ed_step (mp_dispatchers m ! d) (Inr s') \<Longrightarrow> moved d s' m (on_dispatcher d s' m)"
  by (simp add: moved_def same_dispatchers_def)

lemma start_same:
  assumes "mp_start_call t c m = Some m'"
  shows "same_dispatchers m m' \<and> mp_taskIDTable m' = mp_taskIDTable m \<and> mp_roundRobinToken m' = mp_roundRobinToken m"
  using assms by (auto simp: mp_start_call_def same_dispatchers_def mp_prim_defs split: if_splits mp_call.splits)

text \<open>The pcs at which a call is about to enter dispatcher \<open>d\<close> with \<open>c\<close>.\<close>

fun entering_call :: "'a mp_pc \<Rightarrow> 'a ed_call option" where
  "entering_call (ME_Enqueue ut d) = Some (Enqueue (Some ut))"
| "entering_call (MB_Next d) = Some Busy"
| "entering_call (MG_Start i) = Some Pending"
| "entering_call (MD_Next d) = Some Destroy"
| "entering_call _ = None"

lemma call_moved:
  assumes "mp_call_step cfg t m = Some (Inr m')"
  shows "same_dispatchers m m' \<or>
    (\<exists>d c s'. entering_call (mp_calls m t) = Some c \<and> start_call t c (mp_dispatchers m ! d) = Some s' \<and> moved d s' m m' \<and>
       (\<forall>ut k. mp_calls m t = ME_Enqueue ut k \<longrightarrow> d = unat k))"
proof (cases "entering_call (mp_calls m t) = None")
  case True
  then show ?thesis using assms
    by (cases "mp_calls m t")
       (auto simp: mp_call_defs mp_prim_defs same_dispatchers_def Let_def split: if_splits option.splits)
next
  case False
  then show ?thesis using assms
    by (cases "mp_calls m t")
       (auto simp: mp_call_defs Let_def same_dispatchers_def mp_return_def dest!: enter_moved split: if_splits option.splits)
qed

lemma mp_step_moves:
  assumes "mp_step cfg m (Inr m')"
  shows "same_dispatchers m m' \<or> (\<exists>d s'. moved d s' m m')"
  using assms
proof (cases rule: mp_step.cases)
  case (Start t c)
  then show ?thesis using start_same by auto
next
  case (Call t)
  then show ?thesis using call_moved by blast
next
  case (Inner d t r)
  then show ?thesis
    by (cases r) (auto simp: lift_dispatcher_def intro!: lift_moved ed_step.Call)
next
  case (Loop d r)
  then show ?thesis
    by (cases r) (auto simp: lift_dispatcher_def intro!: lift_moved ed_step.Loop)
qed

section \<open>Every dispatcher runs as a single one\<close>

lemma mp_count: "mp_reach cfg t0 n m \<Longrightarrow> mp_concurrentTaskCount m = n \<and> length (mp_dispatchers m) = unat n"
proof (induction rule: mp_reach.induct)
  case (step m m')
  then show ?case using mp_step_moves [OF step.hyps(2)]
    by (auto simp: moved_def same_dispatchers_def)
qed (simp add: mp_new_def)

lemma mp_dispatcher_reach:
  "mp_reach cfg t0 n m \<Longrightarrow> d < length (mp_dispatchers m) \<Longrightarrow> ed_reach (t0 + d) (mp_dispatchers m ! d)"
proof (induction arbitrary: d rule: mp_reach.induct)
  case init
  then show ?case by (simp add: mp_new_def ed_reach.init)
next
  case (step m m')
  consider "mp_dispatchers m' = mp_dispatchers m"
    | k s' where "k < length (mp_dispatchers m)" "ed_step (mp_dispatchers m ! k) (Inr s')"
        "mp_dispatchers m' = (mp_dispatchers m)[k := s']"
    using mp_step_moves [OF step.hyps(2)] by (auto simp: moved_def same_dispatchers_def)
  then show ?case
  proof cases
    case 1
    then show ?thesis using step by simp
  next
    case (2 k s')
    then show ?thesis using step.IH [of d] step.prems ed_reach.step by (cases "d = k") auto
  qed
qed

section \<open>The history of the run\<close>

definition part_of :: "nat \<Rightarrow> (nat \<times> addr) list \<Rightarrow> addr list" where
  "part_of d h = map snd (filter (\<lambda>x. fst x = d) h)"

lemma part_of_append [simp]: "part_of d (h @ h') = part_of d h @ part_of d h'"
  by (simp add: part_of_def)

lemma part_of_map [simp]: "part_of d (map (Pair k) ps) = (if d = k then ps else [])"
  by (induction ps) (auto simp: part_of_def)

lemma loop_step_hist:
  assumes "loop_step s = Some (Inr s')"
  shows "ed_accepted s' = ed_accepted s \<and> (\<exists>rs. ed_ran s' = ed_ran s @ rs)"
  using assms
  by (cases "ed_loop s"; simp add: loop_step_def out_defs split: if_splits option.splits list.splits;
      auto simp: loop_to_def)

lemma call_step_accepts:
  assumes "call_step t s = Some (Inr s')"
  shows "ed_ran s' = ed_ran s \<and> (\<exists>qs. ed_accepted s' = ed_accepted s @ qs)"
  using assms
  by (cases "ed_calls s t"; simp add: call_defs out_defs split: if_splits option.splits;
      auto simp: goto_def return_def loop_to_def)

lemma ed_step_extends:
  assumes "ed_step s (Inr s')"
  shows "\<exists>qs rs. ed_accepted s' = ed_accepted s @ qs \<and> ed_ran s' = ed_ran s @ rs"
proof -
  consider (Start) t c where "start_call t c s = Some s'" | (Call) t where "call_step t s = Some (Inr s')"
    | (Loop) "loop_step s = Some (Inr s')"
    using assms by (auto elim: ed_stepE)
  then show ?thesis
  proof cases
    case (Start t c)
    then show ?thesis using start_call_same [OF Start] by simp
  next
    case (Call t)
    then show ?thesis using call_step_accepts [OF Call] by simp
  next
    case Loop
    then show ?thesis using loop_step_hist [OF Loop] by simp
  qed
qed

lemma mp_history:
  "mp_reach cfg t0 n m \<Longrightarrow>
     (\<forall>d < length (mp_dispatchers m). part_of d (mp_accepted m) = ed_accepted (mp_dispatchers m ! d) \<and>
        part_of d (mp_ran m) = ed_ran (mp_dispatchers m ! d)) \<and>
     (\<forall>x \<in> set (mp_accepted m) \<union> set (mp_ran m). fst x < length (mp_dispatchers m))"
proof (induction rule: mp_reach.induct)
  case init
  then show ?case by (simp add: mp_new_def ed_new_def part_of_def)
next
  case (step m m')
  show ?case
  proof (cases "same_dispatchers m m'")
    case True
    then show ?thesis using step.IH by (simp add: same_dispatchers_def)
  next
    case False
    then obtain k s' where k: "moved k s' m m'" using mp_step_moves [OF step.hyps(2)] by blast
    let ?s = "mp_dispatchers m ! k"
    obtain qs rs where h: "ed_accepted s' = ed_accepted ?s @ qs" "ed_ran s' = ed_ran ?s @ rs"
      using k ed_step_extends unfolding moved_def by blast
    have m': "mp_dispatchers m' = (mp_dispatchers m)[k := s']" "mp_accepted m' = mp_accepted m @ map (Pair k) qs"
        "mp_ran m' = mp_ran m @ map (Pair k) rs" "k < length (mp_dispatchers m)"
      using k h by (simp_all add: moved_def same_dispatchers_def on_dispatcher_def Let_def)
    show ?thesis using step.IH h by (auto simp: m' nth_list_update)
  qed
qed

section \<open>The route of a task\<close>

definition routed :: "hasher option \<Rightarrow> 'a mp \<Rightarrow> task_group_id \<Rightarrow> size_t option" where
  "routed cfg m i = (case cfg of Some h \<Rightarrow> Some (hash_destination h m i) | None \<Rightarrow> map_of (mp_taskIDTable m) i)"

fun routing :: "'a mp_pc \<Rightarrow> ('a unit_task \<times> size_t) option" where
  "routing (ME_UnlockTable ut d) = Some (ut, d)"
| "routing (ME_UnlockToken ut d) = Some (ut, d)"
| "routing (ME_Enqueue ut d) = Some (ut, d)"
| "routing _ = None"

definition pc_routed :: "hasher option \<Rightarrow> 'a mp \<Rightarrow> bool" where
  "pc_routed cfg m \<longleftrightarrow> (\<forall>t ut k. routing (mp_calls m t) = Some (ut, k) \<longrightarrow> routed cfg m (ut_id ut) = Some k)"

definition tasks_routed :: "hasher option \<Rightarrow> 'a mp \<Rightarrow> bool" where
  "tasks_routed cfg m \<longleftrightarrow> (\<forall>d < length (mp_dispatchers m). \<forall>p ut.
     ed_tasks (mp_dispatchers m ! d) p = Some ut \<longrightarrow> routed cfg m (ut_id ut) = Some (of_nat d))"

definition token_inv :: "'a mp \<Rightarrow> bool" where
  "token_inv m \<longleftrightarrow> (mp_concurrentTaskCount m \<noteq> 0 \<longrightarrow> mp_roundRobinToken m < mp_concurrentTaskCount m \<and>
     (\<forall>i k. (i, k) \<in> set (mp_taskIDTable m) \<longrightarrow> k < mp_concurrentTaskCount m))"

text \<open>A build with a hasher takes no lock.\<close>

fun locking :: "'a mp_pc \<Rightarrow> bool" where
  "locking (ME_LockTable ut) = True" | "locking (ME_Insert ut) = True" | "locking _ = False"

text \<open>A route, once known, stays.\<close>

lemma call_table:
  assumes "mp_call_step cfg t m = Some (Inr m')"
  shows "mp_concurrentTaskCount m' = mp_concurrentTaskCount m"
    and "map_of (mp_taskIDTable m) i = Some k \<Longrightarrow> map_of (mp_taskIDTable m') i = Some k"
    and "u \<noteq> t \<Longrightarrow> mp_calls m' u = mp_calls m u"
  using assms
  by (cases "mp_calls m t"; force simp: mp_call_defs mp_enter_def mp_prim_defs Let_def
      split: if_splits option.splits)+

lemma call_token:
  assumes "mp_call_step cfg t m = Some (Inr m')" and "token_inv m"
  shows "token_inv m'"
proof (cases "\<exists>ut. mp_calls m t = ME_Insert (Some ut)")
  case True
  then show ?thesis using assms
    by (auto simp: mp_call_defs mp_prim_defs Let_def token_inv_def not_le word_neq_0_conv split: if_splits option.splits)
next
  case False
  then have "mp_taskIDTable m' = mp_taskIDTable m" "mp_roundRobinToken m' = mp_roundRobinToken m"
    using assms(1)
    by (cases "mp_calls m t"; auto simp: mp_call_defs mp_enter_def mp_prim_defs Let_def split: if_splits option.splits)+
  then show ?thesis using assms(2) call_table(1) [OF assms(1)] by (simp add: token_inv_def)
qed

lemma same_rest:
  assumes "mp_step cfg m (Inr m')" and "\<forall>t. mp_call_step cfg t m \<noteq> Some (Inr m')"
  shows "mp_concurrentTaskCount m' = mp_concurrentTaskCount m" "mp_taskIDTable m' = mp_taskIDTable m"
    "mp_roundRobinToken m' = mp_roundRobinToken m"
    "routing (mp_calls m' u) = Some x \<Longrightarrow> routing (mp_calls m u) = Some x"
  using assms
  by (cases rule: mp_step.cases;
      auto simp: mp_start_call_def mp_prim_defs lift_dispatcher_def split: if_splits mp_call.splits sum.splits)+

lemma routed_keep:
  assumes "mp_step cfg m (Inr m')" and "routed cfg m i = Some k"
  shows "routed cfg m' i = Some k"
proof (cases "\<exists>t. mp_call_step cfg t m = Some (Inr m')")
  case True
  then obtain t where t: "mp_call_step cfg t m = Some (Inr m')" ..
  show ?thesis using assms(2) call_table(1,2) [OF t]
    by (cases cfg) (simp_all add: routed_def hash_destination_def)
next
  case False
  then show ?thesis using assms(2) same_rest(1,2) [OF assms(1)]
    by (cases cfg) (simp_all add: routed_def hash_destination_def)
qed

lemma hashing_keep:
  assumes "mp_step cfg m (Inr m')" and "cfg = None \<or> (\<forall>t. \<not> locking (mp_calls m t))"
  shows "cfg = None \<or> (\<forall>t. \<not> locking (mp_calls m' t))"
  using assms(1)
proof (cases rule: mp_step.cases)
  case (Start t c)
  then show ?thesis using assms(2) by (auto simp: mp_start_call_def mp_prim_defs split: if_splits mp_call.splits)
next
  case (Call t)
  have "cfg = None \<or> \<not> locking (mp_calls m t)" using assms(2) by blast
  then have "cfg = None \<or> \<not> locking (mp_calls m' t)" using Call
    by (cases "mp_calls m t") (auto simp: mp_call_defs mp_enter_def mp_prim_defs Let_def split: if_splits option.splits)
  then show ?thesis using assms(2) call_table(3) [OF Call] by metis
next
  case (Inner d t r)
  then show ?thesis using assms(2) by (auto simp: lift_dispatcher_def split: sum.splits)
next
  case (Loop d r)
  then show ?thesis using assms(2) by (auto simp: lift_dispatcher_def split: sum.splits)
qed

lemma token_keep: "mp_step cfg m (Inr m') \<Longrightarrow> token_inv m \<Longrightarrow> token_inv m'"
proof (cases "\<exists>t. mp_call_step cfg t m = Some (Inr m')")
  case True
  moreover assume "token_inv m"
  ultimately show ?thesis using call_token by blast
next
  case False
  assume step: "mp_step cfg m (Inr m')" and "token_inv m"
  have "\<forall>t. mp_call_step cfg t m \<noteq> Some (Inr m')" using False by blast
  note S = same_rest(1-3) [OF step this]
  show ?thesis using \<open>token_inv m\<close> by (simp add: token_inv_def S)
qed

lemma call_routing:
  assumes "mp_call_step cfg t m = Some (Inr m')" and "routing (mp_calls m' t) = Some (ut, k)"
    and "cfg = None \<or> (\<forall>u. mp_calls m t \<noteq> ME_Insert u)"
  shows "routing (mp_calls m t) = Some (ut, k) \<or> routed cfg m' (ut_id ut) = Some k"
  using assms
  by (cases "mp_calls m t")
     (auto simp: mp_call_defs mp_enter_def mp_prim_defs Let_def routed_def hash_destination_def
      split: if_splits option.splits)

lemma pc_routed_keep:
  assumes step: "mp_step cfg m (Inr m')" and "pc_routed cfg m" and rr: "cfg = None \<or> (\<forall>t. \<not> locking (mp_calls m t))"
  shows "pc_routed cfg m'"
  unfolding pc_routed_def
proof (intro allI impI)
  fix u ut k assume r: "routing (mp_calls m' u) = Some (ut, k)"
  have old: "routed cfg m' (ut_id ut) = Some k" if "routing (mp_calls m u) = Some (ut, k)"
    using assms(2) that routed_keep [OF step] unfolding pc_routed_def by blast
  show "routed cfg m' (ut_id ut) = Some k"
  proof (cases "\<exists>t. mp_call_step cfg t m = Some (Inr m')")
    case True
    then obtain t where t: "mp_call_step cfg t m = Some (Inr m')" ..
    have "cfg = None \<or> (\<forall>u. mp_calls m t \<noteq> ME_Insert u)" using rr by (metis locking.simps(2))
    then show ?thesis using call_routing [OF t] call_table(3) [OF t, of u] r old by (cases "u = t") auto
  next
    case False
    then show ?thesis using same_rest(4) [OF step] r old by blast
  qed
qed

text \<open>A task appears in a dispatcher when a call that is routed to it enters it.\<close>

lemma step_tasks:
  assumes "mp_step cfg m (Inr m')" and "ed_tasks (mp_dispatchers m' ! d) p = Some ut" and "d < length (mp_dispatchers m')"
  shows "ed_tasks (mp_dispatchers m ! d) p = Some ut \<or> (\<exists>t k. mp_calls m t = ME_Enqueue ut k \<and> d = unat k)"
  using assms(1)
proof (cases rule: mp_step.cases)
  case (Start t c)
  then show ?thesis using assms start_same [OF Start] by (simp add: same_dispatchers_def)
next
  case (Call t)
  from call_moved [OF Call] show ?thesis
  proof
    assume "same_dispatchers m m'"
    then show ?thesis using assms by (simp add: same_dispatchers_def)
  next
    assume "\<exists>d c s'. entering_call (mp_calls m t) = Some c \<and> start_call t c (mp_dispatchers m ! d) = Some s' \<and> moved d s' m m' \<and>
       (\<forall>ut k. mp_calls m t = ME_Enqueue ut k \<longrightarrow> d = unat k)"
    then obtain e c s' where e: "entering_call (mp_calls m t) = Some c" "start_call t c (mp_dispatchers m ! e) = Some s'"
      "moved e s' m m'" "\<forall>ut k. mp_calls m t = ME_Enqueue ut k \<longrightarrow> e = unat k" by blast
    have m': "mp_dispatchers m' = (mp_dispatchers m)[e := s']" using e(3) by (simp add: moved_def same_dispatchers_def)
    show ?thesis
    proof (cases "d = e")
      case True
      have "ed_tasks s' p = Some ut" using assms(2,3) True by (simp add: m')
      from start_call_tasks [OF e(2) this] show ?thesis
      proof
        assume "c = Enqueue (Some ut)"
        then obtain k where "mp_calls m t = ME_Enqueue ut k" using e(1) by (cases "mp_calls m t") auto
        then show ?thesis using e(4) True by blast
      qed (simp add: True)
    next
      case False
      then show ?thesis using assms(2) by (simp add: m')
    qed
  qed
next
  case (Inner e t r)
  then obtain s' where s': "r = Inr s'" "m' = on_dispatcher e s' m" by (cases r) (auto simp: lift_dispatcher_def)
  then have "ed_tasks s' = ed_tasks (mp_dispatchers m ! e)" using call_step_past(2) Inner(3) by blast
  then show ?thesis using assms(2,3) s' by (cases "d = e") auto
next
  case (Loop e r)
  then obtain s' where s': "r = Inr s'" "m' = on_dispatcher e s' m" by (cases r) (auto simp: lift_dispatcher_def)
  then have "ed_tasks s' = ed_tasks (mp_dispatchers m ! e)" using loop_step_past(1) Loop(3) by blast
  then show ?thesis using assms(2,3) s' by (cases "d = e") auto
qed

lemma tasks_routed_keep:
  assumes step: "mp_step cfg m (Inr m')" and "pc_routed cfg m" "tasks_routed cfg m"
    and len: "length (mp_dispatchers m') = length (mp_dispatchers m)"
  shows "tasks_routed cfg m'"
  unfolding tasks_routed_def
proof (intro allI impI)
  fix d p ut assume d: "d < length (mp_dispatchers m')" and p: "ed_tasks (mp_dispatchers m' ! d) p = Some ut"
  have "routed cfg m (ut_id ut) = Some (of_nat d)"
    using step_tasks [OF step p d]
  proof
    assume "ed_tasks (mp_dispatchers m ! d) p = Some ut"
    then show ?thesis using assms(3) d len unfolding tasks_routed_def by simp
  next
    assume "\<exists>t k. mp_calls m t = ME_Enqueue ut k \<and> d = unat k"
    then obtain t k where k: "mp_calls m t = ME_Enqueue ut k" "d = unat k" by blast
    then have "routing (mp_calls m t) = Some (ut, k)" by simp
    then show ?thesis using assms(2) k(2) unfolding pc_routed_def by fastforce
  qed
  then show "routed cfg m' (ut_id ut) = Some (of_nat d)" by (rule routed_keep [OF step])
qed

lemma mp_route_inv:
  "mp_reach cfg t0 n m \<Longrightarrow>
     pc_routed cfg m \<and> tasks_routed cfg m \<and> token_inv m \<and> (cfg = None \<or> (\<forall>t. \<not> locking (mp_calls m t)))"
proof (induction rule: mp_reach.induct)
  case init
  then show ?case
    by (auto simp: mp_new_def pc_routed_def tasks_routed_def token_inv_def ed_new_def word_neq_0_conv)
next
  case (step m m')
  have len: "length (mp_dispatchers m') = length (mp_dispatchers m)"
    using mp_count [OF step.hyps(1)] mp_count [OF mp_reach.step [OF step.hyps]] by simp
  show ?case
    using pc_routed_keep [OF step.hyps(2)] tasks_routed_keep [OF step.hyps(2) _ _ len] token_keep [OF step.hyps(2)]
      hashing_keep [OF step.hyps(2)] step.IH
    by blast
qed

section \<open>What the destructor has deleted\<close>

fun deleting :: "'a mp_pc \<Rightarrow> nat option" where
  "deleting (MD_Next d) = Some d"
| "deleting (MD_Inside d) = Some d"
| "deleting _ = None"

text \<open>One thread deletes the dispatchers in order, and only in a destructor.\<close>

definition dtor_pcs :: "'a mp \<Rightarrow> bool" where
  "dtor_pcs m \<longleftrightarrow>
     (\<forall>t d. deleting (mp_calls m t) = Some d \<longrightarrow> mp_dtor m \<and> mp_deleted m \<subseteq> {..<d}) \<and>
     (\<forall>t u. deleting (mp_calls m t) \<noteq> None \<longrightarrow> deleting (mp_calls m u) \<noteq> None \<longrightarrow> t = u) \<and>
     (mp_deleted m \<noteq> {} \<longrightarrow> mp_dtor m)"

lemma dtor_pcs_same:
  assumes "dtor_pcs m" and "\<And>u. deleting (mp_calls m' u) = deleting (mp_calls m u)"
    and "mp_dtor m' = mp_dtor m" "mp_deleted m' = mp_deleted m"
  shows "dtor_pcs m'"
  using assms by (simp add: dtor_pcs_def)

lemma call_other:
  assumes "mp_call_step cfg t m = Some (Inr m')" and "deleting (mp_calls m t) = None"
  shows "deleting (mp_calls m' t) = None \<and> mp_dtor m' = mp_dtor m \<and> mp_deleted m' = mp_deleted m"
  using assms
  by (cases "mp_calls m t") (auto simp: mp_call_defs mp_enter_def mp_prim_defs Let_def split: if_splits option.splits)

lemma call_deleting:
  assumes "mp_call_step cfg t m = Some (Inr m')" and "deleting (mp_calls m t) = Some d"
  shows "mp_dtor m' = mp_dtor m \<and> (
    mp_calls m t = MD_Next d \<and> mp_calls m' t = MD_Inside d \<and> mp_deleted m' = mp_deleted m \<or>
    mp_calls m t = MD_Next d \<and> mp_calls m' t = MIdle \<and> mp_deleted m' = mp_deleted m \<or>
    mp_calls m t = MD_Inside d \<and> ed_calls (mp_dispatchers m ! d) t = Idle \<and> mp_calls m' t = MD_Next (Suc d) \<and>
      mp_deleted m' = insert d (mp_deleted m))"
  using assms
  by (cases "mp_calls m t") (auto simp: mp_call_defs mp_enter_def mp_prim_defs Let_def split: if_splits option.splits)

lemma dtor_pcs_call:
  assumes m: "dtor_pcs m" and s: "mp_call_step cfg t m = Some (Inr m')"
  shows "dtor_pcs m'"
proof (cases "deleting (mp_calls m t)")
  case None
  have "deleting (mp_calls m' u) = deleting (mp_calls m u)" for u
    using call_other [OF s None] None call_table(3) [OF s, of u] by (cases "u = t") auto
  then show ?thesis using dtor_pcs_same [OF m] call_other [OF s None] by blast
next
  case (Some d)
  have o: "deleting (mp_calls m u) = None" "mp_calls m' u = mp_calls m u" if "u \<noteq> t" for u
    using m Some that call_table(3) [OF s, of u] unfolding dtor_pcs_def by blast+
  have d: "mp_dtor m" "mp_deleted m \<subseteq> {..<d}" using m Some unfolding dtor_pcs_def by blast+
  note S = call_deleting [OF s Some]
  have "deleting (mp_calls m' u) = Some e \<Longrightarrow> u = t \<and> mp_deleted m' \<subseteq> {..<e}" for u e
    using S d o [of u] by (cases "u = t") (auto simp: less_Suc_eq)
  then show ?thesis using S d unfolding dtor_pcs_def by (metis not_None_eq)
qed

lemma dtor_pcs_keep:
  assumes "mp_step cfg m (Inr m')" and m: "dtor_pcs m"
  shows "dtor_pcs m'"
  using assms(1)
proof (cases rule: mp_step.cases)
  case (Start t c)
  show ?thesis
  proof (cases "c = MPDestroy")
    case True
    then have n: "\<not> mp_dtor m" and m': "m' = mp_goto t (MD_Next 0) (m\<lparr>mp_dtor := True\<rparr>)"
      using Start by (auto simp: mp_start_call_def split: if_splits)
    have "deleting (mp_calls m u) = None" "mp_deleted m = {}" for u
      using m n unfolding dtor_pcs_def by (metis not_None_eq)+
    then show ?thesis by (simp add: m' dtor_pcs_def mp_goto_def)
  next
    case False
    have "deleting (mp_calls m t) = None" using Start by (auto simp: mp_start_call_def split: if_splits)
    then have "deleting (mp_calls m' u) = deleting (mp_calls m u)" "mp_dtor m' = mp_dtor m" "mp_deleted m' = mp_deleted m" for u
      using Start False by (auto simp: mp_start_call_def mp_prim_defs split: if_splits mp_call.splits)
    then show ?thesis by (rule dtor_pcs_same [OF m])
  qed
next
  case (Call t)
  then show ?thesis by (rule dtor_pcs_call [OF m])
next
  case (Inner d t r)
  show ?thesis by (rule dtor_pcs_same [OF m]) (use Inner in \<open>auto simp: lift_dispatcher_def split: sum.splits\<close>)
next
  case (Loop d r)
  show ?thesis by (rule dtor_pcs_same [OF m]) (use Loop in \<open>auto simp: lift_dispatcher_def split: sum.splits\<close>)
qed

text \<open>\<open>~EventDispatcher\<close> called by \<open>t\<close> is on its way, or it has waited for the end of the loop.\<close>

definition joined :: "tid \<Rightarrow> 'a ed \<Rightarrow> bool" where
  "joined t s \<longleftrightarrow> in_dtor (ed_calls s t) \<or> ed_loop s = L_Returned"

lemma ed_step_joined:
  assumes "ed_step s (Inr s')"
  shows "ed_loop s = L_Returned \<Longrightarrow> ed_loop s' = L_Returned" and "joined t s \<Longrightarrow> joined t s'"
proof -
  have "(ed_loop s = L_Returned \<longrightarrow> ed_loop s' = L_Returned) \<and> (joined t s \<longrightarrow> joined t s')"
    using assms
  proof (cases rule: ed_step.cases)
    case (Start u c)
    then show ?thesis
      by (cases c) (auto simp: start_call_def goto_def joined_def split: if_splits option.splits)
  next
    case (Call u)
    have l: "ed_loop s = L_Returned \<longrightarrow> ed_loop s' = L_Returned"
      using Call by (cases "ed_calls s u"; simp add: call_defs out_defs split: if_splits option.splits;
        auto simp: goto_def return_def loop_to_def)
    have "in_dtor (ed_calls s u) \<longrightarrow> joined u s'"
      using Call by (cases "ed_calls s u"; simp add: call_defs out_defs split: if_splits;
        auto simp: goto_def return_def joined_def)
    then show ?thesis using l call_step_calls [OF Call, of t] by (cases "u = t") (auto simp: joined_def)
  next
    case Loop
    then have "ed_loop s \<noteq> L_Returned" "ed_calls s' = ed_calls s"
      using loop_step_lock by (auto simp: loop_step_def blocked_def)
    then show ?thesis by (auto simp: joined_def)
  qed
  then show "ed_loop s = L_Returned \<Longrightarrow> ed_loop s' = L_Returned" and "joined t s \<Longrightarrow> joined t s'" by blast+
qed

definition dtor_loops :: "'a mp \<Rightarrow> bool" where
  "dtor_loops m \<longleftrightarrow>
     (\<forall>t d. mp_calls m t = MD_Inside d \<longrightarrow> d < length (mp_dispatchers m) \<and> joined t (mp_dispatchers m ! d)) \<and>
     (\<forall>d \<in> mp_deleted m. d < length (mp_dispatchers m) \<and> ed_loop (mp_dispatchers m ! d) = L_Returned)"

lemma call_loops:
  assumes m: "dtor_loops m" and s: "mp_call_step cfg t m = Some (Inr m')"
    and J: "\<And>u d. joined u (mp_dispatchers m ! d) \<Longrightarrow> d < length (mp_dispatchers m) \<Longrightarrow> joined u (mp_dispatchers m' ! d)"
    and R: "\<And>d. ed_loop (mp_dispatchers m ! d) = L_Returned \<Longrightarrow> d < length (mp_dispatchers m) \<Longrightarrow> ed_loop (mp_dispatchers m' ! d) = L_Returned"
    and len: "length (mp_dispatchers m') = length (mp_dispatchers m)"
  shows "dtor_loops m'"
proof -
  have old: "d < length (mp_dispatchers m)" "joined u (mp_dispatchers m ! d)" if "mp_calls m u = MD_Inside d" for u d
    using m that unfolding dtor_loops_def by blast+
  have "d < length (mp_dispatchers m') \<and> joined u (mp_dispatchers m' ! d)" if u: "mp_calls m' u = MD_Inside d" for u d
  proof (cases "mp_calls m u = MD_Inside d")
    case True
    then show ?thesis using old J len by simp
  next
    case False
    then have "u = t" using call_table(3) [OF s, of u] u by metis
    then have "mp_calls m t = MD_Next d"
      using u False s by (cases "mp_calls m t") (auto simp: mp_call_defs mp_enter_def mp_prim_defs Let_def split: if_splits option.splits)
    then have "mp_enter d t Destroy (MD_Inside d) m = Some (Inr m')" "d < length (mp_dispatchers m)"
      using u s \<open>u = t\<close> by (auto simp: mp_call_defs mp_prim_defs split: if_splits)
    then show ?thesis using \<open>u = t\<close>
      by (auto simp: mp_enter_def start_call_def goto_def mp_goto_def joined_def split: if_splits option.splits)
  qed
  moreover have "d < length (mp_dispatchers m') \<and> ed_loop (mp_dispatchers m' ! d) = L_Returned" if d: "d \<in> mp_deleted m'" for d
  proof (cases "d \<in> mp_deleted m")
    case True
    then show ?thesis using m R len by (simp add: dtor_loops_def)
  next
    case False
    then have "mp_calls m t = MD_Inside d \<and> ed_calls (mp_dispatchers m ! d) t = Idle"
      using d call_other [OF s] call_deleting [OF s] by (cases "deleting (mp_calls m t)") auto
    then have "d < length (mp_dispatchers m)" "ed_loop (mp_dispatchers m ! d) = L_Returned"
      using old [of t d] by (auto simp: joined_def)
    then show ?thesis using R len by simp
  qed
  ultimately show ?thesis by (simp add: dtor_loops_def)
qed

lemma dtor_loops_keep:
  assumes step: "mp_step cfg m (Inr m')" and m: "dtor_loops m"
  shows "dtor_loops m'"
proof -
  consider "mp_dispatchers m' = mp_dispatchers m"
    | k s' where "k < length (mp_dispatchers m)" "ed_step (mp_dispatchers m ! k) (Inr s')"
        "mp_dispatchers m' = (mp_dispatchers m)[k := s']"
    using mp_step_moves [OF step] by (auto simp: moved_def same_dispatchers_def)
  then have S: "length (mp_dispatchers m') = length (mp_dispatchers m) \<and> (\<forall>d < length (mp_dispatchers m).
      (\<forall>u. joined u (mp_dispatchers m ! d) \<longrightarrow> joined u (mp_dispatchers m' ! d)) \<and>
      (ed_loop (mp_dispatchers m ! d) = L_Returned \<longrightarrow> ed_loop (mp_dispatchers m' ! d) = L_Returned))"
    by cases (auto simp: nth_list_update dest: ed_step_joined)
  have same: "dtor_loops m'" if "\<And>u d. mp_calls m' u = MD_Inside d \<Longrightarrow> mp_calls m u = MD_Inside d" "mp_deleted m' = mp_deleted m"
    using m S that unfolding dtor_loops_def by metis
  show ?thesis using step
  proof (cases rule: mp_step.cases)
    case (Start t c)
    show ?thesis by (rule same) (use Start in \<open>auto simp: mp_start_call_def mp_prim_defs split: if_splits mp_call.splits\<close>)
  next
    case (Call t)
    show ?thesis by (rule call_loops [OF m Call]) (use S in blast)+
  next
    case (Inner d t r)
    show ?thesis by (rule same) (use Inner in \<open>auto simp: lift_dispatcher_def split: sum.splits\<close>)
  next
    case (Loop d r)
    show ?thesis by (rule same) (use Loop in \<open>auto simp: lift_dispatcher_def split: sum.splits\<close>)
  qed
qed

lemma mp_dtor_inv: "mp_reach cfg t0 n m \<Longrightarrow> dtor_pcs m \<and> dtor_loops m"
proof (induction rule: mp_reach.induct)
  case init
  show ?case by (simp add: mp_new_def dtor_pcs_def dtor_loops_def)
next
  case (step m m')
  then show ?case using dtor_pcs_keep dtor_loops_keep by blast
qed

section \<open>Properties\<close>

text \<open>The dispatcher that thread \<open>t\<close> is about to call; the destructor is not among the callers.\<close>

definition calls_next :: "hasher option \<Rightarrow> 'a mp \<Rightarrow> tid \<Rightarrow> nat option" where
  "calls_next cfg m t =
     (case mp_calls m t of
        ME_Enqueue ut d \<Rightarrow> Some (unat d)
      | MB_Next d \<Rightarrow> Some d
      | MG_Start i \<Rightarrow> map_option (\<lambda>hasher. unat (hash_destination hasher m i)) cfg
      | _ \<Rightarrow> None)"

definition uses_deleted :: "hasher option \<Rightarrow> 'a mp \<Rightarrow> bool" where
  "uses_deleted cfg m \<longleftrightarrow>
     (\<exists>t. \<exists>d \<in> mp_deleted m. calls_next cfg m t = Some d \<or> ed_calls (mp_dispatchers m ! d) t \<noteq> Idle)"

lemma step_fault:
  assumes "mp_step cfg m (Inl f)"
  shows "(\<exists>t. mp_call_step cfg t m = Some (Inl f)) \<or>
    (\<exists>d < length (mp_dispatchers m). \<exists>t. call_step t (mp_dispatchers m ! d) = Some (Inl f) \<or> loop_step (mp_dispatchers m ! d) = Some (Inl f)) \<or>
    f = UseAfterFree \<and> (\<exists>t. \<exists>d \<in> mp_deleted m. ed_calls (mp_dispatchers m ! d) t \<noteq> Idle)"
  using assms
proof (cases rule: mp_step.cases)
  case (Call t)
  then show ?thesis by blast
next
  case (Inner d t r)
  then have "r = Inl f" by (cases r) (auto simp: lift_dispatcher_def)
  then show ?thesis using Inner by blast
next
  case (Loop d r)
  then have "r = Inl f" by (cases r) (auto simp: lift_dispatcher_def)
  then show ?thesis using Loop by blast
qed auto

lemma call_fault:
  assumes "mp_call_step cfg t m = Some (Inl f)"
  shows "f = NullDeref \<and> (mp_calls m t = ME_Start None \<or> mp_calls m t = ME_Insert None) \<or>
    f = DivByZero \<and> mp_concurrentTaskCount m = 0 \<or>
    f = OutOfRange \<and> (\<exists>h i. cfg = Some h \<and> mp_concurrentTaskCount m \<noteq> 0 \<and> length (mp_dispatchers m) \<le> unat (hash_destination h m i)) \<or>
    f = OutOfRange \<and> (\<exists>ut k. mp_calls m t = ME_Enqueue ut k \<and> length (mp_dispatchers m) \<le> unat k) \<or>
    f = UseAfterFree \<and> (\<exists>d \<in> mp_deleted m. calls_next cfg m t = Some d \<or> mp_calls m t = MD_Next d)"
  using assms
  by (cases "mp_calls m t")
    (auto simp: mp_call_defs mp_enter_def mp_acquire_def Let_def calls_next_def not_less split: if_splits option.splits)

text \<open>
  C20: With at least one dispatcher, in either build, a step faults (no index past the end of
  \<open>dispatchers_\<close>, no dead task) in two cases only: an \<open>enqueueTask\<close> with a null pointer, which
  dereferences it, and, once the destructor runs, the use of a dispatcher that it has already
  deleted, by a thread that is about to call it or still inside. Both do fault. The destructor
  deletes a dispatcher only after its loop has returned, and none of them twice. With no
  dispatcher, the hashing build divides by zero on the first task.
\<close>

theorem mp_faults_only_on_null:
  assumes "mp_reach cfg t0 n m"
  shows "(n \<noteq> 0 \<and> mp_step cfg m (Inl f) \<longrightarrow>
      f = NullDeref \<and> (\<exists>t. mp_calls m t = ME_Start None \<or> mp_calls m t = ME_Insert None) \<or>
      f = UseAfterFree \<and> mp_dtor m \<and> uses_deleted cfg m) \<and>
    (\<forall>t. mp_calls m t = ME_Insert None \<or> mp_calls m t = ME_Start None \<and> cfg \<noteq> None \<longrightarrow>
      mp_call_step cfg t m = Some (Inl NullDeref)) \<and>
    (uses_deleted cfg m \<longrightarrow> mp_step cfg m (Inl UseAfterFree)) \<and>
    (\<forall>d \<in> mp_deleted m. ed_loop (mp_dispatchers m ! d) = L_Returned \<and> (\<forall>t. mp_calls m t \<noteq> MD_Next d)) \<and>
    (\<forall>t ut. n = 0 \<and> cfg \<noteq> None \<and> mp_calls m t = ME_Start (Some ut) \<longrightarrow> mp_call_step cfg t m = Some (Inl DivByZero))"
proof (intro conjI allI impI ballI; (elim conjE)?)
  note C = mp_count [OF assms]
  note D = mp_dtor_inv [OF assms, unfolded dtor_pcs_def dtor_loops_def]
  show twice: "mp_calls m t \<noteq> MD_Next d" if "d \<in> mp_deleted m" for t d
  proof
    assume "mp_calls m t = MD_Next d"
    then have "deleting (mp_calls m t) = Some d" by simp
    then have "mp_deleted m \<subseteq> {..<d}" using D by blast
    then show False using that by auto
  qed
  show "f = NullDeref \<and> (\<exists>t. mp_calls m t = ME_Start None \<or> mp_calls m t = ME_Insert None) \<or>
      f = UseAfterFree \<and> mp_dtor m \<and> uses_deleted cfg m"
    if n: "n \<noteq> 0" and f: "mp_step cfg m (Inl f)"
  proof -
    have E: "call_step t (mp_dispatchers m ! d) \<noteq> Some (Inl f)" "loop_step (mp_dispatchers m ! d) \<noteq> Some (Inl f)"
      if "d < length (mp_dispatchers m)" for d t
      using call_no_fault loop_no_fault ed_inv_reach [OF mp_dispatcher_reach [OF assms that]] by blast+
    have H: "unat (hash_destination h m i) < length (mp_dispatchers m)" for h i
    proof -
      have "0 < unat n" using n by (simp add: unat_gt_0)
      then have "unat (hasher mod n) < unat n" for hasher :: size_t by (simp add: unat_mod)
      then show ?thesis using C by (simp add: hash_destination_def)
    qed
    have K: "unat k < length (mp_dispatchers m)" if e: "mp_calls m t = ME_Enqueue ut k" for t ut k
    proof (cases cfg)
      case None
      have "map_of (mp_taskIDTable m) (ut_id ut) = Some k"
        using mp_route_inv [OF assms] e None unfolding pc_routed_def routed_def by (metis option.simps(4) routing.simps(3))
      then have "k < n" using mp_route_inv [OF assms] map_of_SomeD C n unfolding token_inv_def by fast
      then show ?thesis using C by (simp add: word_less_nat_alt)
    next
      case (Some h)
      have "k = hash_destination h m (ut_id ut)"
        using mp_route_inv [OF assms] e Some unfolding pc_routed_def routed_def by (metis option.inject option.simps(5) routing.simps(3))
      then show ?thesis using H by simp
    qed
    have "(\<exists>t. mp_call_step cfg t m = Some (Inl f)) \<or>
        f = UseAfterFree \<and> (\<exists>t. \<exists>d \<in> mp_deleted m. ed_calls (mp_dispatchers m ! d) t \<noteq> Idle)"
      using step_fault [OF f] E by blast
    then show ?thesis
    proof
      assume "\<exists>t. mp_call_step cfg t m = Some (Inl f)"
      then obtain t where t: "mp_call_step cfg t m = Some (Inl f)" ..
      have "\<not> (\<exists>d \<in> mp_deleted m. mp_calls m t = MD_Next d)" using twice by blast
      moreover have "mp_dtor m" if "d \<in> mp_deleted m" for d using D that by blast
      ultimately show ?thesis using call_fault [OF t] H K C n unfolding uses_deleted_def by (metis not_less)
    next
      assume "f = UseAfterFree \<and> (\<exists>t. \<exists>d \<in> mp_deleted m. ed_calls (mp_dispatchers m ! d) t \<noteq> Idle)"
      moreover from this have "mp_dtor m" using D by blast
      ultimately show ?thesis unfolding uses_deleted_def by blast
    qed
  qed
  show "mp_call_step cfg t m = Some (Inl NullDeref)"
    if "mp_calls m t = ME_Insert None \<or> mp_calls m t = ME_Start None \<and> cfg \<noteq> None" for t
    using that by (auto simp: mp_call_step_def mp_enqueue_step_def)
  show "ed_loop (mp_dispatchers m ! d) = L_Returned" if "d \<in> mp_deleted m" for d using D that by blast
  show "mp_step cfg m (Inl UseAfterFree)" if u: "uses_deleted cfg m"
  proof -
    obtain t d where d: "d \<in> mp_deleted m" "calls_next cfg m t = Some d \<or> ed_calls (mp_dispatchers m ! d) t \<noteq> Idle"
      using u unfolding uses_deleted_def by blast
    have "d < length (mp_dispatchers m)" using D d(1) by blast
    moreover from this have "mp_concurrentTaskCount m \<noteq> 0" using C by auto
    ultimately have "mp_call_step cfg t m = Some (Inl UseAfterFree)" if "calls_next cfg m t = Some d"
      using that d(1) by (cases "mp_calls m t") (auto simp: calls_next_def mp_call_defs mp_enter_def Let_def split: option.splits)
    then show ?thesis using d mp_step.Call mp_step.Dead by metis
  qed
  show "mp_call_step cfg t m = Some (Inl DivByZero)"
    if "n = 0" "cfg \<noteq> None" "mp_calls m t = ME_Start (Some ut)" for t ut
    using that C by (auto simp: mp_call_step_def mp_enqueue_step_def)
qed

lemma start_enqueue:
  "(1 :: nat) \<notin> ed_thread ` set (mp_dispatchers m) \<Longrightarrow> mp_calls m 1 = MIdle \<Longrightarrow>
     mp_start_call 1 (MPEnqueue u) m = Some (mp_goto 1 (ME_Start u) m)"
  by (auto simp: mp_start_call_def)

text \<open>Runs inside one dispatcher, for the instances.\<close>

definition only_moved :: "nat \<Rightarrow> 'a ed \<Rightarrow> 'a mp \<Rightarrow> 'a mp \<Rightarrow> bool" where
  "only_moved d s' m m' \<longleftrightarrow> mp_dispatchers m' = (mp_dispatchers m)[d := s'] \<and> mp_calls m' = mp_calls m \<and>
     mp_deleted m' = mp_deleted m \<and> mp_dtor m' = mp_dtor m"

lemma mp_call_run:
  "mp_reach cfg t0 n m \<Longrightarrow> d < length (mp_dispatchers m) \<Longrightarrow> d \<notin> mp_deleted m \<Longrightarrow>
   call_run t k (mp_dispatchers m ! d) = Some (Inr s') \<Longrightarrow> \<exists>m'. mp_reach cfg t0 n m' \<and> only_moved d s' m m'"
proof (induction k arbitrary: m)
  case 0
  then show ?case by (intro exI [of _ m]) (auto simp: only_moved_def ok_step_def)
next
  case (Suc k)
  obtain s1 where s1: "call_step t (mp_dispatchers m ! d) = Some (Inr s1)" "call_run t k s1 = Some (Inr s')"
    using Suc.prems(4) by (auto split: option.splits sum.splits)
  let ?m = "on_dispatcher d s1 m"
  have "mp_step cfg m (Inr ?m)"
    using mp_step.Inner [OF Suc.prems(2) s1(1) Suc.prems(3)] by (simp add: lift_dispatcher_def)
  then have "mp_reach cfg t0 n ?m" by (rule mp_reach.step [OF Suc.prems(1)])
  then show ?case using Suc.IH [of ?m] Suc.prems(2,3) s1(2) by (auto simp: only_moved_def)
qed

lemma mp_loop_run:
  "mp_reach cfg t0 n m \<Longrightarrow> d < length (mp_dispatchers m) \<Longrightarrow> mp_calls m (ed_thread (mp_dispatchers m ! d)) = MIdle \<Longrightarrow>
   loop_run k (mp_dispatchers m ! d) = Some (Inr s') \<Longrightarrow> \<exists>m'. mp_reach cfg t0 n m' \<and> only_moved d s' m m'"
proof (induction k arbitrary: m)
  case 0
  then show ?case by (intro exI [of _ m]) (auto simp: only_moved_def ok_step_def)
next
  case (Suc k)
  obtain s1 where s1: "loop_step (mp_dispatchers m ! d) = Some (Inr s1)" "loop_run k s1 = Some (Inr s')"
    using Suc.prems(4) by (auto split: option.splits sum.splits)
  let ?m = "on_dispatcher d s1 m"
  have "loop_free m (mp_dispatchers m ! d)" using Suc.prems(3) by (simp add: loop_free_def split: loop_pc.split)
  then have "mp_step cfg m (Inr ?m)"
    using mp_step.Loop [OF Suc.prems(2) s1(1)] by (simp add: lift_dispatcher_def)
  then have "mp_reach cfg t0 n ?m" by (rule mp_reach.step [OF Suc.prems(1)])
  then show ?case using Suc.IH [of ?m] Suc.prems(2,3) s1(2) loop_step_lock [OF s1(1)] by (auto simp: only_moved_def)
qed

lemma mp_started: "mp_reach cfg t0 n m \<Longrightarrow> mp_start_call t c m = Some m' \<Longrightarrow> mp_reach cfg t0 n m'"
  by (rule mp_reach.step [OF _ mp_step.Start])

lemma mp_called: "mp_reach cfg t0 n m \<Longrightarrow> mp_call_step cfg t m = Some (Inr m') \<Longrightarrow> mp_reach cfg t0 n m'"
  by (rule mp_reach.step [OF _ mp_step.Call])

text \<open>
  The destructor has deleted the first dispatcher, while the second one still executes a task,
  and this task asks whether the dispatcher is busy.
\<close>

lemma task_meets_deleted:
  "\<exists>m :: nat mp. mp_reach (Some ucast) 5 2 m \<and> ed_loop (mp_dispatchers m ! 1) = L_Exec 0 \<and>
     ed_thread (mp_dispatchers m ! 1) = 6 \<and> mp_calls m 6 = MB_Next 0 \<and> mp_deleted m = {0}"
proof -
  let ?m0 = "mp_new 5 2 :: nat mp" and ?u = "UnitTask_id (3 :: nat) 7" and ?e = "ed_new 6 :: nat ed"
  have D0: "mp_dispatchers ?m0 = [ed_new 5, ed_new 6]" by (simp add: mp_new_def upt_rec)
  have n: "ed_calls (ed_new t) u = Idle" "ed_owner (ed_new t) x = None" "\<not> ed_isStopped (ed_new t)" "ed_thread (ed_new t) = t"
      "ed_queue (ed_new t) = []" "ed_next (ed_new t) = 0" "ed_loop (ed_new t) = L_Lock" "\<not> ed_isDying (ed_new t)" for t u x
    by (simp_all add: ed_new_def)
  have "ed_calls ?e 1 = Idle" "1 = ed_thread ?e \<longrightarrow> (\<exists>p. ed_loop ?e = L_Exec p)"
      "\<forall>x. ed_owner ?e x = None" "\<not> ed_isStopped ?e" by (simp_all add: n)
  from enqueue_alone [OF this, of ?u] obtain s1 s2 where e:
      "start_call 1 (Enqueue (Some ?u)) ?e = Some s1" "call_run 1 8 s1 = Some (Inr s2)"
      "ed_queue s2 = ed_queue ?e @ [ed_next ?e]" "ed_calls s2 = ed_calls ?e" "\<forall>x. ed_owner s2 x = None"
      "ed_thread s2 = ed_thread ?e" "ed_isDying s2 = ed_isDying ?e"
      "ed_loop s2 = (if ed_loop ?e = L_Wait then L_Relock else ed_loop ?e)"
      "ed_heap s2 = (ed_heap ?e)(ed_next ?e \<mapsto> ?u)" by blast
  then have s: "start_call 1 (Enqueue (Some ?u)) ?e = Some s1" "call_run 1 8 s1 = Some (Inr s2)"
      "ed_queue s2 = [0]" "ed_calls s2 = ed_calls ?e" "\<forall>x. ed_owner s2 x = None" "ed_thread s2 = 6"
      "\<not> ed_isDying s2" "ed_loop s2 = L_Lock" "ed_heap s2 0 = Some ?u"
    by (simp_all add: n)
  obtain s3 where s3: "loop_run 6 s2 = Some (Inr s3)" "ed_loop s3 = L_Exec 0" "ed_thread s3 = 6"
    using s by (simp add: eval_nat_numeral loop_step_def step_defs)
  obtain a1 a2 a3 a4 where a: "start_call 1 Destroy (ed_new 5 :: nat ed) = Some a1" "call_run 1 4 a1 = Some (Inr a2)"
      "loop_run 4 a2 = Some (Inr a3)" "call_run 1 1 a3 = Some (Inr a4)" "ed_calls a4 1 = Idle" "ed_thread a2 = 5" "ed_thread a4 = 5"
    by (simp add: start_call_def ed_new_def eval_nat_numeral call_step_def dtor_step_def loop_step_def step_defs)
  let ?m1 = "mp_goto 1 (ME_Start (Some ?u)) ?m0" and ?m2 = "mp_goto 1 (ME_Enqueue ?u 1) ?m0"
  have "mp_start_call 1 (MPEnqueue (Some ?u)) ?m0 = Some ?m1" by (auto simp: mp_start_call_def D0 n) (simp add: mp_new_def)
  moreover have "mp_call_step (Some ucast) 1 ?m1 = Some (Inr ?m2)"
    by (simp add: mp_call_step_def mp_enqueue_step_def mp_goto_def hash_destination_def mp_new_def)
  ultimately have r2: "mp_reach (Some ucast) 5 2 ?m2" by (rule mp_called [OF mp_started [OF mp_reach.init]])
  let ?m3 = "mp_goto 1 (ME_Inside 1) (on_dispatcher 1 s1 ?m2)"
  have "mp_call_step (Some ucast) 1 ?m2 = Some (Inr ?m3)"
    using s(1) by (simp add: mp_call_step_def mp_enqueue_step_def mp_enter_def mp_goto_def D0) (simp add: mp_new_def)
  then have r3: "mp_reach (Some ucast) 5 2 ?m3" by (rule mp_called [OF r2])
  obtain m4 where m4: "mp_reach (Some ucast) 5 2 m4" "only_moved 1 s2 ?m3 m4"
    using mp_call_run [OF r3, of 1 1 8 s2] s(2) by (auto simp: mp_goto_def D0) (auto simp: mp_new_def)
  then have f4: "mp_dispatchers m4 = [ed_new 5, s2]" "mp_calls m4 = (\<lambda>_. MIdle)(1 := ME_Inside 1)" "mp_deleted m4 = {}" "\<not> mp_dtor m4"
    by (auto simp: only_moved_def mp_goto_def D0) (auto simp: mp_new_def)
  let ?m5 = "mp_return 1 (RBool True) m4"
  have "mp_call_step (Some ucast) 1 m4 = Some (Inr ?m5)" by (simp add: mp_call_step_def mp_enqueue_step_def f4 s(4) n)
  then have r5: "mp_reach (Some ucast) 5 2 ?m5" by (rule mp_called [OF m4(1)])
  obtain m6 where m6: "mp_reach (Some ucast) 5 2 m6" "only_moved 1 s3 ?m5 m6"
    using mp_loop_run [OF r5, of 1 6 s3] s3(1) s(6) by (auto simp: mp_return_def f4)
  then have f6: "mp_dispatchers m6 = [ed_new 5, s3]" "mp_calls m6 = (\<lambda>_. MIdle)" "mp_deleted m6 = {}" "\<not> mp_dtor m6"
    by (auto simp: only_moved_def mp_return_def f4)
  let ?m7 = "mp_goto 1 (MD_Next 0) (m6\<lparr>mp_dtor := True\<rparr>)"
  have "mp_start_call 1 MPDestroy m6 = Some ?m7" by (simp add: mp_start_call_def f6 n s3)
  then have r7: "mp_reach (Some ucast) 5 2 ?m7" by (rule mp_started [OF m6(1)])
  let ?m8 = "mp_goto 1 (MD_Inside 0) (on_dispatcher 0 a1 ?m7)"
  have "mp_call_step (Some ucast) 1 ?m7 = Some (Inr ?m8)"
    using a(1) by (simp add: mp_call_step_def mp_dtor_step_def mp_enter_def mp_goto_def f6)
  then have r8: "mp_reach (Some ucast) 5 2 ?m8" by (rule mp_called [OF r7])
  obtain m9 where m9: "mp_reach (Some ucast) 5 2 m9" "only_moved 0 a2 ?m8 m9"
    using mp_call_run [OF r8, of 0 1 4 a2] a(2) by (auto simp: mp_goto_def f6)
  then have f9: "mp_dispatchers m9 = [a2, s3]" "mp_calls m9 = (\<lambda>_. MIdle)(1 := MD_Inside 0)" "mp_deleted m9 = {}"
    by (auto simp: only_moved_def mp_goto_def f6)
  obtain m10 where m10: "mp_reach (Some ucast) 5 2 m10" "only_moved 0 a3 m9 m10"
    using mp_loop_run [OF m9(1), of 0 4 a3] a(3,6) by (auto simp: f9)
  then have f10: "mp_dispatchers m10 = [a3, s3]" "mp_calls m10 = (\<lambda>_. MIdle)(1 := MD_Inside 0)" "mp_deleted m10 = {}"
    by (auto simp: only_moved_def f9)
  obtain m11 where m11: "mp_reach (Some ucast) 5 2 m11" "only_moved 0 a4 m10 m11"
    using mp_call_run [OF m10(1), of 0 1 1 a4] a(4) by (auto simp: f10)
  then have f11: "mp_dispatchers m11 = [a4, s3]" "mp_calls m11 = (\<lambda>_. MIdle)(1 := MD_Inside 0)" "mp_deleted m11 = {}"
    by (auto simp: only_moved_def f10)
  let ?m12 = "mp_goto 1 (MD_Next 1) (m11\<lparr>mp_deleted := {0}\<rparr>)" and ?m13 = "mp_goto 6 (MB_Next 0) (mp_goto 1 (MD_Next 1) (m11\<lparr>mp_deleted := {0}\<rparr>))"
  have "mp_call_step (Some ucast) 1 m11 = Some (Inr ?m12)" using a(5) by (simp add: mp_call_step_def mp_dtor_step_def f11)
  then have r12: "mp_reach (Some ucast) 5 2 ?m12" by (rule mp_called [OF m11(1)])
  have "mp_start_call 6 MPBusy ?m12 = Some ?m13"
    by (simp add: mp_start_call_def mp_goto_def f11 s3 a(7))
  then have "mp_reach (Some ucast) 5 2 ?m13" by (rule mp_started [OF r12])
  then show ?thesis by (rule exI [where x = ?m13, OF conjI]) (simp add: mp_goto_def f11 s3)
qed

theorem mp_faults_only_on_null_witness:
  "\<exists>m :: nat mp. ed_loop (mp_dispatchers m ! 1) = L_Exec 0 \<and> ed_thread (mp_dispatchers m ! 1) = 6 \<and> mp_calls m 6 = MB_Next 0 \<and>
     ed_loop (mp_dispatchers m ! 0) = L_Returned \<and> mp_step (Some ucast) m (Inl UseAfterFree)"
proof -
  obtain m :: "nat mp" where m: "mp_reach (Some ucast) 5 2 m" "ed_loop (mp_dispatchers m ! 1) = L_Exec 0"
      "ed_thread (mp_dispatchers m ! 1) = 6" "mp_calls m 6 = MB_Next 0" "mp_deleted m = {0}"
    using task_meets_deleted by blast
  have "uses_deleted (Some ucast) m" unfolding uses_deleted_def using m(4,5) by (intro exI [of _ 6]) (simp add: calls_next_def)
  then show ?thesis using mp_faults_only_on_null [OF m(1)] m by (intro exI [of _ m]) auto
qed

text \<open>
  The same run as a defect of the code: a task of a later dispatcher uses the deleted first
  one while \<open>~MPEventDispatcher\<close> goes on.
\<close>

theorem destructor_leaves_tasks_a_deleted_dispatcher:
  "\<exists>m :: nat mp. mp_reach (Some ucast) 5 2 m \<and> ed_loop (mp_dispatchers m ! 1) = L_Exec 0 \<and>
     mp_call_step (Some ucast) 6 m = Some (Inl UseAfterFree)"
proof -
  obtain m :: "nat mp" where m: "mp_reach (Some ucast) 5 2 m" "ed_loop (mp_dispatchers m ! 1) = L_Exec 0"
      "ed_thread (mp_dispatchers m ! 1) = 6" "mp_calls m 6 = MB_Next 0" "mp_deleted m = {0}"
    using task_meets_deleted by blast
  have "length (mp_dispatchers m) = 2" using mp_count [OF m(1)] by simp
  then have "mp_call_step (Some ucast) 6 m = Some (Inl UseAfterFree)"
    using m by (simp add: mp_call_step_def mp_busy_step_def mp_enter_def)
  then show ?thesis using m by blast
qed

lemma accepted_task:
  assumes "mp_reach cfg t0 n m" and "d < length (mp_dispatchers m)" and "p \<in> set (ed_accepted (mp_dispatchers m ! d))"
  shows "\<exists>ut. ed_tasks (mp_dispatchers m ! d) p = Some ut \<and> routed cfg m (ut_id ut) = Some (of_nat d)"
proof -
  let ?s = "mp_dispatchers m ! d"
  have "p \<in> dom (ed_tasks ?s)"
    using accepted_known [OF mp_dispatcher_reach [OF assms(1,2)]] assms(3) by blast
  then show ?thesis using mp_route_inv [OF assms(1)] assms(2) unfolding tasks_routed_def by blast
qed

text \<open>
  C19: Sequential consistency of a group: the tasks with one id are all accepted by the same
  dispatcher (the one the hasher names, in that build), so two tasks of a group never run at the
  same time, whatever the threads do.
\<close>

theorem mp_group_never_concurrent:
  assumes "mp_reach cfg t0 n m"
    and "d < length (mp_dispatchers m)" and "d' < length (mp_dispatchers m)"
    and "p \<in> set (ed_accepted (mp_dispatchers m ! d))" and "q \<in> set (ed_accepted (mp_dispatchers m ! d'))"
    and "id_of (mp_dispatchers m ! d) p = id_of (mp_dispatchers m ! d') q"
  shows "d = d' \<and> (\<forall>h i. cfg = Some h \<and> id_of (mp_dispatchers m ! d) p = Some i \<longrightarrow> d = unat (h (ucast i) mod n)) \<and>
    (ed_loop (mp_dispatchers m ! d) = L_Exec p \<and> ed_loop (mp_dispatchers m ! d') = L_Exec q \<longrightarrow> p = q)"
proof -
  note C = mp_count [OF assms(1)]
  obtain u u' where u: "ed_tasks (mp_dispatchers m ! d) p = Some u" "routed cfg m (ut_id u) = Some (of_nat d)"
      "ed_tasks (mp_dispatchers m ! d') q = Some u'" "routed cfg m (ut_id u') = Some (of_nat d')"
    using accepted_task [OF assms(1,2,4)] accepted_task [OF assms(1,3,5)] by blast
  have "ut_id u = ut_id u'" using assms(6) u by (simp add: id_of_def)
  then have "(of_nat d :: size_t) = of_nat d'" using u by simp
  then have "unat (of_nat d :: size_t) = unat (of_nat d' :: size_t)" by simp
  moreover have U: "unat (of_nat e :: size_t) = e" if "e < length (mp_dispatchers m)" for e
    using that C unsigned_less [of n, where 'a = nat] by (simp add: unat_of_nat take_bit_nat_eq_self)
  ultimately have d: "d = d'" using assms(2,3) by simp
  have "d = unat (h (ucast (ut_id u)) mod n)" if "cfg = Some h" for h
    using u(2) that C U [OF assms(2)] by (auto simp: routed_def hash_destination_def)
  then show ?thesis using d u by (auto simp: id_of_def)
qed

theorem mp_group_never_concurrent_witness:
  "\<exists>m :: nat mp. mp_concurrentTaskCount m = 2 \<and> ed_accepted (mp_dispatchers m ! 1) = [0] \<and>
     id_of (mp_dispatchers m ! 1) 0 = Some 7 \<and> unat ((7 :: size_t) mod 2) = 1"
proof -
  let ?m0 = "mp_new 5 2 :: nat mp"
  let ?u = "UnitTask_id (3 :: nat) 7"
  let ?m1 = "mp_goto 1 (ME_Start (Some ?u)) ?m0"
  have D: "mp_dispatchers ?m0 = [ed_new 5, ed_new 6]" by (simp add: mp_new_def upt_rec)
  have "mp_start_call 1 (MPEnqueue (Some ?u)) ?m0 = Some ?m1"
    by (rule start_enqueue) (auto simp: mp_new_def ed_new_def)
  then have r1: "mp_reach (Some ucast) 5 2 ?m1" by (rule mp_reach.step [OF mp_reach.init mp_step.Start])
  let ?m2 = "mp_goto 1 (ME_Enqueue ?u 1) ?m1"
  have "mp_call_step (Some ucast) 1 ?m1 = Some (Inr ?m2)"
    by (simp add: mp_call_step_def mp_enqueue_step_def mp_goto_def hash_destination_def mp_new_def)
  then have r2: "mp_reach (Some ucast) 5 2 ?m2" by (rule mp_reach.step [OF r1 mp_step.Call])
  obtain s where s: "start_call 1 (Enqueue (Some ?u)) (ed_new 6) = Some s" by (simp add: start_call_def ed_new_def)
  let ?m3 = "mp_goto 1 (ME_Inside 1) (on_dispatcher 1 s ?m2)"
  have "mp_call_step (Some ucast) 1 ?m2 = Some (Inr ?m3)"
    using s by (simp add: mp_call_step_def mp_enqueue_step_def mp_enter_def mp_goto_def D) (simp add: mp_new_def)
  then have r3: "mp_reach (Some ucast) 5 2 ?m3" by (rule mp_reach.step [OF r2 mp_step.Call])
  have D3: "mp_dispatchers ?m3 = [ed_new 5, s]" by (simp add: mp_goto_def on_dispatcher_def Let_def D)
  obtain s' sb sc where s': "call_step 1 s = Some (Inr s')" "call_step 1 s' = Some (Inr sb)" "call_step 1 sb = Some (Inr sc)"
      "ed_accepted sc = [0]" "ed_tasks sc 0 = Some ?u"
    using s by (auto simp: start_call_def ed_new_def call_step_def enqueue_step_def step_defs)
  have D3': "mp_deleted ?m3 = {}" by (simp add: mp_goto_def) (simp add: mp_new_def)
  have inner: "mp_reach (Some ucast) 5 2 (on_dispatcher 1 b m)"
    if "mp_reach (Some ucast) 5 2 m" "mp_dispatchers m = [ed_new 5, a]" "mp_deleted m = {}" "call_step 1 a = Some (Inr b)" for m :: "nat mp" and a b
    using mp_step.Inner [of 1 m 1 "Inr b"] that mp_reach.step [OF that(1)] by (simp add: lift_dispatcher_def)
  let ?m6 = "on_dispatcher 1 sc (on_dispatcher 1 sb (on_dispatcher 1 s' ?m3))"
  have r6: "mp_reach (Some ucast) 5 2 ?m6"
    by (rule inner [OF inner [OF inner [OF r3 D3 D3' s'(1)] _ _ s'(2)] _ _ s'(3)]) (use D3' in \<open>simp_all add: mp_goto_def D\<close>)
  have D6: "mp_dispatchers ?m6 = [ed_new 5, sc]" by (simp add: mp_goto_def D)
  have "1 = unat ((ucast (ucast (7 :: size_t) :: c_int) :: size_t) mod 2)"
    using mp_group_never_concurrent [OF r6, of 1 1 0 0] s' D6 by (simp add: id_of_def)
  then show ?thesis using s' D6 mp_count [OF r6] by (intro exI [of _ ?m6]) (simp add: id_of_def)
qed

section \<open>The dispatcher interface\<close>

definition mp_id_of :: "'a mp \<Rightarrow> nat \<times> addr \<Rightarrow> task_group_id option" where
  "mp_id_of m x = id_of (mp_dispatchers m ! fst x) (snd x)"

definition mp_accepted_of :: "'a mp \<Rightarrow> task_group_id \<Rightarrow> (nat \<times> addr) list" where
  "mp_accepted_of m i = filter (\<lambda>x. mp_id_of m x = Some i) (mp_accepted m)"

definition mp_ran_of :: "'a mp \<Rightarrow> task_group_id \<Rightarrow> (nat \<times> addr) list" where
  "mp_ran_of m i = filter (\<lambda>x. mp_id_of m x = Some i) (mp_ran m)"

lemma filter_one_part:
  "\<forall>x \<in> set h. P x \<longrightarrow> fst x = d \<Longrightarrow> filter P h = map (Pair d) (filter (\<lambda>p. P (d, p)) (part_of d h))"
  by (induction h) (auto simp: part_of_def)

lemma part_of_mem: "x \<in> set h \<Longrightarrow> snd x \<in> set (part_of (fst x) h)"
  by (force simp: part_of_def)

text \<open>The whole history of a group is the history of one dispatcher.\<close>

lemma group_one_dispatcher:
  assumes "mp_reach cfg t0 n m"
  shows "\<exists>d. mp_accepted_of m i = map (Pair d) (filter (\<lambda>p. mp_id_of m (d, p) = Some i) (part_of d (mp_accepted m))) \<and>
    mp_ran_of m i = map (Pair d) (filter (\<lambda>p. mp_id_of m (d, p) = Some i) (part_of d (mp_ran m)))"
proof -
  note C = mp_count [OF assms] and H = mp_history [OF assms]
  let ?d = "unat (the (routed cfg m i))"
  have one: "fst x = ?d" if x: "x \<in> set (mp_accepted m) \<union> set (mp_ran m)" "mp_id_of m x = Some i" for x
  proof -
    let ?s = "mp_dispatchers m ! fst x"
    have l: "fst x < length (mp_dispatchers m)" using H x(1) by blast
    have "subseq (ed_ran ?s) (ed_accepted ?s)" by (rule ed_ran_subseq [OF ed_inv_reach [OF mp_dispatcher_reach [OF assms l]]])
    then have "snd x \<in> set (ed_accepted ?s)"
      using x(1) H l part_of_mem [of x "mp_accepted m"] part_of_mem [of x "mp_ran m"]
      by (metis Un_iff subseq_set)
    then have "routed cfg m i = Some (of_nat (fst x))"
      using accepted_task [OF assms l, of "snd x"] x(2) by (auto simp: mp_id_of_def id_of_def)
    then show ?thesis
      using l C unsigned_less [of n, where 'a = nat] by (simp add: unat_of_nat take_bit_nat_eq_self)
  qed
  show ?thesis
    unfolding mp_accepted_of_def mp_ran_of_def using one by (intro exI [of _ ?d] conjI filter_one_part) blast+
qed

lemma mp_part_ran:
  assumes "mp_reach cfg t0 n m"
  shows "subseq (part_of d (mp_ran m)) (part_of d (mp_accepted m)) \<and> distinct (part_of d (mp_accepted m))"
proof (cases "d < length (mp_dispatchers m)")
  case True
  note I = ed_inv_reach [OF mp_dispatcher_reach [OF assms True]]
  show ?thesis using mp_history [OF assms] True ed_ran_subseq [OF I] accepted_distinct [OF I] by simp
next
  case False
  have "part_of d (mp_ran m) = []" "part_of d (mp_accepted m) = []"
    using mp_history [OF assms] False by (auto simp: part_of_def filter_empty_conv)
  then show ?thesis by simp
qed

lemma subseq_Pair: "subseq xs ys \<Longrightarrow> subseq (map (Pair d) xs) (map (Pair d) ys)"
  by (rule subseq_map)

interpretation mp: dispatcher_interface "mp_reach cfg t0 n" mp_accepted_of mp_ran_of for cfg t0 n
proof unfold_locales
  fix m :: "'a mp" and i assume r: "mp_reach cfg t0 n m"
  obtain d where d: "mp_accepted_of m i = map (Pair d) (filter (\<lambda>p. mp_id_of m (d, p) = Some i) (part_of d (mp_accepted m)))"
      "mp_ran_of m i = map (Pair d) (filter (\<lambda>p. mp_id_of m (d, p) = Some i) (part_of d (mp_ran m)))"
    using group_one_dispatcher [OF r] by blast
  show "subseq (mp_ran_of m i) (mp_accepted_of m i)"
    unfolding d using mp_part_ran [OF r] by (intro subseq_Pair) simp
  show "distinct (mp_accepted_of m i)"
    unfolding d using mp_part_ran [OF r] by (simp add: distinct_map inj_on_def)
qed

end
