(* ===== verification/Dispatcher.thy ===== *)
theory Dispatcher
  imports MPEventProps
begin

text \<open>
  \<open>Dispatcher\<close> of \<open>lib/inc/dispatcher.h\<close> and \<open>lib/dispatcher.cc\<close>: the singleton that the rest of
  the system uses. It owns one \<open>EventDispatcherInterface\<close>, either kind, and offers of it only
  \<open>enqueue\<close> and \<open>getSize\<close>; it has no \<open>stop\<close> and is never destroyed.
\<close>

section \<open>State and operations\<close>

datatype 'a event_dispatcher = Single "'a ed" | Multi "'a mp"

text \<open>\<open>instance_\<close>; a second \<open>init\<close> overwrites it and loses the first object, whose loops go on.\<close>

record 'a dispatcher_static =
  ds_instance :: "'a event_dispatcher option"
  ds_lost :: "'a event_dispatcher list"

text \<open>The constructor; \<open>t0\<close> is the first of the new threads.\<close>

definition Dispatcher_new :: "tid \<Rightarrow> size_t \<Rightarrow> bool \<Rightarrow> 'a event_dispatcher" where
  "Dispatcher_new t0 concurrentDispatchers multiprocessorMode =
     (if multiprocessorMode then Multi (mp_new t0 concurrentDispatchers) else Single (ed_new t0))"

definition Dispatcher_init :: "tid \<Rightarrow> size_t \<Rightarrow> bool \<Rightarrow> 'a dispatcher_static \<Rightarrow> 'a dispatcher_static" where
  "Dispatcher_init t0 n mode S =
     S\<lparr>ds_instance := Some (Dispatcher_new t0 n mode),
       ds_lost := (case ds_instance S of None \<Rightarrow> ds_lost S | Some D \<Rightarrow> D # ds_lost S)\<rparr>"

definition Dispatcher_init0 :: "tid \<Rightarrow> 'a dispatcher_static \<Rightarrow> 'a dispatcher_static" where
  "Dispatcher_init0 t0 S = Dispatcher_init t0 1 False S"

definition Dispatcher_instance :: "'a dispatcher_static \<Rightarrow> 'a event_dispatcher option" where
  "Dispatcher_instance S = ds_instance S"

text \<open>The virtual calls; \<open>None\<close> when thread \<open>t\<close> cannot call now.\<close>

definition dispatch_enqueue :: "tid \<Rightarrow> 'a unit_task option \<Rightarrow> 'a event_dispatcher \<Rightarrow> 'a event_dispatcher option" where
  "dispatch_enqueue t newTask D =
     (case D of
        Single s \<Rightarrow> map_option Single (start_call t (Enqueue newTask) s)
      | Multi m \<Rightarrow> map_option Multi (mp_start_call t (MPEnqueue newTask) m))"

definition dispatch_getSize :: "tid \<Rightarrow> task_group_id \<Rightarrow> 'a event_dispatcher \<Rightarrow> 'a event_dispatcher option" where
  "dispatch_getSize t i D =
     (case D of
        Single s \<Rightarrow> map_option Single (start_call t Pending s)
      | Multi m \<Rightarrow> map_option Multi (mp_start_call t (MPGetSize i) m))"

text \<open>\<open>Dispatcher::instance()->enqueue(task)\<close>: before \<open>init\<close> the object pointer is null.\<close>

definition Dispatcher_enqueue :: "tid \<Rightarrow> 'a unit_task option \<Rightarrow> 'a dispatcher_static \<Rightarrow> (fault + 'a dispatcher_static) option" where
  "Dispatcher_enqueue t newTask S =
     (case Dispatcher_instance S of
        None \<Rightarrow> Some (Inl NullDeref)
      | Some D \<Rightarrow> map_option (\<lambda>D'. Inr (S\<lparr>ds_instance := Some D'\<rparr>)) (dispatch_enqueue t newTask D))"

definition Dispatcher_getSize :: "tid \<Rightarrow> task_group_id \<Rightarrow> 'a dispatcher_static \<Rightarrow> (fault + 'a dispatcher_static) option" where
  "Dispatcher_getSize t i S =
     (case Dispatcher_instance S of
        None \<Rightarrow> Some (Inl NullDeref)
      | Some D \<Rightarrow> map_option (\<lambda>D'. Inr (S\<lparr>ds_instance := Some D'\<rparr>)) (dispatch_getSize t i D))"

section \<open>Runs\<close>

text \<open>Clients call \<open>enqueue\<close> and \<open>getSize\<close>; calls and loops in progress go on by themselves.\<close>

inductive disp_step :: "hasher option \<Rightarrow> 'a event_dispatcher \<Rightarrow> 'a event_dispatcher \<Rightarrow> bool" for cfg where
  enqueue: "dispatch_enqueue t newTask D = Some D' \<Longrightarrow> disp_step cfg D D'"
| getSize: "dispatch_getSize t i D = Some D' \<Longrightarrow> disp_step cfg D D'"
| single_call: "call_step t s = Some (Inr s') \<Longrightarrow> disp_step cfg (Single s) (Single s')"
| single_loop: "loop_step s = Some (Inr s') \<Longrightarrow> disp_step cfg (Single s) (Single s')"
| multi_call: "mp_call_step cfg t m = Some (Inr m') \<Longrightarrow> disp_step cfg (Multi m) (Multi m')"
| multi_inner: "d < length (mp_dispatchers m) \<Longrightarrow> call_step t (mp_dispatchers m ! d) = Some (Inr s') \<Longrightarrow>
    d \<notin> mp_deleted m \<Longrightarrow> disp_step cfg (Multi m) (Multi (on_dispatcher d s' m))"
| multi_loop: "d < length (mp_dispatchers m) \<Longrightarrow> loop_step (mp_dispatchers m ! d) = Some (Inr s') \<Longrightarrow>
    loop_free m (mp_dispatchers m ! d) \<Longrightarrow> disp_step cfg (Multi m) (Multi (on_dispatcher d s' m))"

inductive disp_reach :: "hasher option \<Rightarrow> tid \<Rightarrow> size_t \<Rightarrow> bool \<Rightarrow> 'a event_dispatcher \<Rightarrow> bool" for cfg t0 n mode where
  init: "disp_reach cfg t0 n mode (Dispatcher_new t0 n mode)"
| step: "disp_reach cfg t0 n mode D \<Longrightarrow> disp_step cfg D D' \<Longrightarrow> disp_reach cfg t0 n mode D'"

definition behind :: "'a event_dispatcher \<Rightarrow> 'a ed list" where
  "behind D = (case D of Single s \<Rightarrow> [s] | Multi m \<Rightarrow> mp_dispatchers m)"

definition proper :: "hasher option \<Rightarrow> tid \<Rightarrow> size_t \<Rightarrow> 'a event_dispatcher \<Rightarrow> bool" where
  "proper cfg t0 n D \<longleftrightarrow> (case D of Single s \<Rightarrow> ed_reach t0 s | Multi m \<Rightarrow> mp_reach cfg t0 n m)"

lemma mp_start_reach: "mp_reach cfg t0 n m \<Longrightarrow> mp_start_call t c m = Some m' \<Longrightarrow> mp_reach cfg t0 n m'"
  by (rule mp_reach.step [OF _ mp_step.Start])

lemma proper_step: "disp_step cfg D D' \<Longrightarrow> proper cfg t0 n D \<Longrightarrow> proper cfg t0 n D'"
proof (induction rule: disp_step.induct)
  case (enqueue t newTask D D')
  then show ?case
    by (cases D) (auto simp: dispatch_enqueue_def proper_def intro: start_reach mp_start_reach)
next
  case (getSize t i D D')
  then show ?case
    by (cases D) (auto simp: dispatch_getSize_def proper_def intro: start_reach mp_start_reach)
next
  case (single_call t s s')
  then show ?case by (auto simp: proper_def intro: ed_reach.step ed_step.Call)
next
  case (single_loop s s')
  then show ?case by (auto simp: proper_def intro: ed_reach.step ed_step.Loop)
next
  case (multi_call t m m')
  then show ?case by (auto simp: proper_def intro: mp_reach.step mp_step.Call)
next
  case (multi_inner d m t s')
  then show ?case using mp_step.Inner [OF multi_inner.hyps, of cfg]
    by (auto simp: proper_def lift_dispatcher_def intro: mp_reach.step)
next
  case (multi_loop d m s')
  then show ?case using mp_step.Loop [OF multi_loop.hyps, of cfg]
    by (auto simp: proper_def lift_dispatcher_def intro: mp_reach.step)
qed

lemma disp_proper: "disp_reach cfg t0 n mode D \<Longrightarrow> proper cfg t0 n D"
proof (induction rule: disp_reach.induct)
  case init
  show ?case by (simp add: Dispatcher_new_def proper_def ed_reach.init mp_reach.init)
next
  case (step D D')
  then show ?case using proper_step by blast
qed

section \<open>The interface\<close>

definition disp_accepted_of :: "'a event_dispatcher \<Rightarrow> task_group_id \<Rightarrow> (nat \<times> addr) list" where
  "disp_accepted_of D i = (case D of Single s \<Rightarrow> map (Pair 0) (ed_accepted_of s i) | Multi m \<Rightarrow> mp_accepted_of m i)"

definition disp_ran_of :: "'a event_dispatcher \<Rightarrow> task_group_id \<Rightarrow> (nat \<times> addr) list" where
  "disp_ran_of D i = (case D of Single s \<Rightarrow> map (Pair 0) (ed_ran_of s i) | Multi m \<Rightarrow> mp_ran_of m i)"

interpretation disp: dispatcher_interface "disp_reach cfg t0 n mode" disp_accepted_of disp_ran_of for cfg t0 n mode
proof unfold_locales
  fix D :: "'a event_dispatcher" and i assume r: "disp_reach cfg t0 n mode D"
  note P = disp_proper [OF r, unfolded proper_def]
  show "subseq (disp_ran_of D i) (disp_accepted_of D i)"
    using P ed.ran_subseq mp.ran_subseq
    by (cases D) (auto simp: disp_ran_of_def disp_accepted_of_def intro!: subseq_Pair)
  show "distinct (disp_accepted_of D i)"
    using P ed.accepted_once mp.accepted_once
    by (cases D) (auto simp: disp_accepted_of_def distinct_map inj_on_def)
qed

text \<open>
  C21: Whichever dispatcher is behind the singleton, and whatever threads call it: if a task was
  accepted before another one of the same group and both have started, the first started first,
  and neither started twice.
\<close>

theorem group_runs_in_order:
  assumes "disp_reach cfg t0 n mode D"
    and "disp_accepted_of D i = as @ x # bs" and "y \<in> set bs"
    and "x \<in> set (disp_ran_of D i)" and "y \<in> set (disp_ran_of D i)"
  shows "\<exists>us vs ws. disp_ran_of D i = us @ x # vs @ y # ws \<and> x \<notin> set (us @ vs @ y # ws) \<and> y \<notin> set (us @ x # vs @ ws)"
proof -
  obtain us vs ws where r: "disp_ran_of D i = us @ x # vs @ y # ws" using disp.group_order [OF assms] by blast
  moreover have "distinct (us @ x # vs @ y # ws)" using disp.ran_once [OF assms(1), of i] r by simp
  ultimately show ?thesis by (intro exI [of _ us] exI [of _ vs] exI [of _ ws]) auto
qed

text \<open>Runs of the singleton's only dispatcher, for the instances.\<close>

lemma disp_call_run:
  "disp_reach cfg t0 n mode (Single s) \<Longrightarrow> call_run t k s = Some (Inr s') \<Longrightarrow>
     disp_reach cfg t0 n mode (Single s') \<and> ed_tasks s' = ed_tasks s"
proof (induction k arbitrary: s)
  case (Suc k)
  obtain s1 where s1: "call_step t s = Some (Inr s1)" "call_run t k s1 = Some (Inr s')"
    using Suc.prems(2) by (auto split: option.splits sum.splits)
  show ?case using Suc.IH [OF disp_reach.step [OF Suc.prems(1) disp_step.single_call [OF s1(1)]] s1(2)] call_step_past(2) [OF s1(1)] by simp
qed (simp add: ok_step_def)

lemma disp_loop_run:
  "disp_reach cfg t0 n mode (Single s) \<Longrightarrow> loop_run k s = Some (Inr s') \<Longrightarrow>
     disp_reach cfg t0 n mode (Single s') \<and> ed_tasks s' = ed_tasks s \<and> ed_accepted s' = ed_accepted s"
proof (induction k arbitrary: s)
  case (Suc k)
  obtain s1 where s1: "loop_step s = Some (Inr s1)" "loop_run k s1 = Some (Inr s')"
    using Suc.prems(2) by (auto split: option.splits sum.splits)
  show ?case using Suc.IH [OF disp_reach.step [OF Suc.prems(1) disp_step.single_loop [OF s1(1)]] s1(2)]
      loop_step_past(1) [OF s1(1)] loop_step_accepted [OF s1(1)] by simp
qed (simp add: ok_step_def)

lemma disp_start:
  "disp_reach cfg t0 n mode (Single s) \<Longrightarrow> start_call t (Enqueue u) s = Some s' \<Longrightarrow> disp_reach cfg t0 n mode (Single s')"
  using disp_reach.step [OF _ disp_step.enqueue [of t u "Single s" "Single s'"]] by (simp add: dispatch_enqueue_def)

theorem group_runs_in_order_witness:
  "\<exists>D :: nat event_dispatcher. disp_accepted_of D 0 = [(0, 0), (0, 1)] \<and>
     (\<exists>us vs ws. disp_ran_of D 0 = us @ (0, 0) # vs @ (0, 1) # ws)"
proof -
  let ?n = "ed_new 0 :: nat ed"
  have n: "ed_calls ?n t = Idle" "ed_owner ?n m = None" "\<not> ed_isStopped ?n" "ed_thread ?n = 0" "ed_queue ?n = []"
      "ed_accepted ?n = []" "ed_ran ?n = []" "ed_next ?n = 0" "ed_loop ?n = L_Lock" "\<not> ed_isDying ?n" "ed_tasks ?n = Map.empty"
      "ed_heap ?n = Map.empty" for t m
    by (simp_all add: ed_new_def)
  obtain s1 s2 where 1: "start_call 1 (Enqueue (Some (UnitTask 10))) ?n = Some s1" "call_run 1 8 s1 = Some (Inr s2)"
      "ed_queue s2 = [0]" "ed_accepted s2 = [0]" "ed_next s2 = 1" "ed_calls s2 = ed_calls ?n" "\<forall>m. ed_owner s2 m = None"
      "\<not> ed_isStopped s2" "\<not> ed_isDying s2" "ed_thread s2 = 0" "ed_ran s2 = []" "ed_loop s2 = L_Lock" "ed_heap s2 = [0 \<mapsto> UnitTask 10]"
    using enqueue_alone [of ?n 1 "UnitTask 10"] n by auto
  have t1: "ed_tasks s1 = [0 \<mapsto> UnitTask 10]" using 1(1) n by (auto simp: start_call_def goto_def)
  obtain s3 s4 where 2: "start_call 1 (Enqueue (Some (UnitTask 20))) s2 = Some s3" "call_run 1 8 s3 = Some (Inr s4)"
      "ed_queue s4 = [0, 1]" "ed_accepted s4 = [0, 1]" "ed_calls s4 = ed_calls ?n" "\<forall>m. ed_owner s4 m = None"
      "\<not> ed_isDying s4" "ed_thread s4 = 0" "ed_ran s4 = []" "ed_loop s4 = L_Lock" "{0, 1} \<subseteq> dom (ed_heap s4)"
    using enqueue_alone [of s2 1 "UnitTask 20"] 1 n by auto
  have r0: "disp_reach None 0 1 False (Single ?n)" using disp_reach.init [of None 0 1 False] by (simp add: Dispatcher_new_def)
  have r2: "disp_reach None 0 1 False (Single s2)" "ed_tasks s2 = [0 \<mapsto> UnitTask 10]"
    using disp_call_run [OF disp_start [OF r0 1(1)] 1(2)] t1 by auto
  have t3: "ed_tasks s3 = [0 \<mapsto> UnitTask 10, 1 \<mapsto> UnitTask 20]"
    using 2(1) r2(2) 1(5) by (auto simp: start_call_def goto_def split: if_splits)
  have r4: "disp_reach None 0 1 False (Single s4)" "ed_tasks s4 = [0 \<mapsto> UnitTask 10, 1 \<mapsto> UnitTask 20]"
    using disp_call_run [OF disp_start [OF r2(1) 2(1)] 2(2)] t3 by auto
  obtain k s where s: "loop_run k s4 = Some (Inr s)" "ed_ran s = [0, 1]"
    using loop_drains [of s4] 2 n by auto
  have r: "disp_reach None 0 1 False (Single s)" "ed_tasks s = [0 \<mapsto> UnitTask 10, 1 \<mapsto> UnitTask 20]" "ed_accepted s = [0, 1]"
    using disp_loop_run [OF r4(1) s(1)] r4(2) 2(4) by auto
  have A: "disp_accepted_of (Single s) 0 = [(0, 0), (0, 1)]" "disp_ran_of (Single s) 0 = [(0, 0), (0, 1)]"
    using r s(2) by (simp_all add: disp_accepted_of_def disp_ran_of_def ed_accepted_of_def ed_ran_of_def of_group_def id_of_def DEFAULT_ID_def)
  have "\<exists>us vs ws. disp_ran_of (Single s) 0 = us @ (0, 0) # vs @ (0, 1) # ws \<and> (0, 0) \<notin> set (us @ vs @ (0, 1) # ws) \<and>
      (0, 1) \<notin> set (us @ (0, 0) # vs @ ws)"
    by (rule group_runs_in_order [OF r(1), of 0 "[]" _ "[(0, 1)]"]) (simp_all add: A)
  then show ?thesis using A by blast
qed

section \<open>Nothing is discarded\<close>

fun stopping :: "call_pc \<Rightarrow> bool" where
  "stopping S_Lock = True" | "stopping S_Set = True" | "stopping D_Lock = True" | "stopping D_SetStopped = True"
| "stopping D_SetDying = True" | "stopping (E_Discard p) = True" | "stopping _ = False"

definition calm :: "'a ed \<Rightarrow> bool" where
  "calm s \<longleftrightarrow> \<not> ed_isStopped s \<and> \<not> ed_isDying s \<and> (\<forall>t. \<not> stopping (ed_calls s t))"

lemma calm_start:
  assumes "calm s" "start_call t c s = Some s'" "c \<noteq> Stop" "c \<noteq> Destroy"
  shows "calm s'"
  using assms by (cases c) (auto simp: calm_def start_call_def goto_def split: if_splits option.splits)

lemma calm_call:
  assumes "calm s" "call_step t s = Some (Inr s')"
  shows "calm s'"
proof -
  have q: "\<not> stopping (ed_calls s t)" "\<not> ed_isStopped s" using assms(1) by (auto simp: calm_def)
  have "\<not> stopping (ed_calls s' t) \<and> ed_isStopped s' = ed_isStopped s \<and> ed_isDying s' = ed_isDying s"
    using q assms(2)
    by (cases "ed_calls s t"; simp add: call_defs out_defs split: if_splits option.splits;
        auto simp: goto_def return_def loop_to_def)
  then show ?thesis using assms(1) call_step_calls [OF assms(2)] unfolding calm_def by metis
qed

lemma calm_loop:
  assumes "calm s" "loop_step s = Some (Inr s')"
  shows "calm s'"
  using assms(1) loop_step_flags [OF assms(2)] by (simp add: calm_def)

lemma live_prefix:
  assumes inv: "ed_inv s" and "\<not> ed_isDying s"
  shows "\<exists>rest. ed_accepted s = ed_ran s @ rest \<and> set rest \<subseteq> set (ed_queue s)"
proof -
  note H = ed_invD(7) [OF inv, unfolded hist_inv_def]
  obtain q where q: "ed_queue s = cur_ran (ed_loop s) @ q" using cur_ran_prefix [OF ed_invD(4) [OF inv]] ..
  have "ed_accepted s = (ed_popped s @ cur_ran (ed_loop s)) @ q" using H q by simp
  moreover have "ed_ran s = ed_popped s @ cur_ran (ed_loop s)" using H assms(2) by blast
  ultimately show ?thesis using q by auto
qed

text \<open>No caller of the singleton reaches \<open>stop\<close> or a destructor.\<close>

definition calm_dispatcher :: "'a event_dispatcher \<Rightarrow> bool" where
  "calm_dispatcher D \<longleftrightarrow> (\<forall>s \<in> set (behind D). calm s) \<and>
     (\<forall>m. D = Multi m \<longrightarrow> (\<forall>t d. mp_calls m t \<noteq> MD_Next d \<and> mp_calls m t \<noteq> MD_Inside d))"

lemma calm_new: "calm (ed_new t)"
  by (simp add: calm_def ed_new_def)

lemma calm_update:
  "\<forall>s \<in> set ss. calm s \<Longrightarrow> calm s' \<Longrightarrow> \<forall>s \<in> set (ss[d := s']). calm s"
  using set_update_subset_insert [of ss d s'] by blast

lemma calm_mp_call:
  assumes c: "calm_dispatcher (Multi m)" and s: "mp_call_step cfg t m = Some (Inr m')"
  shows "calm_dispatcher (Multi m')"
proof -
  have pc: "\<not> (\<exists>d. mp_calls m t = MD_Next d \<or> mp_calls m t = MD_Inside d)" using c by (auto simp: calm_dispatcher_def)
  have "\<not> (\<exists>d. mp_calls m' t = MD_Next d \<or> mp_calls m' t = MD_Inside d)" using s pc
    by (cases "mp_calls m t") (auto simp: mp_call_defs mp_enter_def mp_prim_defs Let_def split: if_splits option.splits)
  then have M: "mp_calls m' u \<noteq> MD_Next d \<and> mp_calls m' u \<noteq> MD_Inside d" for u d
    using c call_table(3) [OF s, of u] by (cases "u = t") (auto simp: calm_dispatcher_def)
  have "\<forall>s \<in> set (mp_dispatchers m'). calm s"
    using call_moved [OF s]
  proof
    assume "same_dispatchers m m'"
    then show ?thesis using c by (simp add: same_dispatchers_def calm_dispatcher_def behind_def)
  next
    assume "\<exists>d ca s'. entering_call (mp_calls m t) = Some ca \<and> start_call t ca (mp_dispatchers m ! d) = Some s' \<and> moved d s' m m' \<and>
       (\<forall>ut k. mp_calls m t = ME_Enqueue ut k \<longrightarrow> d = unat k)"
    then obtain d ca s' where e: "entering_call (mp_calls m t) = Some ca" "start_call t ca (mp_dispatchers m ! d) = Some s'"
      "moved d s' m m'" by blast
    have "ca \<noteq> Stop" "ca \<noteq> Destroy" using e(1) pc by (cases "mp_calls m t"; auto)+
    moreover have "calm (mp_dispatchers m ! d)"
      using c e(3) by (auto simp: calm_dispatcher_def behind_def moved_def)
    ultimately have "calm s'" using calm_start [OF _ e(2)] by blast
    moreover have "mp_dispatchers m' = (mp_dispatchers m)[d := s']" using e(3) by (simp add: moved_def same_dispatchers_def)
    moreover have "\<forall>s \<in> set (mp_dispatchers m). calm s" using c by (simp add: calm_dispatcher_def behind_def)
    ultimately show ?thesis using calm_update [of "mp_dispatchers m" s' d] by simp
  qed
  then show ?thesis using M by (simp add: calm_dispatcher_def behind_def)
qed

lemma calm_on: "calm_dispatcher (Multi m) \<Longrightarrow> calm s' \<Longrightarrow> calm_dispatcher (Multi (on_dispatcher d s' m))"
  using calm_update [of "mp_dispatchers m" s' d] by (simp add: calm_dispatcher_def behind_def)

lemma calm_mp_start:
  "calm_dispatcher (Multi m) \<Longrightarrow> mp_start_call t c m = Some m' \<Longrightarrow> c = MPEnqueue u \<or> c = MPGetSize i \<Longrightarrow> calm_dispatcher (Multi m')"
  by (auto simp: mp_start_call_def calm_dispatcher_def behind_def mp_goto_def split: if_splits)

lemma calm_disp_step: "disp_step cfg D D' \<Longrightarrow> calm_dispatcher D \<Longrightarrow> calm_dispatcher D'"
proof (induction rule: disp_step.induct)
  case (enqueue t newTask D D')
  then show ?case
  proof (cases D)
    case (Single s)
    then obtain s' where "start_call t (Enqueue newTask) s = Some s'" "D' = Single s'"
      using enqueue by (auto simp: dispatch_enqueue_def)
    then show ?thesis using enqueue Single calm_start [of s t "Enqueue newTask" s']
      by (simp add: calm_dispatcher_def behind_def)
  next
    case (Multi m)
    then obtain m' where "mp_start_call t (MPEnqueue newTask) m = Some m'" "D' = Multi m'"
      using enqueue by (auto simp: dispatch_enqueue_def)
    then show ?thesis using enqueue Multi calm_mp_start by blast
  qed
next
  case (getSize t i D D')
  then show ?case
  proof (cases D)
    case (Single s)
    then obtain s' where "start_call t Pending s = Some s'" "D' = Single s'"
      using getSize by (auto simp: dispatch_getSize_def)
    then show ?thesis using getSize Single calm_start [of s t Pending s']
      by (simp add: calm_dispatcher_def behind_def)
  next
    case (Multi m)
    then obtain m' where "mp_start_call t (MPGetSize i) m = Some m'" "D' = Multi m'"
      using getSize by (auto simp: dispatch_getSize_def)
    then show ?thesis using getSize Multi calm_mp_start by blast
  qed
next
  case (single_call t s s')
  then show ?case using calm_call by (auto simp: calm_dispatcher_def behind_def)
next
  case (single_loop s s')
  then show ?case using calm_loop by (auto simp: calm_dispatcher_def behind_def)
next
  case (multi_call t m m')
  then show ?case using calm_mp_call by blast
next
  case (multi_inner d m t s')
  have "calm (mp_dispatchers m ! d)" using multi_inner by (auto simp: calm_dispatcher_def behind_def)
  then show ?case using calm_on [OF multi_inner.prems calm_call [OF _ multi_inner.hyps(2)]] by blast
next
  case (multi_loop d m s')
  have "calm (mp_dispatchers m ! d)" using multi_loop by (auto simp: calm_dispatcher_def behind_def)
  then show ?case using calm_on [OF multi_loop.prems calm_loop [OF _ multi_loop.hyps(2)]] by blast
qed

lemma disp_calm: "disp_reach cfg t0 n mode D \<Longrightarrow> calm_dispatcher D"
proof (induction rule: disp_reach.induct)
  case init
  show ?case by (auto simp: Dispatcher_new_def calm_dispatcher_def behind_def mp_new_def calm_new)
next
  case (step D D')
  then show ?case using calm_disp_step by blast
qed

lemma behind_inv: "proper cfg t0 n D \<Longrightarrow> s \<in> set (behind D) \<Longrightarrow> ed_inv s"
proof (cases D)
  case (Single s')
  assume "proper cfg t0 n D" "s \<in> set (behind D)"
  then show ?thesis using Single ed_inv_reach by (auto simp: proper_def behind_def)
next
  case (Multi m)
  assume p: "proper cfg t0 n D" and s: "s \<in> set (behind D)"
  then obtain d where "d < length (mp_dispatchers m)" "s = mp_dispatchers m ! d"
    using Multi by (auto simp: behind_def in_set_conv_nth)
  then show ?thesis using p Multi ed_inv_reach [OF mp_dispatcher_reach] by (auto simp: proper_def)
qed

text \<open>
  Through the singleton no task is ever lost: no dispatcher behind it is ever stopped, no
  call is ever about to discard its task, and each accepted task has either been started, in
  order, or is still in the queue. (A stopped \<open>EventDispatcher\<close> deletes new tasks and reports success.)
\<close>

theorem singleton_discards_nothing:
  assumes "disp_reach cfg t0 n mode D" and "s \<in> set (behind D)"
  shows "\<not> ed_isStopped s \<and> \<not> ed_isDying s \<and> (\<forall>t p. ed_calls s t \<noteq> E_Discard p) \<and>
    (\<exists>rest. ed_accepted s = ed_ran s @ rest \<and> set rest \<subseteq> set (ed_queue s))"
proof -
  have c: "calm s" using disp_calm [OF assms(1)] assms(2) by (simp add: calm_dispatcher_def)
  then have "ed_calls s t \<noteq> E_Discard p" for t p unfolding calm_def by (metis stopping.simps(6))
  then show ?thesis
    using c live_prefix [OF behind_inv [OF disp_proper [OF assms(1)] assms(2)]] by (auto simp: calm_def)
qed

theorem singleton_discards_nothing_witness:
  "\<exists>D :: nat event_dispatcher. length (behind D) = 2 \<and> (\<forall>s \<in> set (behind D). \<not> ed_isStopped s)"
  using singleton_discards_nothing [OF disp_reach.init [of None 0 2 True]]
  by (intro exI [of _ "Dispatcher_new 0 2 True"]) (auto simp: Dispatcher_new_def behind_def mp_new_def)

text \<open>
  \<open>Dispatcher::instance()\<close> before \<open>init\<close> is a null pointer, and using it faults; after any
  \<open>init\<close> a thread that is in no call can enqueue; a second \<open>init\<close> leaves the first object
  running with its tasks, out of reach.
\<close>

theorem singleton_needs_init:
  "Dispatcher_enqueue t u \<lparr>ds_instance = None, ds_lost = []\<rparr> = Some (Inl NullDeref) \<and>
   Dispatcher_getSize t i \<lparr>ds_instance = None, ds_lost = []\<rparr> = Some (Inl NullDeref) \<and>
   (\<exists>S'. Dispatcher_enqueue t u (Dispatcher_init (Suc t) n mode S) = Some (Inr S')) \<and>
   ds_lost (Dispatcher_init t0 n mode (Dispatcher_init t1 n' mode' S)) =
     Dispatcher_new t1 n' mode' # ds_lost (Dispatcher_init t1 n' mode' S)"
  by (auto simp: Dispatcher_enqueue_def Dispatcher_getSize_def Dispatcher_instance_def Dispatcher_init_def
      Dispatcher_new_def dispatch_enqueue_def start_call_def mp_start_call_def ed_new_def mp_new_def split: option.splits)

end
