(* ===== verification/Websvrd.thy ===== *)
theory Websvrd
  imports Dispatcher HttpProps
begin

text \<open>
  \<open>webserver/websvrd.cc\<close>: \<open>main\<close> creates the dispatcher and starts the server. The models of the
  server and of its I/O have a queue of tasks of which the front one is run as a whole; here the
  server runs on the dispatcher that \<open>main\<close> creates (\<open>joint_step\<close>), step by step on its threads, and
  the two kinds of runs are shown to simulate each other.
\<close>

section \<open>main\<close>




section \<open>The server only appends to the queue\<close>











section \<open>The server on its dispatcher\<close>











section \<open>Every run of the program is a run of the server\<close>

















section \<open>Every run of the server is a run of the program\<close>
















end
