(* ===== verification/Spec2Isabelle.thy ===== *)
theory Spec2Isabelle
  imports CacheProps CopyFile DelayedTask HttpRun Locks Threads Websvrd
begin

text \<open>
  libeventdisp is a C++ library that runs tasks on the threads of an event dispatcher, together with
  a wrapper that turns asynchronous file I/O into tasks, and a web server, \<open>websvrd\<close>, that is built
  on both and on a reference-counting cache. This development models the library, the server and
  the sample program, function by function, and proves what makes them correct; where the code
  breaks its own comments or aborts, that is proved as well.

  \<^bold>\<open>How the parts interact.\<close> A client hands \<open>UnitTask\<close>s, tagged with a group id, to the singleton
  \<open>Dispatcher\<close>, which owns one \<open>EventDispatcher\<close> or an \<open>MPEventDispatcher\<close> over several of them; each
  \<open>EventDispatcher\<close> has a thread that takes tasks from its queue, runs and deletes them.
  \<open>aio_read\<close> and \<open>aio_write\<close> submit an operation to the kernel and enqueue a task that polls it and
  at the end enqueues the client's callback. \<open>main\<close> of the server creates the dispatcher and then
  accepts connections for ever; everything else is a handler that runs as a task: it reads a
  request, parses it into a chain of packages, makes or finds the header in the cache, writes it,
  and sends the file in blocks which also go through the cache. The cache reserves a key for the
  handler that loads it, keeps the callbacks of those that wait, and evicts what nobody refers to
  through a \<open>FastFIFO\<close>.

  \<^bold>\<open>Conventions\<close> (\<open>Prelude\<close>). An operation of the code is a function to a sum: \<open>Inl\<close> a fault (a failed
  \<open>assert\<close>, a dangling or null pointer in use, a double free, a loop that does not return), \<open>Inr\<close> the
  results and the new state. Objects whose addresses matter live in maps from addresses; \<open>int\<close>,
  \<open>size_t\<close>, \<open>off_t\<close> and \<open>ssize_t\<close> are words of their width. What runs on several threads is a step
  function with a program counter per thread, one step per lock, unlock, wait, signal and access of
  shared state; \<open>None\<close> is a step that is blocked. What the code asks of the operating system or of
  another library is a record of answers that the step gets as an argument: \<open>aio_sys\<close>, \<open>srv_sys\<close>,
  \<open>copy_sys\<close>, and the arguments \<open>combine\<close> (\<open>boost::hash_combine\<close>), \<open>hasher\<close> (\<open>std::tr1::hash\<close>)
  and \<open>call\<close> (a callback of the cache's client). Any answer is allowed unless a theorem says which.
\<close>

section \<open>Theories and sources\<close>

text \<open>
  \<^bold>\<open>Containers\<close> (\<open>webserver/fast_fifo.h\<close>, \<open>cache.h\<close>, \<open>cache.cc\<close>).
  \<^item> \<open>FastFifo\<close>: \<open>FastFIFO\<close> as a heap of nodes with \<open>before\<close> and \<open>next\<close> and a sentinel. \<open>ff_rep\<close> relates it
    to a list, and the locale \<open>fifo_list\<close>, interpreted on it, is what its clients use.
  \<^item> \<open>CacheKey\<close>: the hash of a key, equality of keys, the copy of a key with its write past the block.
  \<^item> \<open>CacheStore\<close>: \<open>Cache\<close> and \<open>CacheEntry\<close>, every operation and the destructor. \<open>CacheInv\<close> and
    \<open>CacheOps\<close>: the invariant \<open>cache_ok\<close>, kept by every operation, and the effect of each.
    \<open>CacheSpec\<close>: an abstract cache without addresses and the simulation by the detailed one; its
    log lists the memory errors that the code makes (a write past each key copy, a use of each
    evicted entry). \<open>bufs_ok\<close> is the ownership of buffers: none is in two entries or freed twice.
    \<open>CacheProps\<close>: the refinement for whole runs of a client that follows the protocol, safety of
    buffers in use, eviction, waiting callbacks, the destructor, and the departures from the comments.

  \<^bold>\<open>Dispatchers\<close> (\<open>lib/unit_task.cc\<close>, \<open>event_dispatcher.cc\<close>, \<open>mp_event_dispatcher.cc\<close>, \<open>dispatcher.cc\<close>).
  \<^item> \<open>UnitTask\<close>: the task object.
  \<^item> \<open>EventDisp\<close>: \<open>loop_step\<close> is \<open>eventLoop\<close>; \<open>enqueue_step\<close>, \<open>stop_step\<close>, \<open>resume_step\<close>, \<open>busy_step\<close>,
    \<open>pending_step\<close> and \<open>dtor_step\<close> are the member functions. \<open>EventInv\<close> proves nine invariants by
    steps (owners of mutexes and of tasks, counters, flags, history, wakeups); \<open>EventProps\<close> derives
    absence of faults, order, exact counters, lock order, absence of deadlock and of lost wakeups,
    progress of the loop and the end of the destructor.
  \<^item> \<open>DispatcherInterface\<close>: the locale \<open>dispatcher_interface\<close>, what a client of
    \<open>EventDispatcherInterface\<close> relies on; interpreted on \<open>EventDisp\<close>, on \<open>MPEventDisp\<close> and on \<open>Dispatcher\<close>.
  \<^item> \<open>MPEventDisp\<close>, \<open>MPEventProps\<close>: both builds of \<open>MPEventDispatcher\<close>; an id is bound to one loop for
    good. Its destructor deletes the dispatchers one by one (\<open>mp_deleted\<close>), and whoever uses a deleted
    one faults; that tasks of later loops can do so is proved.
  \<^item> \<open>Dispatcher\<close>: the singleton; through it no task is ever discarded.

  \<^bold>\<open>Threads, locks, timers\<close> (\<open>lib/thread.cc\<close>, \<open>lib/inc/lock.h\<close>, \<open>lib/delayed_task.cc\<close>).
  \<^item> \<open>Threads\<close>: \<open>makeThread\<close>; every body runs once and its copy is deleted once.
  \<^item> \<open>Locks\<close>: \<open>Mutex\<close>, \<open>ScopedLock\<close>, \<open>RWMutex\<close>, the absolute time of \<open>timedWait\<close>. The locale \<open>exclusive\<close>
    states mutual exclusion; the wrapper and the mutexes of the dispatcher and the semaphore are
    interpretations of it.
  \<^item> \<open>Semaphore\<close>: \<open>up\<close> and \<open>down\<close> for any number of threads.
  \<^item> \<open>DelayedTask\<close>: the object, its POSIX timer, its owner and the notification threads; a switch for
    \<open>NDEBUG\<close>, which removes the calls that stand inside an \<open>assert\<close>.

  \<^bold>\<open>Asynchronous I/O\<close> (\<open>lib/aio_wrapper.cc\<close>, \<open>sample/copy.cc\<close>).
  \<^item> \<open>AioWrapper\<close>, \<open>AioProps\<close>: submission, poll and both completion handlers, for the polling build and
    for \<open>LIBEVENT_USE_SIG\<close> (runs \<open>aio_reach\<close> and \<open>sig_reach\<close>); ownership of control blocks and
    callbacks, exactly one notification, and what the builds do alike and differently.
  \<^item> \<open>CopyFile\<close>: the sample program from \<open>main\<close> to \<open>exit\<close> as a client of the wrapper. The kernel moves
    at most the bytes that a request asks for, and only inside the buffer.

  \<^bold>\<open>Web server\<close> (\<open>webserver/svr_tcp_ip.cc\<close>, \<open>svr_http.cc\<close>, \<open>websvrd.cc\<close> and their headers).
  \<^item> \<open>HttpParse\<close>: C strings in buffers, the scan of a request, printed requests and keys.
  \<^item> \<open>HttpState\<close>: connections (\<open>Conn\<close>), packages (\<open>HPKG\<close>), character blocks (\<open>charn\<close>), the cache and the
    I/O layer in one state. \<open>HttpServer\<close>: every handler under its name in the code, \<open>run_task\<close> and
    \<open>srv_step\<close> for the thread of the dispatcher, \<open>srv_reach\<close> for all runs.
  \<^item> \<open>HttpInv\<close>: the locales \<open>srv_ops\<close> and \<open>srv_inv\<close>. An invariant that the elementary changes of the
    state keep is kept by every handler, callback and step. \<open>HttpConn\<close> interprets \<open>srv_inv\<close> three
    times: the pool of connections (\<open>pool\<close>), the life of a connection (\<open>later\<close>), the typing of the
    I/O (\<open>io\<close>).
  \<^item> \<open>HttpReply\<close>, \<open>HttpProps\<close>, \<open>HttpPage\<close>, \<open>HttpFile\<close>, \<open>HttpRun\<close>: keys and replies; chains of requests and
    the error paths; the first request for a page; the blocks of a file; and whole runs in which
    the peer gets header and file.
  \<^item> \<open>Websvrd\<close>: \<open>main\<close>, and the composition of the two halves of the program. \<open>joint_step\<close> steps the
    server and the dispatcher of \<open>main\<close> together: the loop runs the task that it fetched from its heap,
    and the tasks that a handler or the accepting thread creates are enqueued by calls on their
    thread. Its runs and those of the server model alone, \<open>srv_run\<close>, whose queue is the list
    \<open>aio_queue\<close>, simulate each other. That handlers only append to the queue is one more
    interpretation of \<open>srv_ops\<close>.
\<close>

section \<open>Bounds, builds and assumptions\<close>

text \<open>
  \<^bold>\<open>Fuel.\<close> Loops over pointers or bytes have fuel, and running out is the fault \<open>NoReturn\<close>; each is shown
  not to: \<open>hash_loop\<close> moves forward and gets the length of the key; \<open>ff_drain\<close>, \<open>cleanup_loop\<close> and
  \<open>destroy_free\<close> take a node per round and get the number of nodes ever made (\<open>cleanup_evicts_prefix\<close>,
  \<open>destroy_frees_all_buffers\<close>); \<open>scan\<close> consumes a byte per round and gets one more than the bytes
  (\<open>scan_stays_inside\<close>); callbacks of the cache nest at most twice, so \<open>run_cb\<close> gets 2 and any more
  is the same (\<open>callbacks_end\<close>). Endless loops of the code are relations: \<open>eventLoop\<close> is a step
  function, the accept loop of \<open>svr_start\<close> a rule of \<open>srv_reach\<close>, \<open>srv_run\<close> and \<open>joint_step\<close>.

  \<^bold>\<open>Builds.\<close> Assertions are on, except where \<open>DelayedTask\<close> says otherwise. The server is the one of
  \<open>svr_common.h\<close>: \<open>DBGL\<close> is 0, so its traces are dead code, and \<open>NDISPATCHER\<close> is 1, so one thread runs
  every handler. The server and the sample use the polling build of the I/O layer; keys are hashed
  without \<open>USE_STRING_HASHING\<close>.

  \<^bold>\<open>Granularity.\<close> In the dispatchers, the semaphore, the delayed task and the threads every access of
  shared state is a step. A handler of the server and one \<open>accept\<close> are a step each: the thread of the
  dispatcher runs handlers one after the other, and shares with the accepting thread only the
  queue and the counter of the pool, which the code locks. In \<open>joint_step\<close> the enqueues that follow
  it are calls with steps of their own.

  \<^bold>\<open>Assumptions of theorems.\<close> The cache's clients follow the protocol \<open>allowed\<close>; the theorems about
  departures show what happens otherwise. Under \<open>allowed\<close> a buffer given to an accepted \<open>put\<close> becomes
  the property of the cache: it was never given to it before. In \<open>HttpFile\<close> and \<open>HttpRun\<close> the client is alone and each
  operation is complete when it is first polled, with any lengths the kernel may return
  (\<open>kernels\<close>, a coinductive condition on the answers along the run); \<open>serve_run\<close> constructs such a
  kernel. Each property with hypotheses has a closed witness theorem beside it.

  \<^bold>\<open>Not modelled.\<close> \<open>print_times\<close> and \<open>convert_tim_sec\<close> of \<open>svr_common.cc\<close>, the debug members of \<open>Conn\<close> and
  the traces: unreachable with \<open>DBGL\<close> 0. \<open>util.h\<close>, \<open>event.h\<close> and \<open>websvrd.h\<close> hold macros, includes and
  prototypes, and a \<open>delete\<close> that is part of the destructors. The buckets of the cache's hash table
  are a list of pairs. The unit tests and benchmarks under \<open>test\<close> are clients outside the program,
  and \<open>test/src\<close> is a copy of the Google Test library. Signals, memory exhaustion and the memory
  model of the processor are left out: every allocation succeeds and threads interleave.
\<close>

end
